(* ===== verification/Prelude.thy ===== *)
theory Prelude
  imports Main "HOL-Library.Word" "HOL-Library.Char_ord" "HOL-Library.List_Lexorder"
begin

unbundle bit_operations_syntax

text \<open>
  Shared vocabulary of the development: bytes, the exit codes of errcode.h, the reader
  type of the wire decoders, C strings and their order, and the generic lemmas on lists and
  bytes that the component theories share.

  File contents and wire data are lists of bytes (\<open>8 word\<close>); path names are
  strings. A call that ends the process through \<open>exit_cleanup(code)\<close> is the value
  \<open>Inl code\<close> of a sum type.
\<close>

named_theorems wire_simps \<open>equations that run the wire encoders and decoders\<close>
named_theorems path_simps \<open>equations that evaluate path construction\<close>

type_synonym byte = "8 word"
type_synonym uint32 = "32 word"
type_synonym uint64 = "64 word"

subsection \<open>Exit codes (errcode.h)\<close>

datatype exit_code =
    RERR_OK | RERR_SYNTAX | RERR_PROTOCOL | RERR_FILESELECT | RERR_UNSUPPORTED
  | RERR_STARTCLIENT | RERR_SOCKETIO | RERR_FILEIO | RERR_STREAMIO | RERR_MESSAGEIO
  | RERR_IPC | RERR_CRASHED | RERR_TERMINATED | RERR_SIGNAL1 | RERR_SIGNAL
  | RERR_WAITCHILD | RERR_MALLOC | RERR_PARTIAL | RERR_VANISHED | RERR_DEL_LIMIT
  | RERR_TIMEOUT | RERR_CONTIMEOUT | RERR_CMD_FAILED | RERR_CMD_KILLED | RERR_CMD_RUN
  | RERR_CMD_NOTFOUND

fun exit_status :: "exit_code \<Rightarrow> nat" where
  "exit_status RERR_OK = 0"
| "exit_status RERR_SYNTAX = 1"
| "exit_status RERR_PROTOCOL = 2"
| "exit_status RERR_FILESELECT = 3"
| "exit_status RERR_UNSUPPORTED = 4"
| "exit_status RERR_STARTCLIENT = 5"
| "exit_status RERR_SOCKETIO = 10"
| "exit_status RERR_FILEIO = 11"
| "exit_status RERR_STREAMIO = 12"
| "exit_status RERR_MESSAGEIO = 13"
| "exit_status RERR_IPC = 14"
| "exit_status RERR_CRASHED = 15"
| "exit_status RERR_TERMINATED = 16"
| "exit_status RERR_SIGNAL1 = 19"
| "exit_status RERR_SIGNAL = 20"
| "exit_status RERR_WAITCHILD = 21"
| "exit_status RERR_MALLOC = 22"
| "exit_status RERR_PARTIAL = 23"
| "exit_status RERR_VANISHED = 24"
| "exit_status RERR_DEL_LIMIT = 25"
| "exit_status RERR_TIMEOUT = 30"
| "exit_status RERR_CONTIMEOUT = 35"
| "exit_status RERR_CMD_FAILED = 124"
| "exit_status RERR_CMD_KILLED = 125"
| "exit_status RERR_CMD_RUN = 126"
| "exit_status RERR_CMD_NOTFOUND = 127"

subsection \<open>Readers\<close>

text \<open>A decoder consumes a prefix of the input bytes or ends the process.\<close>

type_synonym 'a reader = "byte list \<Rightarrow> exit_code + ('a \<times> byte list)"

definition rreturn :: "'a \<Rightarrow> 'a reader" where
  "rreturn x s = Inr (x, s)"

definition rfail :: "exit_code \<Rightarrow> 'a reader" where
  "rfail e s = Inl e"

definition rbind :: "'a reader \<Rightarrow> ('a \<Rightarrow> 'b reader) \<Rightarrow> 'b reader" where
  "rbind m f s = (case m s of Inl e \<Rightarrow> Inl e | Inr (x, s') \<Rightarrow> f x s')"

lemma rreturn_app [simp]: "rreturn x s = Inr (x, s)"
  by (simp add: rreturn_def)

lemma rfail_app [simp]: "rfail e s = Inl e"
  by (simp add: rfail_def)

lemma rbind_Inr: "m s = Inr (x, s') \<Longrightarrow> rbind m f s = f x s'"
  by (simp add: rbind_def)

lemma rbind_Inl: "m s = Inl e \<Longrightarrow> rbind m f s = Inl e"
  by (simp add: rbind_def)

lemma rbind_InrE:
  assumes "rbind m f s = Inr (y, t)"
  obtains x s' where "m s = Inr (x, s')" and "f x s' = Inr (y, t)"
  using assms by (auto simp: rbind_def split: sum.splits prod.splits)

subsection \<open>Strings\<close>

text \<open>
  \<open>strcmp\<close> on strings without NUL is the lexicographic order of the characters as
  unsigned bytes, which is the order of \<open>Char_ord\<close> and \<open>List_Lexorder\<close>.
\<close>

fun strcmp :: "string \<Rightarrow> string \<Rightarrow> int" where
  "strcmp [] [] = 0"
| "strcmp [] (y # ys) = - of_char y"
| "strcmp (x # xs) [] = of_char x"
| "strcmp (x # xs) (y # ys) = (if x = y then strcmp xs ys else of_char x - of_char y)"

definition no_nul :: "string \<Rightarrow> bool" where
  "no_nul s \<longleftrightarrow> CHR 0x00 \<notin> set s"

lemma no_nul_Cons [simp]: "no_nul (c # s) \<longleftrightarrow> c \<noteq> CHR 0x00 \<and> no_nul s"
  by (auto simp: no_nul_def)

lemma no_nul_Nil [simp]: "no_nul []"
  by (simp add: no_nul_def)

lemma no_nul_append [simp]: "no_nul (s @ t) \<longleftrightarrow> no_nul s \<and> no_nul t"
  by (auto simp: no_nul_def)

lemma of_char_pos: "c \<noteq> CHR 0x00 \<Longrightarrow> (0::int) < of_char c"
proof -
  assume c: "c \<noteq> CHR 0x00"
  have "of_char c \<noteq> (0::int)"
  proof
    assume "of_char c = (0::int)"
    then have "of_char c = (of_char (CHR 0x00) :: int)" by simp
    then have "c = CHR 0x00" by (simp only: of_char_eq_iff)
    with c show False by simp
  qed
  moreover have "(0::int) \<le> of_char c"
    by (cases c) (auto simp: of_char_def horner_sum_simps of_bool_def)
  ultimately show ?thesis by linarith
qed

lemma of_char_less_int: "(of_char x :: int) < of_char y \<longleftrightarrow> x < y"
proof -
  have "(of_char x :: int) = int (of_char x)" for x :: char
    by (simp only: of_nat_of_char)
  then show ?thesis by (simp add: less_char_def)
qed

lemma strcmp_less_iff: "no_nul s \<Longrightarrow> no_nul t \<Longrightarrow> strcmp s t < 0 \<longleftrightarrow> s < t"
proof (induction s t rule: strcmp.induct)
  case (2 y ys)
  then show ?case using of_char_pos [of y] by simp
next
  case (3 x xs)
  then show ?case using of_char_pos [of x] by simp
next
  case (4 x xs y ys)
  then show ?case using of_char_less_int [of x y] by auto
qed simp

lemma strcmp_eq_iff: "no_nul s \<Longrightarrow> no_nul t \<Longrightarrow> strcmp s t = 0 \<longleftrightarrow> s = t"
proof (induction s t rule: strcmp.induct)
  case (2 y ys)
  then show ?case using of_char_pos [of y] by simp
next
  case (3 x xs)
  then show ?case using of_char_pos [of x] by simp
next
  case (4 x xs y ys)
  then show ?case by auto
qed simp

lemma strcmp_le_iff: "no_nul s \<Longrightarrow> no_nul t \<Longrightarrow> strcmp s t \<le> 0 \<longleftrightarrow> s \<le> t"
  using strcmp_less_iff [of s t] strcmp_eq_iff [of s t]
  by (auto simp: order.order_iff_strict)

lemma strcmp_greater_iff: "no_nul s \<Longrightarrow> no_nul t \<Longrightarrow> strcmp s t > 0 \<longleftrightarrow> t < s"
  using strcmp_le_iff [of s t] by auto

lemma strcmp_ge_iff: "no_nul s \<Longrightarrow> no_nul t \<Longrightarrow> strcmp s t \<ge> 0 \<longleftrightarrow> t \<le> s"
  using strcmp_less_iff [of s t] by auto

subsection \<open>Bytes of text\<close>

definition bytes_of :: "string \<Rightarrow> byte list" where
  "bytes_of s = map of_char s"

lemma bytes_of_Nil [simp]: "bytes_of [] = []"
  by (simp add: bytes_of_def)

lemma bytes_of_Cons [simp]: "bytes_of (c # s) = of_char c # bytes_of s"
  by (simp add: bytes_of_def)

lemma bytes_of_append [simp]: "bytes_of (s @ t) = bytes_of s @ bytes_of t"
  by (simp add: bytes_of_def)

lemma length_bytes_of [simp]: "length (bytes_of s) = length s"
  by (simp add: bytes_of_def)

subsection \<open>Every byte\<close>

text \<open>A statement about all 256 bytes is checked value by value.\<close>

lemma all_bytes: "(\<forall>b::byte. P b) \<longleftrightarrow> list_all (\<lambda>n. P (word_of_nat n)) [0..<256]"
proof
  assume "list_all (\<lambda>n. P (word_of_nat n)) [0..<256]"
  then have *: "\<And>n. n < 256 \<Longrightarrow> P (word_of_nat n)" by (simp add: list_all_iff)
  show "\<forall>b. P b"
  proof
    fix b :: byte
    have "unat b < 2 ^ LENGTH(8)" by (rule unsigned_less)
    then have "unat b < 256" by simp
    from * [OF this] show "P b" by simp
  qed
qed (simp add: list_all_iff)

end
