(* ===== verification/MapFile.thy ===== *)
theory MapFile
  imports Prelude
begin

text \<open>
  The sliding read window of fileio.c: \<open>map_file\<close>, \<open>map_ptr\<close> and
  \<open>unmap_file\<close>. A file is its list of bytes; what the kernel may choose (how many bytes
  a \<open>read\<close> returns, where an \<open>lseek\<close> ends) is the record \<open>os\<close>. The main lemma says
  that the window always shows the bytes of the file at the requested offset, with zeros
  past its end.
\<close>

subsection \<open>The file behind the descriptor\<close>

definition byte_at :: "byte list \<Rightarrow> int \<Rightarrow> byte" where
  "byte_at f i = (if 0 \<le> i \<and> i < int (length f) then f ! nat i else 0)"

definition fslice :: "byte list \<Rightarrow> int \<Rightarrow> int \<Rightarrow> byte list" where
  "fslice f off n = map (\<lambda>k. byte_at f (off + int k)) [0..<nat n]"

definition overwrite :: "'a list \<Rightarrow> nat \<Rightarrow> 'a list \<Rightarrow> 'a list" where
  "overwrite p off b = take off p @ b @ drop (off + length b) p"

text \<open>
  \<open>os_read pos n\<close> is the raw return value of a \<open>read\<close> of \<open>n\<close> bytes at \<open>pos\<close>: negative
  for an error, otherwise how many of the available bytes it hands out, at least one when
  there are any. \<open>os_lseek off\<close> is the return value of \<open>lseek(fd, off, SEEK_SET)\<close>.
\<close>

record os =
  os_read :: "int \<Rightarrow> int \<Rightarrow> int"
  os_lseek :: "int \<Rightarrow> int"
  os_errno :: int

definition os_ok :: "os \<Rightarrow> bool" where
  "os_ok s \<longleftrightarrow> (\<forall>p n. 0 \<le> os_read s p n) \<and> (\<forall>p. os_lseek s p = p)"

definition sys_read :: "os \<Rightarrow> byte list \<Rightarrow> int \<Rightarrow> int \<Rightarrow> int" where
  "sys_read s f pos n =
     (let avail = min n (int (length f) - pos); r = os_read s pos n
      in if r < 0 then - 1 else if avail \<le> 0 then 0 else max 1 (min r avail))"

subsection \<open>The window\<close>

definition ENODATA :: int where "ENODATA = 61"

definition ALIGNED_OVERSHOOT :: "int \<Rightarrow> int" where
  "ALIGNED_OVERSHOOT oft = oft AND (1024 - 1)"

definition ALIGNED_LENGTH :: "int \<Rightarrow> int" where
  "ALIGNED_LENGTH n = ((n - 1) OR (1024 - 1)) + 1"

record map_struct =
  m_file_size :: int
  m_p_offset :: int
  m_p_fd_offset :: int
  m_p :: "byte list"
  m_p_size :: int
  m_p_len :: int
  m_def_window_size :: int
  m_status :: int

definition map_file :: "int \<Rightarrow> int \<Rightarrow> int \<Rightarrow> map_struct" where
  "map_file n read_size blk_size =
     (let read_size = (if blk_size \<noteq> 0 \<and> read_size mod blk_size \<noteq> 0
                       then read_size + (blk_size - read_size mod blk_size) else read_size)
      in \<lparr>m_file_size = n, m_p_offset = 0, m_p_fd_offset = 0, m_p = [], m_p_size = 0,
          m_p_len = 0, m_def_window_size = ALIGNED_LENGTH read_size, m_status = 0\<rparr>)"

text \<open>The read loop at the end of \<open>map_ptr\<close>.\<close>

function map_fill :: "os \<Rightarrow> byte list \<Rightarrow> map_struct \<Rightarrow> int \<Rightarrow> int \<Rightarrow> map_struct" where
  "map_fill s f m read_offset read_size =
     (if read_size > 0 then
        let nread = sys_read s f (m_p_fd_offset m) read_size in
        if nread \<le> 0 then
          m\<lparr>m_status := (if m_status m = 0 then if nread \<noteq> 0 then os_errno s else ENODATA
                         else m_status m),
            m_p := overwrite (m_p m) (nat read_offset) (replicate (nat read_size) 0)\<rparr>
        else
          map_fill s f
            (m\<lparr>m_p := overwrite (m_p m) (nat read_offset) (fslice f (m_p_fd_offset m) nread),
               m_p_fd_offset := m_p_fd_offset m + nread\<rparr>)
            (read_offset + nread) (read_size - nread)
      else m)"
  by pat_completeness auto
termination
  by (relation "measure (\<lambda>(s, f, m, off, n). nat n)") auto

declare map_fill.simps [simp del]

definition map_ptr :: "os \<Rightarrow> byte list \<Rightarrow> map_struct \<Rightarrow> int \<Rightarrow> int
    \<Rightarrow> exit_code + (byte list option \<times> map_struct)" where
  "map_ptr s f m offset n =
     (if n = 0 then Inr (None, m)
      else if n < 0 then Inl RERR_FILEIO
      else if offset \<ge> m_p_offset m \<and> offset + n \<le> m_p_offset m + m_p_len m then
        Inr (Some (take (nat n) (drop (nat (offset - m_p_offset m)) (m_p m))), m)
      else
        let align_fudge = ALIGNED_OVERSHOOT offset;
            window_start = offset - align_fudge;
            window_size = m_def_window_size m;
            window_size = (if window_start + window_size > m_file_size m
                           then m_file_size m - window_start else window_size);
            window_size = (if window_size < n + align_fudge
                           then ALIGNED_LENGTH (n + align_fudge) else window_size);
            m = (if window_size > m_p_size m
                 then m\<lparr>m_p := m_p m @ replicate (nat window_size - length (m_p m)) 0,
                        m_p_size := window_size\<rparr>
                 else m);
            reuse = (window_start \<ge> m_p_offset m \<and> window_start < m_p_offset m + m_p_len m
                     \<and> window_start + window_size \<ge> m_p_offset m + m_p_len m);
            read_start = (if reuse then m_p_offset m + m_p_len m else window_start);
            read_offset = (if reuse then read_start - window_start else 0);
            read_size = (if reuse then window_size - read_offset else window_size);
            m = (if reuse
                 then m\<lparr>m_p := overwrite (m_p m) 0
                     (take (nat read_offset) (drop (nat (m_p_len m - read_offset)) (m_p m)))\<rparr>
                 else m)
        in if read_size \<le> 0 then Inl RERR_FILEIO
           else if m_p_fd_offset m \<noteq> read_start \<and> os_lseek s read_start \<noteq> read_start
             then Inl RERR_FILEIO
           else
             let m = m\<lparr>m_p_fd_offset := read_start, m_p_offset := window_start,
                       m_p_len := window_size\<rparr>;
                 m = map_fill s f m read_offset read_size
             in Inr (Some (take (nat n) (drop (nat align_fudge) (m_p m))), m))"

definition unmap_file :: "map_struct \<Rightarrow> int" where
  "unmap_file m = m_status m"


subsection \<open>Slices and buffers\<close>

lemma length_fslice [simp]: "length (fslice f off n) = nat n"
  by (simp add: fslice_def)

lemma fslice_0 [simp]: "n \<le> 0 \<Longrightarrow> fslice f off n = []"
  by (simp add: fslice_def)

lemma fslice_nth [simp]: "k < nat n \<Longrightarrow> fslice f off n ! k = byte_at f (off + int k)"
  by (simp add: fslice_def)

lemma fslice_append:
  assumes "0 \<le> a" and "0 \<le> b"
  shows "fslice f off a @ fslice f (off + a) b = fslice f off (a + b)"
  using assms by (intro nth_equalityI) (auto simp: nth_append nat_add_distrib)

lemma take_fslice: "k \<le> n \<Longrightarrow> take (nat k) (fslice f off n) = fslice f off k"
  by (rule nth_equalityI) auto

lemma drop_fslice: "0 \<le> k \<Longrightarrow> k \<le> n \<Longrightarrow> drop (nat k) (fslice f off n) = fslice f (off + k) (n - k)"
  by (rule nth_equalityI) (auto simp: nat_diff_distrib add.assoc)

lemma fslice_within:
  assumes "0 \<le> off" and "off + n \<le> int (length f)"
  shows "fslice f off n = take (nat n) (drop (nat off) f)"
  using assms by (intro nth_equalityI) (auto simp: byte_at_def nat_add_distrib)

lemma fslice_past_end: "int (length f) \<le> off \<Longrightarrow> fslice f off n = replicate (nat n) 0"
  by (rule nth_equalityI) (auto simp: byte_at_def)

lemma length_overwrite [simp]:
  "off + length b \<le> length p \<Longrightarrow> length (overwrite p off b) = length p"
  by (simp add: overwrite_def)

lemma take_overwrite:
  "off + length b \<le> length p \<Longrightarrow> take (off + length b) (overwrite p off b) = take off p @ b"
  by (simp add: overwrite_def)

lemma take_overwrite_low: "n \<le> off \<Longrightarrow> off \<le> length p \<Longrightarrow> take n (overwrite p off b) = take n p"
  by (simp add: overwrite_def)

lemma ALIGNED_OVERSHOOT_eq: "ALIGNED_OVERSHOOT oft = oft mod 1024"
proof -
  have "oft AND (1024 - 1) = take_bit 10 oft"
    by (simp add: take_bit_eq_mask mask_eq_exp_minus_1)
  then show ?thesis
    by (simp add: ALIGNED_OVERSHOOT_def take_bit_eq_mod)
qed

lemma ALIGNED_LENGTH_ge: "n \<le> ALIGNED_LENGTH n"
proof -
  have "n - 1 \<le> (n - 1) OR (1024 - 1)"
    by (rule or_greater_eq) simp
  then show ?thesis by (simp add: ALIGNED_LENGTH_def)
qed

subsection \<open>The window shows the file\<close>

definition map_inv :: "byte list \<Rightarrow> map_struct \<Rightarrow> bool" where
  "map_inv f m \<longleftrightarrow> m_p_size m = int (length (m_p m)) \<and> 0 \<le> m_p_offset m \<and> 0 \<le> m_p_len m
     \<and> m_p_len m \<le> m_p_size m \<and> 0 \<le> m_p_fd_offset m
     \<and> take (nat (m_p_len m)) (m_p m) = fslice f (m_p_offset m) (m_p_len m)"

lemma map_inv_map_file: "map_inv f (map_file n r b)"
  by (simp add: map_inv_def map_file_def Let_def)

lemma sys_read_cases:
  assumes "os_ok s" and "0 < n" and "0 \<le> pos"
  shows "(int (length f) \<le> pos \<and> sys_read s f pos n = 0)
    \<or> (0 < sys_read s f pos n \<and> sys_read s f pos n \<le> n
       \<and> pos + sys_read s f pos n \<le> int (length f))"
proof -
  have r: "0 \<le> os_read s pos n" using assms(1) by (simp add: os_ok_def)
  show ?thesis
  proof (cases "int (length f) \<le> pos")
    case True
    with r show ?thesis by (simp add: sys_read_def Let_def)
  next
    case False
    with assms have a: "0 < min n (int (length f) - pos)" by simp
    with r have "sys_read s f pos n = max 1 (min (os_read s pos n) (min n (int (length f) - pos)))"
      by (auto simp: sys_read_def Let_def min_le_iff_disj)
    with a show ?thesis by linarith
  qed
qed

lemma map_fill_window:
  assumes "os_ok s" and "0 \<le> read_offset" and "0 \<le> read_size" and "0 \<le> start"
    and "m_p_fd_offset m = start + read_offset"
    and "read_offset + read_size \<le> int (length (m_p m))"
    and "take (nat read_offset) (m_p m) = fslice f start read_offset"
  shows "\<exists>p fd st. map_fill s f m read_offset read_size = m\<lparr>m_p := p, m_p_fd_offset := fd, m_status := st\<rparr>
    \<and> length p = length (m_p m) \<and> 0 \<le> fd
    \<and> take (nat (read_offset + read_size)) p = fslice f start (read_offset + read_size)"
  using assms
proof (induction s f m read_offset read_size rule: map_fill.induct)
  case (1 s f m ro rs)
  show ?case
  proof (cases "rs > 0")
    case False
    with "1.prems" show ?thesis
      by (intro exI [of _ "m_p m"] exI [of _ "m_p_fd_offset m"] exI [of _ "m_status m"])
        (simp add: map_fill.simps)
  next
    case True
    define nread where "nread = sys_read s f (m_p_fd_offset m) rs"
    have pos: "0 \<le> m_p_fd_offset m" using "1.prems" by simp
    have nr: "nread = sys_read s f (start + ro) rs" by (simp add: nread_def "1.prems"(5))
    from sys_read_cases [OF "1.prems"(1) True pos, of f]
    consider (eof) "int (length f) \<le> start + ro" "nread = 0"
      | (some) "0 < nread" "nread \<le> rs"
      unfolding nread_def "1.prems"(5) by auto
    then show ?thesis
    proof cases
      case eof
      let ?z = "replicate (nat rs) (0::byte)"
      have zs: "fslice f (start + ro) rs = ?z" using eof(1) by (rule fslice_past_end)
      have fits: "nat ro + length ?z \<le> length (m_p m)" using "1.prems" True by simp
      have "take (nat (ro + rs)) (overwrite (m_p m) (nat ro) ?z) = fslice f start (ro + rs)"
        using take_overwrite [OF fits] "1.prems" True zs fslice_append [of ro rs f start]
        by (simp add: nat_add_distrib)
      moreover have "map_fill s f m ro rs = m\<lparr>m_p := overwrite (m_p m) (nat ro) ?z,
          m_p_fd_offset := m_p_fd_offset m,
          m_status := (if m_status m = 0 then ENODATA else m_status m)\<rparr>"
        using True eof(2) by (subst map_fill.simps) (simp add: Let_def flip: nread_def)
      moreover have "length (overwrite (m_p m) (nat ro) ?z) = length (m_p m)"
        using fits by simp
      ultimately show ?thesis using pos by blast
    next
      case some
      let ?b = "fslice f (m_p_fd_offset m) nread"
      let ?m = "m\<lparr>m_p := overwrite (m_p m) (nat ro) ?b, m_p_fd_offset := m_p_fd_offset m + nread\<rparr>"
      have fits: "nat ro + length ?b \<le> length (m_p m)" using "1.prems" some by simp
      have t: "take (nat (ro + nread)) (m_p ?m) = fslice f start (ro + nread)"
        using take_overwrite [OF fits] "1.prems" some fslice_append [of ro nread f start]
        by (simp add: nat_add_distrib)
      have step: "map_fill s f m ro rs = map_fill s f ?m (ro + nread) (rs - nread)"
        using True some by (subst map_fill.simps) (simp add: Let_def flip: nread_def)
      have "\<exists>p fd st. map_fill s f ?m (ro + nread) (rs - nread)
          = ?m\<lparr>m_p := p, m_p_fd_offset := fd, m_status := st\<rparr>
        \<and> length p = length (m_p ?m) \<and> 0 \<le> fd
        \<and> take (nat ((ro + nread) + (rs - nread))) p = fslice f start ((ro + nread) + (rs - nread))"
        unfolding nread_def
        by (rule "1.IH" [OF True refl]) (use "1.prems" some fits t in \<open>simp_all flip: nr\<close>)
      with step fits show ?thesis by auto
    qed
  qed
qed


theorem map_ptr_window:
  assumes "os_ok s" and inv: "map_inv f m" and "0 \<le> offset" and "0 < n"
  shows "\<exists>m'. map_ptr s f m offset n = Inr (Some (fslice f offset n), m') \<and> map_inv f m'
    \<and> m_file_size m' = m_file_size m"
proof (cases "offset \<ge> m_p_offset m \<and> offset + n \<le> m_p_offset m + m_p_len m")
  case True
  let ?k = "offset - m_p_offset m"
  have "take (nat n) (drop (nat ?k) (m_p m))
      = take (nat n) (drop (nat ?k) (take (nat (m_p_len m)) (m_p m)))"
    using True assms by (simp add: drop_take min_def nat_diff_distrib) arith
  also have "\<dots> = fslice f offset n"
    using True assms inv by (simp add: map_inv_def drop_fslice take_fslice)
  finally show ?thesis
    using True assms by (simp add: map_ptr_def)
next
  case False
  define fudge where "fudge = ALIGNED_OVERSHOOT offset"
  define start where "start = offset - fudge"
  define w1 where "w1 = (if start + m_def_window_size m > m_file_size m
      then m_file_size m - start else m_def_window_size m)"
  define wsize where "wsize = (if w1 < n + fudge then ALIGNED_LENGTH (n + fudge) else w1)"
  define m1 where "m1 = (if wsize > m_p_size m
      then m\<lparr>m_p := m_p m @ replicate (nat wsize - length (m_p m)) 0, m_p_size := wsize\<rparr> else m)"
  define reuse where "reuse \<longleftrightarrow> start \<ge> m_p_offset m1 \<and> start < m_p_offset m1 + m_p_len m1
      \<and> start + wsize \<ge> m_p_offset m1 + m_p_len m1"
  define rstart where "rstart = (if reuse then m_p_offset m1 + m_p_len m1 else start)"
  define roff where "roff = (if reuse then rstart - start else 0)"
  define rsize where "rsize = (if reuse then wsize - roff else wsize)"
  define m2 where "m2 = (if reuse then m1\<lparr>m_p := overwrite (m_p m1) 0
      (take (nat roff) (drop (nat (m_p_len m1 - roff)) (m_p m1)))\<rparr> else m1)"
  define m3 where "m3 = m2\<lparr>m_p_fd_offset := rstart, m_p_offset := start, m_p_len := wsize\<rparr>"
  have fudge: "0 \<le> fudge" "0 \<le> start" "offset = start + fudge"
    using assms(3) by (auto simp: fudge_def start_def ALIGNED_OVERSHOOT_eq
        zmod_le_nonneg_dividend)
  have w: "n + fudge \<le> wsize"
    using ALIGNED_LENGTH_ge [of "n + fudge"] by (auto simp: wsize_def)
  have inv1: "map_inv f m1"
    using inv by (auto simp: m1_def map_inv_def)
  have m1: "wsize \<le> m_p_size m1" "m_p_offset m1 = m_p_offset m" "m_p_len m1 = m_p_len m"
    "m_file_size m1 = m_file_size m"
    by (auto simp: m1_def)
  have win: "take (nat (m_p_len m1)) (m_p m1) = fslice f (m_p_offset m1) (m_p_len m1)"
    and lens: "0 \<le> m_p_len m1" "m_p_len m1 \<le> int (length (m_p m1))" "0 \<le> m_p_offset m1"
      "m_p_size m1 = int (length (m_p m1))"
    using inv1 by (auto simp: map_inv_def)
  have sizes: "0 < rsize" "0 \<le> roff" "roff + rsize = wsize" "rstart = start + roff"
    "reuse \<Longrightarrow> roff \<le> m_p_len m1 \<and> m_p_offset m1 + (m_p_len m1 - roff) = start"
    using False w fudge assms(4) m1
    by (auto simp: rsize_def roff_def rstart_def reuse_def split: if_splits)
  have len2: "length (m_p m2) = length (m_p m1)"
    using sizes lens by (simp add: m2_def)
  have pre: "take (nat roff) (m_p m2) = fslice f start roff"
  proof (cases reuse)
    case True
    let ?k = "m_p_len m1 - roff"
    have "take (nat roff) (drop (nat ?k) (m_p m1))
        = drop (nat ?k) (take (nat (m_p_len m1)) (m_p m1))"
      using sizes(2) sizes(5) [OF True] nat_mono [of roff "m_p_len m1"]
      by (simp add: drop_take nat_diff_distrib)
    also have "\<dots> = fslice f start roff"
      using sizes(2) sizes(5) [OF True] lens unfolding win
      by (subst drop_fslice) auto
    finally have old: "take (nat roff) (drop (nat ?k) (m_p m1)) = fslice f start roff" .
    with True show ?thesis
      by (simp add: m2_def overwrite_def)
  next
    case False
    then show ?thesis by (simp add: roff_def)
  qed
  have "\<exists>p fd st. map_fill s f m3 roff rsize
        = m3\<lparr>m_p := p, m_p_fd_offset := fd, m_status := st\<rparr>
      \<and> length p = length (m_p m3) \<and> 0 \<le> fd
      \<and> take (nat (roff + rsize)) p = fslice f start (roff + rsize)"
    using assms(1) sizes fudge(2) m1 lens len2 pre
    by (intro map_fill_window) (auto simp: m3_def)
  then obtain p fd st where fill: "map_fill s f m3 roff rsize
        = m3\<lparr>m_p := p, m_p_fd_offset := fd, m_status := st\<rparr>"
      and p: "length p = length (m_p m3)" "0 \<le> fd" "take (nat wsize) p = fslice f start wsize"
    unfolding sizes(3) by blast
  have seek: "\<not> (m_p_fd_offset m2 \<noteq> rstart \<and> os_lseek s rstart \<noteq> rstart)"
    using assms(1) by (simp add: os_ok_def)
  have "map_ptr s f m offset n = (if rsize \<le> 0 then Inl RERR_FILEIO
      else if m_p_fd_offset m2 \<noteq> rstart \<and> os_lseek s rstart \<noteq> rstart then Inl RERR_FILEIO
      else Inr (Some (take (nat n) (drop (nat fudge) (m_p (map_fill s f m3 roff rsize)))),
                map_fill s f m3 roff rsize))"
    using False assms(4) unfolding map_ptr_def Let_def m3_def m2_def rsize_def roff_def rstart_def
      reuse_def m1_def wsize_def w1_def start_def fudge_def by (simp only: if_False) simp
  also have "\<dots> = Inr (Some (take (nat n) (drop (nat fudge) p)),
      m3\<lparr>m_p := p, m_p_fd_offset := fd, m_status := st\<rparr>)"
    using sizes(1) seek by (simp add: fill)
  finally have r: "map_ptr s f m offset n = Inr (Some (take (nat n) (drop (nat fudge) p)),
      m3\<lparr>m_p := p, m_p_fd_offset := fd, m_status := st\<rparr>)" .
  have "take (nat n) (drop (nat fudge) p)
      = take (nat n) (drop (nat fudge) (take (nat wsize) p))"
    using w fudge assms(4) by (simp add: drop_take min_def nat_diff_distrib)
  also have "\<dots> = fslice f offset n"
    using w fudge assms(4) by (simp add: p(3) drop_fslice take_fslice)
  finally have "take (nat n) (drop (nat fudge) p) = fslice f offset n" .
  moreover have "map_inv f (m3\<lparr>m_p := p, m_p_fd_offset := fd, m_status := st\<rparr>)"
    using p fudge w assms(4) m1 lens len2 unfolding map_inv_def by (simp add: m3_def) (simp add: m2_def)
  moreover have "m_file_size m2 = m_file_size m"
    using m1(4) by (simp add: m2_def)
  ultimately show ?thesis
    using r by (simp add: m3_def)
qed

end
