(* ===== verification/DeltaFile.thy ===== *)
theory DeltaFile
  imports MapFile
begin

text \<open>
  The text format of a delta backup: the lines \<open>receive_data\<close> prints with \<open>sprintf\<close>
  (receiver.c) and the loop that parses them with \<open>fgets\<close>, \<open>strncmp\<close> and \<open>sscanf\<close>
  and rebuilds a full file. The same loop stands in \<open>combine_incremental_files\<close>,
  \<open>combine_differental_files\<close> (sender.c) and \<open>update_incre_full_backup\<close> (receiver.c).
\<close>

subsection \<open>Decimal numbers\<close>

definition digit_char :: "nat \<Rightarrow> char" where
  "digit_char d = char_of (48 + d)"

definition digit_val :: "char \<Rightarrow> nat" where
  "digit_val c = of_char c - 48"

definition isdigit :: "char \<Rightarrow> bool" where
  "isdigit c \<longleftrightarrow> 48 \<le> (of_char c :: nat) \<and> (of_char c :: nat) \<le> 57"

definition isspace :: "char \<Rightarrow> bool" where
  "isspace c \<longleftrightarrow> c = CHR '' '' \<or> (9 \<le> (of_char c :: nat) \<and> (of_char c :: nat) \<le> 13)"

fun show_nat :: "nat \<Rightarrow> string" where
  "show_nat n = (if n < 10 then [digit_char n] else show_nat (n div 10) @ [digit_char (n mod 10)])"

declare show_nat.simps [simp del]

definition show_int :: "int \<Rightarrow> string" where
  "show_int z = (if z < 0 then CHR ''-'' # show_nat (nat (- z)) else show_nat (nat z))"

definition digits_val :: "string \<Rightarrow> nat" where
  "digits_val ds = foldl (\<lambda>a c. 10 * a + digit_val c) 0 ds"

subsection \<open>sscanf\<close>

text \<open>A format is a list of literal characters, white space and decimal conversions.\<close>

datatype fmt = Lit char | White | Num

fun fmt_of :: "string \<Rightarrow> fmt list" where
  "fmt_of [] = []"
| "fmt_of (c # r) =
     (if c = CHR ''%'' \<and> take 2 r = ''ld'' then Num # fmt_of (drop 2 r)
      else if c = CHR ''%'' \<and> take 1 r = ''d'' then Num # fmt_of (drop 1 r)
      else (if isspace c then White else Lit c) # fmt_of r)"

definition scan_num :: "string \<Rightarrow> (int \<times> string) option" where
  "scan_num s =
     (let s = dropWhile isspace s;
          neg = (take 1 s = ''-'');
          s = (if take 1 s = ''-'' \<or> take 1 s = ''+'' then drop 1 s else s);
          ds = takeWhile isdigit s
      in if ds = [] then None
         else Some (if neg then - int (digits_val ds) else int (digits_val ds), dropWhile isdigit s))"

text \<open>The values of the conversions that succeed before the first mismatch.\<close>

fun sscanf :: "fmt list \<Rightarrow> string \<Rightarrow> int list" where
  "sscanf [] s = []"
| "sscanf (White # fs) s = sscanf fs (dropWhile isspace s)"
| "sscanf (Lit c # fs) s = (case s of [] \<Rightarrow> [] | x # xs \<Rightarrow> if x = c then sscanf fs xs else [])"
| "sscanf (Num # fs) s = (case scan_num s of None \<Rightarrow> [] | Some (v, r) \<Rightarrow> v # sscanf fs r)"

definition arg :: "int list \<Rightarrow> nat \<Rightarrow> int \<Rightarrow> int" where
  "arg vs k dflt = (if k < length vs then vs ! k else dflt)"

subsection \<open>Printing (receive_data)\<close>

record delta_meta =
  d_file_size :: int
  d_content_size :: int
  d_block_length :: int
  d_block_count :: int
  d_remainder :: int

definition meta_line :: "delta_meta \<Rightarrow> string" where
  "meta_line h = ''[delta file metadata] file_size = '' @ show_int (d_file_size h)
     @ '', content_size = '' @ show_int (d_content_size h)
     @ '', block_size = '' @ show_int (d_block_length h)
     @ '', block_count = '' @ show_int (d_block_count h)
     @ '', remainder_block = '' @ show_int (d_remainder h) @ [CHR 0x0A]"

definition match_line :: "int \<Rightarrow> int \<Rightarrow> int \<Rightarrow> string" where
  "match_line i oft oft2 = ''match token = '' @ show_int i @ '', offset = '' @ show_int oft
     @ '', offset2 = '' @ show_int oft2 @ '' '' @ [CHR 0x0A]"

definition unmatch_line :: "int \<Rightarrow> int \<Rightarrow> string" where
  "unmatch_line n oft = ''unmatch data length = '' @ show_int n @ '', offset = '' @ show_int oft
     @ [CHR 0x0A]"

subsection \<open>Parsing\<close>

definition cstr :: "byte list \<Rightarrow> string" where
  "cstr bs = map (\<lambda>b. char_of (unat b)) (takeWhile (\<lambda>b. b \<noteq> 0) bs)"

text \<open>\<open>fgets(line, n, f)\<close>: at most \<open>n - 1\<close> bytes, up to a newline; the rest of the stream.\<close>

definition fgets :: "nat \<Rightarrow> byte list \<Rightarrow> (byte list \<times> byte list) option" where
  "fgets n f =
     (if f = [] then None
      else let k = min (n - 1) (Suc (length (takeWhile (\<lambda>b. b \<noteq> 10) f)))
           in Some (take k f, drop k f))"

definition LINE_SIZE :: nat where "LINE_SIZE = 1024 * 100"
definition UNMATCH_SIZE :: int where "UNMATCH_SIZE = 1024 * 1000"

definition meta_fmt :: string where
  "meta_fmt = ''[delta file metadata] file_size = %ld, content_size = %ld, block_size = %d, block_count = %d, remainder_block = %d'' @ [CHR 0x0A]"

definition match_fmt :: string where
  "match_fmt = ''match token = %d, offset = %ld, offset2 = %ld'' @ [CHR 0x0A]"

definition unmatch_fmt :: string where
  "unmatch_fmt = ''unmatch data length = %ld, offset = %ld'' @ [CHR 0x0A]"

text \<open>The fields keep their initial \<open>-1\<close> when the line has no such number.\<close>

definition parse_meta :: "string \<Rightarrow> delta_meta" where
  "parse_meta line =
     (let vs = sscanf (fmt_of meta_fmt) line
      in \<lparr>d_file_size = arg vs 0 (- 1), d_content_size = arg vs 1 (- 1),
          d_block_length = arg vs 2 (- 1), d_block_count = arg vs 3 (- 1),
          d_remainder = arg vs 4 (- 1)\<rparr>)"

definition no_meta :: delta_meta where
  "no_meta = \<lparr>d_file_size = - 1, d_content_size = - 1, d_block_length = - 1, d_block_count = - 1,
     d_remainder = - 1\<rparr>"

text \<open>
  A run of the loop can end the process in \<open>map_ptr\<close> (\<open>Exit\<close>), or copy bytes of the
  stack buffer \<open>unmatch_data\<close> that no \<open>fread\<close> has set, or write past its end
  (\<open>Undefined\<close>).
\<close>

datatype delta_error = Exit exit_code | Undefined

definition block_len :: "delta_meta \<Rightarrow> int \<Rightarrow> int" where
  "block_len h token =
     (if token = d_block_count h - 1 \<and> d_remainder h \<noteq> 0 then d_remainder h else d_block_length h)"

definition delta_step :: "os \<Rightarrow> byte list \<Rightarrow> delta_meta \<Rightarrow> string \<Rightarrow> byte list \<Rightarrow> map_struct
    \<Rightarrow> delta_error + (byte list \<times> byte list \<times> map_struct)" where
  "delta_step s full h line rest m =
     (if strcmp line [CHR 0x0A] = 0 \<or> strcmp line [CHR 0x0D, CHR 0x0A] = 0 then Inr ([], rest, m)
      else if take 11 line = ''match token'' then
        let vs = sscanf (fmt_of match_fmt) line in
        (case map_ptr s full m (arg vs 2 (- 1)) (block_len h (arg vs 0 (- 1))) of
           Inl e \<Rightarrow> Inl (Exit e)
         | Inr (None, m) \<Rightarrow> Inr ([], rest, m)
         | Inr (Some d, m) \<Rightarrow> Inr (d, rest, m))
      else if take 19 line = ''unmatch data length'' then
        let n = arg (sscanf (fmt_of unmatch_fmt) line) 0 0 in
        if n < 0 \<or> n > UNMATCH_SIZE \<or> int (length rest) < n then Inl Undefined
        else Inr (take (nat n) rest, drop (nat n) rest, m)
      else Inr ([], rest, m))"

lemma length_fgets: "fgets n f = Some (l, r) \<Longrightarrow> 1 < n \<Longrightarrow> length r < length f"
  by (auto simp: fgets_def Let_def split: if_splits)

lemma length_delta_step: "delta_step s full h line rest m = Inr (d, r, m') \<Longrightarrow> length r \<le> length rest"
  by (auto simp: delta_step_def Let_def split: if_splits sum.splits prod.splits option.splits)

function delta_loop :: "os \<Rightarrow> byte list \<Rightarrow> delta_meta \<Rightarrow> byte list \<Rightarrow> map_struct
    \<Rightarrow> delta_error + byte list" where
  "delta_loop s full h f m =
     (case fgets LINE_SIZE f of
        None \<Rightarrow> Inr []
      | Some (line, rest) \<Rightarrow>
          (case delta_step s full h (cstr line) rest m of
             Inl e \<Rightarrow> Inl e
           | Inr (out, rest', m') \<Rightarrow> map_sum id (\<lambda>bs. out @ bs) (delta_loop s full h rest' m')))"
  by pat_completeness auto
termination
  by (relation "measure (\<lambda>(s, full, h, f, m). length f)")
    (auto simp: LINE_SIZE_def dest!: length_fgets length_delta_step)

declare delta_loop.simps [simp del]

definition apply_delta :: "os \<Rightarrow> byte list \<Rightarrow> byte list \<Rightarrow> delta_error + byte list" where
  "apply_delta s full delta =
     (let (h, rest) = (case fgets LINE_SIZE delta of
                         Some (line, rest) \<Rightarrow> (parse_meta (cstr line), rest)
                       | None \<Rightarrow> (no_meta, delta));
          read_size = max (d_block_length h * 2) (16 * 1024)
      in delta_loop s full h rest (map_file (d_content_size h) read_size (d_block_length h)))"

subsection \<open>Decimal round trip\<close>

lemma of_char_digit_char: "d < 10 \<Longrightarrow> (of_char (digit_char d) :: nat) = 48 + d"
  by (simp add: digit_char_def)

lemma isdigit_digit_char [simp]: "d < 10 \<Longrightarrow> isdigit (digit_char d)"
  by (simp add: isdigit_def of_char_digit_char)

lemma digit_val_digit_char [simp]: "d < 10 \<Longrightarrow> digit_val (digit_char d) = d"
  by (simp add: digit_val_def of_char_digit_char)

lemma digits_val_snoc: "digits_val (ds @ [c]) = 10 * digits_val ds + digit_val c"
  by (simp add: digits_val_def)

lemma digits_val_show_nat [simp]: "digits_val (show_nat n) = n"
proof (induction n rule: show_nat.induct)
  case (1 n)
  then show ?case
    by (subst show_nat.simps) (auto simp: digits_val_snoc digits_val_def)
qed

lemma isdigit_show_nat: "c \<in> set (show_nat n) \<Longrightarrow> isdigit c"
proof (induction n rule: show_nat.induct)
  case (1 n)
  then show ?case
    by (subst (asm) (2) show_nat.simps) (auto split: if_splits)
qed

lemma show_nat_not_Nil [simp]: "show_nat n \<noteq> []"
  by (subst show_nat.simps) simp

lemma length_show_nat: "n < 10 ^ k \<Longrightarrow> 0 < k \<Longrightarrow> length (show_nat n) \<le> k"
proof (induction n arbitrary: k rule: show_nat.induct)
  case (1 n)
  show ?case
  proof (cases "n < 10")
    case True
    with 1 show ?thesis by (subst show_nat.simps) simp
  next
    case False
    with "1.prems" have k: "n div 10 < 10 ^ (k - 1)" "0 < k - 1"
      by (cases k; auto simp: less_mult_imp_div_less mult.commute intro!: Nat.gr0I)+
    from "1.IH" [OF False k] False "1.prems" show ?thesis
      by (subst show_nat.simps) auto
  qed
qed

definition starts_digit :: "string \<Rightarrow> bool" where
  "starts_digit r \<longleftrightarrow> r \<noteq> [] \<and> isdigit (hd r)"

lemma not_digit_chars: "\<not> isdigit (CHR ''-'')" "\<not> isdigit (CHR ''+'')"
  by (simp_all add: isdigit_def)

lemma isdigit_not_space: "isdigit c \<Longrightarrow> \<not> isspace c"
  by (auto simp: isdigit_def isspace_def)

lemma takeWhile_digits:
  "(\<And>c. c \<in> set ds \<Longrightarrow> isdigit c) \<Longrightarrow> \<not> starts_digit r \<Longrightarrow> takeWhile isdigit (ds @ r) = ds"
  "(\<And>c. c \<in> set ds \<Longrightarrow> isdigit c) \<Longrightarrow> \<not> starts_digit r \<Longrightarrow> dropWhile isdigit (ds @ r) = r"
  by (induction ds; cases r; auto simp: starts_digit_def)+

lemma dropWhile_space_show_int [simp]: "dropWhile isspace (show_int z @ r) = show_int z @ r"
proof -
  have "dropWhile isspace (show_nat n @ r) = show_nat n @ r" for n
    using isdigit_show_nat [of "hd (show_nat n)" n] isdigit_not_space
    by (cases "show_nat n") auto
  moreover have "\<not> isspace (CHR ''-'')" by (simp add: isspace_def)
  ultimately show ?thesis by (simp add: show_int_def)
qed

lemma scan_num_show_int:
  assumes "\<not> starts_digit r"
  shows "scan_num (show_int z @ r) = Some (z, r)"
proof (cases "z < 0")
  case True
  have "scan_num (show_int z @ r) = Some (- int (digits_val (show_nat (nat (- z)))), r)"
    using takeWhile_digits [OF isdigit_show_nat assms] dropWhile_space_show_int [of z r] True
    unfolding scan_num_def Let_def dropWhile_space_show_int by (simp add: show_int_def)
  with True show ?thesis by simp
next
  case False
  have h: "take 1 (show_nat (nat z) @ r) \<noteq> ''-''" "take 1 (show_nat (nat z) @ r) \<noteq> ''+''"
    using isdigit_show_nat [of "hd (show_nat (nat z))" "nat z"] not_digit_chars
    by (cases "show_nat (nat z)"; auto)+
  have "scan_num (show_int z @ r) = Some (int (digits_val (show_nat (nat z))), r)"
    using takeWhile_digits [OF isdigit_show_nat assms] False h
    unfolding scan_num_def Let_def dropWhile_space_show_int by (simp add: show_int_def)
  with False show ?thesis by simp
qed

lemma sscanf_show_int:
  "\<not> starts_digit r \<Longrightarrow> sscanf (Num # fs) (show_int z @ r) = z # sscanf fs r"
  by (simp add: scan_num_show_int)

definition int64 :: "int \<Rightarrow> bool" where
  "int64 z \<longleftrightarrow> - (2 ^ 63) \<le> z \<and> z < 2 ^ 63"

lemma length_show_int: "int64 z \<Longrightarrow> length (show_int z) \<le> 20"
proof -
  assume "int64 z"
  then have "nat z < 10 ^ 19" "nat (- z) < 10 ^ 19"
    by (simp_all add: int64_def) linarith+
  then show ?thesis
    using length_show_nat [of "nat z" 19] length_show_nat [of "nat (- z)" 19]
    by (simp add: show_int_def)
qed

lemma set_show_int: "c \<in> set (show_int z) \<Longrightarrow> c = CHR ''-'' \<or> isdigit c"
  using isdigit_show_nat by (auto simp: show_int_def split: if_splits)

lemma show_int_chars [simp]: "CHR 0x0A \<notin> set (show_int z)" "no_nul (show_int z)"
proof -
  have "\<not> isdigit (CHR 0x0A)" "\<not> isdigit (CHR 0x00)" by (simp_all add: isdigit_def)
  then show "CHR 0x0A \<notin> set (show_int z)" "no_nul (show_int z)"
    using set_show_int [of "CHR 0x0A" z] set_show_int [of "CHR 0x00" z] by (auto simp: no_nul_def)
qed

subsection \<open>Lines\<close>

lemma unat_of_char: "unat (of_char c :: byte) = of_char c"
proof -
  have "unat (word_of_nat (of_char c) :: byte) = of_char c mod 2 ^ 8"
    by (simp add: unat_of_nat)
  moreover have "(of_char c :: byte) = word_of_nat (of_char c)"
    by (rule of_nat_of_char [symmetric])
  ultimately show ?thesis by (simp del: of_nat_of_char)
qed

lemma char_of_unat_of_char [simp]: "char_of (unat (of_char c :: byte)) = c"
  by (simp add: unat_of_char)

lemma of_char_byte_eq: "(of_char c :: byte) = of_char d \<longleftrightarrow> c = d"
  by (metis char_of_unat_of_char)

lemma of_char_byte_0: "(of_char c :: byte) = 0 \<longleftrightarrow> c = CHR 0x00"
  using of_char_byte_eq [of c "CHR 0x00"] by simp

lemma of_char_byte_10: "(of_char c :: byte) = 10 \<longleftrightarrow> c = CHR 0x0A"
  using of_char_byte_eq [of c "CHR 0x0A"] by simp

lemma cstr_bytes_of: "no_nul s \<Longrightarrow> cstr (bytes_of s) = s"
  by (induction s) (simp_all add: cstr_def of_char_byte_0)

lemma fgets_line:
  assumes "CHR 0x0A \<notin> set l" and "Suc (length l) < n"
  shows "fgets n (bytes_of (l @ [CHR 0x0A]) @ rest) = Some (bytes_of (l @ [CHR 0x0A]), rest)"
proof -
  have "takeWhile (\<lambda>b. b \<noteq> 10) (bytes_of l @ 10 # rest) = bytes_of l"
    using assms(1) by (induction l) (auto simp: of_char_byte_10)
  moreover have "min (n - 1) (Suc (length l)) = Suc (length l)"
    using assms(2) by simp
  ultimately show ?thesis
    by (simp add: fgets_def Let_def)
qed

lemmas scan_simps = isspace_def scan_num_show_int starts_digit_def isdigit_def arg_def

lemma parse_meta_meta_line [simp]: "parse_meta (meta_line h) = h"
  by (simp add: scan_simps meta_line_def meta_fmt_def parse_meta_def)

lemma sscanf_match_line [simp]: "sscanf (fmt_of match_fmt) (match_line i oft oft2) = [i, oft, oft2]"
  by (simp add: scan_simps match_line_def match_fmt_def)

lemma sscanf_unmatch_line [simp]: "sscanf (fmt_of unmatch_fmt) (unmatch_line n oft) = [n, oft]"
  by (simp add: scan_simps unmatch_line_def unmatch_fmt_def)

lemma no_nul_lines [simp]: "no_nul (meta_line h)" "no_nul (match_line i oft oft2)"
  "no_nul (unmatch_line n oft)"
  by (simp_all add: meta_line_def match_line_def unmatch_line_def)

lemma line_kinds:
  "take 11 (match_line i oft oft2) = ''match token''"
  "strcmp (match_line i oft oft2) [CHR 0x0A] \<noteq> 0"
  "strcmp (match_line i oft oft2) [CHR 0x0D, CHR 0x0A] \<noteq> 0"
  "take 19 (unmatch_line n oft) = ''unmatch data length''"
  "take 11 (unmatch_line n oft) \<noteq> ''match token''"
  "strcmp (unmatch_line n oft) [CHR 0x0A] \<noteq> 0"
  "strcmp (unmatch_line n oft) [CHR 0x0D, CHR 0x0A] \<noteq> 0"
  by (simp_all add: match_line_def unmatch_line_def)

lemma fgets_meta_line:
  assumes "int64 (d_file_size h)" "int64 (d_content_size h)" "int64 (d_block_length h)"
    "int64 (d_block_count h)" "int64 (d_remainder h)"
  shows "fgets LINE_SIZE (bytes_of (meta_line h) @ rest) = Some (bytes_of (meta_line h), rest)"
proof -
  let ?l = "butlast (meta_line h)"
  have l: "meta_line h = ?l @ [CHR 0x0A]" "CHR 0x0A \<notin> set ?l"
    by (simp_all add: meta_line_def butlast_append)
  have "Suc (length ?l) < LINE_SIZE"
    using assms [THEN length_show_int] by (simp add: meta_line_def LINE_SIZE_def)
  from fgets_line [OF l(2) this, of rest] show ?thesis
    unfolding l(1) [symmetric] .
qed

lemma fgets_match_line:
  assumes "int64 i" "int64 oft" "int64 oft2"
  shows "fgets LINE_SIZE (bytes_of (match_line i oft oft2) @ rest)
    = Some (bytes_of (match_line i oft oft2), rest)"
proof -
  let ?l = "butlast (match_line i oft oft2)"
  have l: "match_line i oft oft2 = ?l @ [CHR 0x0A]" "CHR 0x0A \<notin> set ?l"
    by (simp_all add: match_line_def butlast_append)
  have "Suc (length ?l) < LINE_SIZE"
    using assms [THEN length_show_int] by (simp add: match_line_def LINE_SIZE_def)
  from fgets_line [OF l(2) this, of rest] show ?thesis
    unfolding l(1) [symmetric] .
qed

lemma fgets_unmatch_line:
  assumes "int64 n" "int64 oft"
  shows "fgets LINE_SIZE (bytes_of (unmatch_line n oft) @ rest)
    = Some (bytes_of (unmatch_line n oft), rest)"
proof -
  let ?l = "butlast (unmatch_line n oft)"
  have l: "unmatch_line n oft = ?l @ [CHR 0x0A]" "CHR 0x0A \<notin> set ?l"
    by (simp_all add: unmatch_line_def butlast_append)
  have "Suc (length ?l) < LINE_SIZE"
    using assms [THEN length_show_int] by (simp add: unmatch_line_def LINE_SIZE_def)
  from fgets_line [OF l(2) this, of rest] show ?thesis
    unfolding l(1) [symmetric] .
qed

subsection \<open>The printed operations and their meaning\<close>

text \<open>
  One record of a delta file: a block of the basis (token, offset in the new file, offset in
  the basis) or literal data (with its offset in the new file).
\<close>

datatype delta_op = OpMatch int int int | OpData "byte list" int

fun op_bytes :: "delta_op \<Rightarrow> byte list" where
  "op_bytes (OpMatch i oft oft2) = bytes_of (match_line i oft oft2)"
| "op_bytes (OpData d oft) = bytes_of (unmatch_line (int (length d)) oft) @ d"

fun op_output :: "delta_meta \<Rightarrow> byte list \<Rightarrow> delta_op \<Rightarrow> byte list" where
  "op_output h full (OpMatch i oft oft2) = fslice full oft2 (block_len h i)"
| "op_output h full (OpData d oft) = d"

fun op_ok :: "delta_meta \<Rightarrow> delta_op \<Rightarrow> bool" where
  "op_ok h (OpMatch i oft oft2) \<longleftrightarrow> int64 i \<and> int64 oft \<and> int64 oft2 \<and> 0 \<le> oft2 \<and> 0 < block_len h i"
| "op_ok h (OpData d oft) \<longleftrightarrow> int (length d) \<le> UNMATCH_SIZE \<and> int64 oft"

definition meta_ok :: "delta_meta \<Rightarrow> bool" where
  "meta_ok h \<longleftrightarrow> int64 (d_file_size h) \<and> int64 (d_content_size h) \<and> int64 (d_block_length h)
     \<and> int64 (d_block_count h) \<and> int64 (d_remainder h)"

definition delta_bytes :: "delta_meta \<Rightarrow> delta_op list \<Rightarrow> byte list" where
  "delta_bytes h ops = bytes_of (meta_line h) @ concat (map op_bytes ops)"

definition delta_meaning :: "delta_meta \<Rightarrow> byte list \<Rightarrow> delta_op list \<Rightarrow> byte list" where
  "delta_meaning h full ops = concat (map (op_output h full) ops)"

lemma delta_loop_op:
  assumes "os_ok s" and "map_inv full m" and "op_ok h p"
  shows "\<exists>m'. map_inv full m' \<and> delta_loop s full h (op_bytes p @ rest) m
    = map_sum id (\<lambda>bs. op_output h full p @ bs) (delta_loop s full h rest m')"
proof (cases p)
  case (OpMatch i oft oft2)
  with assms(3) have ok: "int64 i" "int64 oft" "int64 oft2" "0 \<le> oft2" "0 < block_len h i"
    by auto
  from map_ptr_window [OF assms(1,2) ok(4,5)] obtain m' where
    "map_ptr s full m oft2 (block_len h i) = Inr (Some (fslice full oft2 (block_len h i)), m')"
    "map_inv full m'" by blast
  then show ?thesis
    using OpMatch
    by (subst delta_loop.simps)
      (auto simp: fgets_match_line [OF ok(1-3)] cstr_bytes_of delta_step_def line_kinds arg_def
        intro!: exI [of _ m'])
next
  case (OpData d oft)
  with assms(3) have ok: "int64 (int (length d))" "int64 oft" "int (length d) \<le> UNMATCH_SIZE"
    by (auto simp: int64_def UNMATCH_SIZE_def)
  then show ?thesis
    using OpData assms(2)
    by (subst delta_loop.simps)
      (auto simp: fgets_unmatch_line [OF ok(1,2)] cstr_bytes_of delta_step_def line_kinds arg_def
        intro!: exI [of _ m])
qed

lemma delta_loop_ops:
  assumes "os_ok s" and "map_inv full m" and "\<forall>p\<in>set ops. op_ok h p"
  shows "delta_loop s full h (concat (map op_bytes ops)) m
    = Inr (concat (map (op_output h full) ops))"
  using assms(2,3)
proof (induction ops arbitrary: m)
  case Nil
  then show ?case by (subst delta_loop.simps) (simp add: fgets_def)
next
  case (Cons p ops)
  then have "map_inv full m" "op_ok h p" by simp_all
  from delta_loop_op [OF assms(1) this, of "concat (map op_bytes ops)"] obtain m' where
    "map_inv full m'" and
    "delta_loop s full h (op_bytes p @ concat (map op_bytes ops)) m
      = map_sum id (\<lambda>bs. op_output h full p @ bs) (delta_loop s full h (concat (map op_bytes ops)) m')"
    by blast
  with Cons show ?case by simp
qed

theorem apply_delta_delta_bytes:
  assumes "os_ok s" and "meta_ok h" and "\<forall>p\<in>set ops. op_ok h p"
  shows "apply_delta s full (delta_bytes h ops) = Inr (delta_meaning h full ops)"
  using assms(2) delta_loop_ops [OF assms(1) map_inv_map_file assms(3)]
  by (simp add: apply_delta_def delta_bytes_def delta_meaning_def fgets_meta_line meta_ok_def
      cstr_bytes_of)

end
