(* ===== verification/FileStore.thy ===== *)
theory FileStore
  imports DeltaFile "HOL-Library.AList"
begin

text \<open>
  The file system the backup code works on, and the library calls it makes: \<open>fopen\<close>,
  \<open>remove\<close>, \<open>mkdir\<close>, \<open>opendir\<close>/\<open>readdir\<close>, \<open>strchr\<close>, \<open>strrchr\<close>. A file
  system is an association list from path names to nodes; its order is the order in which
  \<open>readdir\<close> hands out the entries. Two path names are the same file only when they are the
  same string (no symbolic links, no \<open>..\<close> components), and no name reaches the length
  \<open>MAXPATHLEN\<close> of the code's buffers.
\<close>

datatype node = Dir | File "byte list"

type_synonym fs = "(string \<times> node) list"

subsection \<open>Path names\<close>

fun strchr :: "char \<Rightarrow> string \<Rightarrow> string option" where
  "strchr c [] = None"
| "strchr c (x # xs) = (if x = c then Some (x # xs) else strchr c xs)"

fun strrchr :: "char \<Rightarrow> string \<Rightarrow> string option" where
  "strrchr c [] = None"
| "strrchr c (x # xs) =
     (case strrchr c xs of Some r \<Rightarrow> Some r | None \<Rightarrow> if x = c then Some (x # xs) else None)"

text \<open>
  The code that separates directory and file name, in \<open>send_files\<close>, \<open>recv_files\<close>,
  \<open>update_incre_full_backup\<close> and \<open>find_newest_full_backup\<close>.
\<close>

definition split_path :: "string \<Rightarrow> string \<times> string" where
  "split_path fname =
     (case strrchr (CHR ''/'') fname of
        Some r \<Rightarrow> (take (length fname - length r) fname, tl r)
      | None \<Rightarrow> (''.'', fname))"

lemma strrchr_None: "c \<notin> set s \<Longrightarrow> strrchr c s = None"
  by (induction s) auto

lemma strrchr_append: "c \<notin> set t \<Longrightarrow> strrchr c (s @ c # t) = Some (c # t)"
  by (induction s) (auto simp: strrchr_None)

lemma strchr_append: "c \<notin> set s \<Longrightarrow> strchr c (s @ c # t) = Some (c # t)"
  by (induction s) auto

lemma split_path_file: "CHR ''/'' \<notin> set n \<Longrightarrow> split_path n = (''.'', n)"
  by (simp add: split_path_def strrchr_None)

lemma split_path_append: "CHR ''/'' \<notin> set n \<Longrightarrow> split_path (d @ CHR ''/'' # n) = (d, n)"
  by (simp add: split_path_def strrchr_append)

subsection \<open>Reading, writing and removing files\<close>

definition file_content :: "fs \<Rightarrow> string \<Rightarrow> byte list option" where
  "file_content fs p = (case map_of fs p of Some (File c) \<Rightarrow> Some c | _ \<Rightarrow> None)"

definition dir_ok :: "fs \<Rightarrow> string \<Rightarrow> bool" where
  "dir_ok fs d \<longleftrightarrow> d = '''' \<or> d = ''.'' \<or> map_of fs d = Some Dir"

definition can_write :: "fs \<Rightarrow> string \<Rightarrow> bool" where
  "can_write fs p \<longleftrightarrow> map_of fs p \<noteq> Some Dir \<and> dir_ok fs (fst (split_path p))"

text \<open>\<open>fopen(p, "wb")\<close>, the writes and \<open>fclose\<close>.\<close>

definition write_path :: "fs \<Rightarrow> string \<Rightarrow> byte list \<Rightarrow> fs" where
  "write_path fs p c = (if can_write fs p then AList.update p (File c) fs else fs)"

text \<open>The names in a directory, whose name ends with a slash.\<close>

definition entry_name :: "string \<Rightarrow> string \<Rightarrow> string option" where
  "entry_name d p =
     (let n = drop (length d) p
      in if take (length d) p = d \<and> n \<noteq> [] \<and> CHR ''/'' \<notin> set n then Some n else None)"

definition dir_names :: "fs \<Rightarrow> string \<Rightarrow> string list" where
  "dir_names fs d = List.map_filter (\<lambda>(p, nd). entry_name d p) fs"

definition remove_path :: "fs \<Rightarrow> string \<Rightarrow> fs" where
  "remove_path fs p =
     (case map_of fs p of
        Some (File c) \<Rightarrow> AList.delete p fs
      | Some Dir \<Rightarrow> if dir_names fs (p @ ''/'') = [] then AList.delete p fs else fs
      | None \<Rightarrow> fs)"

definition opendir_ok :: "fs \<Rightarrow> string \<Rightarrow> bool" where
  "opendir_ok fs d \<longleftrightarrow> map_of fs (if d \<noteq> [] \<and> last d = CHR ''/'' then butlast d else d) = Some Dir"

subsection \<open>mkdir_recursive (receiver.c)\<close>

definition mkdir1 :: "fs \<Rightarrow> string \<Rightarrow> fs option" where
  "mkdir1 fs p =
     (if dir_ok fs p \<or> map_of fs p \<noteq> None then Some fs
      else if dir_ok fs (fst (split_path p)) then Some (AList.update p Dir fs)
      else None)"

fun mkdir_loop :: "fs \<Rightarrow> string list \<Rightarrow> int \<times> fs" where
  "mkdir_loop fs [] = (0, fs)"
| "mkdir_loop fs (p # ps) =
     (case mkdir1 fs p of None \<Rightarrow> (- 1, fs) | Some fs' \<Rightarrow> mkdir_loop fs' ps)"

definition mkdir_recursive :: "fs \<Rightarrow> string \<Rightarrow> int \<times> fs" where
  "mkdir_recursive fs path =
     (let tmp = (if last path = CHR ''/'' then butlast path else path)
      in mkdir_loop fs
           (map (\<lambda>i. take i tmp) (filter (\<lambda>i. tmp ! i = CHR ''/'') [1..<length tmp]) @ [tmp]))"

subsection \<open>read_sort_dir_files and extract_file_name_timestamp (sender.c)\<close>

text \<open>
  The sort is by \<open>strcmp\<close>, which on path names without NUL is the order of strings. The
  caller's array has \<open>MAXBACKUPNUM\<close> entries; a directory with more overflows it.
\<close>

definition MAXBACKUPNUM :: nat where "MAXBACKUPNUM = 100"

definition read_sort_dir_files :: "fs \<Rightarrow> string \<Rightarrow> string list option" where
  "read_sort_dir_files fs d =
     (if opendir_ok fs d then Some (sort (map (\<lambda>n. d @ n) (dir_names fs d))) else None)"

text \<open>Without a dot in the name the caller's buffer keeps what it had.\<close>

definition extract_file_name_timestamp :: "string \<Rightarrow> string \<Rightarrow> string" where
  "extract_file_name_timestamp file_name timestamp =
     (case strrchr (CHR ''.'') file_name of Some r \<Rightarrow> tl r | None \<Rightarrow> timestamp)"

lemma sort_strcmp:
  assumes "\<forall>p\<in>set ps. no_nul p"
  shows "sorted_wrt (\<lambda>a b. strcmp a b \<le> 0) (sort ps)"
proof -
  have "sorted_wrt (\<le>) (sort ps)" by simp
  then show ?thesis
    by (rule sorted_wrt_mono_rel [rotated]) (use assms in \<open>auto simp: strcmp_le_iff\<close>)
qed

lemma extract_append: "CHR ''.'' \<notin> set t \<Longrightarrow> extract_file_name_timestamp (s @ CHR ''.'' # t) u = t"
  by (simp add: extract_file_name_timestamp_def strrchr_append)

subsection \<open>File system lemmas\<close>

lemma file_content_update [simp]:
  "file_content (AList.update p (File c) fs) q = (if q = p then Some c else file_content fs q)"
  by (simp add: file_content_def update_conv')

lemma file_content_delete [simp]:
  "file_content (AList.delete p fs) q = (if q = p then None else file_content fs q)"
  by (simp add: file_content_def delete_conv')

lemma file_content_write: "can_write fs p \<Longrightarrow>
  file_content (write_path fs p c) q = (if q = p then Some c else file_content fs q)"
  by (simp add: write_path_def)

lemma file_content_remove:
  "file_content (remove_path fs p) q = (if q = p then None else file_content fs q)"
  by (auto simp: remove_path_def split: option.splits node.splits)
    (auto simp: file_content_def)

lemma dir_update_File:
  "map_of fs p \<noteq> Some Dir \<Longrightarrow> map_of (AList.update p (File c) fs) q = Some Dir \<longleftrightarrow> map_of fs q = Some Dir"
  by (auto simp: update_conv')

end
