(* ===== verification/Recovery.thy ===== *)
theory Recovery
  imports FileStore
begin

text \<open>
  The recovery side of sender.c: which family of backups to use
  (\<open>decide_recovery_type\<close>), and how the requested version is put together from a full
  backup and its deltas (\<open>combine_incremental_files\<close>, \<open>combine_differental_files\<close>),
  down to the path \<open>send_files\<close> opens.
\<close>

subsection \<open>Names of the backup store\<close>

definition backup_dir :: "string \<Rightarrow> string \<Rightarrow> string \<Rightarrow> string \<Rightarrow> string" where
  "backup_dir dir_name file_name kind sub
     = dir_name @ ''/'' @ file_name @ ''.backup/'' @ kind @ ''/'' @ sub @ ''/''"

definition recovery_file :: "string \<Rightarrow> string \<Rightarrow> string \<Rightarrow> string" where
  "recovery_file dir_name file_name ext
     = dir_name @ ''/'' @ file_name @ ''.backup/'' @ file_name @ ''.'' @ ext"

subsection \<open>decide_recovery_type\<close>

text \<open>
  The four lists; \<open>None\<close> when the directory cannot be read, and the list's \<open>num\<close> is
  then never set.
\<close>

record backup_lists =
  incre_full :: "string list option"
  incre_delta :: "string list option"
  diffe_full :: "string list option"
  diffe_delta :: "string list option"

definition files_of :: "string list option \<Rightarrow> string list" where
  "files_of l = (case l of None \<Rightarrow> [] | Some fs \<Rightarrow> fs)"

text \<open>The search from the newest file down for a time stamp at most \<open>v\<close>.\<close>

fun scan_le :: "string list \<Rightarrow> string \<Rightarrow> nat \<Rightarrow> string \<Rightarrow> bool \<times> string" where
  "scan_le files v 0 ts = (False, ts)"
| "scan_le files v (Suc i) ts =
     (let ts = extract_file_name_timestamp (files ! i) ts
      in if strcmp ts v \<le> 0 then (True, ts) else scan_le files v i ts)"

definition read_backup_lists :: "fs \<Rightarrow> string \<Rightarrow> string \<Rightarrow> backup_lists" where
  "read_backup_lists fs dir_name file_name =
     \<lparr>incre_full = read_sort_dir_files fs (backup_dir dir_name file_name ''incremental'' ''full''),
      incre_delta = read_sort_dir_files fs (backup_dir dir_name file_name ''incremental'' ''delta''),
      diffe_full = read_sort_dir_files fs (backup_dir dir_name file_name ''differential'' ''full''),
      diffe_delta = read_sort_dir_files fs (backup_dir dir_name file_name ''differential'' ''delta'')\<rparr>"

definition choose_type :: "backup_lists \<Rightarrow> string \<Rightarrow> int" where
  "choose_type ls v =
     (let fi = files_of (incre_full ls); di = files_of (incre_delta ls);
          fd = files_of (diffe_full ls); dd = files_of (diffe_delta ls)
      in if length fi = 0 \<and> length fd = 0 then - 1
         else if length fi = 0 \<and> length fd \<noteq> 0 then 1
         else if length fi \<noteq> 0 \<and> length fd = 0 then 0
         else
           let (find_di, ts_di) = scan_le di v (length di) [];
               (find_dd, ts_dd) = scan_le dd v (length dd) [];
               (find_fi, ts_fi) = scan_le fi v (length fi) [];
               (find_fd, ts_fd) = scan_le fd v (length fd) []
           in if \<not> find_di \<and> \<not> find_dd then
                (if find_fi \<and> find_fd then (if strcmp ts_fi ts_fd > 0 then 0 else 1)
                 else if find_fi \<and> \<not> find_fd then 0
                 else if \<not> find_fi \<and> find_fd then 1
                 else - 1)
              else if \<not> find_di \<and> find_dd then (if find_fi then 0 else 1)
              else if find_di \<and> \<not> find_dd then (if find_fd then 1 else 0)
              else if strcmp ts_di ts_dd > 0 then 0
              else 1)"

definition decide_recovery_type :: "fs \<Rightarrow> string \<Rightarrow> string \<Rightarrow> string \<Rightarrow> int \<times> backup_lists" where
  "decide_recovery_type fs dir_name file_name v =
     (let ls = read_backup_lists fs dir_name file_name in (choose_type ls v, ls))"

subsection \<open>combine_incremental_files\<close>

datatype full_choice = NoFull | ExactFull string | OlderFull nat string

fun find_full :: "string list \<Rightarrow> string \<Rightarrow> nat \<Rightarrow> string \<Rightarrow> full_choice" where
  "find_full files v 0 ts = NoFull"
| "find_full files v (Suc i) ts =
     (let ts = extract_file_name_timestamp (files ! i) ts; cmp = strcmp ts v
      in if cmp < 0 then OlderFull i ts
         else if cmp = 0 then ExactFull (files ! i)
         else find_full files v i ts)"

text \<open>The pair is \<open>(delta_index_start, delta_index_end)\<close>.\<close>

fun delta_range :: "string list \<Rightarrow> string \<Rightarrow> string \<Rightarrow> nat \<Rightarrow> string \<Rightarrow> int \<times> int \<Rightarrow> int \<times> int" where
  "delta_range files full_ts v 0 ts (st, en) = (st, en)"
| "delta_range files full_ts v (Suc i) ts (st, en) =
     (let ts = extract_file_name_timestamp (files ! i) ts;
          en = (if en = - 1 \<and> strcmp ts v \<le> 0 then int i else en)
      in if en \<noteq> - 1 \<and> strcmp ts full_ts > 0 then delta_range files full_ts v i ts (int i, en)
         else if en \<noteq> - 1 then (st, en)
         else delta_range files full_ts v i ts (st, en))"

text \<open>The loop over the deltas: the result of one is the basis of the next.\<close>

fun combine_run :: "os \<Rightarrow> string \<Rightarrow> string \<Rightarrow> fs \<Rightarrow> string \<Rightarrow> string list
    \<Rightarrow> delta_error + (int \<times> fs)" where
  "combine_run s rec tmp fs full [] = Inr (0, fs)"
| "combine_run s rec tmp fs full (d # ds) =
     (case file_content fs d of
        None \<Rightarrow> Inr (- 1, fs)
      | Some delta \<Rightarrow>
          (case file_content fs full of
             None \<Rightarrow> Inr (- 1, fs)
           | Some c \<Rightarrow>
               (case apply_delta s c delta of
                  Inl e \<Rightarrow> Inl e
                | Inr out \<Rightarrow>
                    let fs = write_path fs rec out in
                    if ds \<noteq> [] then
                      combine_run s rec tmp (write_path (write_path fs tmp out) rec []) tmp ds
                    else Inr (0, remove_path fs tmp))))"

definition combine_incremental_files :: "os \<Rightarrow> fs \<Rightarrow> string \<Rightarrow> string \<Rightarrow> string list option
    \<Rightarrow> string list option \<Rightarrow> string \<Rightarrow> string \<Rightarrow> delta_error + (int \<times> string \<times> fs)" where
  "combine_incremental_files s fs dir_name file_name fulls deltas v path =
     (case (fulls, deltas) of
        (Some full_files, Some delta_files) \<Rightarrow>
          (case find_full full_files v (length full_files) [] of
             NoFull \<Rightarrow> Inr (- 1, path, fs)
           | ExactFull p \<Rightarrow> Inr (0, p, fs)
           | OlderFull full_index full_ts \<Rightarrow>
               let (st, en) = delta_range delta_files full_ts v (length delta_files) [] (- 1, - 1)
               in if st = - 1 \<or> en = - 1 \<or> st > en then Inr (0, full_files ! full_index, fs)
                  else
                    let rec = recovery_file dir_name file_name ''recovery'';
                        tmp = recovery_file dir_name file_name ''recovery.tmp''
                    in if \<not> can_write fs rec then Inl Undefined
                       else map_sum id (\<lambda>(r, fs). (r, rec, fs))
                         (combine_run s rec tmp (write_path fs rec []) (full_files ! full_index)
                            (map (\<lambda>i. delta_files ! i) [nat st..<Suc (nat en)])))
      | _ \<Rightarrow> Inl Undefined)"

subsection \<open>combine_differental_files\<close>

fun find_delta :: "string list \<Rightarrow> string \<Rightarrow> string \<Rightarrow> nat \<Rightarrow> string \<Rightarrow> nat option" where
  "find_delta files full_ts v 0 ts = None"
| "find_delta files full_ts v (Suc i) ts =
     (let ts = extract_file_name_timestamp (files ! i) ts
      in if strcmp ts v \<le> 0 \<and> strcmp ts full_ts > 0 then Some i
         else find_delta files full_ts v i ts)"

definition combine_differental_files :: "os \<Rightarrow> fs \<Rightarrow> string \<Rightarrow> string \<Rightarrow> string list option
    \<Rightarrow> string list option \<Rightarrow> string \<Rightarrow> string \<Rightarrow> delta_error + (int \<times> string \<times> fs)" where
  "combine_differental_files s fs dir_name file_name fulls deltas v path =
     (case (fulls, deltas) of
        (Some full_files, Some delta_files) \<Rightarrow>
          (case find_full full_files v (length full_files) [] of
             NoFull \<Rightarrow> Inr (- 1, path, fs)
           | ExactFull p \<Rightarrow> Inr (0, p, fs)
           | OlderFull full_index full_ts \<Rightarrow>
               (case find_delta delta_files full_ts v (length delta_files) [] of
                  None \<Rightarrow> Inr (- 1, path, fs)
                | Some delta_index \<Rightarrow>
                    let rec = recovery_file dir_name file_name ''recovery'' in
                    if \<not> can_write fs rec then Inl Undefined
                    else
                      let fs = write_path fs rec [] in
                      (case (file_content fs (delta_files ! delta_index),
                             file_content fs (full_files ! full_index)) of
                         (Some delta, Some c) \<Rightarrow>
                           map_sum id (\<lambda>out. (0, rec, write_path fs rec out)) (apply_delta s c delta)
                       | _ \<Rightarrow> Inr (- 1, rec, fs))))
      | _ \<Rightarrow> Inl Undefined)"

subsection \<open>The path send_files opens in a recovery\<close>

text \<open>
  \<open>recovery_path\<close> stays empty when nothing could be put together; the return values of
  the combine functions are only logged.
\<close>

definition recovery_source :: "os \<Rightarrow> fs \<Rightarrow> string \<Rightarrow> string \<Rightarrow> delta_error + (string \<times> fs)" where
  "recovery_source s fs fname v =
     (if fname \<noteq> ''.'' \<and> fname \<noteq> ''..'' \<and> file_content fs fname \<noteq> None then
        let (dir_name, file_name) = split_path fname;
            (recovery_type, ls) = decide_recovery_type fs dir_name file_name v
        in if recovery_type = 0 then
             map_sum id snd (combine_incremental_files s fs dir_name file_name
               (incre_full ls) (incre_delta ls) v [])
           else if recovery_type = 1 then
             map_sum id snd (combine_differental_files s fs dir_name file_name
               (diffe_full ls) (diffe_delta ls) v [])
           else Inr ([], fs)
      else Inr ([], fs))"

end
