(* ===== verification/History.thy ===== *)
theory History
  imports Recovery
begin

text \<open>
  What the backup store is meant to hold: a history of versions, and the relation between a
  history and the files of the incremental and the differential store. The lemmas of the
  second half say what the searches of the recovery code find in such a store.
\<close>

subsection \<open>Time stamps and file names\<close>

definition ts_ok :: "string \<Rightarrow> bool" where
  "ts_ok t \<longleftrightarrow> CHR ''.'' \<notin> set t \<and> CHR ''/'' \<notin> set t \<and> no_nul t"

definition full_name :: "string \<Rightarrow> string \<Rightarrow> string \<Rightarrow> string \<Rightarrow> string" where
  "full_name d f kind t = backup_dir d f kind ''full'' @ f @ ''.full.'' @ t"

definition delta_name :: "string \<Rightarrow> string \<Rightarrow> string \<Rightarrow> string \<Rightarrow> string" where
  "delta_name d f kind t = backup_dir d f kind ''delta'' @ f @ ''.delta.'' @ t"

lemma extract_full_name: "ts_ok t \<Longrightarrow> extract_file_name_timestamp (full_name d f kind t) u = t"
  using extract_append [of t "backup_dir d f kind ''full'' @ f @ ''.full''" u]
  by (simp add: full_name_def ts_ok_def)

lemma extract_delta_name: "ts_ok t \<Longrightarrow> extract_file_name_timestamp (delta_name d f kind t) u = t"
  using extract_append [of t "backup_dir d f kind ''delta'' @ f @ ''.delta''" u]
  by (simp add: delta_name_def ts_ok_def)

lemma prefix_less_iff [simp]: "(p @ s < p @ t) = (s < (t :: string))"
  by (induction p) simp_all

lemma full_name_eq_iff [simp]: "full_name d f kind s = full_name d f kind t \<longleftrightarrow> s = t"
  by (simp add: full_name_def)

lemma delta_name_eq_iff [simp]: "delta_name d f kind s = delta_name d f kind t \<longleftrightarrow> s = t"
  by (simp add: delta_name_def)

lemma full_name_less_iff [simp]: "full_name d f kind s < full_name d f kind t \<longleftrightarrow> s < t"
  by (simp add: full_name_def del: append_assoc flip: append_assoc)

lemma delta_name_less_iff [simp]: "delta_name d f kind s < delta_name d f kind t \<longleftrightarrow> s < t"
  by (simp add: delta_name_def del: append_assoc flip: append_assoc)

lemma name_clashes [simp]:
  "full_name d f kind t \<noteq> delta_name d f kind u"
  "delta_name d f kind u \<noteq> full_name d f kind t"
  "recovery_file d f ''recovery'' \<noteq> recovery_file d f ''recovery.tmp''"
  by (simp_all add: full_name_def delta_name_def backup_dir_def recovery_file_def)

text \<open>
  A recovery file has one component less than the backups beside it: the first character after
  the common prefix that decides is in the file name, so the file name has no slash.
\<close>

lemma recovery_not_backup:
  assumes "CHR ''/'' \<notin> set f"
  shows "recovery_file d f ''recovery'' \<noteq> full_name d f kind t"
    and "recovery_file d f ''recovery'' \<noteq> delta_name d f kind t"
    and "recovery_file d f ''recovery.tmp'' \<noteq> full_name d f kind t"
    and "recovery_file d f ''recovery.tmp'' \<noteq> delta_name d f kind t"
proof -
  have *: "CHR ''/'' \<notin> set (f @ ''.recovery'')" "CHR ''/'' \<notin> set (f @ ''.recovery.tmp'')"
    using assms by simp_all
  have "f @ ''.recovery'' \<noteq> kind @ CHR ''/'' # r" "f @ ''.recovery.tmp'' \<noteq> kind @ CHR ''/'' # r" for r
    using * by (metis in_set_conv_decomp)+
  then show "recovery_file d f ''recovery'' \<noteq> full_name d f kind t"
    and "recovery_file d f ''recovery'' \<noteq> delta_name d f kind t"
    and "recovery_file d f ''recovery.tmp'' \<noteq> full_name d f kind t"
    and "recovery_file d f ''recovery.tmp'' \<noteq> delta_name d f kind t"
    by (simp_all add: recovery_file_def full_name_def delta_name_def backup_dir_def)
qed

subsection \<open>Histories\<close>

type_synonym history = "(string \<times> byte list) list"

definition hist_ok :: "history \<Rightarrow> bool" where
  "hist_ok h \<longleftrightarrow> sorted_wrt (<) (map fst h) \<and> (\<forall>t\<in>set (map fst h). ts_ok t)"

definition content_at :: "history \<Rightarrow> string \<Rightarrow> byte list option" where
  "content_at h v = (case filter (\<lambda>e. fst e \<le> v) h of [] \<Rightarrow> None | l \<Rightarrow> Some (snd (last l)))"

definition reproduces :: "byte list \<Rightarrow> byte list \<Rightarrow> byte list \<Rightarrow> bool" where
  "reproduces c delta c' \<longleftrightarrow> (\<forall>s. os_ok s \<longrightarrow> apply_delta s c delta = Inr c')"

definition store_lists :: "fs \<Rightarrow> string \<Rightarrow> string \<Rightarrow> string \<Rightarrow> string list \<Rightarrow> string list \<Rightarrow> bool" where
  "store_lists fs d f kind fts dts \<longleftrightarrow>
     read_sort_dir_files fs (backup_dir d f kind ''full'') = Some (map (full_name d f kind) fts)
     \<and> read_sort_dir_files fs (backup_dir d f kind ''delta'') = Some (map (delta_name d f kind) dts)
     \<and> sorted_wrt (<) fts \<and> sorted_wrt (<) dts"

text \<open>
  The incremental store of a history: every full backup is a version of it, the deltas are the
  versions after the oldest full backup, and each delta turns the version before it into its
  own.
\<close>

definition incr_store :: "fs \<Rightarrow> string \<Rightarrow> string \<Rightarrow> history \<Rightarrow> string list \<Rightarrow> string list \<Rightarrow> bool" where
  "incr_store fs d f h fts dts \<longleftrightarrow>
     store_lists fs d f ''incremental'' fts dts \<and> hist_ok h \<and> fts \<noteq> []
     \<and> (\<forall>t\<in>set fts. map_of h t \<noteq> None \<and> file_content fs (full_name d f ''incremental'' t) = map_of h t)
     \<and> set dts = {t \<in> set (map fst h). hd fts < t}
     \<and> (\<forall>i. Suc i < length h \<longrightarrow> fst (h ! Suc i) \<in> set dts \<longrightarrow>
          (\<exists>delta. file_content fs (delta_name d f ''incremental'' (fst (h ! Suc i))) = Some delta
             \<and> reproduces (snd (h ! i)) delta (snd (h ! Suc i))))"

text \<open>
  The differential store: each delta turns the newest full backup before it into its own
  version.
\<close>

definition diff_store :: "fs \<Rightarrow> string \<Rightarrow> string \<Rightarrow> history \<Rightarrow> string list \<Rightarrow> string list \<Rightarrow> bool" where
  "diff_store fs d f h fts dts \<longleftrightarrow>
     store_lists fs d f ''differential'' fts dts \<and> hist_ok h \<and> fts \<noteq> []
     \<and> (\<forall>t\<in>set fts. map_of h t \<noteq> None \<and> file_content fs (full_name d f ''differential'' t) = map_of h t)
     \<and> (\<forall>t\<in>set dts. ts_ok t \<and> (\<exists>delta c c' F.
          file_content fs (delta_name d f ''differential'' t) = Some delta \<and> map_of h t = Some c
          \<and> F \<in> set fts \<and> F < t \<and> (\<forall>G\<in>set fts. G < t \<longrightarrow> G \<le> F)
          \<and> map_of h F = Some c' \<and> reproduces c' delta c))"

subsection \<open>Sorted lists and thresholds\<close>

lemma sorted_threshold:
  assumes "sorted_wrt (<) (xs :: string list)"
  obtains a where "a \<le> length xs" "\<And>i. i < length xs \<Longrightarrow> xs ! i \<le> v \<longleftrightarrow> i < a"
proof
  let ?a = "length (takeWhile (\<lambda>x. x \<le> v) xs)"
  show "?a \<le> length xs" by (rule length_takeWhile_le)
  fix i assume i: "i < length xs"
  show "xs ! i \<le> v \<longleftrightarrow> i < ?a"
  proof
    assume le: "xs ! i \<le> v"
    show "i < ?a"
    proof (rule ccontr)
      assume n: "\<not> i < ?a"
      with i have a: "?a < length xs" by simp
      then have "\<not> xs ! ?a \<le> v" by (rule nth_length_takeWhile)
      moreover have "xs ! ?a \<le> xs ! i"
        using assms n i by (cases "?a = i") (auto simp: sorted_wrt_iff_nth_less less_imp_le)
      ultimately show False using le by order
    qed
  next
    assume "i < ?a"
    then show "xs ! i \<le> v"
      by (metis nth_mem set_takeWhileD takeWhile_nth)
  qed
qed

lemma filter_between:
  assumes "\<And>i. i < length xs \<Longrightarrow> P (xs ! i) \<longleftrightarrow> a \<le> i \<and> i < b" and "a \<le> b" and "b \<le> length xs"
  shows "filter P xs = drop a (take b xs)"
proof -
  have xs: "xs = take a xs @ drop a (take b xs) @ drop b xs"
    using assms(2,3) by (metis append_take_drop_id take_take min.absorb2 append_assoc min.commute)
  have "filter P (take a xs) = []" "filter P (drop b xs) = []"
    using assms by (auto simp: filter_empty_conv in_set_conv_nth)
  moreover have "filter P (drop a (take b xs)) = drop a (take b xs)"
    using assms by (auto simp: filter_id_conv in_set_conv_nth)
  ultimately show ?thesis
    by (subst xs) simp
qed

text \<open>The last index below \<open>k\<close> whose entry is at most \<open>v\<close>.\<close>

fun last_le :: "string list \<Rightarrow> string \<Rightarrow> nat \<Rightarrow> nat option" where
  "last_le ts v 0 = None"
| "last_le ts v (Suc i) = (if ts ! i \<le> v then Some i else last_le ts v i)"

lemma last_le_Some:
  "last_le ts v k = Some i \<Longrightarrow> i < k \<and> ts ! i \<le> v \<and> (\<forall>j. i < j \<longrightarrow> j < k \<longrightarrow> \<not> ts ! j \<le> v)"
  by (induction k) (auto split: if_splits simp: less_Suc_eq)

lemma last_le_None: "last_le ts v k = None \<longleftrightarrow> (\<forall>j<k. \<not> ts ! j \<le> v)"
  by (induction k) (auto simp: less_Suc_eq)

end
