(* ===== verification/RecoverySpec.thy ===== *)
theory RecoverySpec
  imports History
begin

text \<open>
  What the recovery code returns on a store of a history: the searches find the newest full
  backup and the deltas between it and the requested version, and putting them together gives
  the content of the newest version that is not younger than the requested one.
\<close>

subsection \<open>The searches\<close>

lemma find_full_last_le:
  assumes "\<And>t u. t \<in> set ts \<Longrightarrow> extract_file_name_timestamp (nm t) u = t"
    and "\<forall>t\<in>set ts. no_nul t" and "no_nul v" and "k \<le> length ts"
  shows "find_full (map nm ts) v k u = (case last_le ts v k of None \<Rightarrow> NoFull
    | Some i \<Rightarrow> if ts ! i = v then ExactFull (nm (ts ! i)) else OlderFull i (ts ! i))"
  using assms(4)
proof (induction k arbitrary: u)
  case (Suc k)
  then have m: "ts ! k \<in> set ts" by simp
  have n: "no_nul (ts ! k)" using m assms(2) by blast
  show ?case
    using Suc m assms(1) [OF m] strcmp_less_iff [OF n assms(3)] strcmp_eq_iff [OF n assms(3)]
    by (auto simp: Let_def)
qed simp

lemma scan_le_last_le:
  assumes "\<And>t u. t \<in> set ts \<Longrightarrow> extract_file_name_timestamp (nm t) u = t"
    and "\<forall>t\<in>set ts. no_nul t" and "no_nul v" and "k \<le> length ts"
  shows "\<exists>x. scan_le (map nm ts) v k u = (case last_le ts v k of None \<Rightarrow> (False, x)
    | Some i \<Rightarrow> (True, ts ! i))"
  using assms(4)
proof (induction k arbitrary: u)
  case (Suc k)
  then have m: "ts ! k \<in> set ts" by simp
  have n: "no_nul (ts ! k)" using m assms(2) by blast
  show ?case
    using Suc m assms(1) [OF m] strcmp_le_iff [OF n assms(3)] by (auto simp: Let_def)
qed simp

lemma find_delta_between:
  assumes "\<And>t u. t \<in> set ts \<Longrightarrow> extract_file_name_timestamp (nm t) u = t"
    and "\<forall>t\<in>set ts. no_nul t" and "no_nul v" and "no_nul F" and "k \<le> length ts"
  shows "case find_delta (map nm ts) F v k u of
      Some i \<Rightarrow> i < k \<and> ts ! i \<le> v \<and> F < ts ! i
        \<and> (\<forall>j. i < j \<longrightarrow> j < k \<longrightarrow> \<not> (ts ! j \<le> v \<and> F < ts ! j))
    | None \<Rightarrow> (\<forall>j<k. \<not> (ts ! j \<le> v \<and> F < ts ! j))"
  using assms(5)
proof (induction k arbitrary: u)
  case (Suc k)
  then have m: "ts ! k \<in> set ts" by simp
  have n: "no_nul (ts ! k)" using m assms(2) by blast
  note c = strcmp_le_iff [OF n assms(3)] strcmp_greater_iff [OF n assms(4)]
  show ?case
    using Suc.IH [of "ts ! k"] Suc.prems m assms(1) [OF m] c
    by (auto simp: Let_def less_Suc_eq split: option.splits)
qed simp

lemma delta_range_high:
  assumes "\<And>t u. t \<in> set ts \<Longrightarrow> extract_file_name_timestamp (nm t) u = t"
    and "\<forall>t\<in>set ts. no_nul t" and "no_nul v" and "b + n \<le> length ts"
    and "\<And>j. b \<le> j \<Longrightarrow> j < length ts \<Longrightarrow> \<not> ts ! j \<le> v"
  shows "\<exists>u'. delta_range (map nm ts) F v (b + n) u (- 1, - 1)
    = delta_range (map nm ts) F v b u' (- 1, - 1)"
  using assms(4)
proof (induction n arbitrary: u)
  case (Suc n)
  then have m: "ts ! (b + n) \<in> set ts" and l: "b + n < length ts" by simp_all
  have k: "no_nul (ts ! (b + n))" using m assms(2) by blast
  have "\<not> ts ! (b + n) \<le> v" using assms(5) l by simp
  then have "delta_range (map nm ts) F v (b + Suc n) u (- 1, - 1)
      = delta_range (map nm ts) F v (b + n) (ts ! (b + n)) (- 1, - 1)"
    using l assms(1) [OF m] strcmp_le_iff [OF k assms(3)] by (simp add: Let_def)
  with Suc show ?case by simp
qed auto

lemma delta_range_low:
  assumes "\<And>t u. t \<in> set ts \<Longrightarrow> extract_file_name_timestamp (nm t) u = t"
    and "\<forall>t\<in>set ts. no_nul t" and "no_nul F" and "a + n \<le> length ts" and "en \<noteq> - 1"
    and "\<And>j. a \<le> j \<Longrightarrow> j < a + n \<Longrightarrow> F < ts ! j"
    and "\<And>j. j < a \<Longrightarrow> \<not> F < ts ! j"
  shows "delta_range (map nm ts) F v (a + n) u (st, en) = (if n = 0 then st else int a, en)"
  using assms(4,6)
proof (induction n arbitrary: u st)
  case 0
  show ?case
  proof (cases a)
    case (Suc a')
    then have m: "ts ! a' \<in> set ts" and l: "a' < length ts" using 0 by simp_all
    have k: "no_nul (ts ! a')" using m assms(2) by blast
    have "\<not> F < ts ! a'" using assms(7) [of a'] Suc by simp
    then show ?thesis
      using Suc l assms(1) [OF m] assms(5) strcmp_greater_iff [OF k assms(3)] by (simp add: Let_def)
  qed simp
next
  case (Suc n)
  then have m: "ts ! (a + n) \<in> set ts" and l: "a + n < length ts" by simp_all
  have k: "no_nul (ts ! (a + n))" using m assms(2) by blast
  have "F < ts ! (a + n)" using Suc.prems(2) by simp
  then have "delta_range (map nm ts) F v (a + Suc n) u (st, en)
      = delta_range (map nm ts) F v (a + n) (ts ! (a + n)) (int (a + n), en)"
    using l assms(1) [OF m] assms(5) strcmp_greater_iff [OF k assms(3)] by (simp add: Let_def)
  also have "\<dots> = (int a, en)"
    using Suc by (simp add: Suc.IH)
  finally show ?case by simp
qed

lemma delta_range_between:
  assumes nm: "\<And>t u. t \<in> set ts \<Longrightarrow> extract_file_name_timestamp (nm t) u = t"
    and ok: "\<forall>t\<in>set ts. no_nul t" "no_nul v" "no_nul F" and "sorted_wrt (<) ts" and "F \<le> v"
    and r: "delta_range (map nm ts) F v (length ts) u (- 1, - 1) = (st, en)"
  defines "sel \<equiv> filter (\<lambda>t. F < t \<and> t \<le> v) ts"
  shows "if sel = [] then st = - 1
    else 0 \<le> st \<and> st \<le> en \<and> map (\<lambda>i. map nm ts ! i) [nat st..<Suc (nat en)] = map nm sel"
proof -
  obtain a where a: "a \<le> length ts" "\<And>i. i < length ts \<Longrightarrow> ts ! i \<le> F \<longleftrightarrow> i < a"
    using sorted_threshold [OF assms(5)] by metis
  obtain b where b: "b \<le> length ts" "\<And>i. i < length ts \<Longrightarrow> ts ! i \<le> v \<longleftrightarrow> i < b"
    using sorted_threshold [OF assms(5)] by metis
  have ab: "a \<le> b"
  proof (rule ccontr)
    assume "\<not> a \<le> b"
    with a b have "b < length ts" "ts ! b \<le> F" by simp_all
    with b(2) [of b] assms(6) show False by auto
  qed
  have sel: "sel = drop a (take b ts)"
    unfolding sel_def using a b ab by (intro filter_between) (auto simp: not_le [symmetric])
  obtain u' where u': "delta_range (map nm ts) F v (length ts) u (- 1, - 1)
      = delta_range (map nm ts) F v b u' (- 1, - 1)"
    using delta_range_high [OF nm ok(1,2), of b "length ts - b" F u] b by fastforce
  show ?thesis
  proof (cases b)
    case 0
    with r u' sel show ?thesis by simp
  next
    case (Suc b')
    then have m: "ts ! b' \<in> set ts" and l: "b' < length ts" using b by simp_all
    have k: "no_nul (ts ! b')" using m ok(1) by blast
    have le: "ts ! b' \<le> v" using b(2) [OF l] Suc by simp
    show ?thesis
    proof (cases "a = b")
      case True
      then have "\<not> F < ts ! b'" using a(2) [OF l] Suc by simp
      then have "delta_range (map nm ts) F v b u' (- 1, - 1) = (- 1, int b')"
        using Suc l nm [OF m] le strcmp_le_iff [OF k ok(2)] strcmp_greater_iff [OF k ok(3)]
        by (simp add: Let_def)
      with r u' True sel show ?thesis by simp
    next
      case False
      with ab Suc obtain n where n: "b' = a + n" by (metis less_Suc_eq_le le_neq_implies_less le_Suc_ex)
      have "F < ts ! b'" using a(2) [OF l] n by auto
      then have "delta_range (map nm ts) F v b u' (- 1, - 1)
          = delta_range (map nm ts) F v (a + n) (ts ! b') (int b', int b')"
        using Suc l nm [OF m] le n strcmp_le_iff [OF k ok(2)] strcmp_greater_iff [OF k ok(3)]
        by (simp add: Let_def)
      also have "\<dots> = (if n = 0 then int b' else int a, int b')"
        using a l n by (intro delta_range_low [OF nm ok(1,3)]) (auto simp: not_le [symmetric])
      finally have se: "st = int a" "en = int b'" using r u' n by (simp_all split: if_splits)
      have "sel \<noteq> []" using sel False ab b by simp
      moreover have "map (\<lambda>i. map nm ts ! i) [a..<Suc b'] = map nm sel"
        unfolding sel using Suc b by (intro nth_equalityI [where 'a = string]) (auto simp: add.commute simp del: upt_Suc)
      moreover have "nat st = a" "nat en = b'" "0 \<le> st" "st \<le> en" using se n by simp_all
      ultimately show ?thesis by (simp del: upt_Suc)
    qed
  qed
qed

subsection \<open>Running the deltas\<close>

fun apply_chain :: "os \<Rightarrow> fs \<Rightarrow> byte list \<Rightarrow> string list \<Rightarrow> byte list option" where
  "apply_chain s fs c [] = Some c"
| "apply_chain s fs c (d # ds) =
     (case file_content fs d of
        None \<Rightarrow> None
      | Some delta \<Rightarrow>
          (case apply_delta s c delta of Inl e \<Rightarrow> None | Inr out \<Rightarrow> apply_chain s fs out ds))"

lemma apply_chain_cong:
  "(\<And>d. d \<in> set ds \<Longrightarrow> file_content fs d = file_content fs' d)
    \<Longrightarrow> apply_chain s fs c ds = apply_chain s fs' c ds"
  by (induction ds arbitrary: c) (auto split: option.splits sum.splits)

lemma can_write_write: "can_write fs p \<Longrightarrow> can_write (write_path fs q c) p"
  by (auto simp: can_write_def write_path_def dir_ok_def update_conv')

lemma combine_run_chain:
  assumes "apply_chain s fs c ds = Some out" and "ds \<noteq> []" and "file_content fs full = Some c"
    and "can_write fs rec" and "can_write fs tmp" and "rec \<noteq> tmp"
    and "rec \<notin> set ds" and "tmp \<notin> set ds"
  shows "\<exists>fs'. combine_run s rec tmp fs full ds = Inr (0, fs') \<and> file_content fs' rec = Some out
    \<and> (\<forall>q. q \<noteq> rec \<longrightarrow> q \<noteq> tmp \<longrightarrow> file_content fs' q = file_content fs q)"
  using assms
proof (induction ds arbitrary: fs full c)
  case (Cons d ds)
  then obtain delta mid where d: "file_content fs d = Some delta" "apply_delta s c delta = Inr mid"
      and rest: "apply_chain s fs mid ds = Some out"
    by (auto split: option.splits sum.splits)
  let ?fs1 = "write_path fs rec mid"
  let ?fs2 = "write_path (write_path ?fs1 tmp mid) rec []"
  have w: "can_write ?fs1 tmp" "can_write (write_path ?fs1 tmp mid) rec"
    using Cons.prems by (simp_all add: can_write_write)
  have fc: "file_content ?fs1 q = (if q = rec then Some mid else file_content fs q)" for q
    using Cons.prems by (simp add: file_content_write)
  have fc2: "file_content ?fs2 q = (if q = rec then Some [] else if q = tmp then Some mid
      else file_content fs q)" for q
    using w Cons.prems by (simp add: file_content_write)
  show ?case
  proof (cases "ds = []")
    case True
    with d rest Cons.prems fc show ?thesis
      by (auto simp: file_content_remove Let_def)
  next
    case False
    have "apply_chain s ?fs2 mid ds = Some out"
      using rest Cons.prems(7,8) fc2
      by (subst apply_chain_cong [where fs' = fs]) auto
    from Cons.IH [OF this False, of tmp] have "\<exists>fs'. combine_run s rec tmp ?fs2 tmp ds = Inr (0, fs')
        \<and> file_content fs' rec = Some out
        \<and> (\<forall>q. q \<noteq> rec \<longrightarrow> q \<noteq> tmp \<longrightarrow> file_content fs' q = file_content ?fs2 q)"
      using Cons.prems fc2 by (simp add: can_write_write)
    then show ?thesis
      using False d Cons.prems(3) fc2 by (auto simp: Let_def)
  qed
qed simp

subsection \<open>Content of a version\<close>

lemma content_at_index:
  assumes "\<And>i. i < length h \<Longrightarrow> fst (h ! i) \<le> v \<longleftrightarrow> i < b" and "b \<le> length h" and "0 < b"
  shows "content_at h v = Some (snd (h ! (b - 1)))"
proof -
  have "filter (\<lambda>e. fst e \<le> v) h = drop 0 (take b h)"
    using assms by (intro filter_between) auto
  then have "filter (\<lambda>e. fst e \<le> v) h = take b h" by simp
  moreover have "take b h \<noteq> []" using assms by auto
  moreover have "last (take b h) = h ! (b - 1)"
    using assms take_Suc_conv_app_nth [of "b - 1" h] by simp
  ultimately show ?thesis by (cases "take b h") (simp_all add: content_at_def)
qed

lemma hist_nth_map_of:
  assumes "hist_ok h" and "i < length h"
  shows "map_of h (fst (h ! i)) = Some (snd (h ! i))"
proof -
  have "distinct (map fst h)"
    using assms(1) by (auto simp: hist_ok_def strict_sorted_iff)
  then show ?thesis using assms(2) by simp
qed

lemma chain_of_history:
  assumes "os_ok s" and "b \<le> length h" and "j < b"
    and "\<And>i. j \<le> i \<Longrightarrow> Suc i < b \<Longrightarrow> \<exists>delta. file_content fs (nm (fst (h ! Suc i))) = Some delta
      \<and> reproduces (snd (h ! i)) delta (snd (h ! Suc i))"
  shows "apply_chain s fs (snd (h ! j)) (map (\<lambda>e. nm (fst e)) (drop (Suc j) (take b h)))
    = Some (snd (h ! (b - 1)))"
  using assms(3,4)
proof (induction "b - Suc j" arbitrary: j)
  case 0
  then have "b = Suc j" by simp
  then show ?case by simp
next
  case (Suc n)
  then have j: "Suc j < b" by simp
  with Suc.prems obtain delta where d: "file_content fs (nm (fst (h ! Suc j))) = Some delta"
      "reproduces (snd (h ! j)) delta (snd (h ! Suc j))" by blast
  have "drop (Suc j) (take b h) = h ! Suc j # drop (Suc (Suc j)) (take b h)"
    using j assms(2) by (subst Cons_nth_drop_Suc [symmetric]) auto
  with Suc d j show ?case using assms(1) by (simp add: reproduces_def)
qed

lemma store_names:
  assumes "store_lists fs d f kind fts dts"
  shows "read_sort_dir_files fs (backup_dir d f kind ''full'') = Some (map (full_name d f kind) fts)"
    and "read_sort_dir_files fs (backup_dir d f kind ''delta'') = Some (map (delta_name d f kind) dts)"
    and "sorted_wrt (<) fts" and "sorted_wrt (<) dts"
  using assms by (auto simp: store_lists_def)

lemma last_le_newest:
  assumes "sorted_wrt (<) fts" and "fts \<noteq> []" and "hd fts \<le> v"
  obtains i where "last_le fts v (length fts) = Some i" "i < length fts" "fts ! i \<le> v"
    "\<And>G. G \<in> set fts \<Longrightarrow> G \<le> v \<Longrightarrow> G \<le> fts ! i" "hd fts \<le> fts ! i"
proof -
  have "fts ! 0 \<le> v" "0 < length fts" using assms by (simp_all add: hd_conv_nth)
  then obtain i where i: "last_le fts v (length fts) = Some i"
    using last_le_None by (metis not_None_eq)
  note l = last_le_Some [OF i]
  have "G \<le> fts ! i" if G: "G \<in> set fts" "G \<le> v" for G
  proof -
    obtain j where j: "j < length fts" "fts ! j = G" using G(1) by (auto simp: in_set_conv_nth)
    with l G(2) have "\<not> i < j" by auto
    then show ?thesis
      using assms(1) j l by (cases "i = j") (auto simp: sorted_wrt_iff_nth_less less_imp_le)
  qed
  with i l that \<open>0 < length fts\<close> \<open>fts ! 0 \<le> v\<close> assms(2) show ?thesis
    by (metis hd_conv_nth nth_mem)
qed

lemma find_full_newest:
  assumes "sorted_wrt (<) fts" and "fts \<noteq> []" and "hd fts \<le> v" and "no_nul v"
    and "\<And>t. t \<in> set fts \<Longrightarrow> ts_ok t"
  obtains i where "i < length fts" "fts ! i \<le> v" "hd fts \<le> fts ! i"
    "\<And>G. G \<in> set fts \<Longrightarrow> G \<le> v \<Longrightarrow> G \<le> fts ! i"
    "\<And>d f kind. find_full (map (full_name d f kind) fts) v (length fts) []
      = (if fts ! i = v then ExactFull (full_name d f kind (fts ! i)) else OlderFull i (fts ! i))"
proof -
  obtain i where i: "last_le fts v (length fts) = Some i" "i < length fts" "fts ! i \<le> v"
      "\<And>G. G \<in> set fts \<Longrightarrow> G \<le> v \<Longrightarrow> G \<le> fts ! i" "hd fts \<le> fts ! i"
    using last_le_newest [OF assms(1-3)] by metis
  have "find_full (map (full_name d f kind) fts) v (length fts) []
      = (if fts ! i = v then ExactFull (full_name d f kind (fts ! i)) else OlderFull i (fts ! i))"
    for d f kind
    using find_full_last_le [where nm = "full_name d f kind" and ts = fts and v = v
        and k = "length fts" and u = "[]"] assms(4,5) i(1) by (simp add: extract_full_name ts_ok_def)
  with i show ?thesis by (intro that)
qed

theorem combine_incremental_correct:
  assumes "os_ok s" and store: "incr_store fs d f h fts dts" and "hd fts \<le> v" and "no_nul v"
    and "CHR ''/'' \<notin> set f"
    and "can_write fs (recovery_file d f ''recovery'')"
    and "can_write fs (recovery_file d f ''recovery.tmp'')"
  shows "\<exists>p fs'. combine_incremental_files s fs d f
      (read_sort_dir_files fs (backup_dir d f ''incremental'' ''full''))
      (read_sort_dir_files fs (backup_dir d f ''incremental'' ''delta'')) v p0 = Inr (0, p, fs')
    \<and> file_content fs' p = content_at h v \<and> content_at h v \<noteq> None"
proof -
  let ?fn = "full_name d f ''incremental''" and ?dn = "delta_name d f ''incremental''"
  let ?rec = "recovery_file d f ''recovery''" and ?tmp = "recovery_file d f ''recovery.tmp''"
  have lists: "store_lists fs d f ''incremental'' fts dts" and h: "hist_ok h" and ne: "fts \<noteq> []"
    and full: "\<And>t. t \<in> set fts \<Longrightarrow> map_of h t \<noteq> None \<and> file_content fs (?fn t) = map_of h t"
    and dset: "set dts = {t \<in> set (map fst h). hd fts < t}"
    and delta: "\<And>i. Suc i < length h \<Longrightarrow> fst (h ! Suc i) \<in> set dts \<Longrightarrow>
          \<exists>delta. file_content fs (?dn (fst (h ! Suc i))) = Some delta
             \<and> reproduces (snd (h ! i)) delta (snd (h ! Suc i))"
    using store by (auto simp: incr_store_def)
  note sn = store_names [OF lists]
  have hs: "sorted_wrt (<) (map fst h)" and ht: "\<And>t. t \<in> set (map fst h) \<Longrightarrow> ts_ok t"
    using h by (auto simp: hist_ok_def)
  have fts_h: "t \<in> set (map fst h)" if "t \<in> set fts" for t
    using full [OF that] by (auto dest: map_of_SomeD simp: image_iff) (force dest: map_of_SomeD)
  have ft: "ts_ok t" if "t \<in> set fts" for t using fts_h [OF that] ht by blast
  have dt: "ts_ok t" if "t \<in> set dts" for t using that dset ht by blast
  obtain i where i: "i < length fts" "fts ! i \<le> v" "hd fts \<le> fts ! i"
    and ff: "\<And>d f kind. find_full (map (full_name d f kind) fts) v (length fts) []
      = (if fts ! i = v then ExactFull (full_name d f kind (fts ! i)) else OlderFull i (fts ! i))"
    using find_full_newest [OF sn(3) ne assms(3,4) ft] by metis
  let ?F = "fts ! i"
  have F: "?F \<in> set fts" using i(1) by simp
  obtain b where b: "b \<le> length h" "\<And>k. k < length h \<Longrightarrow> fst (h ! k) \<le> v \<longleftrightarrow> k < b"
    using sorted_threshold [OF hs, of v] by (metis length_map nth_map)
  obtain a where a: "a < length h" "fst (h ! a) = ?F"
    using fts_h [OF F] by (auto simp: in_set_conv_nth)
  have ab: "a < b" using a b(2) [OF a(1)] i(2) by simp
  have cF: "file_content fs (?fn ?F) = Some (snd (h ! a))"
    using full [OF F] hist_nth_map_of [OF h a(1)] a(2) by simp
  have cv: "content_at h v = Some (snd (h ! (b - 1)))"
    using content_at_index [of h v b] b ab by simp
  have mono: "fst (h ! k) < fst (h ! l)" if "k < l" "l < length h" for k l
    using hs that by (auto simp: sorted_wrt_iff_nth_less)
  have hF: "?F < fst (h ! k) \<longleftrightarrow> a < k" if "k < length h" for k
    using mono [of a k] mono [of k a] that a by (metis not_less_iff_gr_or_eq)
  have between: "filter (\<lambda>t. ?F < t \<and> t \<le> v) (map fst h) = map fst (drop (Suc a) (take b h))"
    using b ab hF by (subst filter_between [where a = "Suc a" and b = b])
      (auto simp: drop_map take_map)
  have sel: "filter (\<lambda>t. ?F < t \<and> t \<le> v) dts = map fst (drop (Suc a) (take b h))"
  proof -
    have "set (filter (\<lambda>t. ?F < t \<and> t \<le> v) dts) = set (filter (\<lambda>t. ?F < t \<and> t \<le> v) (map fst h))"
      using dset i(3) by auto
    then have "filter (\<lambda>t. ?F < t \<and> t \<le> v) dts = filter (\<lambda>t. ?F < t \<and> t \<le> v) (map fst h)"
      using sn(4) hs by (intro strict_sorted_equal) (auto simp: sorted_wrt_filter)
    with between show ?thesis by simp
  qed
  obtain st en where r: "delta_range (map ?dn dts) ?F v (length dts) [] (- 1, - 1) = (st, en)"
    by fastforce
  have rng: "if map fst (drop (Suc a) (take b h)) = [] then st = - 1
    else 0 \<le> st \<and> st \<le> en \<and> map (\<lambda>i. map ?dn dts ! i) [nat st..<Suc (nat en)]
        = map ?dn (map fst (drop (Suc a) (take b h)))"
    using delta_range_between [where nm = ?dn and ts = dts and F = ?F and v = v and u = "[]", OF _ _ _ _ sn(4) i(2) r]
      dt ft [OF F] assms(4) unfolding sel by (simp add: extract_delta_name ts_ok_def)
  show ?thesis
  proof (cases "?F = v \<or> drop (Suc a) (take b h) = []")
    case True
    have "b - 1 = a"
    proof (cases "?F = v")
      case True
      then have "\<not> a < b - 1" using hF [of "b - 1"] b(2) [of "b - 1"] b(1) ab by force
      with ab show ?thesis by simp
    next
      case False
      with True ab b show ?thesis by simp
    qed
    with True show ?thesis
      using ff r rng cF cv sn(1,2) i(1) by (auto simp: combine_incremental_files_def)
  next
    case False
    let ?ds = "map (\<lambda>e. ?dn (fst e)) (drop (Suc a) (take b h))"
    have nd: "?rec \<notin> set ?ds" "?tmp \<notin> set ?ds" "?rec \<noteq> ?fn ?F"
      using recovery_not_backup [OF assms(5), of d] by (auto simp: image_iff)
    have chain: "apply_chain s fs (snd (h ! a)) ?ds = Some (snd (h ! (b - 1)))"
    proof (rule chain_of_history [OF assms(1) b(1) ab])
      fix k assume k: "a \<le> k" "Suc k < b"
      then have "Suc k < length h" using b(1) by simp
      moreover have "fst (h ! Suc k) \<in> set dts"
        using k hF [of "Suc k"] i(3) b(1) dset by (auto intro!: nth_mem image_eqI [of _ fst "h ! Suc k"])
      ultimately show "\<exists>delta. file_content fs (?dn (fst (h ! Suc k))) = Some delta
          \<and> reproduces (snd (h ! k)) delta (snd (h ! Suc k))" by (rule delta)
    qed
    let ?fs = "write_path fs ?rec []"
    have "apply_chain s ?fs (snd (h ! a)) ?ds = Some (snd (h ! (b - 1)))"
      using chain apply_chain_cong [of ?ds ?fs fs] nd(1) assms(6)
      by (metis file_content_write)
    then have "\<exists>fs'. combine_run s ?rec ?tmp ?fs (?fn ?F) ?ds = Inr (0, fs')
        \<and> file_content fs' ?rec = Some (snd (h ! (b - 1)))
        \<and> (\<forall>q. q \<noteq> ?rec \<longrightarrow> q \<noteq> ?tmp \<longrightarrow> file_content fs' q = file_content ?fs q)"
      using False cF nd assms(6,7)
      by (intro combine_run_chain [where c = "snd (h ! a)"])
        (simp_all add: can_write_write file_content_write)
    then obtain fs' where run: "combine_run s ?rec ?tmp ?fs (?fn ?F) ?ds = Inr (0, fs')"
        "file_content fs' ?rec = Some (snd (h ! (b - 1)))" by blast
    have "0 \<le> st" "st \<le> en" "map (\<lambda>i. map ?dn dts ! i) [nat st..<Suc (nat en)] = ?ds"
      using rng False by (simp_all add: comp_def del: upt_Suc)
    then show ?thesis
      using False ff r run cv sn(1,2) i(1) assms(6)
      by (simp add: combine_incremental_files_def del: upt_Suc)
  qed
qed

subsection \<open>Differential recovery\<close>

text \<open>
  The result for a requested version \<open>v\<close>: the full backup of \<open>v\<close> itself; otherwise the
  newest delta between the newest older full backup and \<open>v\<close>; otherwise failure.
\<close>

theorem combine_differental_correct:
  assumes "os_ok s" and store: "diff_store fs d f h fts dts" and "hd fts \<le> v" and "no_nul v"
    and "CHR ''/'' \<notin> set f" and "can_write fs (recovery_file d f ''recovery'')"
    and "F \<in> set fts" and "F \<le> v" and "\<forall>G\<in>set fts. G \<le> v \<longrightarrow> G \<le> F"
  shows "\<exists>r p fs'. combine_differental_files s fs d f
      (read_sort_dir_files fs (backup_dir d f ''differential'' ''full''))
      (read_sort_dir_files fs (backup_dir d f ''differential'' ''delta'')) v p0 = Inr (r, p, fs')
    \<and> (if F = v then r = 0 \<and> file_content fs' p = map_of h v
       else case filter (\<lambda>t. F < t \<and> t \<le> v) dts of
           [] \<Rightarrow> r = - 1 \<and> p = p0
         | ts \<Rightarrow> r = 0 \<and> file_content fs' p = map_of h (last ts))"
proof -
  let ?fn = "full_name d f ''differential''" and ?dn = "delta_name d f ''differential''"
  let ?rec = "recovery_file d f ''recovery''"
  have lists: "store_lists fs d f ''differential'' fts dts" and h: "hist_ok h" and ne: "fts \<noteq> []"
    and full: "\<And>t. t \<in> set fts \<Longrightarrow> map_of h t \<noteq> None \<and> file_content fs (?fn t) = map_of h t"
    and delta: "\<And>t. t \<in> set dts \<Longrightarrow> ts_ok t \<and> (\<exists>delta c c' F.
          file_content fs (?dn t) = Some delta \<and> map_of h t = Some c
          \<and> F \<in> set fts \<and> F < t \<and> (\<forall>G\<in>set fts. G < t \<longrightarrow> G \<le> F)
          \<and> map_of h F = Some c' \<and> reproduces c' delta c)"
    using store unfolding diff_store_def by blast+
  note sn = store_names [OF lists]
  have ft: "ts_ok t" if t: "t \<in> set fts" for t
  proof -
    have "t \<in> set (map fst h)" using full [OF t] by (auto simp: map_of_eq_None_iff)
    then show ?thesis using h unfolding hist_ok_def by blast
  qed
  obtain i where i: "i < length fts" "fts ! i \<le> v" "\<And>G. G \<in> set fts \<Longrightarrow> G \<le> v \<Longrightarrow> G \<le> fts ! i"
    and ff: "\<And>d f kind. find_full (map (full_name d f kind) fts) v (length fts) []
      = (if fts ! i = v then ExactFull (full_name d f kind (fts ! i)) else OlderFull i (fts ! i))"
    using find_full_newest [OF sn(3) ne assms(3,4) ft] by metis
  have F: "fts ! i = F" using i assms(7-9) by (meson antisym nth_mem)
  show ?thesis
  proof (cases "F = v")
    case True
    with ff F sn(1,2) full [OF assms(7)] show ?thesis
      by (auto simp: combine_differental_files_def)
  next
    case False
    have fd: "case find_delta (map ?dn dts) F v (length dts) [] of
        Some i \<Rightarrow> i < length dts \<and> dts ! i \<le> v \<and> F < dts ! i
          \<and> (\<forall>j. i < j \<longrightarrow> j < length dts \<longrightarrow> \<not> (dts ! j \<le> v \<and> F < dts ! j))
      | None \<Rightarrow> (\<forall>j<length dts. \<not> (dts ! j \<le> v \<and> F < dts ! j))"
      using delta ft [OF assms(7)] assms(4)
      by (intro find_delta_between) (auto simp: extract_delta_name ts_ok_def)
    show ?thesis
    proof (cases "find_delta (map ?dn dts) F v (length dts) []")
      case None
      then have "filter (\<lambda>t. F < t \<and> t \<le> v) dts = []"
        using fd by (auto simp: filter_empty_conv in_set_conv_nth)
      with None False F ff sn(1,2) show ?thesis by (simp add: combine_differental_files_def)
    next
      case (Some k)
      let ?t = "dts ! k"
      have k: "k < length dts" "?t \<le> v" "F < ?t" using fd Some by simp_all
      have t: "?t \<in> set dts" using k(1) by simp
      have last: "last (filter (\<lambda>t. F < t \<and> t \<le> v) dts) = ?t"
        "filter (\<lambda>t. F < t \<and> t \<le> v) dts \<noteq> []"
      proof -
        have "filter (\<lambda>t. F < t \<and> t \<le> v) (drop (Suc k) dts) = []"
          using fd Some by (auto simp: filter_empty_conv in_set_conv_nth)
        then have "filter (\<lambda>t. F < t \<and> t \<le> v) dts = filter (\<lambda>t. F < t \<and> t \<le> v) (take k dts) @ [?t]"
          using k by (subst id_take_nth_drop [OF k(1)]) simp
        then show "last (filter (\<lambda>t. F < t \<and> t \<le> v) dts) = ?t"
          "filter (\<lambda>t. F < t \<and> t \<le> v) dts \<noteq> []" by simp_all
      qed
      from delta [OF t] obtain delta c c' F' where
        dl: "file_content fs (?dn ?t) = Some delta" "map_of h ?t = Some c" "F' \<in> set fts" "F' < ?t"
          "\<forall>G\<in>set fts. G < ?t \<longrightarrow> G \<le> F'" "map_of h F' = Some c'" "reproduces c' delta c"
        by blast
      have "F' = F"
        using dl(3-5) assms(7,9) k(2,3) by (meson antisym less_le_trans less_imp_le)
      then have cF: "file_content fs (?fn F) = Some c'" using full [OF assms(7)] dl(6) by simp
      have nd: "?rec \<noteq> ?fn F" "?rec \<noteq> ?dn ?t"
        using recovery_not_backup [OF assms(5), of d] by simp_all
      show ?thesis
        using Some False F ff sn(1,2) i(1) k(1) dl(1,2,7) cF nd assms(1,6) last
        by (auto simp: combine_differental_files_def file_content_write can_write_write
            reproduces_def Let_def split: list.splits)
    qed
  qed
qed

end
