(* ===== verification/Retention.thy ===== *)
theory Retention
  imports RecoverySpec
begin

text \<open>
  The retention side of receiver.c: \<open>update_incre_full_backup\<close> merges the oldest delta into
  the oldest full backup, \<open>manage_backup_version\<close> keeps at most \<open>backup_version_num\<close>
  backups of each kind. The lemmas show what both do to the store of a history.
\<close>

subsection \<open>update_incre_full_backup\<close>

text \<open>
  The name of the new full backup: the old name up to its first dot, \<open>.full.\<close> and the time
  stamp of the delta. Without a dot the code subtracts a pointer from \<open>NULL\<close>.
\<close>

definition updated_full_path :: "string \<Rightarrow> string \<Rightarrow> string option" where
  "updated_full_path full_file_path delta_file_path =
     (let new_timestamp = extract_file_name_timestamp delta_file_path [];
          (dir_name, file_name) = split_path full_file_path
      in case strchr (CHR ''.'') file_name of
           None \<Rightarrow> None
         | Some r \<Rightarrow>
             let file_name_row = take (length file_name - length r) file_name
             in Some (dir_name @ ''/'' @ file_name_row @ ''.full.'' @ new_timestamp))"

definition update_incre_full_backup :: "os \<Rightarrow> fs \<Rightarrow> string \<Rightarrow> string \<Rightarrow> delta_error + (int \<times> fs)" where
  "update_incre_full_backup s fs full_file_path delta_file_path =
     (case updated_full_path full_file_path delta_file_path of
        None \<Rightarrow> Inl Undefined
      | Some updated \<Rightarrow>
          let delta_file = file_content fs delta_file_path;
              opened = can_write fs updated;
              fs = write_path fs updated [];
              full = file_content fs full_file_path
          in case (delta_file, full) of
               (Some delta, Some c) \<Rightarrow>
                 (if opened then
                    map_sum id (\<lambda>out. (0, write_path fs updated out)) (apply_delta s c delta)
                  else Inr (- 1, fs))
             | _ \<Rightarrow> Inr (- 1, fs))"

subsection \<open>manage_backup_version\<close>

text \<open>An entry of a list beyond its end is an unset pointer.\<close>

definition file_path :: "string list \<Rightarrow> nat \<Rightarrow> string option" where
  "file_path files i = (if i < length files then Some (files ! i) else None)"

text \<open>
  Removal of the deltas that the removed full backup leaves without use: the number of them
  (\<open>i\<close>) and the file system.
\<close>

fun drop_deltas :: "fs \<Rightarrow> string \<Rightarrow> string list \<Rightarrow> nat \<Rightarrow> nat \<times> fs" where
  "drop_deltas fs ts1 [] i = (i, fs)"
| "drop_deltas fs ts1 (d # ds) i =
     (if strcmp ts1 (extract_file_name_timestamp d []) \<ge> 0
      then drop_deltas (remove_path fs d) ts1 ds (i + 1) else (i, fs))"

text \<open>The oldest full backup goes, when there are too many: \<open>(j, i)\<close> and the file system.\<close>

definition drop_oldest_full :: "int \<Rightarrow> fs \<Rightarrow> string list option \<Rightarrow> string list
    \<Rightarrow> delta_error + (nat \<times> nat \<times> fs)" where
  "drop_oldest_full num fs fulls deltas =
     (if (case fulls of None \<Rightarrow> - 1 | Some l \<Rightarrow> int (length l)) > num then
        (case (file_path (files_of fulls) 0, file_path (files_of fulls) 1) of
           (Some full0, Some full1) \<Rightarrow>
             let (i, fs) = drop_deltas (remove_path fs full0) (extract_file_name_timestamp full1 [])
                             deltas 0
             in Inr (1, i, fs)
         | _ \<Rightarrow> Inl Undefined)
      else Inr (0, 0, fs))"

definition manage_backup_version :: "os \<Rightarrow> int \<Rightarrow> int \<Rightarrow> fs \<Rightarrow> string \<Rightarrow> delta_error + (int \<times> fs)" where
  "manage_backup_version s backup_type num fs backup_path =
     (let fulls = read_sort_dir_files fs (backup_path @ ''full/'');
          deltas = read_sort_dir_files fs (backup_path @ ''delta/'');
          count = (\<lambda>l. case l of None \<Rightarrow> - 1 | Some fs \<Rightarrow> int (length fs))
      in if count fulls \<le> num \<and> count deltas \<le> num then Inr (0, fs)
         else if backup_type = 1 then
           (case drop_oldest_full num fs fulls (files_of deltas) of
              Inl e \<Rightarrow> Inl e
            | Inr (j, i, fs) \<Rightarrow>
                if count deltas - int i > num then
                  (case file_path (files_of deltas) i of
                     None \<Rightarrow> Inl Undefined
                   | Some d \<Rightarrow> Inr (0, remove_path fs d))
                else Inr (0, fs))
         else if backup_type = 0 then
           (case drop_oldest_full num fs fulls (files_of deltas) of
              Inl e \<Rightarrow> Inl e
            | Inr (j, i, fs) \<Rightarrow>
                if count deltas - int i > num then
                  (case (file_path (files_of fulls) j, file_path (files_of deltas) i) of
                     (Some full, Some d) \<Rightarrow>
                       (case update_incre_full_backup s fs full d of
                          Inl e \<Rightarrow> Inl e
                        | Inr (_, fs) \<Rightarrow> Inr (0, remove_path (remove_path fs d) full))
                   | _ \<Rightarrow> Inl Undefined)
                else Inr (0, fs))
         else Inr (0, fs))"

subsection \<open>find_newest_full_backup (generator.c)\<close>

text \<open>\<open>access(path, F_OK)\<close> on the directory; the result is \<open>1\<close>, \<open>-1\<close> or \<open>0\<close> with the path.\<close>

definition find_newest_full_backup :: "fs \<Rightarrow> string \<Rightarrow> int \<times> string option" where
  "find_newest_full_backup fs fname =
     (let (dir_name, file_name) = split_path fname;
          p = backup_dir dir_name file_name ''differential'' ''full''
      in if \<not> opendir_ok fs p then (1, None)
         else case read_sort_dir_files fs p of
                None \<Rightarrow> (- 1, None)
              | Some files \<Rightarrow> if files = [] then (- 1, None) else (0, Some (last files)))"

subsection \<open>Directories as sets\<close>

definition fs_ok :: "fs \<Rightarrow> bool" where
  "fs_ok fs \<longleftrightarrow> distinct (map fst fs)"

definition dir_set :: "fs \<Rightarrow> string \<Rightarrow> string set" where
  "dir_set fs d = {p \<in> dom (map_of fs). entry_name d p \<noteq> None}"

lemma fs_ok_ops:
  "fs_ok fs \<Longrightarrow> fs_ok (write_path fs p c)" "fs_ok fs \<Longrightarrow> fs_ok (remove_path fs p)"
  by (auto simp: fs_ok_def write_path_def remove_path_def distinct_update distinct_delete
      split: option.splits node.splits)

lemma entry_name_Some: "entry_name d p = Some n \<Longrightarrow> p = d @ n"
  by (auto simp: entry_name_def Let_def split: if_splits) (metis append_take_drop_id)

lemma set_dir_paths: "(\<lambda>n. d @ n) ` set (dir_names fs d) = dir_set fs d"
proof -
  have "(\<lambda>n. d @ n) ` set (dir_names fs d) = {p \<in> fst ` set fs. entry_name d p \<noteq> None}"
  proof (induction fs)
    case (Cons e fs)
    obtain p nd where e: "e = (p, nd)" by fastforce
    show ?case
    proof (cases "entry_name d p")
      case (Some n)
      moreover have "p = d @ n" using Some by (rule entry_name_Some)
      ultimately show ?thesis using Cons e by (auto simp: dir_names_def map_filter_simps)
    qed (use Cons e in \<open>auto simp: dir_names_def map_filter_simps\<close>)
  qed (simp add: dir_names_def map_filter_simps)
  then show ?thesis by (simp add: dir_set_def dom_map_of_conv_image_fst)
qed

lemma distinct_dir_paths: "fs_ok fs \<Longrightarrow> distinct (map (\<lambda>n. d @ n) (dir_names fs d))"
proof (induction fs)
  case (Cons e fs)
  obtain p nd where e: "e = (p, nd)" by fastforce
  have IH: "distinct (map (\<lambda>n. d @ n) (dir_names fs d))"
    using Cons by (simp add: fs_ok_def)
  have "p \<notin> dir_set fs d"
    using Cons.prems e by (auto simp: fs_ok_def dir_set_def dom_map_of_conv_image_fst)
  then show ?case
    using IH e set_dir_paths [of d fs]
    by (cases "entry_name d p") (auto simp: dir_names_def map_filter_simps dest: entry_name_Some)
qed (simp add: dir_names_def map_filter_simps)

lemma read_sort_dir_set:
  assumes "fs_ok fs"
  shows "read_sort_dir_files fs d
    = (if opendir_ok fs d then Some (sorted_list_of_set (dir_set fs d)) else None)"
proof -
  let ?l = "map (\<lambda>n. d @ n) (dir_names fs d)"
  have "sort ?l = sorted_list_of_set (set ?l)"
    using distinct_dir_paths [OF assms, of d]
    by (simp only: sorted_list_of_set_sort_remdups distinct_remdups_id)
  also have "set ?l = dir_set fs d" using set_dir_paths [of d fs] by simp
  finally show ?thesis by (simp add: read_sort_dir_files_def)
qed

lemma sorted_names:
  assumes "sorted_wrt (<) ts" and "\<And>a b. nm a < nm b \<longleftrightarrow> a < (b :: string)"
  shows "sorted_list_of_set (nm ` set ts) = map nm (ts :: string list)"
proof -
  have "sorted_wrt (<) (map nm ts)" using assms by (simp add: sorted_wrt_map)
  then show ?thesis
    by (metis set_map sorted_list_of_set.idem_if_sorted_distinct strict_sorted_iff)
qed

lemma store_lists_iff:
  assumes "fs_ok fs"
  shows "store_lists fs d f kind fts dts \<longleftrightarrow>
    opendir_ok fs (backup_dir d f kind ''full'') \<and> opendir_ok fs (backup_dir d f kind ''delta'')
    \<and> dir_set fs (backup_dir d f kind ''full'') = full_name d f kind ` set fts
    \<and> dir_set fs (backup_dir d f kind ''delta'') = delta_name d f kind ` set dts
    \<and> sorted_wrt (<) fts \<and> sorted_wrt (<) dts"
proof -
  have fin: "finite (dir_set fs p)" for p
    by (rule finite_subset [OF _ finite_dom_map_of]) (auto simp: dir_set_def)
  have "read_sort_dir_files fs p = Some (map nm ts) \<longleftrightarrow> opendir_ok fs p \<and> dir_set fs p = nm ` set ts"
    if s: "sorted_wrt (<) ts" and nm: "\<And>a b. nm a < nm b \<longleftrightarrow> a < b" for p nm and ts :: "string list"
    using read_sort_dir_set [OF assms, of p] sorted_names [OF s nm] set_sorted_list_of_set [OF fin, of p]
    by (metis option.distinct(1) option.inject set_map)
  from this [of fts "full_name d f kind"] this [of dts "delta_name d f kind"] show ?thesis
    unfolding store_lists_def by auto
qed

subsection \<open>Removing files\<close>

lemma file_content_Some: "file_content fs p = Some c \<longleftrightarrow> map_of fs p = Some (File c)"
  by (auto simp: file_content_def split: option.splits node.splits)

text \<open>\<open>fs'\<close> is \<open>fs\<close> without the files \<open>S\<close>.\<close>

definition without :: "fs \<Rightarrow> string set \<Rightarrow> fs \<Rightarrow> bool" where
  "without fs S fs' \<longleftrightarrow> fs_ok fs' \<and> map_of fs' = map_of fs |` (- S) \<and> (\<forall>p\<in>S. map_of fs p \<noteq> Some Dir)"

lemma without_refl: "fs_ok fs \<Longrightarrow> without fs {} fs"
  by (simp add: without_def restrict_map_def)

lemma file_content_not_dir: "file_content fs p \<noteq> None \<Longrightarrow> map_of fs p \<noteq> Some Dir"
  by (auto simp: file_content_def)

lemma without_trans:
  assumes "without fs S fs'" and "without fs' T fs''"
  shows "without fs (S \<union> T) fs''"
proof -
  have "map_of fs p \<noteq> Some Dir" if "p \<in> S \<union> T" for p
    using assms that by (cases "p \<in> S") (auto simp: without_def restrict_map_def)
  then show ?thesis using assms by (auto simp: without_def restrict_map_def fun_eq_iff)
qed

lemma without_remove: "fs_ok fs \<Longrightarrow> map_of fs p \<noteq> Some Dir \<Longrightarrow> without fs {p} (remove_path fs p)"
  using fs_ok_ops(2) [of fs p]
  by (auto simp: without_def remove_path_def delete_conv' restrict_map_def fun_eq_iff
      split: option.splits node.splits)

lemma without_dir_set: "without fs S fs' \<Longrightarrow> dir_set fs' d = dir_set fs d - S"
  by (auto simp: without_def dir_set_def restrict_map_def split: if_splits)

lemma without_opendir: "without fs S fs' \<Longrightarrow> opendir_ok fs' d = opendir_ok fs d"
  by (auto simp: without_def opendir_ok_def restrict_map_def)

lemma without_content: "without fs S fs' \<Longrightarrow> file_content fs' q = (if q \<in> S then None else file_content fs q)"
  by (auto simp: without_def file_content_def restrict_map_def)

lemma drop_deltas_without:
  assumes "fs_ok fs" and "\<And>t. t \<in> set dts \<Longrightarrow> ts_ok t \<and> map_of fs (delta_name d f kind t) \<noteq> Some Dir"
    and "no_nul ts1"
  shows "\<exists>fs'. drop_deltas fs ts1 (map (delta_name d f kind) dts) i
      = (i + length (takeWhile (\<lambda>t. t \<le> ts1) dts), fs')
    \<and> without fs (delta_name d f kind ` set (takeWhile (\<lambda>t. t \<le> ts1) dts)) fs'"
  using assms(1,2)
proof (induction dts arbitrary: fs i)
  case Nil
  then show ?case by (simp add: without_refl)
next
  case (Cons t dts)
  let ?p = "delta_name d f kind t"
  have t: "ts_ok t" "map_of fs ?p \<noteq> Some Dir" using Cons.prems by simp_all
  have cmp: "strcmp ts1 (extract_file_name_timestamp ?p []) \<ge> 0 \<longleftrightarrow> t \<le> ts1"
    using strcmp_ge_iff [OF assms(3), of t] t by (simp add: extract_delta_name ts_ok_def)
  show ?case
  proof (cases "t \<le> ts1")
    case False
    with cmp Cons.prems(1) show ?thesis by (simp add: without_refl)
  next
    case True
    have w: "without fs {?p} (remove_path fs ?p)"
      using Cons.prems(1) t(2) by (rule without_remove)
    have "\<exists>fs'. drop_deltas (remove_path fs ?p) ts1 (map (delta_name d f kind) dts) (i + 1)
        = (i + 1 + length (takeWhile (\<lambda>t. t \<le> ts1) dts), fs')
      \<and> without (remove_path fs ?p) (delta_name d f kind ` set (takeWhile (\<lambda>t. t \<le> ts1) dts)) fs'"
      using Cons.prems w by (intro Cons.IH) (auto simp: without_def restrict_map_def)
    with True cmp show ?thesis using without_trans [OF w] by fastforce
  qed
qed

subsection \<open>Dropping the oldest full backup\<close>

definition drop_old :: "int \<Rightarrow> string list \<Rightarrow> string list \<Rightarrow> string list \<times> string list" where
  "drop_old num fts dts =
     (if int (length fts) > num then (tl fts, dropWhile (\<lambda>t. t \<le> hd (tl fts)) dts) else (fts, dts))"

text \<open>The files of a store exist, and their time stamps are well formed.\<close>

definition store_files :: "fs \<Rightarrow> string \<Rightarrow> string \<Rightarrow> string \<Rightarrow> string list \<Rightarrow> string list \<Rightarrow> bool" where
  "store_files fs d f kind fts dts \<longleftrightarrow> store_lists fs d f kind fts dts \<and> fts \<noteq> []
     \<and> (\<forall>t\<in>set fts. ts_ok t \<and> file_content fs (full_name d f kind t) \<noteq> None)
     \<and> (\<forall>t\<in>set dts. ts_ok t \<and> file_content fs (delta_name d f kind t) \<noteq> None)"

lemma dropWhile_sorted_set:
  assumes "sorted_wrt (<) (xs :: string list)"
  shows "set (dropWhile (\<lambda>t. t \<le> v) xs) = {t \<in> set xs. v < t}"
    and "set (takeWhile (\<lambda>t. t \<le> v) xs) = {t \<in> set xs. t \<le> v}"
  using assms by (induction xs) (auto split: if_splits)

lemma drop_old_sorted:
  assumes "sorted_wrt (<) fts" and "sorted_wrt (<) dts" and "drop_old num fts dts = (fts', dts')"
  shows "sorted_wrt (<) fts' \<and> sorted_wrt (<) dts'"
proof -
  have "sorted_wrt (<) (tl fts)" using assms(1) by (cases fts) auto
  moreover have "sorted_wrt (<) (dropWhile P dts)" for P
    using assms(2) by (induction dts) auto
  ultimately show ?thesis using assms by (auto simp: drop_old_def split: if_splits)
qed

lemma drop_oldest_full_store:
  assumes "fs_ok fs" and st: "store_files fs d f kind fts dts" and "1 \<le> num"
    and dr: "drop_old num fts dts = (fts', dts')"
  shows "\<exists>fs'. drop_oldest_full num fs (Some (map (full_name d f kind) fts)) (map (delta_name d f kind) dts)
      = Inr (length fts - length fts', length dts - length dts', fs')
    \<and> without fs (full_name d f kind ` (set fts - set fts') \<union> delta_name d f kind ` (set dts - set dts')) fs'"
proof (cases "int (length fts) > num")
  case False
  with assms show ?thesis by (auto simp: drop_oldest_full_def drop_old_def without_refl)
next
  case True
  with assms(3) obtain F0 F1 rest where fts: "fts = F0 # F1 # rest"
    by (cases fts; cases "tl fts"; force)
  have lists: "store_lists fs d f kind fts dts"
    and ft: "\<And>t. t \<in> set fts \<Longrightarrow> ts_ok t \<and> file_content fs (full_name d f kind t) \<noteq> None"
    and dt: "\<And>t. t \<in> set dts \<Longrightarrow> ts_ok t \<and> file_content fs (delta_name d f kind t) \<noteq> None"
    using st by (auto simp: store_files_def)
  have F0: "F0 \<notin> set (tl fts)" using store_names(3) [OF lists] fts by auto
  have e: "fts' = tl fts" "dts' = dropWhile (\<lambda>t. t \<le> F1) dts"
    using dr True fts by (auto simp: drop_old_def)
  have f1: "extract_file_name_timestamp (full_name d f kind F1) [] = F1" "no_nul F1"
    using ft [of F1] fts by (simp_all add: extract_full_name ts_ok_def)
  have w0: "without fs {full_name d f kind F0} (remove_path fs (full_name d f kind F0))"
    using assms(1) ft [of F0] fts by (intro without_remove) (auto simp: file_content_def)
  let ?fs1 = "remove_path fs (full_name d f kind F0)"
  have "\<exists>fs'. drop_deltas ?fs1 F1 (map (delta_name d f kind) dts) 0
      = (0 + length (takeWhile (\<lambda>t. t \<le> F1) dts), fs')
    \<and> without ?fs1 (delta_name d f kind ` set (takeWhile (\<lambda>t. t \<le> F1) dts)) fs'"
    using dt [THEN conjunct2, THEN file_content_not_dir] dt f1 w0
    by (intro drop_deltas_without) (auto simp: without_def restrict_map_def)
  then obtain fs' where r: "drop_deltas ?fs1 F1 (map (delta_name d f kind) dts) 0
      = (length (takeWhile (\<lambda>t. t \<le> F1) dts), fs')"
    and w1: "without ?fs1 (delta_name d f kind ` set (takeWhile (\<lambda>t. t \<le> F1) dts)) fs'" by auto
  have "set dts - set dts' = set (takeWhile (\<lambda>t. t \<le> F1) dts)"
    unfolding e using dropWhile_sorted_set [OF store_names(4) [OF lists], of F1] by auto
  moreover have "set fts - set fts' = {F0}" using e(1) fts F0 by auto
  moreover have "length dts - length dts' = length (takeWhile (\<lambda>t. t \<le> F1) dts)"
    unfolding e using takeWhile_dropWhile_id [of "\<lambda>t. t \<le> F1" dts]
    by (metis add_diff_cancel_right' length_append)
  moreover have "without fs ({full_name d f kind F0}
      \<union> delta_name d f kind ` set (takeWhile (\<lambda>t. t \<le> F1) dts)) fs'"
    using w0 w1 by (rule without_trans)
  ultimately show ?thesis
    using True fts r f1 e by (simp add: drop_oldest_full_def file_path_def files_of_def Let_def)
qed

lemma without_store:
  assumes "fs_ok fs" and "store_files fs d f kind fts dts"
    and "without fs (full_name d f kind ` (set fts - set fts') \<union> delta_name d f kind ` (set dts - set dts')) fs'"
    and "set fts' \<subseteq> set fts" and "set dts' \<subseteq> set dts"
    and "sorted_wrt (<) fts'" and "sorted_wrt (<) dts'" and "fts' \<noteq> []"
  shows "store_files fs' d f kind fts' dts'"
proof -
  note w = assms(3)
  have ok: "fs_ok fs'" using w by (simp add: without_def)
  have sl: "store_lists fs d f kind fts dts" using assms(2) by (simp add: store_files_def)
  have "store_lists fs' d f kind fts' dts'"
    using sl assms(4-7) unfolding store_lists_iff [OF assms(1)] store_lists_iff [OF ok]
    by (auto simp: without_opendir [OF w] without_dir_set [OF w])
  then show ?thesis
    using assms(2,4,5,8) by (auto simp: store_files_def without_content [OF w])
qed

subsection \<open>Retention of a differential store\<close>

text \<open>The effect of \<open>manage_backup_version\<close> on the time stamps.\<close>

definition retain_diff :: "int \<Rightarrow> string list \<Rightarrow> string list \<Rightarrow> string list \<times> string list" where
  "retain_diff num fts dts =
     (let (fts, dts) = drop_old num fts dts
      in (fts, if int (length dts) > num then tl dts else dts))"

definition insert_ts :: "string \<Rightarrow> string list \<Rightarrow> string list" where
  "insert_ts t ts = (if ts \<noteq> [] \<and> hd ts = t then ts else t # ts)"

definition retain_incr :: "int \<Rightarrow> string list \<Rightarrow> string list \<Rightarrow> string list \<times> string list" where
  "retain_incr num fts dts =
     (let (fts, dts) = drop_old num fts dts
      in if int (length dts) > num then (insert_ts (hd dts) (tl fts), tl dts) else (fts, dts))"

definition manage_path :: "string \<Rightarrow> string \<Rightarrow> string \<Rightarrow> string" where
  "manage_path d f kind = d @ ''/'' @ f @ ''.backup/'' @ kind @ ''/''"

lemma manage_path_dirs:
  "manage_path d f kind @ ''full/'' = backup_dir d f kind ''full''"
  "manage_path d f kind @ ''delta/'' = backup_dir d f kind ''delta''"
  by (simp_all add: manage_path_def backup_dir_def)

lemma drop_old_suffix:
  "drop_old num fts dts = (fts', dts') \<Longrightarrow>
    (\<exists>k. fts' = drop k fts) \<and> (\<exists>k. dts' = drop k dts)"
proof -
  have "\<exists>k. xs = drop k xs" "\<exists>k. tl xs = drop k xs" "\<exists>k. dropWhile P xs = drop k xs"
    for xs :: "string list" and P
    by (metis drop0, metis drop_0 drop_Suc, metis dropWhile_eq_drop)
  moreover assume "drop_old num fts dts = (fts', dts')"
  ultimately show ?thesis
    unfolding drop_old_def by (metis prod.inject)
qed

lemma drop_old_subset:
  assumes "drop_old num fts dts = (fts', dts')"
  shows "set fts' \<subseteq> set fts \<and> set dts' \<subseteq> set dts \<and> length fts' \<le> length fts \<and> length dts' \<le> length dts"
  using drop_old_suffix [OF assms] by (auto dest: in_set_dropD)

lemma drop_old_nth:
  assumes "drop_old num fts dts = (fts', dts')" and "i < length dts'"
  shows "dts ! (length dts - length dts' + i) = dts' ! i" "length dts - length dts' + i < length dts"
  using drop_old_suffix [OF assms(1)] assms(2) by auto

lemma drop_old_not_Nil:
  "1 \<le> num \<Longrightarrow> fts \<noteq> [] \<Longrightarrow> drop_old num fts dts = (fts', dts') \<Longrightarrow> fts' \<noteq> []"
  by (cases fts; cases "tl fts") (auto simp: drop_old_def split: if_splits)

lemma retain_early:
  "int (length fts) \<le> num \<Longrightarrow> int (length dts) \<le> num \<Longrightarrow> retain_diff num fts dts = (fts, dts)"
  "int (length fts) \<le> num \<Longrightarrow> int (length dts) \<le> num \<Longrightarrow> retain_incr num fts dts = (fts, dts)"
  by (simp_all add: retain_diff_def retain_incr_def drop_old_def)

lemma retain_diff_subset:
  "set (fst (retain_diff num fts dts)) \<subseteq> set fts \<and> set (snd (retain_diff num fts dts)) \<subseteq> set dts"
proof -
  obtain fts' dts' where d: "drop_old num fts dts = (fts', dts')" by fastforce
  have "set (tl dts') \<subseteq> set dts'" by (cases dts') auto
  then show ?thesis using drop_old_subset [OF d] d by (auto simp: retain_diff_def)
qed

lemma manage_differential_run:
  assumes "read_sort_dir_files fs (p @ ''full/'') = Some fulls"
    and "read_sort_dir_files fs (p @ ''delta/'') = Some deltas"
    and "\<not> (int (length fulls) \<le> num \<and> int (length deltas) \<le> num)"
    and "drop_oldest_full num fs (Some fulls) deltas = Inr (j, i, fs1)"
  shows "manage_backup_version s 1 num fs p
    = (if int (length deltas) - int i > num then
         (case file_path deltas i of None \<Rightarrow> Inl Undefined | Some d \<Rightarrow> Inr (0, remove_path fs1 d))
       else Inr (0, fs1))"
  using assms by (simp only: manage_backup_version_def Let_def option.case files_of_def if_False
      sum.case prod.case refl if_True)

lemma manage_differential_files:
  assumes "fs_ok fs" and st: "store_files fs d f ''differential'' fts dts" and "1 \<le> num"
    and r: "retain_diff num fts dts = (fts', dts')"
  shows "\<exists>fs'. manage_backup_version s 1 num fs (manage_path d f ''differential'') = Inr (0, fs')
    \<and> without fs (full_name d f ''differential'' ` (set fts - set fts')
        \<union> delta_name d f ''differential'' ` (set dts - set dts')) fs'
    \<and> store_files fs' d f ''differential'' fts' dts'"
proof -
  let ?fn = "full_name d f ''differential''" and ?dn = "delta_name d f ''differential''"
  have lists: "store_lists fs d f ''differential'' fts dts" and ne: "fts \<noteq> []"
    using st by (auto simp: store_files_def)
  note sn = store_names [OF lists]
  obtain ft1 dt1 where d1: "drop_old num fts dts = (ft1, dt1)" by fastforce
  note sub = drop_old_subset [OF d1]
  note so = drop_old_sorted [OF sn(3,4) d1]
  have ne1: "ft1 \<noteq> []" using drop_old_not_Nil [OF assms(3) ne d1] .
  obtain fs1 where r1: "drop_oldest_full num fs (Some (map ?fn fts)) (map ?dn dts)
      = Inr (length fts - length ft1, length dts - length dt1, fs1)"
    and w1: "without fs (?fn ` (set fts - set ft1) \<union> ?dn ` (set dts - set dt1)) fs1"
    using drop_oldest_full_store [OF assms(1) st assms(3) d1] by blast
  have st1: "store_files fs1 d f ''differential'' ft1 dt1"
    by (rule without_store [OF assms(1) st w1]) (use sub so ne1 in simp_all)
  have ok1: "fs_ok fs1" using w1 by (simp add: without_def)
  show ?thesis
  proof (cases "int (length dt1) > num")
    case False
    then have "fts' = ft1" "dts' = dt1" using r d1 by (auto simp: retain_diff_def)
    moreover have "manage_backup_version s 1 num fs (manage_path d f ''differential'') = Inr (0, fs1)"
    proof (cases "int (length fts) \<le> num \<and> int (length dts) \<le> num")
      case True
      then have "fs1 = fs" using r1 by (auto simp: drop_oldest_full_def)
      with True sn(1,2) show ?thesis by (simp add: manage_backup_version_def manage_path_dirs)
    next
      case early: False
      have "int (length dts) - int (length dts - length dt1) = int (length dt1)"
        using sub by (simp add: of_nat_diff)
      with manage_differential_run [of fs "manage_path d f ''differential''", unfolded manage_path_dirs,
          OF sn(1,2) _ r1, of s] early False
      show ?thesis by simp
    qed
    ultimately show ?thesis using w1 st1 by blast
  next
    case True
    with assms(3) obtain t dt2 where dt1: "dt1 = t # dt2" by (cases dt1) auto
    then have e: "fts' = ft1" "dts' = dt2" using r d1 True by (auto simp: retain_diff_def)
    have t: "t \<notin> set dt2" "t \<in> set dts" "set dt1 = insert t (set dt2)"
      using so sub dt1 by auto
    have late: "\<not> (int (length fts) \<le> num \<and> int (length dts) \<le> num)" using True sub by linarith
    have i: "dts ! (length dts - length dt1) = t" "length dts - length dt1 < length dts"
      using drop_old_nth [OF d1, of 0] dt1 by simp_all
    let ?fs2 = "remove_path fs1 (?dn t)"
    have w2: "without fs1 {?dn t} ?fs2"
      using st1 dt1 ok1 by (intro without_remove file_content_not_dir) (auto simp: store_files_def)
    have "without fs1 (?fn ` (set ft1 - set ft1) \<union> ?dn ` (set dt1 - set dt2)) ?fs2"
    proof -
      have "set dt1 - set dt2 = {t}" using t by auto
      with w2 show ?thesis by simp
    qed
    then have st2: "store_files ?fs2 d f ''differential'' ft1 dt2"
      by (rule without_store [OF ok1 st1]) (use so dt1 ne1 in auto)
    have "without fs (?fn ` (set fts - set ft1) \<union> ?dn ` (set dts - set dt2)) ?fs2"
    proof -
      have "set dts - set dt2 = insert t (set dts - set dt1)" using t dt1 by auto
      then have "?fn ` (set fts - set ft1) \<union> ?dn ` (set dts - set dt2)
          = (?fn ` (set fts - set ft1) \<union> ?dn ` (set dts - set dt1)) \<union> {?dn t}" by auto
      with without_trans [OF w1 w2] show ?thesis by simp
    qed
    moreover have "manage_backup_version s 1 num fs (manage_path d f ''differential'') = Inr (0, ?fs2)"
    proof -
      have "int (length dts) - int (length dts - length dt1) = int (length dt1)"
        using sub by (simp add: of_nat_diff)
      with manage_differential_run [of fs "manage_path d f ''differential''", unfolded manage_path_dirs,
          OF sn(1,2) _ r1, of s] late True i
      show ?thesis by (simp add: file_path_def)
    qed
    ultimately show ?thesis using st2 e by blast
  qed
qed

theorem manage_differential_correct:
  assumes "fs_ok fs" and st: "diff_store fs d f h fts dts" and "1 \<le> num"
    and r: "retain_diff num fts dts = (fts', dts')"
  shows "\<exists>fs'. manage_backup_version s 1 num fs (manage_path d f ''differential'') = Inr (0, fs')
    \<and> diff_store fs' d f h fts' dts'"
proof -
  let ?fn = "full_name d f ''differential''" and ?dn = "delta_name d f ''differential''"
  have lists: "store_lists fs d f ''differential'' fts dts" and h: "hist_ok h" and ne: "fts \<noteq> []"
    and full: "\<And>t. t \<in> set fts \<Longrightarrow> map_of h t \<noteq> None \<and> file_content fs (?fn t) = map_of h t"
    and delta: "\<And>t. t \<in> set dts \<Longrightarrow> ts_ok t \<and> (\<exists>delta c c' F.
          file_content fs (?dn t) = Some delta \<and> map_of h t = Some c
          \<and> F \<in> set fts \<and> F < t \<and> (\<forall>G\<in>set fts. G < t \<longrightarrow> G \<le> F)
          \<and> map_of h F = Some c' \<and> reproduces c' delta c)"
    using st unfolding diff_store_def by blast+
  note sn = store_names [OF lists]
  have ft: "ts_ok t" if t: "t \<in> set fts" for t
  proof -
    have "t \<in> set (map fst h)" using full [OF t] by (auto simp: map_of_eq_None_iff)
    then show ?thesis using h unfolding hist_ok_def by blast
  qed
  have "store_files fs d f ''differential'' fts dts"
    using lists ne full ft delta unfolding store_files_def by (metis option.distinct(1))
  from manage_differential_files [OF assms(1) this assms(3) r, of s] obtain fs' where
    m: "manage_backup_version s 1 num fs (manage_path d f ''differential'') = Inr (0, fs')"
    and w: "without fs (?fn ` (set fts - set fts') \<union> ?dn ` (set dts - set dts')) fs'"
    and st': "store_files fs' d f ''differential'' fts' dts'" by blast
  note sub = retain_diff_subset [of num fts dts, unfolded r, simplified]
  have base: "F \<in> set fts'" if "t \<in> set dts'" "F \<in> set fts" "F < t" "\<forall>G\<in>set fts. G < t \<longrightarrow> G \<le> F" for t F
  proof (cases "int (length fts) > num")
    case False
    then show ?thesis using r that(2) by (auto simp: retain_diff_def drop_old_def)
  next
    case True
    with assms(3) obtain F0 F1 rest where fts: "fts = F0 # F1 # rest"
      by (cases fts; cases "tl fts"; force)
    have tl: "set (tl xs) \<subseteq> set xs" for xs :: "string list" by (cases xs) auto
    have e: "fts' = F1 # rest" "set dts' \<subseteq> set (dropWhile (\<lambda>t. t \<le> F1) dts)"
      using r True fts tl by (auto simp: retain_diff_def drop_old_def split: if_splits)
    then have "F1 < t" using that(1) dropWhile_sorted_set(1) [OF sn(4), of F1] by auto
    then have "F1 \<le> F" using that(4) fts by simp
    then have "F \<noteq> F0" using sn(3) fts by auto
    with that(2) fts e(1) show ?thesis by auto
  qed
  have "diff_store fs' d f h fts' dts'"
    unfolding diff_store_def
  proof (intro conjI ballI)
    show "store_lists fs' d f ''differential'' fts' dts'" "fts' \<noteq> []"
      using st' by (auto simp: store_files_def)
    show "hist_ok h" by (rule h)
  next
    fix t assume t: "t \<in> set fts'"
    then show "map_of h t \<noteq> None" using sub full by blast
    show "file_content fs' (?fn t) = map_of h t"
      using t sub full by (auto simp: without_content [OF w])
  next
    fix t assume t: "t \<in> set dts'"
    then have t': "t \<in> set dts" using sub by blast
    show "ts_ok t" using delta [OF t'] by blast
    from delta [OF t'] obtain delta c c' F where
      "file_content fs (?dn t) = Some delta" "map_of h t = Some c" "F \<in> set fts" "F < t"
      "\<forall>G\<in>set fts. G < t \<longrightarrow> G \<le> F" "map_of h F = Some c'" "reproduces c' delta c" by blast
    with base [OF t] t sub show "\<exists>delta c c' F. file_content fs' (?dn t) = Some delta
        \<and> map_of h t = Some c \<and> F \<in> set fts' \<and> F < t \<and> (\<forall>G\<in>set fts'. G < t \<longrightarrow> G \<le> F)
        \<and> map_of h F = Some c' \<and> reproduces c' delta c"
      by (intro exI [of _ delta] exI [of _ c] exI [of _ c'] exI [of _ F])
        (auto simp: without_content [OF w])
  qed
  with m show ?thesis by blast
qed

end
