(* ===== verification/IncrRetention.thy ===== *)
theory IncrRetention
  imports Retention
begin

text \<open>
  Retention of an incremental store: the merge of the oldest delta into the oldest full backup
  keeps the store a store of the same history, with the versions from the new oldest full
  backup on.
\<close>

subsection \<open>Parts of an incremental store\<close>

lemma incr_storeD:
  assumes "incr_store fs d f h fts dts"
  shows "store_lists fs d f ''incremental'' fts dts" and "hist_ok h" and "fts \<noteq> []"
    and "t \<in> set fts \<Longrightarrow> map_of h t \<noteq> None \<and> file_content fs (full_name d f ''incremental'' t) = map_of h t"
    and "set dts = {t \<in> set (map fst h). hd fts < t}"
    and "Suc i < length h \<Longrightarrow> fst (h ! Suc i) \<in> set dts \<Longrightarrow>
          (\<exists>delta. file_content fs (delta_name d f ''incremental'' (fst (h ! Suc i))) = Some delta
             \<and> reproduces (snd (h ! i)) delta (snd (h ! Suc i)))"
  using assms unfolding incr_store_def by blast+

lemma hist_sorted: "hist_ok h \<Longrightarrow> i < j \<Longrightarrow> j < length h \<Longrightarrow> fst (h ! i) < fst (h ! j)"
  by (auto simp: hist_ok_def sorted_wrt_iff_nth_less)

lemma hist_ts_ok: "hist_ok h \<Longrightarrow> t \<in> set (map fst h) \<Longrightarrow> ts_ok t"
  unfolding hist_ok_def by blast

lemma map_of_hist: "map_of h t \<noteq> None \<longleftrightarrow> t \<in> set (map fst h)"
  by (auto simp: map_of_eq_None_iff)

text \<open>A version after the first has a predecessor.\<close>

lemma hist_pred:
  assumes "hist_ok h" and "t \<in> set (map fst h)" and "F \<in> set (map fst h)" and "F < t"
  obtains i where "Suc i < length h" "fst (h ! Suc i) = t" "F \<le> fst (h ! i)"
proof -
  obtain j where j: "j < length h" "fst (h ! j) = t" using assms(2) by (auto simp: in_set_conv_nth)
  obtain k where k: "k < length h" "fst (h ! k) = F" using assms(3) by (auto simp: in_set_conv_nth)
  have "k < j" using hist_sorted [OF assms(1), of j k] j k assms(4) by (metis less_asym not_less_iff_gr_or_eq)
  then obtain i where i: "j = Suc i" "k \<le> i" by (cases j) auto
  have "F \<le> fst (h ! i)"
    using hist_sorted [OF assms(1), of k i] i j k by (cases "k = i") auto
  with i j show ?thesis by (intro that) auto
qed

lemma incr_store_files:
  assumes "incr_store fs d f h fts dts"
  shows "store_files fs d f ''incremental'' fts dts"
proof -
  note st = incr_storeD [OF assms]
  have "ts_ok t \<and> file_content fs (full_name d f ''incremental'' t) \<noteq> None" if t: "t \<in> set fts" for t
    using st(4) [OF t] hist_ts_ok [OF st(2)] map_of_hist [of h t] by metis
  moreover have "ts_ok t \<and> file_content fs (delta_name d f ''incremental'' t) \<noteq> None" if t: "t \<in> set dts" for t
  proof -
    have th: "t \<in> set (map fst h)" "hd fts < t" using t st(5) by auto
    have "hd fts \<in> set (map fst h)" using st(3) st(4) [of "hd fts"] map_of_hist [of h "hd fts"] by (metis list.set_sel(1))
    with hist_pred [OF st(2) th(1) _ th(2)] obtain i where "Suc i < length h" "fst (h ! Suc i) = t"
      by metis
    with st(6) [of i] t hist_ts_ok [OF st(2) th(1)] show ?thesis by auto
  qed
  ultimately show ?thesis using st(1,3) unfolding store_files_def by blast
qed

lemma incr_store_without:
  assumes "incr_store fs d f h fts dts" and "fs_ok fs"
    and w: "without fs (full_name d f ''incremental'' ` (set fts - set fts')
          \<union> delta_name d f ''incremental'' ` (set dts - set dts')) fs'"
    and "set fts' \<subseteq> set fts" and "fts' \<noteq> []" and "sorted_wrt (<) fts'" and "sorted_wrt (<) dts'"
    and "set dts' = {t \<in> set (map fst h). hd fts' < t}" and "set dts' \<subseteq> set dts"
  shows "incr_store fs' d f h fts' dts'"
proof -
  note st = incr_storeD [OF assms(1)]
  have "store_files fs' d f ''incremental'' fts' dts'"
    using without_store [OF assms(2) incr_store_files [OF assms(1)] w] assms(4-7,9) by blast
  then have "store_lists fs' d f ''incremental'' fts' dts'" by (simp add: store_files_def)
  moreover have "map_of h t \<noteq> None \<and> file_content fs' (full_name d f ''incremental'' t) = map_of h t"
    if t: "t \<in> set fts'" for t
    using t assms(4) st(4) [of t] by (auto simp: without_content [OF w])
  moreover have "\<exists>delta. file_content fs' (delta_name d f ''incremental'' (fst (h ! Suc i))) = Some delta
      \<and> reproduces (snd (h ! i)) delta (snd (h ! Suc i))"
    if i: "Suc i < length h" "fst (h ! Suc i) \<in> set dts'" for i
    using st(6) [of i] i assms(9) by (auto simp: without_content [OF w])
  ultimately show ?thesis
    using st(2) assms(5,8) unfolding incr_store_def by blast
qed

lemma incr_store_drop_old:
  assumes "incr_store fs d f h fts dts" and "fs_ok fs" and "1 \<le> num"
    and dr: "drop_old num fts dts = (fts', dts')"
    and w: "without fs (full_name d f ''incremental'' ` (set fts - set fts')
          \<union> delta_name d f ''incremental'' ` (set dts - set dts')) fs'"
  shows "incr_store fs' d f h fts' dts'"
proof -
  note st = incr_storeD [OF assms(1)]
  note sn = store_names [OF st(1)]
  have "set dts' = {t \<in> set (map fst h). hd fts' < t}"
  proof (cases "int (length fts) > num")
    case True
    with assms(3) obtain F0 F1 rest where fts: "fts = F0 # F1 # rest"
      by (cases fts; cases "tl fts"; force)
    with True dr have "fts' = F1 # rest" "dts' = dropWhile (\<lambda>t. t \<le> F1) dts"
      by (auto simp: drop_old_def)
    moreover have "F0 < F1" using sn(3) fts by simp
    ultimately show ?thesis
      using dropWhile_sorted_set(1) [OF sn(4), of F1] st(5) fts by auto
  next
    case False
    then show ?thesis using dr st(5) by (simp add: drop_old_def)
  qed
  then show ?thesis
    using incr_store_without [OF assms(1,2) w] drop_old_subset [OF dr] drop_old_sorted [OF sn(3,4) dr]
      drop_old_not_Nil [OF assms(3) st(3) dr] by blast
qed

subsection \<open>The merged full backup\<close>

lemma updated_full_path_name:
  assumes "CHR ''.'' \<notin> set f" and "CHR ''/'' \<notin> set f" and "ts_ok F" and "ts_ok t"
  shows "updated_full_path (full_name d f kind F) (delta_name d f kind' t) = Some (full_name d f kind t)"
proof -
  let ?dir = "d @ ''/'' @ f @ ''.backup/'' @ kind @ ''/full''"
  have "full_name d f kind F = ?dir @ CHR ''/'' # (f @ ''.full.'' @ F)"
    by (simp add: full_name_def backup_dir_def)
  moreover have "CHR ''/'' \<notin> set (f @ ''.full.'' @ F)"
    using assms by (auto simp: ts_ok_def)
  ultimately have sp: "split_path (full_name d f kind F) = (?dir, f @ ''.full.'' @ F)"
    by (metis split_path_append)
  show ?thesis
    by (simp add: updated_full_path_def sp strchr_append [OF assms(1)] extract_delta_name [OF assms(4)])
      (simp add: full_name_def backup_dir_def)
qed

lemma entry_full_name: "CHR ''/'' \<notin> set f \<Longrightarrow> ts_ok t \<Longrightarrow>
  entry_name (backup_dir d f kind ''full'') (full_name d f kind t) = Some (f @ ''.full.'' @ t)"
  by (auto simp: entry_name_def full_name_def ts_ok_def Let_def)

lemma entry_full_delta:
  "entry_name (backup_dir d f kind ''delta'') (full_name d f kind t) = None"
proof (cases "entry_name (backup_dir d f kind ''delta'') (full_name d f kind t)")
  case (Some n)
  from entry_name_Some [OF this] show ?thesis by (simp add: full_name_def backup_dir_def)
qed

lemma can_write_full_name:
  assumes "fs_ok fs" and "store_files fs d f kind fts dts" and "CHR ''/'' \<notin> set f" and "ts_ok t"
  shows "can_write fs (full_name d f kind t)"
proof -
  let ?dir = "d @ ''/'' @ f @ ''.backup/'' @ kind @ ''/full''"
  have sl: "store_lists fs d f kind fts dts" using assms(2) by (simp add: store_files_def)
  then have "opendir_ok fs (?dir @ ''/'')" and ds: "dir_set fs (backup_dir d f kind ''full'') = full_name d f kind ` set fts"
    by (simp_all add: store_lists_iff [OF assms(1)] backup_dir_def)
  then have "map_of fs ?dir = Some Dir" by (simp add: opendir_ok_def butlast_append)
  moreover have "split_path (full_name d f kind t) = (?dir, f @ ''.full.'' @ t)"
    using split_path_append [of "f @ ''.full.'' @ t" ?dir] assms(3,4)
    by (auto simp: full_name_def backup_dir_def ts_ok_def)
  moreover have "map_of fs (full_name d f kind t) \<noteq> Some Dir"
  proof
    assume dir: "map_of fs (full_name d f kind t) = Some Dir"
    then have "full_name d f kind t \<in> dir_set fs (backup_dir d f kind ''full'')"
      using entry_full_name [OF assms(3,4)] by (auto simp: dir_set_def)
    then have "t \<in> set fts" unfolding ds by auto
    then have "file_content fs (full_name d f kind t) \<noteq> None" using assms(2) by (auto simp: store_files_def)
    with dir show False by (simp add: file_content_def)
  qed
  ultimately show ?thesis by (simp add: can_write_def dir_ok_def)
qed

lemma write_full_store:
  assumes ok: "fs_ok fs" and st: "store_files fs d f kind fts dts" and "CHR ''/'' \<notin> set f" and "ts_ok t"
    and "set fts' = insert t (set fts)" and "sorted_wrt (<) fts'"
  shows "store_files (write_path fs (full_name d f kind t) c) d f kind fts' dts"
proof -
  let ?p = "full_name d f kind t" and ?fs = "write_path fs (full_name d f kind t) c"
  have w: "can_write fs ?p" using can_write_full_name [OF assms(1-4)] .
  have sl: "store_lists fs d f kind fts dts" using st by (simp add: store_files_def)
  have m: "map_of ?fs = (map_of fs)(?p \<mapsto> File c)" using w by (simp add: write_path_def update_conv')
  have "opendir_ok ?fs q = opendir_ok fs q" for q
    using w by (auto simp: opendir_ok_def m can_write_def)
  moreover have "dir_set ?fs (backup_dir d f kind ''full'') = insert ?p (dir_set fs (backup_dir d f kind ''full''))"
    using entry_full_name [OF assms(3,4), of d kind] by (auto simp: dir_set_def m split: if_splits)
  moreover have "dir_set ?fs (backup_dir d f kind ''delta'') = dir_set fs (backup_dir d f kind ''delta'')"
    using entry_full_delta [of d f kind t] by (auto simp: dir_set_def m split: if_splits)
  ultimately have "store_lists ?fs d f kind fts' dts"
    using sl assms(5,6) unfolding store_lists_iff [OF ok] store_lists_iff [OF fs_ok_ops(1) [OF ok]]
    by auto
  moreover have "fts' \<noteq> []" using assms(5) by auto
  ultimately show ?thesis
    using st assms(4,5) w by (auto simp: store_files_def file_content_write)
qed

subsection \<open>Merging the oldest delta\<close>

text \<open>
  The full backups are \<open>F # Fs\<close>, the deltas \<open>t # ts\<close>: the delta of \<open>t\<close> belongs to
  the version right after \<open>F\<close>.
\<close>

lemma oldest_delta_successor:
  assumes "incr_store fs d f h (F # Fs) (t # ts)"
  obtains i where "Suc i < length h" "fst (h ! i) = F" "fst (h ! Suc i) = t"
proof -
  note st = incr_storeD [OF assms]
  have t: "t \<in> set (map fst h)" "F < t" using st(5) by auto
  have F: "F \<in> set (map fst h)" using st(4) [of F] map_of_hist [of h F] by simp
  obtain i where i: "Suc i < length h" "fst (h ! Suc i) = t" "F \<le> fst (h ! i)"
    using hist_pred [OF st(2) t(1) F t(2)] by blast
  have "\<not> F < fst (h ! i)"
  proof
    assume "F < fst (h ! i)"
    then have "fst (h ! i) \<in> set (t # ts)" using st(5) i(1) by auto
    moreover have "fst (h ! i) < t" using hist_sorted [OF st(2), of i "Suc i"] i by simp
    moreover have "sorted_wrt (<) (t # ts)" using store_names(4) [OF st(1)] .
    ultimately show False by auto
  qed
  with i show ?thesis by (intro that) auto
qed

lemma oldest_delta_le_full:
  assumes "incr_store fs d f h (F # Fs) (t # ts)" and "G \<in> set Fs"
  shows "t \<le> G"
proof -
  note st = incr_storeD [OF assms(1)]
  have "F < G" using store_names(3) [OF st(1)] assms(2) by simp
  then have "G \<in> set (t # ts)" using st(4) [of G] st(5) assms(2) map_of_hist [of h G] by auto
  then show ?thesis using store_names(4) [OF st(1)] by auto
qed

lemma insert_ts_store:
  assumes "incr_store fs d f h (F # Fs) (t # ts)"
  shows "sorted_wrt (<) (F # insert_ts t Fs)" and "set (insert_ts t Fs) = insert t (set Fs)"
    and "hd (insert_ts t Fs) = t" and "insert_ts t Fs \<noteq> []"
proof -
  note st = incr_storeD [OF assms]
  have F: "sorted_wrt (<) (F # Fs)" using store_names(3) [OF st(1)] .
  have "F < t" using st(5) by auto
  moreover have "\<forall>G\<in>set Fs. t \<le> G" using oldest_delta_le_full [OF assms] by blast
  ultimately show "sorted_wrt (<) (F # insert_ts t Fs)"
    using F by (cases Fs) (auto simp: insert_ts_def)
  show "set (insert_ts t Fs) = insert t (set Fs)" "hd (insert_ts t Fs) = t" "insert_ts t Fs \<noteq> []"
    by (auto simp: insert_ts_def) (metis hd_in_set)?
qed

lemma incr_store_merge:
  assumes "os_ok s" and store: "incr_store fs d f h (F # Fs) (t # ts)" and ok: "fs_ok fs"
    and f: "CHR ''.'' \<notin> set f" "CHR ''/'' \<notin> set f"
  shows "\<exists>fs'. update_incre_full_backup s fs (full_name d f ''incremental'' F) (delta_name d f ''incremental'' t)
      = Inr (0, fs') \<and> fs_ok fs'
    \<and> incr_store (remove_path (remove_path fs' (delta_name d f ''incremental'' t)) (full_name d f ''incremental'' F))
        d f h (insert_ts t Fs) ts"
proof -
  let ?fn = "full_name d f ''incremental''" and ?dn = "delta_name d f ''incremental''"
  note st = incr_storeD [OF store]
  note ins = insert_ts_store [OF store]
  have files: "store_files fs d f ''incremental'' (F # Fs) (t # ts)" using incr_store_files [OF store] .
  obtain i where i: "Suc i < length h" "fst (h ! i) = F" "fst (h ! Suc i) = t"
    using oldest_delta_successor [OF store] by blast
  have ts: "ts_ok t" "ts_ok F" using files by (auto simp: store_files_def)
  have Ft: "F < t" using st(5) by auto
  have cF: "file_content fs (?fn F) = Some (snd (h ! i))"
    using st(4) [of F] hist_nth_map_of [OF st(2), of i] i by simp
  have ct: "map_of h t = Some (snd (h ! Suc i))"
    using hist_nth_map_of [OF st(2) i(1)] i(3) by simp
  obtain delta where d: "file_content fs (?dn t) = Some delta"
      "reproduces (snd (h ! i)) delta (snd (h ! Suc i))" using st(6) [OF i(1)] i(3) by auto
  define out where "out = snd (h ! Suc i)"
  have run: "apply_delta s (snd (h ! i)) delta = Inr out"
    using d(2) assms(1) by (simp add: reproduces_def out_def)
  let ?fs1 = "write_path fs (?fn t) []"
  let ?fs2 = "write_path ?fs1 (?fn t) out"
  have w: "can_write fs (?fn t)" using can_write_full_name [OF ok files f(2) ts(1)] .
  then have w1: "can_write ?fs1 (?fn t)" by (rule can_write_write)
  have upd: "update_incre_full_backup s fs (?fn F) (?dn t) = Inr (0, ?fs2)"
    using w w1 d(1) cF run less_imp_neq [OF Ft]
    by (simp add: update_incre_full_backup_def updated_full_path_name [OF f ts(2,1)] file_content_write
        Let_def)
  let ?K = "F # insert_ts t Fs"
  have c2: "file_content ?fs2 q = (if q = ?fn t then Some out else file_content fs q)" for q
    using w w1 by (simp add: file_content_write)
  have st2: "store_files ?fs2 d f ''incremental'' ?K (t # ts)"
  proof -
    have "store_files ?fs1 d f ''incremental'' ?K (t # ts)"
      by (rule write_full_store [OF ok files f(2) ts(1)]) (use ins in auto)
    then show ?thesis
      by (rule write_full_store [OF fs_ok_ops(1) [OF ok] _ f(2) ts(1)]) (use ins in auto)
  qed
  have ok2: "fs_ok ?fs2" using ok by (intro fs_ok_ops)
  let ?fs3 = "remove_path ?fs2 (?dn t)" and ?fs4 = "remove_path (remove_path ?fs2 (?dn t)) (?fn F)"
  have w3: "without ?fs2 {?dn t} ?fs3"
    using ok2 st2 by (intro without_remove file_content_not_dir) (auto simp: store_files_def)
  have w4: "without ?fs3 {?fn F} ?fs4"
    using w3 st2 by (intro without_remove file_content_not_dir)
      (auto simp: store_files_def without_def without_content [OF w3])
  have W: "without ?fs2 ({?dn t} \<union> {?fn F}) ?fs4" using without_trans [OF w3 w4] .
  have sK: "sorted_wrt (<) (t # ts)" using store_names(4) [OF st(1)] .
  have sets: "set ?K - set (insert_ts t Fs) = {F}" "set (t # ts) - set ts = {t}"
    using ins(1) sK by auto
  have st4: "store_files ?fs4 d f ''incremental'' (insert_ts t Fs) ts"
    by (rule without_store [OF ok2 st2]) (use W sets ins sK in \<open>auto simp: insert_commute\<close>)
  have c4: "file_content ?fs4 q = (if q \<in> {?dn t, ?fn F} then None else if q = ?fn t then Some out
      else file_content fs q)" for q
    using without_content [OF W, of q] c2 [of q] by auto
  have "incr_store ?fs4 d f h (insert_ts t Fs) ts"
    unfolding incr_store_def
  proof (intro conjI ballI allI impI)
    show "store_lists ?fs4 d f ''incremental'' (insert_ts t Fs) ts" "insert_ts t Fs \<noteq> []"
      using st4 by (auto simp: store_files_def)
    show "hist_ok h" by (rule st(2))
    show "set ts = {u \<in> set (map fst h). hd (insert_ts t Fs) < u}"
      unfolding ins(3) using st(5) sK Ft by (auto dest: less_trans)
  next
    fix u assume "u \<in> set (insert_ts t Fs)"
    then have u: "u = t \<or> u \<in> set Fs" "u \<noteq> F" using ins(1,2) by auto
    then show "map_of h u \<noteq> None" using ct st(4) [of u] by auto
    show "file_content ?fs4 (?fn u) = map_of h u"
      unfolding c4 using u ct st(4) [of u] by (auto simp: out_def)
  next
    fix j assume j: "Suc j < length h" "fst (h ! Suc j) \<in> set ts"
    then have "fst (h ! Suc j) \<noteq> t" using sK by auto
    then show "\<exists>delta. file_content ?fs4 (?dn (fst (h ! Suc j))) = Some delta
        \<and> reproduces (snd (h ! j)) delta (snd (h ! Suc j))"
      using st(6) [of j] j by (auto simp: c4)
  qed
  with upd ok2 show ?thesis by blast
qed

subsection \<open>manage_backup_version on an incremental store\<close>

lemma manage_incremental_run:
  assumes "read_sort_dir_files fs (p @ ''full/'') = Some fulls"
    and "read_sort_dir_files fs (p @ ''delta/'') = Some deltas"
    and "\<not> (int (length fulls) \<le> num \<and> int (length deltas) \<le> num)"
    and "drop_oldest_full num fs (Some fulls) deltas = Inr (j, i, fs1)"
  shows "manage_backup_version s 0 num fs p
    = (if int (length deltas) - int i > num then
         (case (file_path fulls j, file_path deltas i) of
            (Some full, Some d) \<Rightarrow>
              (case update_incre_full_backup s fs1 full d of
                 Inl e \<Rightarrow> Inl e
               | Inr (_, fs) \<Rightarrow> Inr (0, remove_path (remove_path fs d) full))
          | _ \<Rightarrow> Inl Undefined)
       else Inr (0, fs1))"
  using assms by (simp only: manage_backup_version_def Let_def option.case files_of_def if_False
      sum.case prod.case refl if_True zero_neq_one)

lemma drop_old_full_nth:
  assumes "drop_old num fts dts = (fts', dts')" and "i < length fts'"
  shows "fts ! (length fts - length fts' + i) = fts' ! i" "length fts - length fts' + i < length fts"
  using drop_old_suffix [OF assms(1)] assms(2) by auto

theorem manage_incremental_correct:
  assumes "os_ok s" and ok: "fs_ok fs" and store: "incr_store fs d f h fts dts" and "1 \<le> num"
    and f: "CHR ''.'' \<notin> set f" "CHR ''/'' \<notin> set f"
    and r: "retain_incr num fts dts = (fts', dts')"
  shows "\<exists>fs'. manage_backup_version s 0 num fs (manage_path d f ''incremental'') = Inr (0, fs')
    \<and> incr_store fs' d f h fts' dts'"
proof -
  let ?fn = "full_name d f ''incremental''" and ?dn = "delta_name d f ''incremental''"
  note st = incr_storeD [OF store]
  note sn = store_names [OF st(1)]
  obtain ft1 dt1 where d1: "drop_old num fts dts = (ft1, dt1)" by fastforce
  note sub = drop_old_subset [OF d1]
  obtain fs1 where r1: "drop_oldest_full num fs (Some (map ?fn fts)) (map ?dn dts)
      = Inr (length fts - length ft1, length dts - length dt1, fs1)"
    and w1: "without fs (?fn ` (set fts - set ft1) \<union> ?dn ` (set dts - set dt1)) fs1"
    using drop_oldest_full_store [OF ok incr_store_files [OF store] assms(4) d1] by blast
  have ok1: "fs_ok fs1" using w1 by (simp add: without_def)
  have st1: "incr_store fs1 d f h ft1 dt1"
    using incr_store_drop_old [OF store ok assms(4) d1 w1] .
  have cnt: "int (length dts) - int (length dts - length dt1) = int (length dt1)"
    using sub by (simp add: of_nat_diff)
  note run = manage_incremental_run [of fs "manage_path d f ''incremental''", unfolded manage_path_dirs,
      OF sn(1,2) _ r1, of s, unfolded length_map cnt]
  show ?thesis
  proof (cases "int (length dt1) > num")
    case False
    then have e: "fts' = ft1" "dts' = dt1" using r d1 by (auto simp: retain_incr_def)
    have "manage_backup_version s 0 num fs (manage_path d f ''incremental'') = Inr (0, fs1)"
    proof (cases "int (length fts) \<le> num \<and> int (length dts) \<le> num")
      case True
      then have "fs1 = fs" using r1 by (auto simp: drop_oldest_full_def)
      with True sn(1,2) show ?thesis by (simp add: manage_backup_version_def manage_path_dirs)
    next
      case early: False
      from run [OF early] False show ?thesis by simp
    qed
    with st1 e show ?thesis by blast
  next
    case True
    with assms(4) obtain t ts where dt1: "dt1 = t # ts" by (cases dt1) auto
    obtain F Fs where ft1: "ft1 = F # Fs" using incr_storeD(3) [OF st1] by (cases ft1) auto
    have e: "fts' = insert_ts t Fs" "dts' = ts"
      using r d1 True dt1 ft1 by (auto simp: retain_incr_def)
    have late: "\<not> (int (length fts) \<le> num \<and> int (length dts) \<le> num)" using True sub by linarith
    have i: "file_path (map ?dn dts) (length dts - length dt1) = Some (?dn t)"
      "file_path (map ?fn fts) (length fts - length ft1) = Some (?fn F)"
      using drop_old_nth [OF d1, of 0] drop_old_full_nth [OF d1, of 0] dt1 ft1
      by (simp_all add: file_path_def)
    from incr_store_merge [OF assms(1) st1 [unfolded ft1 dt1] ok1 f] obtain fs2 where
      "update_incre_full_backup s fs1 (?fn F) (?dn t) = Inr (0, fs2)"
      "incr_store (remove_path (remove_path fs2 (?dn t)) (?fn F)) d f h (insert_ts t Fs) ts" by blast
    with run [OF late] True i e show ?thesis by simp
  qed
qed

text \<open>What retention does to the number of backups.\<close>

lemma retain_bounds:
  assumes "1 \<le> num" and "fts \<noteq> []"
    and "retain = retain_incr num \<or> retain = retain_diff num" and "retain fts dts = (fts', dts')"
  shows "int (length fts') \<le> max num (int (length fts) - 1)"
    and "int (length dts') \<le> max num (int (length dts) - 1)"
proof -
  obtain ft1 dt1 where d1: "drop_old num fts dts = (ft1, dt1)" by fastforce
  have a: "int (length ft1) \<le> max num (int (length fts) - 1)"
    using d1 assms(2) by (cases fts) (auto simp: drop_old_def split: if_splits)
  have b: "length dt1 \<le> length dts" using drop_old_subset [OF d1] by blast
  have c: "int (length (insert_ts (hd dt1) (tl ft1))) \<le> max num (int (length fts) - 1)"
    using a drop_old_not_Nil [OF assms(1,2) d1] by (cases ft1) (auto simp: insert_ts_def)
  have e: "fts' = ft1 \<or> fts' = insert_ts (hd dt1) (tl ft1)"
    "dts' = (if int (length dt1) > num then tl dt1 else dt1)"
    using assms(3,4) d1 by (auto simp: retain_incr_def retain_diff_def split: if_splits)
  show "int (length fts') \<le> max num (int (length fts) - 1)" using e(1) a c by auto
  show "int (length dts') \<le> max num (int (length dts) - 1)"
    using b assms(1) unfolding e(2) by (auto simp: max_def)
qed

end
