(* ===== verification/Checksum.thy ===== *)
theory Checksum
  imports Prelude
begin

text \<open>
  The weak checksum of checksum.c (\<open>get_checksum1\<close>), the update that match.c makes when
  its window moves by one byte, and the equations that relate them. All arithmetic is on
  32-bit words, as in the code; the checksum keeps the low 16 bits of each half.
\<close>

subsection \<open>The checksum of a buffer\<close>

text \<open>\<open>schar\<close>: a byte read as a signed character and converted to \<open>uint32\<close>.\<close>

definition schar :: "byte \<Rightarrow> uint32" where
  "schar b = scast b"

definition CHAR_OFFSET :: uint32 where
  "CHAR_OFFSET = 0"

fun checksum1_tail :: "uint32 \<Rightarrow> uint32 \<Rightarrow> byte list \<Rightarrow> uint32 \<times> uint32" where
  "checksum1_tail s1 s2 [] = (s1, s2)"
| "checksum1_tail s1 s2 (b # bs) =
     (let s1 = s1 + (schar b + CHAR_OFFSET) in checksum1_tail s1 (s2 + s1) bs)"

text \<open>The main loop takes four bytes at a time while more than four are left.\<close>

fun checksum1_loop :: "uint32 \<Rightarrow> uint32 \<Rightarrow> byte list \<Rightarrow> uint32 \<times> uint32" where
  "checksum1_loop s1 s2 (a # b # c # d # e # bs) =
     checksum1_loop
       (s1 + (schar a + schar b + schar c + schar d + 4 * CHAR_OFFSET))
       (s2 + (4 * (s1 + schar a) + 3 * schar b + 2 * schar c + schar d + 10 * CHAR_OFFSET))
       (e # bs)"
| "checksum1_loop s1 s2 bs = checksum1_tail s1 s2 bs"

definition get_checksum1 :: "byte list \<Rightarrow> uint32" where
  "get_checksum1 buf =
     (let (s1, s2) = checksum1_loop 0 0 buf in (s1 AND 0xffff) + push_bit 16 s2)"

subsection \<open>The rolling update (match.c, hash_search)\<close>

text \<open>
  \<open>roll_off k b\<close> trims the first byte of a window of \<open>k\<close> bytes; \<open>roll_on b\<close> adds
  the next byte; \<open>sum_of\<close> puts the two halves together.
\<close>

definition roll_off :: "int \<Rightarrow> byte \<Rightarrow> uint32 \<times> uint32 \<Rightarrow> uint32 \<times> uint32" where
  "roll_off k b = (\<lambda>(s1, s2). (s1 - (schar b + CHAR_OFFSET),
     s2 - word_of_int k * (schar b + CHAR_OFFSET)))"

definition roll_on :: "byte \<Rightarrow> uint32 \<times> uint32 \<Rightarrow> uint32 \<times> uint32" where
  "roll_on b = (\<lambda>(s1, s2). let s1 = s1 + (schar b + CHAR_OFFSET) in (s1, s2 + s1))"

definition sum_of :: "uint32 \<times> uint32 \<Rightarrow> uint32" where
  "sum_of = (\<lambda>(s1, s2). (s1 AND 0xffff) OR push_bit 16 s2)"

definition sum_split :: "uint32 \<Rightarrow> uint32 \<times> uint32" where
  "sum_split sm = (sm AND 0xFFFF, drop_bit 16 sm)"

subsection \<open>The unrolled loop computes the plain one\<close>

lemma checksum1_loop_eq_tail: "checksum1_loop s1 s2 bs = checksum1_tail s1 s2 bs"
proof (induction s1 s2 bs rule: checksum1_loop.induct)
  case (1 s1 s2 a b c d e bs)
  have "s1 + (schar a + schar b + schar c + schar d + 4 * CHAR_OFFSET)
      = s1 + (schar a + CHAR_OFFSET) + (schar b + CHAR_OFFSET) + (schar c + CHAR_OFFSET)
        + (schar d + CHAR_OFFSET)"
    by (simp add: algebra_simps)
  moreover have "s2 + (4 * (s1 + schar a) + 3 * schar b + 2 * schar c + schar d + 10 * CHAR_OFFSET)
      = s2 + (s1 + (schar a + CHAR_OFFSET))
        + (s1 + (schar a + CHAR_OFFSET) + (schar b + CHAR_OFFSET))
        + (s1 + (schar a + CHAR_OFFSET) + (schar b + CHAR_OFFSET) + (schar c + CHAR_OFFSET))
        + (s1 + (schar a + CHAR_OFFSET) + (schar b + CHAR_OFFSET) + (schar c + CHAR_OFFSET)
            + (schar d + CHAR_OFFSET))"
    by (simp add: algebra_simps)
  ultimately show ?case
    using "1.IH" by (simp only: checksum1_loop.simps checksum1_tail.simps Let_def)
qed simp_all

text \<open>The closed form: the sum of the bytes, and the sum weighted by the distance to the end.\<close>

fun byte_sum :: "byte list \<Rightarrow> uint32" where
  "byte_sum [] = 0"
| "byte_sum (b # bs) = schar b + CHAR_OFFSET + byte_sum bs"

fun weighted_sum :: "byte list \<Rightarrow> uint32" where
  "weighted_sum [] = 0"
| "weighted_sum (b # bs) = of_nat (Suc (length bs)) * (schar b + CHAR_OFFSET) + weighted_sum bs"

lemma checksum1_tail_closed:
  "checksum1_tail s1 s2 bs
    = (s1 + byte_sum bs, s2 + of_nat (length bs) * s1 + weighted_sum bs)"
  by (induction s1 s2 bs rule: checksum1_tail.induct) (simp_all add: Let_def algebra_simps)

lemma checksum1_loop_closed: "checksum1_loop 0 0 bs = (byte_sum bs, weighted_sum bs)"
  by (simp add: checksum1_loop_eq_tail checksum1_tail_closed)

lemma byte_sum_append: "byte_sum (xs @ ys) = byte_sum xs + byte_sum ys"
  by (induction xs) (simp_all add: algebra_simps)

lemma weighted_sum_append:
  "weighted_sum (xs @ ys) = weighted_sum xs + of_nat (length ys) * byte_sum xs + weighted_sum ys"
  by (induction xs) (simp_all add: algebra_simps)

lemma roll_step:
  "roll_on x (roll_off (int (Suc (length w))) b (byte_sum (b # w), weighted_sum (b # w)))
    = (byte_sum (w @ [x]), weighted_sum (w @ [x]))"
  by (simp add: roll_on_def roll_off_def Let_def byte_sum_append weighted_sum_append algebra_simps)

lemma roll_shrink:
  "roll_off (int (Suc (length w))) b (byte_sum (b # w), weighted_sum (b # w))
    = (byte_sum w, weighted_sum w)"
  by (simp add: roll_off_def algebra_simps)

subsection \<open>Only the low halves matter\<close>

text \<open>
  After a match the window's sums are restarted from the 16-bit halves of the checksum
  (\<open>sum_split\<close>), so from then on the code's sums agree with the exact ones modulo
  \<open>2 ^ 16\<close> only. That is all the checksum reads.
\<close>

definition same_low :: "uint32 \<times> uint32 \<Rightarrow> uint32 \<times> uint32 \<Rightarrow> bool" where
  "same_low s t \<longleftrightarrow> (ucast (fst s) :: 16 word) = ucast (fst t)
     \<and> (ucast (snd s) :: 16 word) = ucast (snd t)"

lemma same_low_refl [simp]: "same_low s s"
  by (simp add: same_low_def)

lemma ucast16_of_int: "(ucast (word_of_int i :: uint32) :: 16 word) = word_of_int i"
  by transfer simp

lemma ucast16_arith:
  "(ucast (a + b :: uint32) :: 16 word) = ucast a + ucast b"
  "(ucast (a - b :: uint32) :: 16 word) = ucast a - ucast b"
  "(ucast (a * b :: uint32) :: 16 word) = ucast a * ucast b"
proof -
  have u: "(ucast w :: 16 word) = word_of_int (uint w)" for w :: uint32
    using ucast16_of_int [of "uint w"] by (simp only: word_of_int_uint)
  have w: "a + b = word_of_int (uint a + uint b)" "a - b = word_of_int (uint a - uint b)"
    "a * b = word_of_int (uint a * uint b)"
    by (simp_all only: of_int_add of_int_diff of_int_mult word_of_int_uint)
  show "(ucast (a + b :: uint32) :: 16 word) = ucast a + ucast b"
    by (subst w(1), subst ucast16_of_int) (simp only: u of_int_add)
  show "(ucast (a - b :: uint32) :: 16 word) = ucast a - ucast b"
    by (subst w(2), subst ucast16_of_int) (simp only: u of_int_diff)
  show "(ucast (a * b :: uint32) :: 16 word) = ucast a * ucast b"
    by (subst w(3), subst ucast16_of_int) (simp only: u of_int_mult)
qed

lemma same_low_roll_off: "same_low s t \<Longrightarrow> same_low (roll_off k b s) (roll_off k b t)"
  by (auto simp: same_low_def roll_off_def ucast16_arith split: prod.splits)

lemma same_low_roll_on: "same_low s t \<Longrightarrow> same_low (roll_on b s) (roll_on b t)"
  by (auto simp: same_low_def roll_on_def ucast16_arith Let_def split: prod.splits)

lemma ffff_mask: "(0xffff :: uint32) = mask 16"
  by (simp add: mask_eq_exp_minus_1)

lemma and_ffff: "(a :: uint32) AND 0xffff = ucast (ucast a :: 16 word)"
  by (rule bit_word_eqI) (auto simp: bit_simps ffff_mask)

lemma push_bit16_ucast: "push_bit 16 (a :: uint32) = push_bit 16 (ucast (ucast a :: 16 word))"
  by (rule bit_word_eqI) (auto simp: bit_simps ffff_mask)

lemma sum_of_same_low: "same_low s t \<Longrightarrow> sum_of s = sum_of t"
  by (cases s; cases t) (metis (mono_tags) and_ffff case_prod_conv fst_conv push_bit16_ucast
    same_low_def snd_conv sum_of_def)

lemma get_checksum1_eq: "get_checksum1 bs = sum_of (byte_sum bs, weighted_sum bs)"
proof -
  have "(byte_sum bs AND 0xffff) + push_bit 16 (weighted_sum bs)
      = (byte_sum bs AND 0xffff) OR push_bit 16 (weighted_sum bs)"
    by (rule disjunctive_add) (auto simp: bit_simps ffff_mask)
  then show ?thesis
    by (simp add: get_checksum1_def checksum1_loop_closed sum_of_def)
qed

lemma ucast16_bit_iff: "bit (ucast (a :: uint32) :: 16 word) n = (n < 16 \<and> bit a n)"
  by (auto simp: bit_simps)

lemma push16_bit_iff: "bit (push_bit 16 (b :: uint32)) n = (16 \<le> n \<and> n < 32 \<and> bit b (n - 16))"
  by (simp add: bit_simps conj_commute)

lemma sum_of_halves:
  "(ucast (sum_of (s1, s2) AND 0xFFFF) :: 16 word) = ucast s1"
  "(ucast (drop_bit 16 (sum_of (s1, s2))) :: 16 word) = ucast s2"
  unfolding sum_of_def prod.case ffff_mask bit_eq_iff ucast16_bit_iff bit_and_iff bit_or_iff
    bit_mask_iff push16_bit_iff bit_drop_bit_eq comp_def
  by auto

lemma sum_split_same_low: "same_low (sum_split (get_checksum1 bs)) (byte_sum bs, weighted_sum bs)"
  by (simp add: same_low_def sum_split_def get_checksum1_eq sum_of_halves)

subsection \<open>Hash table indices (match.c)\<close>

definition SUM2HASH2 :: "uint32 \<Rightarrow> uint32 \<Rightarrow> uint32" where
  "SUM2HASH2 s1 s2 = (s1 + s2) AND 0xFFFF"

definition SUM2HASH :: "uint32 \<Rightarrow> uint32" where
  "SUM2HASH sm = SUM2HASH2 (sm AND 0xFFFF) (drop_bit 16 sm)"

text \<open>
  The search hashes the running halves, the table was filled from whole checksums: both give
  the same slot.
\<close>

lemma SUM2HASH_sum_of: "SUM2HASH2 s1 s2 = SUM2HASH (sum_of (s1, s2))"
  using sum_of_halves [of s1 s2] by (simp add: SUM2HASH2_def SUM2HASH_def and_ffff ucast16_arith)

end
