(* ===== verification/Wire.thy ===== *)
theory Wire
  imports Prelude
begin

text \<open>
  The byte encodings of io.c and byteorder.h: integers of fixed and variable length,
  vstrings, file-list indexes and the header of a checksum set. Every writer is a function to
  the bytes it puts on the connection, every reader a function of type \<open>'a reader\<close>.
  The locales \<open>codec\<close> and \<open>stateful_codec\<close> state the contract between a writer and
  its reader, and what follows for sequences.
\<close>

subsection \<open>Byte order (byteorder.h)\<close>

definition SIVAL :: "uint32 \<Rightarrow> byte list" where
  "SIVAL x = [ucast x, ucast (drop_bit 8 x), ucast (drop_bit 16 x), ucast (drop_bit 24 x)]"

definition SIVAL64 :: "uint64 \<Rightarrow> byte list" where
  "SIVAL64 x = SIVAL (ucast x) @ SIVAL (ucast (drop_bit 32 x))"

definition IVAL :: "byte list \<Rightarrow> nat \<Rightarrow> uint32" where
  "IVAL b pos =
     (ucast (b ! pos) OR push_bit 8 (ucast (b ! (pos + 1))))
     OR push_bit 16 (ucast (b ! (pos + 2)) OR push_bit 8 (ucast (b ! (pos + 3))))"

definition IVAL64 :: "byte list \<Rightarrow> nat \<Rightarrow> uint64" where
  "IVAL64 b pos = ucast (IVAL b pos) OR push_bit 32 (ucast (IVAL b (pos + 4)))"

lemma length_SIVAL [simp]: "length (SIVAL x) = 4"
  by (simp add: SIVAL_def)

lemma length_SIVAL64 [simp]: "length (SIVAL64 x) = 8"
  by (simp add: SIVAL64_def)

lemma bit_octets:
  assumes "n < (32::nat)"
  obtains k where "n = k" "k < 8" | k where "n = 8 + k" "k < 8"
    | k where "n = 16 + k" "k < 8" | k where "n = 24 + k" "k < 8"
  using assms that(1) [of n] that(2) [of "n - 8"] that(3) [of "n - 16"] that(4) [of "n - 24"]
  by linarith

lemma IVAL_SIVAL [simp]: "IVAL (SIVAL x @ rest) 0 = x"
proof (rule bit_word_eqI)
  fix n assume "n < LENGTH(32)"
  then have "n < 32" by simp
  then show "bit (IVAL (SIVAL x @ rest) 0) n = bit x n"
    by (rule bit_octets) (simp_all add: IVAL_def SIVAL_def bit_simps)
qed

lemma IVAL_SIVAL_Nil [simp]: "IVAL (SIVAL x) 0 = x"
  using IVAL_SIVAL [of x "[]"] by simp

lemma IVAL_append_shift: "4 \<le> length b \<Longrightarrow> IVAL (b @ c) 0 = IVAL b 0"
  by (auto simp: IVAL_def nth_append)

lemma IVAL_drop: "IVAL (xs @ b) (length xs) = IVAL b 0"
  by (simp add: IVAL_def nth_append numeral_2_eq_2)

lemma IVAL64_SIVAL64 [simp]: "IVAL64 (SIVAL64 x @ rest) 0 = x"
proof (rule bit_word_eqI)
  fix n assume "n < LENGTH(64)"
  have "IVAL (SIVAL64 x @ rest) 4 = ucast (drop_bit 32 x)"
    using IVAL_drop [of "SIVAL (ucast x)" "SIVAL (ucast (drop_bit 32 x)) @ rest"]
    by (simp add: SIVAL64_def)
  moreover have "IVAL (SIVAL64 x @ rest) 0 = ucast x"
    by (simp add: SIVAL64_def)
  ultimately show "bit (IVAL64 (SIVAL64 x @ rest) 0) n = bit x n"
    using \<open>n < LENGTH(64)\<close> by (cases "n < 32") (auto simp: IVAL64_def bit_simps)
qed

subsection \<open>Reading and writing buffers (io.c)\<close>

text \<open>
  \<open>read_buf\<close> on a connection that ends early calls \<open>whine_about_eof\<close>, which ends the
  process with \<open>RERR_STREAMIO\<close>.
\<close>

definition read_buf :: "nat \<Rightarrow> byte list reader" where
  "read_buf n s = (if length s < n then Inl RERR_STREAMIO else Inr (take n s, drop n s))"

definition read_byte :: "byte reader" where
  "read_byte = rbind (read_buf 1) (\<lambda>b. rreturn (b ! 0))"

definition write_byte :: "byte \<Rightarrow> byte list" where
  "write_byte c = [c]"

lemma read_buf_append [simp]: "length b = n \<Longrightarrow> read_buf n (b @ rest) = Inr (b, rest)"
  by (simp add: read_buf_def)

lemma read_buf_0 [simp]: "read_buf 0 s = Inr ([], s)"
  by (simp add: read_buf_def)

lemma read_buf_Suc: "read_buf (Suc n) (c # s) =
    (case read_buf n s of Inl e \<Rightarrow> Inl e | Inr (b, s') \<Rightarrow> Inr (c # b, s'))"
  by (simp add: read_buf_def)

lemma read_byte_Cons [simp]: "read_byte (c # rest) = Inr (c, rest)"
  by (simp add: read_byte_def read_buf_def rbind_def)

lemma read_byte_Nil [simp]: "read_byte [] = Inl RERR_STREAMIO"
  by (simp add: read_byte_def read_buf_def rbind_def)

subsection \<open>Integers of fixed length\<close>

text \<open>
  An \<open>int32\<close> is the integer it denotes; \<open>word_of_int\<close> and \<open>sint\<close> go between the value and
  its 32 bits. \<open>is_int32\<close> is the range of the type.
\<close>

definition is_int32 :: "int \<Rightarrow> bool" where
  "is_int32 x \<longleftrightarrow> - (2 ^ 31) \<le> x \<and> x < 2 ^ 31"

definition write_shortint :: "16 word \<Rightarrow> byte list" where
  "write_shortint x = [ucast x, ucast (drop_bit 8 x)]"

definition read_shortint :: "16 word reader" where
  "read_shortint = rbind (read_buf 2)
     (\<lambda>b. rreturn (push_bit 8 (ucast (b ! 1)) + ucast (b ! 0)))"

definition write_int :: "int \<Rightarrow> byte list" where
  "write_int x = SIVAL (word_of_int x)"

definition read_int :: "int reader" where
  "read_int = rbind (read_buf 4) (\<lambda>b. rreturn (sint (IVAL b 0)))"

definition write_longint :: "uint64 \<Rightarrow> byte list" where
  "write_longint x =
     (let s = SIVAL (ucast x) in
      if sint x \<le> 0x7FFFFFFF \<and> sint x \<ge> 0 then s
      else replicate 4 0xFF @ s @ SIVAL (ucast (drop_bit 32 x)))"

definition read_longint :: "uint64 reader" where
  "read_longint = rbind read_int (\<lambda>num.
     if num \<noteq> - 1 then rreturn (word_of_int num)
     else rbind (read_buf 8) (\<lambda>b.
       rreturn (ucast (IVAL b 0) OR push_bit 32 (ucast (IVAL b 4)))))"

lemma write_int_length [simp]: "length (write_int x) = 4"
  by (simp add: write_int_def)

lemma sint_word_of_int: "is_int32 x \<Longrightarrow> sint (word_of_int x :: uint32) = x"
  by (simp add: is_int32_def signed_take_bit_int_eq_self sint_sbintrunc')

lemma read_int_write_int: "is_int32 x \<Longrightarrow> read_int (write_int x @ rest) = Inr (x, rest)"
  by (simp add: read_int_def write_int_def sint_word_of_int rbind_def)

lemma read_shortint_write_shortint:
  "read_shortint (write_shortint x @ rest) = Inr (x, rest)"
proof -
  have "push_bit 8 (ucast (ucast (drop_bit 8 x) :: byte)) + ucast (ucast x :: byte) = x"
  proof -
    have "push_bit 8 (ucast (ucast (drop_bit 8 x) :: byte)) + (ucast (ucast x :: byte) :: 16 word)
       = push_bit 8 (ucast (ucast (drop_bit 8 x) :: byte)) OR ucast (ucast x :: byte)"
      by (rule disjunctive_add) (auto simp: bit_simps)
    also have "\<dots> = x"
      by (rule bit_word_eqI) (auto simp: bit_simps)
    finally show ?thesis .
  qed
  then show ?thesis
    by (simp add: read_shortint_def write_shortint_def read_buf_def rbind_def)
qed


subsection \<open>Integers of variable length\<close>

text \<open>
  The lead byte holds, in unary from the top bit, how many extra bytes follow; the rest of
  its bits are the top byte of the number where that fits.
\<close>

definition int_byte_extra :: "nat list" where
  "int_byte_extra =
    [0, 0, 0, 0, 0, 0, 0, 0, 0, 0, 0, 0, 0, 0, 0, 0,
     0, 0, 0, 0, 0, 0, 0, 0, 0, 0, 0, 0, 0, 0, 0, 0,
     1, 1, 1, 1, 1, 1, 1, 1, 1, 1, 1, 1, 1, 1, 1, 1,
     2, 2, 2, 2, 2, 2, 2, 2, 3, 3, 3, 3, 4, 4, 5, 6]"

definition lead_extra :: "byte \<Rightarrow> nat" where
  "lead_extra ch = int_byte_extra ! (unat ch div 4)"

text \<open>\<open>while (cnt > min && b[cnt] == 0) cnt--;\<close> with \<open>b\<close> counted from index 1.\<close>

fun trim_cnt :: "nat \<Rightarrow> byte list \<Rightarrow> nat \<Rightarrow> nat" where
  "trim_cnt m b 0 = 0"
| "trim_cnt m b (Suc c) = (if Suc c > m \<and> b ! c = 0 then trim_cnt m b c else Suc c)"

definition write_varint :: "uint32 \<Rightarrow> byte list" where
  "write_varint x =
     (let b = SIVAL x;
          cnt = trim_cnt 1 b 4;
          bit = push_bit (7 - cnt + 1) (1::byte);
          c = b ! (cnt - 1)
      in if c \<ge> bit then NOT (bit - 1) # take cnt b
         else if cnt > 1 then (c OR NOT (bit * 2 - 1)) # take (cnt - 1) b
         else [c])"

definition read_varint :: "uint32 reader" where
  "read_varint = rbind read_byte (\<lambda>ch.
     let extra = lead_extra ch in
     if extra \<noteq> 0 then
       let bit = push_bit (8 - extra) (1::byte) in
       if extra \<ge> 5 then rfail RERR_STREAMIO
       else rbind (read_buf extra) (\<lambda>ub.
         rreturn (IVAL (ub @ [ch AND (bit - 1)] @ replicate (4 - extra) 0) 0))
     else rreturn (IVAL [ch, 0, 0, 0, 0] 0))"

definition write_varlong :: "uint64 \<Rightarrow> nat \<Rightarrow> byte list" where
  "write_varlong x min_bytes =
     (let b = SIVAL64 x;
          cnt = trim_cnt min_bytes b 8;
          bit = push_bit (7 - (cnt - min_bytes)) (1::byte);
          c = b ! (cnt - 1)
      in if c \<ge> bit then NOT (bit - 1) # take cnt b
         else if cnt > min_bytes then (c OR NOT (bit * 2 - 1)) # take (cnt - 1) b
         else c # take (cnt - 1) b)"

definition read_varlong :: "nat \<Rightarrow> uint64 reader" where
  "read_varlong min_bytes = rbind (read_buf min_bytes) (\<lambda>b2.
     let extra = lead_extra (b2 ! 0) in
     if extra \<noteq> 0 then
       let bit = push_bit (8 - extra) (1::byte) in
       if min_bytes + extra > 9 then rfail RERR_STREAMIO
       else rbind (read_buf extra) (\<lambda>b3.
         rreturn (IVAL64 (drop 1 b2 @ b3 @ [(b2 ! 0) AND (bit - 1)]
                          @ replicate (9 - (min_bytes + extra)) 0) 0))
     else rreturn (IVAL64 (drop 1 b2 @ [b2 ! 0] @ replicate (9 - min_bytes) 0) 0))"

subsubsection \<open>The lead byte\<close>

lemma lead_byte_overflow:
  assumes "k \<le> 5"
  shows "lead_extra (NOT (push_bit (7 - k) 1 - 1)) = Suc k"
    and "NOT (push_bit (7 - k) 1 - 1) AND (push_bit (8 - Suc k) 1 - 1) = (0::byte)"
proof -
  from assms have "k \<in> {0, 1, 2, 3, 4, 5}" by auto
  then show "lead_extra (NOT (push_bit (7 - k) 1 - 1)) = Suc k"
    and "NOT (push_bit (7 - k) 1 - 1) AND (push_bit (8 - Suc k) 1 - 1) = (0::byte)"
    by (auto simp: lead_extra_def int_byte_extra_def)
qed

definition lead_ok :: "nat \<Rightarrow> byte \<Rightarrow> bool" where
  "lead_ok k c \<longleftrightarrow>
     lead_extra (c OR NOT (push_bit (7 - k) 1 * 2 - 1)) = k
     \<and> (c OR NOT (push_bit (7 - k) 1 * 2 - 1)) AND (push_bit (8 - k) 1 - 1) = c"

lemma bytes_below:
  assumes "list_all (\<lambda>n. P (word_of_nat n)) [0..<m]" and "unat (c::byte) < m"
  shows "P c"
proof -
  from assms have "P (word_of_nat (unat c))" unfolding list_all_iff by (auto simp del: of_nat_unat)
  then show ?thesis by simp
qed

lemma lead_ok_table:
  "list_all (\<lambda>n. lead_ok 1 (word_of_nat n)) [0..<64]"
  "list_all (\<lambda>n. lead_ok 2 (word_of_nat n)) [0..<32]"
  "list_all (\<lambda>n. lead_ok 3 (word_of_nat n)) [0..<16]"
  "list_all (\<lambda>n. lead_ok 4 (word_of_nat n)) [0..<8]"
  "list_all (\<lambda>n. lead_ok 5 (word_of_nat n)) [0..<4]"
  "list_all (\<lambda>n. lead_ok 6 (word_of_nat n)) [0..<2]"
  by (simp_all add: lead_ok_def lead_extra_def int_byte_extra_def upt_conv_Cons)

lemma lead_byte_fits:
  assumes "1 \<le> k" and "k \<le> 6" and "c < push_bit (7 - k) 1"
  shows "lead_ok k c"
proof -
  from assms(1,2) have "k \<in> {1, 2, 3, 4, 5, 6}" by auto
  then show ?thesis
    using assms(3) lead_ok_table by (auto intro: bytes_below simp: word_less_nat_alt)
qed

lemma lead_byte_small:
  assumes "c < (128::byte)"
  shows "lead_extra c = 0"
proof -
  have "list_all (\<lambda>i. int_byte_extra ! i = 0) [0..<32]"
    by (simp add: int_byte_extra_def upt_conv_Cons)
  then have "\<And>i. i < 32 \<Longrightarrow> int_byte_extra ! i = 0"
    by (simp add: list_all_iff)
  moreover have "unat c div 4 < 32"
    using assms by (simp add: word_less_nat_alt)
  ultimately show ?thesis
    by (simp add: lead_extra_def)
qed


subsubsection \<open>Round trips\<close>

lemma trim_cnt_bounds: "m \<le> n \<Longrightarrow> m \<le> trim_cnt m b n \<and> trim_cnt m b n \<le> n"
  by (induction n) (auto simp: le_Suc_eq)

lemma trim_cnt_zeros: "n \<le> length b \<Longrightarrow> trim_cnt m b n \<le> i \<Longrightarrow> i < n \<Longrightarrow> b ! i = 0"
  by (induction n) (auto split: if_splits simp: less_Suc_eq)

lemma take_trim_cnt:
  assumes "length b = n" and "m \<le> n" and "c = trim_cnt m b n"
  shows "take c b @ replicate (n - c) 0 = b"
proof (rule nth_equalityI)
  show "length (take c b @ replicate (n - c) 0) = length b"
    using assms trim_cnt_bounds [of m n b] by simp
  fix i assume "i < length (take c b @ replicate (n - c) 0)"
  then show "(take c b @ replicate (n - c) 0) ! i = b ! i"
    using assms trim_cnt_bounds [of m n b] trim_cnt_zeros [of n b m i]
    by (cases "i < c") (auto simp: nth_append)
qed

text \<open>The lead byte a writer sends for a top byte \<open>c\<close> with \<open>k\<close> extra bytes, decoded.\<close>

lemma lead_decode:
  assumes "k \<le> 6" and "c < push_bit (7 - k) (1::byte)"
    and "l = (if k > 0 then c OR NOT (push_bit (7 - k) 1 * 2 - 1) else c)"
  shows "lead_extra l = k \<and> (k > 0 \<longrightarrow> l AND (push_bit (8 - k) 1 - 1) = c)"
proof (cases k)
  case 0
  with assms show ?thesis by (simp add: lead_byte_small)
next
  case (Suc j)
  with assms lead_byte_fits [of k c] show ?thesis by (simp add: lead_ok_def)
qed

lemma take_snoc: "0 < n \<Longrightarrow> n \<le> length b \<Longrightarrow> take (n - 1) b @ [b ! (n - 1)] = take n b"
  by (metis Suc_diff_1 Suc_le_eq take_Suc_conv_app_nth)

lemma snoc_zeros: "xs @ [c] = ys \<Longrightarrow> xs @ c # replicate (Suc n) z = ys @ z # replicate n z"
  by (drule sym) simp

lemma read_varlong_lead:
  assumes "length pre = m - 1" and "0 < m" and "lead_extra l = k" and "length ub = k"
    and "m + k \<le> 9"
  shows "read_varlong m (l # pre @ ub @ rest) =
    Inr (IVAL64 (pre @ ub @ [if k > 0 then l AND (push_bit (8 - k) 1 - 1) else l]
                 @ replicate (9 - (m + k)) 0) 0, rest)"
proof -
  have "read_buf m ((l # pre) @ ub @ rest) = Inr (l # pre, ub @ rest)"
    using assms by (intro read_buf_append) simp
  then have 1: "read_buf m (l # pre @ ub @ rest) = Inr (l # pre, ub @ rest)"
    by simp
  have 2: "read_buf k (ub @ rest) = Inr (ub, rest)"
    using assms by (intro read_buf_append)
  show ?thesis
    using assms 1 2 by (cases "k = 0") (simp_all add: read_varlong_def Let_def rbind_def)
qed

lemma read_varlong_write_varlong:
  assumes m: "3 \<le> m" "m \<le> 8"
  shows "read_varlong m (write_varlong x m @ rest) = Inr (x, rest)"
proof -
  define b where "b = SIVAL64 x"
  define cnt where "cnt = trim_cnt m b 8"
  define k where "k = cnt - m"
  define c where "c = b ! (cnt - 1)"
  note defs = b_def [symmetric] cnt_def [symmetric] k_def [symmetric] c_def [symmetric]
  have cnt: "m \<le> cnt" "cnt \<le> 8" "cnt = m + k" "length b = 8" "k \<le> 5"
    using trim_cnt_bounds [of m 8 b] m by (auto simp: cnt_def b_def k_def)
  have b: "take cnt b @ replicate (8 - cnt) 0 = b"
    using take_trim_cnt [of b 8 m cnt] m cnt by (simp add: cnt_def)
  have b0: "take cnt b @ 0 # replicate (8 - cnt) 0 = b @ [0]"
    using b by (metis append.assoc append_Cons append_Nil replicate_append_same)
  have dec: "IVAL64 (b @ r) 0 = x" for r
    by (simp add: b_def)
  have parts: "take n b = take (m - 1) b @ drop (m - 1) (take n b)" if "m - 1 \<le> n" for n
    using that by (metis append_take_drop_id min.absorb1 take_take)
  show ?thesis
  proof (cases "c \<ge> push_bit (7 - k) 1")
    case True
    let ?l = "NOT (push_bit (7 - k) 1 - 1) :: byte"
    have w: "write_varlong x m = ?l # take (m - 1) b @ drop (m - 1) (take cnt b)"
      using True cnt(1) parts [of cnt]
      by (simp only: write_varlong_def Let_def defs if_True)
    have "read_varlong m (?l # take (m - 1) b @ drop (m - 1) (take cnt b) @ rest)
        = Inr (IVAL64 (take (m - 1) b @ drop (m - 1) (take cnt b)
            @ [if Suc k > 0 then ?l AND (push_bit (8 - Suc k) 1 - 1) else ?l]
            @ replicate (9 - (m + Suc k)) 0) 0, rest)"
      using m cnt lead_byte_overflow(1) [OF cnt(5)] by (intro read_varlong_lead) auto
    also have "take (m - 1) b @ drop (m - 1) (take cnt b)
        @ [if Suc k > 0 then ?l AND (push_bit (8 - Suc k) 1 - 1) else ?l]
        @ replicate (9 - (m + Suc k)) 0 = b @ [0]"
      using lead_byte_overflow(2) [OF cnt(5)] b0 parts [of cnt] cnt
      by (simp del: push_bit_of_1 flip: append_assoc)
    finally have "read_varlong m (write_varlong x m @ rest) = Inr (IVAL64 (b @ [0]) 0, rest)"
      by (simp only: w append_Cons append_assoc)
    then show ?thesis by (simp add: dec)
  next
    case False
    let ?l = "if k > 0 then c OR NOT (push_bit (7 - k) 1 * 2 - 1) else c"
    have w: "write_varlong x m = ?l # take (m - 1) b @ drop (m - 1) (take (cnt - 1) b)"
    proof -
      have "take (m - 1) b @ drop (m - 1) (take (cnt - 1) b) = take (cnt - 1) b"
        using parts [of "cnt - 1"] cnt by simp
      moreover have "(m < cnt) = (0 < k)"
        by (simp add: k_def)
      ultimately show ?thesis
        using False unfolding write_varlong_def Let_def defs by (cases "0 < k") simp_all
    qed
    define l where "l = ?l"
    have l: "lead_extra l = k" "(if k > 0 then l AND (push_bit (8 - k) 1 - 1) else l) = c"
      using lead_decode [of k c l] cnt(5) False by (auto simp: l_def)
    have "take (cnt - 1) b @ [c] = take cnt b"
      unfolding c_def using cnt m by (intro take_snoc) auto
    then have "take (cnt - 1) b @ c # replicate (Suc (8 - cnt)) 0 = b @ [0]"
      by (simp only: snoc_zeros b0)
    moreover have "9 - cnt = Suc (8 - cnt)" using cnt by simp
    ultimately have "take (cnt - 1) b @ c # replicate (9 - cnt) 0 = b @ [0]"
      by (simp only:)
    moreover have "take (m - 1) b @ drop (m - 1) (take (cnt - 1) b) = take (cnt - 1) b"
      using parts [of "cnt - 1"] cnt by simp
    moreover have "read_varlong m (l # take (m - 1) b @ drop (m - 1) (take (cnt - 1) b) @ rest)
        = Inr (IVAL64 (take (m - 1) b @ drop (m - 1) (take (cnt - 1) b)
            @ [if k > 0 then l AND (push_bit (8 - k) 1 - 1) else l]
            @ replicate (9 - (m + k)) 0) 0, rest)"
      using m cnt l by (intro read_varlong_lead) auto
    ultimately have "read_varlong m (write_varlong x m @ rest) = Inr (IVAL64 (b @ [0]) 0, rest)"
      using cnt(3) unfolding w l_def [symmetric] l(2)
      by (metis append.assoc append_Cons append_Nil)
    then show ?thesis by (simp add: dec)
  qed
qed


lemma read_varint_lead:
  assumes "lead_extra l = k" and "length ub = k" and "k \<le> 4"
  shows "read_varint (l # ub @ rest) =
    Inr (IVAL (ub @ [if k > 0 then l AND (push_bit (8 - k) 1 - 1) else l]
               @ replicate (4 - k) 0) 0, rest)"
proof -
  have "read_buf k (ub @ rest) = Inr (ub, rest)"
    using assms by (intro read_buf_append)
  moreover have "IVAL [l, 0, 0, 0, 0] 0 = IVAL (l # replicate 4 0) 0"
    by (simp add: numeral_eq_Suc)
  ultimately show ?thesis
    using assms by (cases "k = 0") (simp_all add: read_varint_def Let_def rbind_def)
qed

lemma read_varint_write_varint: "read_varint (write_varint x @ rest) = Inr (x, rest)"
proof -
  define b where "b = SIVAL x"
  define cnt where "cnt = trim_cnt 1 b 4"
  define k where "k = cnt - 1"
  define c where "c = b ! (cnt - 1)"
  have cnt: "1 \<le> cnt" "cnt \<le> 4" "cnt = 1 + k" "length b = 4" "k \<le> 3"
    using trim_cnt_bounds [of 1 4 b] by (auto simp: cnt_def b_def k_def)
  have bit: "7 - cnt + 1 = 7 - k" using cnt by simp
  have b: "take cnt b @ replicate (4 - cnt) 0 = b"
    using take_trim_cnt [of b 4 1 cnt] cnt by (simp add: cnt_def)
  have b0: "take cnt b @ 0 # replicate (4 - cnt) 0 = b @ [0]"
    using b by (metis append.assoc append_Cons append_Nil replicate_append_same)
  have dec: "IVAL (b @ r) 0 = x" for r
    by (simp add: b_def)
  note defs = b_def [symmetric] cnt_def [symmetric] c_def [symmetric] bit
  show ?thesis
  proof (cases "c \<ge> push_bit (7 - k) 1")
    case True
    let ?l = "NOT (push_bit (7 - k) 1 - 1) :: byte"
    have w: "write_varint x = ?l # take cnt b"
      using True by (simp only: write_varint_def Let_def defs if_True)
    have "read_varint (write_varint x @ rest) = Inr (IVAL (b @ [0]) 0, rest)"
      unfolding w using cnt lead_byte_overflow [of k] b0
      by (simp add: read_varint_lead [where k = "Suc k"] del: push_bit_of_1)
    then show ?thesis by (simp add: dec)
  next
    case False
    let ?l = "if k > 0 then c OR NOT (push_bit (7 - k) 1 * 2 - 1) else c"
    have w: "write_varint x = ?l # take (cnt - 1) b"
      using False cnt(1,3) unfolding write_varint_def Let_def defs
      by (cases "k = 0") simp_all
    define l where "l = ?l"
    have l: "lead_extra l = k" "(if k > 0 then l AND (push_bit (8 - k) 1 - 1) else l) = c"
      using lead_decode [of k c l] cnt(5) False by (auto simp: l_def)
    have "take (cnt - 1) b @ [c] = take cnt b"
      unfolding c_def using cnt by (intro take_snoc) auto
    then have "take (cnt - 1) b @ c # replicate (Suc (4 - cnt)) 0 = b @ [0]"
      by (simp only: snoc_zeros b0)
    moreover have "4 - k = Suc (4 - cnt)" using cnt by simp
    ultimately have "take (cnt - 1) b @ c # replicate (4 - k) 0 = b @ [0]"
      by (simp only:)
    moreover have "read_varint (l # take (cnt - 1) b @ rest)
        = Inr (IVAL (take (cnt - 1) b @ [if k > 0 then l AND (push_bit (8 - k) 1 - 1) else l]
            @ replicate (4 - k) 0) 0, rest)"
      using cnt l by (intro read_varint_lead) auto
    ultimately have "read_varint (write_varint x @ rest) = Inr (IVAL (b @ [0]) 0, rest)"
      unfolding w l_def [symmetric] l(2) by (simp only: append_Cons append_Nil)
    then show ?thesis by (simp add: dec)
  qed
qed

lemma write_varint_length: "1 \<le> length (write_varint x) \<and> length (write_varint x) \<le> 5"
  using trim_cnt_bounds [of 1 4 "SIVAL x"] by (auto simp: write_varint_def Let_def)

lemma sint_ucast_small:
  fixes x :: uint64
  assumes "sint x \<le> 0x7FFFFFFF" and "sint x \<ge> 0"
  shows "sint (ucast x :: uint32) = sint x"
proof -
  have "(ucast x :: uint32) = word_of_int (sint x)"
    by (rule bit_word_eqI) (auto simp: bit_simps)
  then have "sint (ucast x :: uint32) = sint (word_of_int (sint x) :: uint32)"
    by (simp only:)
  also have "\<dots> = sint x"
    using assms by (intro sint_word_of_int) (simp add: is_int32_def)
  finally show ?thesis .
qed

lemma read_longint_write_longint: "read_longint (write_longint x @ rest) = Inr (x, rest)"
proof (cases "sint x \<le> 0x7FFFFFFF \<and> sint x \<ge> 0")
  case True
  then have "read_int (write_longint x @ rest) = Inr (sint x, rest)"
    by (simp add: read_int_def write_longint_def sint_ucast_small rbind_def)
  moreover have "sint x \<noteq> - 1" using True by auto
  ultimately show ?thesis
    by (simp add: read_longint_def rbind_def)
next
  case False
  have "replicate 4 0xFF = [0xFF, 0xFF, 0xFF, 0xFF :: byte]"
    by (simp add: numeral_eq_Suc)
  also have "\<dots> = SIVAL 0xFFFFFFFF"
    by (simp add: SIVAL_def)
  also have "(0xFFFFFFFF :: uint32) = - 1"
    by simp
  finally have "replicate 4 0xFF = SIVAL (- 1)" .
  then have w: "write_longint x = SIVAL (- 1) @ SIVAL (ucast x) @ SIVAL (ucast (drop_bit 32 x))"
    using False by (auto simp: write_longint_def Let_def)
  have "ucast (ucast x :: uint32) OR push_bit 32 (ucast (ucast (drop_bit 32 x) :: uint32)) = x"
    by (rule bit_word_eqI) (auto simp: bit_simps)
  moreover have "IVAL (SIVAL (ucast x) @ SIVAL (ucast (drop_bit 32 x))) 4 = ucast (drop_bit 32 x)"
    using IVAL_drop [of "SIVAL (ucast x)" "SIVAL (ucast (drop_bit 32 x))"] by simp
  moreover have "read_buf 8 ((SIVAL (ucast x) @ SIVAL (ucast (drop_bit 32 x))) @ rest)
      = Inr (SIVAL (ucast x) @ SIVAL (ucast (drop_bit 32 x)), rest)"
    by (intro read_buf_append) simp
  ultimately show ?thesis
    by (simp add: w read_longint_def read_int_def rbind_def)
qed


subsection \<open>The contract between a writer and its reader\<close>

text \<open>
  A codec is a writer and a reader such that the reader, started where the writer started,
  returns the value and leaves what follows it. Sequences of values and the injectivity of the
  encoding follow from that law alone.
\<close>

fun read_many :: "'a reader \<Rightarrow> nat \<Rightarrow> 'a list reader" where
  "read_many dec 0 = rreturn []"
| "read_many dec (Suc n) = rbind dec (\<lambda>x. rbind (read_many dec n) (\<lambda>xs. rreturn (x # xs)))"

locale codec =
  fixes enc :: "'a \<Rightarrow> byte list"
    and dec :: "'a reader"
    and ok :: "'a \<Rightarrow> bool"
  assumes dec_enc: "ok x \<Longrightarrow> dec (enc x @ rest) = Inr (x, rest)"
begin

lemma dec_enc_Nil: "ok x \<Longrightarrow> dec (enc x) = Inr (x, [])"
  using dec_enc [of x "[]"] by simp

lemma enc_prefix_free:
  assumes "ok x" and "ok y" and "enc x @ r = enc y @ s"
  shows "x = y \<and> r = s"
proof -
  have "Inr (x, r) = dec (enc x @ r)"
    by (rule dec_enc [OF assms(1), symmetric])
  also have "\<dots> = dec (enc y @ s)"
    by (simp only: assms(3))
  also have "\<dots> = Inr (y, s)"
    by (rule dec_enc [OF assms(2)])
  finally show ?thesis by simp
qed

lemma read_many_enc:
  "list_all ok xs \<Longrightarrow> read_many dec (length xs) (concat (map enc xs) @ rest) = Inr (xs, rest)"
  by (induction xs) (simp_all add: dec_enc rbind_def)

end

fun write_seq :: "('s \<Rightarrow> 'a \<Rightarrow> byte list \<times> 's) \<Rightarrow> 's \<Rightarrow> 'a list \<Rightarrow> byte list \<times> 's" where
  "write_seq enc s [] = ([], s)"
| "write_seq enc s (x # xs) =
     (let (b, s') = enc s x; (bs, s'') = write_seq enc s' xs in (b @ bs, s''))"

fun read_seq :: "('t \<Rightarrow> ('a \<times> 't) reader) \<Rightarrow> 't \<Rightarrow> nat \<Rightarrow> ('a list \<times> 't) reader" where
  "read_seq dec t 0 = rreturn ([], t)"
| "read_seq dec t (Suc n) = rbind (dec t)
     (\<lambda>(x, t'). rbind (read_seq dec t' n) (\<lambda>(xs, t''). rreturn (x # xs, t'')))"

text \<open>
  The two ends of a connection may each keep state between values. The relation \<open>rel\<close> says
  when the two states fit; every value keeps it.
\<close>

locale stateful_codec =
  fixes enc :: "'s \<Rightarrow> 'a \<Rightarrow> byte list \<times> 's"
    and dec :: "'t \<Rightarrow> ('a \<times> 't) reader"
    and rel :: "'s \<Rightarrow> 't \<Rightarrow> bool"
    and ok :: "'a \<Rightarrow> bool"
  assumes step: "rel s t \<Longrightarrow> ok x \<Longrightarrow> enc s x = (b, s') \<Longrightarrow>
    \<exists>t'. dec t (b @ rest) = Inr ((x, t'), rest) \<and> rel s' t'"
begin

lemma seq:
  assumes "rel s t" and "list_all ok xs" and "write_seq enc s xs = (b, s')"
  shows "\<exists>t'. read_seq dec t (length xs) (b @ rest) = Inr ((xs, t'), rest) \<and> rel s' t'"
  using assms
proof (induction xs arbitrary: s t b)
  case (Cons x xs)
  obtain b1 s1 where 1: "enc s x = (b1, s1)" by fastforce
  obtain b2 where 2: "write_seq enc s1 xs = (b2, s')" and b: "b = b1 @ b2"
    using Cons.prems(3) 1 by (auto simp: Let_def split: prod.splits)
  obtain t1 where t1: "dec t (b1 @ b2 @ rest) = Inr ((x, t1), b2 @ rest)" and r1: "rel s1 t1"
    using step [OF Cons.prems(1) _ 1, of "b2 @ rest"] Cons.prems(2) by auto
  obtain t' where "read_seq dec t1 (length xs) (b2 @ rest) = Inr ((xs, t'), rest)" "rel s' t'"
    using Cons.IH [OF r1 _ 2] Cons.prems(2) by auto
  with t1 b show ?case by (auto simp: rbind_def)
qed simp

end

interpretation int_codec: codec write_int read_int is_int32
  by unfold_locales (rule read_int_write_int)

interpretation shortint_codec: codec write_shortint read_shortint "\<lambda>_. True"
  by unfold_locales (rule read_shortint_write_shortint)

interpretation longint_codec: codec write_longint read_longint "\<lambda>_. True"
  by unfold_locales (rule read_longint_write_longint)

interpretation varint_codec: codec write_varint read_varint "\<lambda>_. True"
  by unfold_locales (rule read_varint_write_varint)

subsection \<open>File-list indexes (write_ndx, read_ndx)\<close>

text \<open>
  Each end keeps the last positive and the last negated index in static variables, so that
  most indexes go out as a one-byte difference.
\<close>

record ndx_state =
  prev_positive :: int
  prev_negative :: int

definition ndx_init :: ndx_state where
  "ndx_init = \<lparr>prev_positive = - 1, prev_negative = 1\<rparr>"

definition NDX_DONE :: int where
  "NDX_DONE = - 1"

definition ndx_bytes :: "int \<Rightarrow> int \<Rightarrow> byte list" where
  "ndx_bytes diff ndx =
     (if diff < 0xFE \<and> diff > 0 then [word_of_int diff]
      else if diff < 0 \<or> diff > 0x7FFF then
        (let w = word_of_int ndx :: uint32 in
         [0xFE, ucast (drop_bit 24 w) OR 0x80, ucast w, ucast (drop_bit 8 w), ucast (drop_bit 16 w)])
      else [0xFE, word_of_int (diff div 256), word_of_int diff])"

definition write_ndx :: "int \<Rightarrow> bool \<Rightarrow> ndx_state \<Rightarrow> int \<Rightarrow> byte list \<times> ndx_state" where
  "write_ndx protocol_version read_batch st ndx =
     (if protocol_version < 30 \<or> read_batch then (write_int ndx, st)
      else if ndx \<ge> 0 then
        (ndx_bytes (ndx - prev_positive st) ndx, st\<lparr>prev_positive := ndx\<rparr>)
      else if ndx = NDX_DONE then ([0], st)
      else (0xFF # ndx_bytes (- ndx - prev_negative st) (- ndx), st\<lparr>prev_negative := - ndx\<rparr>))"

text \<open>The part of \<open>read_ndx\<close> after the sign is known: \<open>c\<close> is the current first byte.\<close>

definition read_ndx_num :: "byte \<Rightarrow> int \<Rightarrow> int reader" where
  "read_ndx_num c prev =
     (if c = 0xFE then
        rbind (read_buf 2) (\<lambda>b.
          if b ! 0 AND 0x80 \<noteq> 0 then
            rbind (read_buf 2) (\<lambda>b2.
              rreturn (sint (IVAL [b ! 1, b2 ! 0, b2 ! 1, b ! 0 AND NOT 0x80] 0)))
          else rreturn (uint (b ! 0) * 256 + uint (b ! 1) + prev))
      else rreturn (uint c + prev))"

definition read_ndx :: "int \<Rightarrow> ndx_state \<Rightarrow> (int \<times> ndx_state) reader" where
  "read_ndx protocol_version st =
     (if protocol_version < 30 then rbind read_int (\<lambda>n. rreturn (n, st))
      else rbind read_byte (\<lambda>c.
        if c = 0xFF then
          rbind read_byte (\<lambda>c2. rbind (read_ndx_num c2 (prev_negative st))
            (\<lambda>num. rreturn (- num, st\<lparr>prev_negative := num\<rparr>)))
        else if c = 0 then rreturn (NDX_DONE, st)
        else rbind (read_ndx_num c (prev_positive st))
            (\<lambda>num. rreturn (num, st\<lparr>prev_positive := num\<rparr>))))"


lemma uint_byte: "uint (word_of_int d :: byte) = d mod 256"
  by (simp add: uint_word_of_int)

lemma byte_neq_of_uint: "uint (a :: byte) \<noteq> uint b \<Longrightarrow> a \<noteq> b"
  by blast

lemma int32_top_bit:
  assumes "0 \<le> n" and "n < 2 ^ 31"
  shows "\<not> bit (word_of_int n :: uint32) 31"
proof -
  have "n div 2 ^ 31 = 0" using assms by simp
  then have "\<not> bit n 31" by (simp add: bit_iff_odd)
  then show ?thesis by (auto simp only: bit_word_of_int_iff)
qed

lemma high_bit_marker:
  assumes "\<not> bit (w :: uint32) 31"
  shows "(ucast (drop_bit 24 w) OR (0x80::byte)) AND NOT 0x80 = ucast (drop_bit 24 w)"
    and "(ucast (drop_bit 24 w) OR (0x80::byte)) AND 0x80 \<noteq> 0"
proof -
  have 80: "(0x80 :: byte) = 2 ^ 7" by simp
  have b80: "bit (0x80::byte) n \<longleftrightarrow> n = 7" for n
    by (simp only: 80 bit_exp_iff) auto
  show "(ucast (drop_bit 24 w) OR (0x80::byte)) AND NOT 0x80 = ucast (drop_bit 24 w)"
  proof (rule bit_word_eqI)
    fix n assume "n < LENGTH(8)"
    with assms show "bit ((ucast (drop_bit 24 w) OR (0x80::byte)) AND NOT 0x80) n
        = bit (ucast (drop_bit 24 w) :: byte) n"
      unfolding bit_and_iff bit_or_iff bit_not_iff b80 by (cases "n = 7") (auto simp: bit_simps)
  qed
  have "bit ((ucast (drop_bit 24 w) OR (0x80::byte)) AND 0x80) 7"
    by (simp only: 80 bit_simps) simp
  then show "(ucast (drop_bit 24 w) OR (0x80::byte)) AND 0x80 \<noteq> 0"
    by (metis bit_0_eq bot_apply bot_bool_def)
qed

lemma and_0x80_small: "uint (b :: byte) < 128 \<Longrightarrow> b AND 0x80 = 0"
proof -
  assume "uint b < 128"
  then have "uint b div 2 ^ 7 = 0" by simp
  then have "\<not> bit (uint b) 7" by (simp add: bit_iff_odd)
  then have "\<not> bit b 7" by (simp add: bit_uint_iff)
  then have "b AND 2 ^ 7 = 0" by (simp only: and_exp_eq_0_iff_not_bit not_False_eq_True)
  then show ?thesis by simp
qed

lemma read_ndx_num_bytes:
  assumes n: "0 \<le> ndx" "ndx < 2 ^ 31"
  shows "\<exists>c bs. ndx_bytes (ndx - prev) ndx = c # bs \<and> c \<noteq> 0 \<and> c \<noteq> 0xFF
    \<and> read_ndx_num c prev (bs @ rest) = Inr (ndx, rest)"
proof -
  define diff where "diff = ndx - prev"
  consider (small) "diff < 0xFE" "diff > 0" | (long) "diff < 0 \<or> diff > 0x7FFF"
    | (mid) "diff = 0 \<or> 0xFE \<le> diff" "diff \<le> 0x7FFF" by linarith
  then show ?thesis
  proof cases
    case small
    let ?c = "word_of_int diff :: byte"
    have u: "uint ?c = diff" using small by (simp add: uint_byte)
    have "?c \<noteq> 0" "?c \<noteq> 0xFF" "?c \<noteq> 0xFE"
      using small u by (auto intro!: byte_neq_of_uint)
    with small u show ?thesis
      by (simp add: ndx_bytes_def read_ndx_num_def flip: diff_def) (simp add: diff_def)
  next
    case long
    let ?w = "word_of_int ndx :: uint32"
    note hb = high_bit_marker [OF int32_top_bit [OF n]]
    have "is_int32 ndx" using n by (simp add: is_int32_def)
    then have "sint (IVAL (SIVAL ?w) 0) = ndx"
      by (simp add: sint_word_of_int)
    with long hb show ?thesis
      by (auto simp: ndx_bytes_def read_ndx_num_def read_buf_def rbind_def SIVAL_def Let_def
          simp flip: diff_def)
  next
    case mid
    let ?a = "word_of_int (diff div 256) :: byte" and ?b = "word_of_int diff :: byte"
    have "diff div 256 < 128" "0 \<le> diff div 256" using mid by auto
    then have a: "uint ?a = diff div 256" by (simp add: uint_byte)
    then have "?a AND 0x80 = 0" using \<open>diff div 256 < 128\<close> by (intro and_0x80_small) simp
    moreover have "uint ?a * 256 + uint ?b = diff"
      by (simp only: a uint_byte [of diff] div_mult_mod_eq)
    ultimately have "read_ndx_num 0xFE prev ([?a, ?b] @ rest) = Inr (diff + prev, rest)"
      by (simp add: read_ndx_num_def read_buf_def rbind_def del: uint_byte)
    moreover have "ndx_bytes diff ndx = [0xFE, ?a, ?b]"
      using mid unfolding ndx_bytes_def by (auto simp: Let_def)
    moreover have "diff + prev = ndx" by (simp add: diff_def)
    ultimately show ?thesis
      by (intro exI [of _ "0xFE"] exI [of _ "[?a, ?b]"]) (simp flip: diff_def)
  qed
qed

definition ndx_rel :: "ndx_state \<Rightarrow> ndx_state \<Rightarrow> bool" where
  "ndx_rel s t \<longleftrightarrow> s = t"

definition ndx_ok :: "int \<Rightarrow> bool" where
  "ndx_ok n \<longleftrightarrow> - (2 ^ 31) < n \<and> n < 2 ^ 31"

lemma read_ndx_write_ndx:
  assumes "ndx_ok ndx" and w: "write_ndx pv False s ndx = (b, s')"
  shows "read_ndx pv s (b @ rest) = Inr ((ndx, s'), rest)"
proof (cases "pv < 30")
  case True
  moreover have "is_int32 ndx" using assms(1) by (auto simp: ndx_ok_def is_int32_def)
  ultimately show ?thesis
    using w by (auto simp: write_ndx_def read_ndx_def rbind_def read_int_write_int)
next
  case False
  consider "ndx \<ge> 0" | "ndx = NDX_DONE" | "ndx < 0" "ndx \<noteq> NDX_DONE"
    by linarith
  then show ?thesis
  proof cases
    case 1
    then show ?thesis
      using w False assms(1) read_ndx_num_bytes [of ndx "prev_positive s" rest]
      by (auto simp: write_ndx_def read_ndx_def ndx_ok_def rbind_def)
  next
    case 2
    then show ?thesis
      using w False by (auto simp: write_ndx_def read_ndx_def rbind_def NDX_DONE_def)
  next
    case 3
    then show ?thesis
      using w False assms(1) read_ndx_num_bytes [of "- ndx" "prev_negative s" rest]
      by (auto simp: write_ndx_def read_ndx_def ndx_ok_def rbind_def)
  qed
qed

interpretation ndx_codec: stateful_codec "write_ndx pv False" "read_ndx pv" ndx_rel ndx_ok for pv
  by unfold_locales (auto simp: ndx_rel_def read_ndx_write_ndx)


subsection \<open>Strings with a length prefix (write_vstring, read_vstring)\<close>

definition write_vstring :: "byte list \<Rightarrow> exit_code + byte list" where
  "write_vstring str =
     (let len = length str in
      if len > 0x7F then
        if len > 0x7FFF then Inl RERR_PROTOCOL
        else Inr (word_of_nat (len div 0x100 + 0x80) # word_of_nat len # str)
      else Inr (word_of_nat len # str))"

text \<open>The result \<open>None\<close> is the return value -1 for a string that does not fit the buffer.\<close>

definition read_vstring :: "nat \<Rightarrow> byte list option reader" where
  "read_vstring bufsize = rbind read_byte (\<lambda>l.
     rbind (if l AND 0x80 \<noteq> 0
            then rbind read_byte (\<lambda>l2. rreturn (unat (l AND NOT 0x80) * 0x100 + unat l2))
            else rreturn (unat l)) (\<lambda>len.
     if len \<ge> bufsize then rreturn None
     else rbind (read_buf len) (\<lambda>b. rreturn (Some b))))"

lemma unat_byte: "unat (word_of_nat n :: byte) = n mod 256"
  by (simp add: unat_of_nat)

lemma vstring_lead:
  assumes "n < 128"
  shows "(word_of_nat (n + 0x80) :: byte) AND 0x80 \<noteq> 0"
    and "unat ((word_of_nat (n + 0x80) :: byte) AND NOT 0x80) = n"
proof -
  have "list_all (\<lambda>n. (word_of_nat (n + 0x80) :: byte) AND 0x80 \<noteq> 0
      \<and> unat ((word_of_nat (n + 0x80) :: byte) AND NOT 0x80) = n) [0..<128]"
    by (simp add: upt_conv_Cons)
  with assms show "(word_of_nat (n + 0x80) :: byte) AND 0x80 \<noteq> 0"
    and "unat ((word_of_nat (n + 0x80) :: byte) AND NOT 0x80) = n"
    by (auto simp: list_all_iff)
qed

lemma read_vstring_write_vstring:
  assumes "write_vstring str = Inr b"
  shows "read_vstring bufsize (b @ rest) =
    (if length str < bufsize then Inr (Some str, rest) else Inr (None, str @ rest))"
proof (cases "length str > 0x7F")
  case True
  let ?n = "length str"
  have n: "?n \<le> 0x7FFF" and b: "b = word_of_nat (?n div 0x100 + 0x80) # word_of_nat ?n # str"
    using assms True by (auto simp: write_vstring_def Let_def split: if_splits)
  have "?n div 0x100 < 128" using n by simp
  note l = vstring_lead [OF this]
  have "?n div 0x100 * 0x100 + unat (word_of_nat ?n :: byte) = ?n"
    by (simp add: unat_byte)
  with l show ?thesis
    by (simp add: b read_vstring_def rbind_def)
next
  case False
  then have b: "b = word_of_nat (length str) # str"
    using assms by (simp add: write_vstring_def Let_def)
  have "uint (word_of_nat (length str) :: byte) = int (length str)"
    using False by (simp add: uint_nat unat_byte)
  with False have "(word_of_nat (length str) :: byte) AND 0x80 = 0"
    by (intro and_0x80_small) simp
  with False show ?thesis
    by (simp add: b read_vstring_def rbind_def unat_byte)
qed

lemma write_vstring_error: "write_vstring str = Inl e \<longleftrightarrow> e = RERR_PROTOCOL \<and> length str > 0x7FFF"
  by (auto simp: write_vstring_def Let_def)

subsection \<open>Checksum sets on the wire\<close>

record sum_buf =
  s_offset :: int
  s_len :: int
  s_sum1 :: uint32
  s_chain :: int
  s_flags :: bool
  s_sum2 :: "byte list"

record sum_head =
  s_count :: int
  s_blength :: int
  s_s2length :: int
  s_remainder :: int

record sum_struct = sum_head +
  s_flength :: int
  s_sums :: "sum_buf list"

definition MAX_BLOCK_SIZE :: int where "MAX_BLOCK_SIZE = 2 ^ 17"
definition OLD_MAX_BLOCK_SIZE :: int where "OLD_MAX_BLOCK_SIZE = 2 ^ 29"
definition MAX_DIGEST_LEN :: int where "MAX_DIGEST_LEN = 16"

definition max_blength :: "int \<Rightarrow> int" where
  "max_blength protocol_version =
     (if protocol_version < 30 then OLD_MAX_BLOCK_SIZE else MAX_BLOCK_SIZE)"

definition write_sum_head :: "int \<Rightarrow> sum_head option \<Rightarrow> byte list" where
  "write_sum_head protocol_version sp =
     (let s = (case sp of None \<Rightarrow> \<lparr>s_count = 0, s_blength = 0, s_s2length = 0, s_remainder = 0\<rparr> | Some s \<Rightarrow> s)
      in write_int (s_count s) @ write_int (s_blength s)
         @ (if protocol_version \<ge> 27 then write_int (s_s2length s) else [])
         @ write_int (s_remainder s))"

definition read_sum_head :: "int \<Rightarrow> int \<Rightarrow> sum_head reader" where
  "read_sum_head protocol_version csum_length =
     rbind read_int (\<lambda>c. if c < 0 then rfail RERR_PROTOCOL else
     rbind read_int (\<lambda>bl.
       if bl < 0 \<or> bl > max_blength protocol_version then rfail RERR_PROTOCOL else
     rbind (if protocol_version < 27 then rreturn csum_length else read_int) (\<lambda>s2.
       if s2 < 0 \<or> s2 > MAX_DIGEST_LEN then rfail RERR_PROTOCOL else
     rbind read_int (\<lambda>r.
       if r < 0 \<or> r > bl then rfail RERR_PROTOCOL else
     rreturn \<lparr>s_count = c, s_blength = bl, s_s2length = s2, s_remainder = r\<rparr>))))"

definition sum_head_ok :: "int \<Rightarrow> int \<Rightarrow> sum_head \<Rightarrow> bool" where
  "sum_head_ok protocol_version csum_length s \<longleftrightarrow>
     0 \<le> s_count s \<and> s_count s < 2 ^ 31
     \<and> 0 \<le> s_blength s \<and> s_blength s \<le> max_blength protocol_version
     \<and> 0 \<le> s_s2length s \<and> s_s2length s \<le> MAX_DIGEST_LEN
     \<and> 0 \<le> s_remainder s \<and> s_remainder s \<le> s_blength s
     \<and> (protocol_version < 27 \<longrightarrow> s_s2length s = csum_length)"

lemma read_sum_head_write_sum_head:
  assumes "sum_head_ok pv cl s"
  shows "read_sum_head pv cl (write_sum_head pv (Some s) @ rest) = Inr (s, rest)"
proof -
  have "max_blength pv < 2 ^ 31"
    by (simp add: max_blength_def MAX_BLOCK_SIZE_def OLD_MAX_BLOCK_SIZE_def)
  with assms have "is_int32 (s_count s)" "is_int32 (s_blength s)" "is_int32 (s_s2length s)"
      "is_int32 (s_remainder s)"
    by (auto simp: sum_head_ok_def is_int32_def MAX_DIGEST_LEN_def)
  with assms show ?thesis
    by (cases "pv < 27") (auto simp: read_sum_head_def write_sum_head_def rbind_def
        read_int_write_int sum_head_ok_def Let_def)
qed

interpretation sum_head_codec:
  codec "\<lambda>s. write_sum_head pv (Some s)" "read_sum_head pv cl" "sum_head_ok pv cl" for pv cl
  by unfold_locales (rule read_sum_head_write_sum_head)

lemma read_int_range: "read_int s = Inr (x, s') \<Longrightarrow> is_int32 x"
proof -
  assume "read_int s = Inr (x, s')"
  then obtain w :: uint32 where "x = sint w"
    by (auto simp: read_int_def read_buf_def rbind_def split: if_splits)
  then show ?thesis
    using sint_ge [of w] sint_lt [of w] by (simp add: is_int32_def)
qed

lemma read_sum_head_ok:
  assumes "read_sum_head pv cl bs = Inr (s, rest)"
  shows "sum_head_ok pv cl s"
  using assms unfolding read_sum_head_def
  by (elim rbind_InrE)
    (auto simp: sum_head_ok_def is_int32_def split: if_splits elim!: rbind_InrE dest!: read_int_range)

end
