(* ===== verification/Token.thy ===== *)
theory Token
  imports Wire MapFile
begin

text \<open>
  The token stream of token.c without compression: \<open>simple_send_token\<close> cuts literal data
  into chunks of \<open>CHUNK_SIZE\<close> bytes and follows it with the number of a matched block,
  \<open>simple_recv_token\<close> hands the pieces out again. The file behind \<open>map_ptr\<close> is its
  bytes; the locale \<open>file_window\<close> carries the result over to the window itself.
\<close>

definition CHUNK_SIZE :: int where "CHUNK_SIZE = 32 * 1024"

subsection \<open>simple_send_token\<close>

function send_chunks :: "byte list \<Rightarrow> int \<Rightarrow> int \<Rightarrow> int \<Rightarrow> byte list" where
  "send_chunks f offset n len =
     (if len < n then
        let n1 = min CHUNK_SIZE (n - len)
        in write_int n1 @ fslice f (offset + len) n1 @ send_chunks f offset n (len + n1)
      else [])"
  by pat_completeness auto
termination
  by (relation "measure (\<lambda>(f, offset, n, len). nat (n - len))") (auto simp: CHUNK_SIZE_def)

declare send_chunks.simps [simp del]

definition simple_send_token :: "byte list \<Rightarrow> int \<Rightarrow> int \<Rightarrow> int \<Rightarrow> byte list" where
  "simple_send_token f token offset n =
     (if n > 0 then send_chunks f offset n 0 else [])
     @ (if token \<noteq> - 2 then write_int (- (token + 1)) else [])"

subsection \<open>simple_recv_token\<close>

text \<open>The state is \<open>residue\<close>; the result is the return value and the data behind \<open>*data\<close>.\<close>

definition simple_recv_token :: "nat \<Rightarrow> (int \<times> byte list \<times> nat) reader" where
  "simple_recv_token residue =
     rbind (if residue = 0 then read_int else rreturn (int residue)) (\<lambda>i.
       if i \<le> 0 then rreturn (i, [], 0)
       else let n = min CHUNK_SIZE i
            in rbind (read_buf (nat n)) (\<lambda>b. rreturn (n, b, nat (i - n))))"

datatype rx = Literal "byte list" | Block int

lemma simple_recv_token_length:
  "simple_recv_token r s = Inr ((i, d, r'), s') \<Longrightarrow> i \<noteq> 0 \<Longrightarrow> length s' < length s"
proof -
  assume a: "simple_recv_token r s = Inr ((i, d, r'), s')" "i \<noteq> 0"
  have read_int_len: "read_int s = Inr (x, t) \<Longrightarrow> length t < length s" for x t
    by (auto simp: read_int_def read_buf_def rbind_def split: if_splits)
  show ?thesis
  proof (cases "r = 0")
    case True
    then obtain x t where x: "read_int s = Inr (x, t)"
      using a(1) by (auto simp: simple_recv_token_def elim!: rbind_InrE)
    with a True have "length s' \<le> length t"
      by (auto simp: simple_recv_token_def rbind_def read_buf_def Let_def split: if_splits)
    with read_int_len [OF x] show ?thesis by simp
  next
    case False
    with a show ?thesis
      by (auto simp: simple_recv_token_def rbind_def read_buf_def Let_def CHUNK_SIZE_def split: if_splits)
  qed
qed

text \<open>The calls of \<open>recv_token\<close> until it returns zero.\<close>

function recv_tokens :: "nat \<Rightarrow> byte list \<Rightarrow> exit_code + (rx list \<times> byte list \<times> nat)" where
  "recv_tokens residue s =
     (case simple_recv_token residue s of
        Inl e \<Rightarrow> Inl e
      | Inr ((i, d, residue'), s') \<Rightarrow>
          if i = 0 then Inr ([], s', residue')
          else map_sum id (\<lambda>(ts, rest). ((if i > 0 then Literal d else Block (- (i + 1))) # ts, rest))
                 (recv_tokens residue' s'))"
  by pat_completeness auto
termination
  by (relation "measure (\<lambda>(residue, s). length s)") (auto dest: simple_recv_token_length)

declare recv_tokens.simps [simp del]

subsection \<open>What is sent arrives\<close>

function chunk_list :: "byte list \<Rightarrow> int \<Rightarrow> int \<Rightarrow> int \<Rightarrow> rx list" where
  "chunk_list f offset n len =
     (if len < n then
        let n1 = min CHUNK_SIZE (n - len)
        in Literal (fslice f (offset + len) n1) # chunk_list f offset n (len + n1)
      else [])"
  by pat_completeness auto
termination
  by (relation "measure (\<lambda>(f, offset, n, len). nat (n - len))") (auto simp: CHUNK_SIZE_def)

declare chunk_list.simps [simp del]

definition call_events :: "byte list \<Rightarrow> int \<times> int \<times> int \<Rightarrow> rx list" where
  "call_events f = (\<lambda>(token, offset, n).
     (if n > 0 then chunk_list f offset n 0 else []) @ (if token \<ge> 0 then [Block token] else []))"

definition send_call :: "byte list \<Rightarrow> int \<times> int \<times> int \<Rightarrow> byte list" where
  "send_call f = (\<lambda>(token, offset, n). simple_send_token f token offset n)"

lemma simple_recv_chunk:
  assumes "0 < n1" and "n1 \<le> CHUNK_SIZE" and "length d = nat n1"
  shows "simple_recv_token 0 (write_int n1 @ d @ rest) = Inr ((n1, d, 0), rest)"
proof -
  have "is_int32 n1" using assms by (simp add: is_int32_def CHUNK_SIZE_def)
  then show ?thesis
    using assms by (simp add: simple_recv_token_def rbind_def read_int_write_int Let_def min_def)
qed

lemma recv_send_chunks:
  assumes "0 \<le> len"
  shows "recv_tokens 0 (send_chunks f offset n len @ rest)
    = map_sum id (\<lambda>(ts, r). (chunk_list f offset n len @ ts, r)) (recv_tokens 0 rest)"
  using assms
proof (induction f offset n len rule: send_chunks.induct)
  case (1 f offset n len)
  show ?case
  proof (cases "len < n")
    case False
    then show ?thesis
      by (subst send_chunks.simps, subst chunk_list.simps)
        (cases "recv_tokens 0 rest"; auto)
  next
    case True
    define n1 where "n1 = min CHUNK_SIZE (n - len)"
    have n1: "0 < n1" "n1 \<le> CHUNK_SIZE" using True by (auto simp: n1_def CHUNK_SIZE_def)
    have IH: "recv_tokens 0 (send_chunks f offset n (len + n1) @ rest)
        = map_sum id (\<lambda>(ts, r). (chunk_list f offset n (len + n1) @ ts, r)) (recv_tokens 0 rest)"
      unfolding n1_def by (rule "1.IH") (use True "1.prems" in \<open>auto simp: CHUNK_SIZE_def\<close>)
    have "send_chunks f offset n len @ rest
        = write_int n1 @ fslice f (offset + len) n1 @ (send_chunks f offset n (len + n1) @ rest)"
      using True by (subst send_chunks.simps) (simp add: Let_def n1_def)
    then have "recv_tokens 0 (send_chunks f offset n len @ rest)
        = map_sum id (\<lambda>(ts, r). (Literal (fslice f (offset + len) n1) # ts, r))
            (recv_tokens 0 (send_chunks f offset n (len + n1) @ rest))"
      using n1 simple_recv_chunk [of n1 "fslice f (offset + len) n1"]
      by (subst recv_tokens.simps) simp
    also have "\<dots> = map_sum id (\<lambda>(ts, r). (chunk_list f offset n len @ ts, r)) (recv_tokens 0 rest)"
      using True unfolding IH
      by (subst (2) chunk_list.simps) (cases "recv_tokens 0 rest"; auto simp: Let_def n1_def)
    finally show ?thesis .
  qed
qed

definition call_ok :: "int \<times> int \<times> int \<Rightarrow> bool" where
  "call_ok = (\<lambda>(token, offset, n). token = - 2 \<or> (0 \<le> token \<and> token < 2 ^ 31))"

lemma recv_send_call:
  assumes "call_ok c"
  shows "recv_tokens 0 (send_call f c @ rest)
    = map_sum id (\<lambda>(ts, r). (call_events f c @ ts, r)) (recv_tokens 0 rest)"
proof -
  obtain token offset n where c: "c = (token, offset, n)" by (cases c)
  have tok: "recv_tokens 0 ((if token \<noteq> - 2 then write_int (- (token + 1)) else []) @ rest)
      = map_sum id (\<lambda>(ts, r). ((if token \<ge> 0 then [Block token] else []) @ ts, r)) (recv_tokens 0 rest)"
  proof (cases "token = - 2")
    case True
    then show ?thesis by (cases "recv_tokens 0 rest") auto
  next
    case False
    then have t: "0 \<le> token" "is_int32 (- (token + 1))"
      using assms c by (auto simp: call_ok_def is_int32_def)
    have "simple_recv_token 0 (write_int (- (token + 1)) @ rest) = Inr ((- (token + 1), [], 0), rest)"
      using t by (simp add: simple_recv_token_def rbind_def read_int_write_int)
    with t False show ?thesis
      by (subst recv_tokens.simps) (simp add: split_def)
  qed
  show ?thesis
    using recv_send_chunks [of 0 f offset n] tok
    by (cases "recv_tokens 0 rest")
      (auto simp: c send_call_def simple_send_token_def call_events_def)
qed

theorem recv_tokens_send_calls:
  assumes "list_all call_ok cs"
  shows "recv_tokens 0 (concat (map (send_call f) cs) @ send_call f (- 1, offset, n) @ rest)
    = Inr (concat (map (call_events f) cs) @ call_events f (- 1, offset, n), rest, 0)"
  using assms
proof (induction cs)
  case Nil
  have z: "simple_recv_token 0 (write_int 0 @ rest) = Inr ((0, [], 0), rest)"
    by (simp add: simple_recv_token_def rbind_def read_int_write_int is_int32_def)
  have "recv_tokens 0 (write_int 0 @ rest) = Inr ([], rest, 0)"
    by (subst recv_tokens.simps) (simp add: z)
  then show ?case
    using recv_send_chunks [of 0 f offset n "write_int 0 @ rest"]
    by (auto simp: send_call_def simple_send_token_def call_events_def)
next
  case (Cons c cs)
  then show ?case by (simp add: recv_send_call)
qed

subsection \<open>Meaning of a stream\<close>

text \<open>The data the receiver puts together, with the content of the basis blocks.\<close>

fun rx_data :: "(int \<Rightarrow> byte list) \<Rightarrow> rx list \<Rightarrow> byte list" where
  "rx_data blk [] = []"
| "rx_data blk (Literal d # ts) = d @ rx_data blk ts"
| "rx_data blk (Block i # ts) = blk i @ rx_data blk ts"

lemma rx_data_append [simp]: "rx_data blk (xs @ ys) = rx_data blk xs @ rx_data blk ys"
  by (induction blk xs rule: rx_data.induct) auto

lemma rx_data_chunk_list:
  assumes "0 \<le> len" and "len \<le> n"
  shows "rx_data blk (chunk_list f offset n len) = fslice f (offset + len) (n - len)"
  using assms
proof (induction f offset n len rule: chunk_list.induct)
  case (1 f offset n len)
  show ?case
  proof (cases "len < n")
    case False
    with "1.prems" show ?thesis by (subst chunk_list.simps) simp
  next
    case True
    define n1 where "n1 = min CHUNK_SIZE (n - len)"
    have n1: "0 < n1" "n1 \<le> n - len" using True by (auto simp: n1_def CHUNK_SIZE_def)
    have IH: "rx_data blk (chunk_list f offset n (len + n1)) = fslice f (offset + (len + n1)) (n - (len + n1))"
      unfolding n1_def by (rule "1.IH") (use True "1.prems" n1 in \<open>auto simp: CHUNK_SIZE_def\<close>)
    have "chunk_list f offset n len
        = Literal (fslice f (offset + len) n1) # chunk_list f offset n (len + n1)"
      using True by (subst chunk_list.simps) (simp add: Let_def n1_def)
    then have "rx_data blk (chunk_list f offset n len)
        = fslice f (offset + len) n1 @ fslice f (offset + len + n1) (n - len - n1)"
      using IH by (simp add: add.assoc diff_diff_eq)
    also have "\<dots> = fslice f (offset + len) (n - len)"
      using fslice_append [of n1 "n - len - n1" f "offset + len"] n1 by simp
    finally show ?thesis .
  qed
qed

lemma rx_data_call_events:
  "rx_data blk (call_events f (token, offset, n)) = fslice f offset n @ (if token \<ge> 0 then blk token else [])"
  using rx_data_chunk_list [of 0 n blk f offset] by (simp add: call_events_def)

lemma chunk_list_lengths:
  assumes "0 \<le> len"
  shows "\<forall>t\<in>set (chunk_list f offset n len). \<exists>d. t = Literal d \<and> d \<noteq> [] \<and> int (length d) \<le> CHUNK_SIZE"
  using assms
proof (induction f offset n len rule: chunk_list.induct)
  case (1 f offset n len)
  show ?case
  proof (cases "len < n")
    case False
    then show ?thesis by (subst chunk_list.simps) simp
  next
    case True
    define n1 where "n1 = min CHUNK_SIZE (n - len)"
    have n1: "0 < n1" "n1 \<le> CHUNK_SIZE" using True by (auto simp: n1_def CHUNK_SIZE_def)
    have IH: "\<forall>t\<in>set (chunk_list f offset n (len + n1)). \<exists>d. t = Literal d \<and> d \<noteq> [] \<and> int (length d) \<le> CHUNK_SIZE"
      unfolding n1_def by (rule "1.IH") (use True "1.prems" in \<open>auto simp: CHUNK_SIZE_def\<close>)
    have "chunk_list f offset n len
        = Literal (fslice f (offset + len) n1) # chunk_list f offset n (len + n1)"
      using True by (subst chunk_list.simps) (simp add: Let_def n1_def)
    moreover have "fslice f (offset + len) n1 \<noteq> []"
      using n1 by (metis length_fslice list.size(3) nat_0_iff not_le)
    ultimately show ?thesis using IH n1 by auto
  qed
qed

subsection \<open>Sending from the read window\<close>

text \<open>
  The same send loop with the \<open>map_ptr\<close> calls of the code, for any reader \<open>rd\<close> of a
  window: the window may end the process, and it moves with every call.
\<close>

function send_chunks_from :: "('m \<Rightarrow> int \<Rightarrow> int \<Rightarrow> exit_code + (byte list option \<times> 'm)) \<Rightarrow> 'm
    \<Rightarrow> int \<Rightarrow> int \<Rightarrow> int \<Rightarrow> exit_code + (byte list \<times> 'm)" where
  "send_chunks_from rd m offset n len =
     (if len < n then
        let n1 = min CHUNK_SIZE (n - len)
        in case rd m (offset + len) n1 of
             Inl e \<Rightarrow> Inl e
           | Inr (d, m) \<Rightarrow>
               map_sum id (\<lambda>(out, m). (write_int n1 @ (case d of None \<Rightarrow> [] | Some b \<Rightarrow> b) @ out, m))
                 (send_chunks_from rd m offset n (len + n1))
      else Inr ([], m))"
  by pat_completeness auto
termination
  by (relation "measure (\<lambda>(rd, m, offset, n, len). nat (n - len))") (auto simp: CHUNK_SIZE_def)

declare send_chunks_from.simps [simp del]

text \<open>The law of a read window, and what follows from it.\<close>

locale file_window =
  fixes rd :: "'m \<Rightarrow> int \<Rightarrow> int \<Rightarrow> exit_code + (byte list option \<times> 'm)"
    and inv :: "'m \<Rightarrow> bool"
    and f :: "byte list"
  assumes window: "inv m \<Longrightarrow> 0 \<le> off \<Longrightarrow> 0 < n \<Longrightarrow>
    \<exists>m'. rd m off n = Inr (Some (fslice f off n), m') \<and> inv m'"
begin

lemma send_chunks_window:
  assumes "inv m" and "0 \<le> offset" and "0 \<le> len"
  shows "\<exists>m'. send_chunks_from rd m offset n len = Inr (send_chunks f offset n len, m') \<and> inv m'"
  using assms
proof (induction "nat (n - len)" arbitrary: m len rule: less_induct)
  case (less len m)
  show ?case
  proof (cases "len < n")
    case False
    with less.prems show ?thesis
      by (subst send_chunks_from.simps, subst send_chunks.simps) simp
  next
    case True
    define n1 where "n1 = min CHUNK_SIZE (n - len)"
    have n1: "0 < n1" using True by (auto simp: n1_def CHUNK_SIZE_def)
    obtain m1 where m1: "rd m (offset + len) n1 = Inr (Some (fslice f (offset + len) n1), m1)" "inv m1"
      using window [OF less.prems(1), of "offset + len" n1] less.prems n1 by auto
    obtain m2 where m2: "send_chunks_from rd m1 offset n (len + n1)
        = Inr (send_chunks f offset n (len + n1), m2)" "inv m2"
      using less.hyps [of "len + n1" m1] True m1(2) less.prems n1 by auto
    show ?thesis
      using True m1 m2
      by (subst send_chunks_from.simps, subst send_chunks.simps) (simp add: Let_def flip: n1_def)
  qed
qed

end

interpretation map_window: file_window "map_ptr s f" "\<lambda>m. map_inv f m \<and> os_ok s" f for s f
proof
  fix m :: map_struct and off n :: int
  assume "map_inv f m \<and> os_ok s" "0 \<le> off" "0 < n"
  then show "\<exists>m'. map_ptr s f m off n = Inr (Some (fslice f off n), m') \<and> map_inv f m' \<and> os_ok s"
    using map_ptr_window [of s f m off n] by blast
qed

end
