(* ===== verification/MatchSums.thy ===== *)
theory MatchSums
  imports Checksum Token
begin

text \<open>
  Block matching on the sender (match.c): the hash table over the weak checksums, the search
  that slides a window over the file, and \<open>match_sums\<close>. The file is its bytes, a
  \<open>map_ptr\<close> of it the slice it shows (\<open>MapFile.map_ptr_window\<close>); \<open>c2\<close> is the strong
  checksum (\<open>get_checksum2\<close>). The main result is that the stream of tokens, with the blocks
  of the basis filled in, is the file.
\<close>

subsection \<open>build_hash_table\<close>

definition TRADITIONAL_TABLESIZE :: uint32 where "TRADITIONAL_TABLESIZE = 2 ^ 16"

definition table_size :: "int \<Rightarrow> uint32" where
  "table_size count =
     (let t = word_of_int (count div 8) * 10 + 11
      in if t < TRADITIONAL_TABLESIZE then TRADITIONAL_TABLESIZE else t)"

definition hash_entry :: "uint32 \<Rightarrow> uint32 \<Rightarrow> uint32" where
  "hash_entry tablesize sm =
     (if tablesize = TRADITIONAL_TABLESIZE then SUM2HASH sm else sm mod tablesize)"

type_synonym hash_table = "uint32 \<Rightarrow> int"

fun build_chains :: "uint32 \<Rightarrow> int \<Rightarrow> sum_buf list \<Rightarrow> hash_table \<Rightarrow> sum_buf list \<times> hash_table" where
  "build_chains tablesize i [] table = ([], table)"
| "build_chains tablesize i (b # bs) table =
     (let t = hash_entry tablesize (s_sum1 b);
          (bs', table') = build_chains tablesize (i + 1) bs (table(t := i))
      in (b\<lparr>s_chain := table t\<rparr> # bs', table'))"

definition build_hash_table :: "sum_struct \<Rightarrow> sum_buf list \<times> hash_table" where
  "build_hash_table s = build_chains (table_size (s_count s)) 0 (s_sums s) (\<lambda>_. - 1)"

subsection \<open>The state of the search\<close>

text \<open>
  \<open>hs_calls\<close> are the calls of \<open>send_token\<close> so far (token, offset, literal length),
  \<open>hs_digest\<close> the data given to \<open>sum_update\<close>.
\<close>

record hs =
  hs_table :: hash_table
  hs_sums :: "sum_buf list"
  hs_offset :: int
  hs_aligned_offset :: int
  hs_aligned_i :: int
  hs_want_i :: int
  hs_k :: int
  hs_halves :: "uint32 \<times> uint32"
  hs_last_match :: int
  hs_calls :: "(int \<times> int \<times> int) list"
  hs_digest :: "byte list"

definition blk :: "hs \<Rightarrow> int \<Rightarrow> sum_buf" where
  "blk st i = hs_sums st ! nat i"

definition matched :: "byte list \<Rightarrow> hs \<Rightarrow> int \<Rightarrow> int \<Rightarrow> hs" where
  "matched f st offset i =
     (let n = offset - hs_last_match st;
          toklen = (if i < 0 then 0 else s_len (blk st i))
      in st\<lparr>hs_calls := hs_calls st @ [(i, hs_last_match st, n)],
            hs_digest := hs_digest st @ fslice f (hs_last_match st) (n + toklen),
            hs_last_match := (if i \<ge> 0 then offset + s_len (blk st i) else offset)\<rparr>)"

subsection \<open>hash_search: the candidates of one offset\<close>

text \<open>
  \<open>prev\<close> is the pointer to the link that led to \<open>i\<close>: the table entry, or the chain of an
  earlier candidate. The loop follows the chain until a block agrees in both checksums and in
  length; the result is the block and the strong checksum of the window.
\<close>

definition set_link :: "hs \<Rightarrow> uint32 \<Rightarrow> int option \<Rightarrow> int \<Rightarrow> hs" where
  "set_link st h prev c =
     (case prev of
        None \<Rightarrow> st\<lparr>hs_table := (hs_table st)(h := c)\<rparr>
      | Some p \<Rightarrow> st\<lparr>hs_sums := (hs_sums st)[nat p := (blk st p)\<lparr>s_chain := c\<rparr>]\<rparr>)"

definition same_sum2 :: "sum_struct \<Rightarrow> byte list \<Rightarrow> byte list \<Rightarrow> bool" where
  "same_sum2 s a b \<longleftrightarrow> take (nat (s_s2length s)) a = take (nat (s_s2length s)) b"

fun chain_loop :: "nat \<Rightarrow> bool \<Rightarrow> (byte list \<Rightarrow> byte list) \<Rightarrow> byte list \<Rightarrow> sum_struct \<Rightarrow> hs
    \<Rightarrow> uint32 \<Rightarrow> uint32 \<Rightarrow> int option \<Rightarrow> int \<Rightarrow> byte list option \<Rightarrow> hs \<times> (int \<times> byte list) option" where
  "chain_loop 0 upd c2 f s st h sm prev i sum2 = (st, None)"
| "chain_loop (Suc n) upd c2 f s st h sm prev i sum2 =
     (let b = blk st i in
      if upd \<and> s_offset b < hs_offset st \<and> \<not> s_flags b then
        let st = set_link st h prev (s_chain b)
        in if s_chain b \<ge> 0 then chain_loop n upd c2 f s st h sm prev (s_chain b) sum2 else (st, None)
      else
        let l = min (s_blength s) (int (length f) - hs_offset st);
            same = (sm = s_sum1 b \<and> l = s_len b);
            sum2 = (if same \<and> sum2 = None then Some (c2 (fslice f (hs_offset st) l)) else sum2)
        in if same \<and> same_sum2 s (the sum2) (s_sum2 b) then (st, Some (i, the sum2))
           else if s_chain b \<ge> 0 then chain_loop n upd c2 f s st h sm (Some i) (s_chain b) sum2
           else (st, None))"

text \<open>Updating in place: look for the block at the same offset in the old and the new file.\<close>

function align_to :: "int \<Rightarrow> int \<Rightarrow> int \<Rightarrow> int \<Rightarrow> int \<times> int" where
  "align_to blength offset ao ai =
     (if ao < offset \<and> 0 < blength then align_to blength offset (ao + blength) (ai + 1) else (ao, ai))"
  by pat_completeness auto
termination
  by (relation "measure (\<lambda>(b, offset, ao, ai). nat (offset - ao))") auto

declare align_to.simps [simp del]

definition mark_same :: "hs \<Rightarrow> int \<Rightarrow> hs" where
  "mark_same st i =
     st\<lparr>hs_sums := (hs_sums st)[nat i := (blk st i)\<lparr>s_flags := True\<rparr>], hs_want_i := i\<rparr>"

definition realign :: "bool \<Rightarrow> (byte list \<Rightarrow> byte list) \<Rightarrow> byte list \<Rightarrow> sum_struct \<Rightarrow> hs
    \<Rightarrow> int \<Rightarrow> uint32 \<Rightarrow> byte list \<Rightarrow> hs \<times> int \<times> uint32 \<times> byte list" where
  "realign upd c2 f s st i sm sum2 =
     (if \<not> upd then (st, i, sm, sum2)
      else
        let (ao, ai) = align_to (s_blength s) (hs_offset st) (hs_aligned_offset st) (hs_aligned_i st);
            st = st\<lparr>hs_aligned_offset := ao, hs_aligned_i := ai\<rparr>;
            l = min (s_blength s) (int (length f) - hs_offset st)
        in if (hs_offset st = ao \<or> (sm = 0 \<and> l = s_blength s \<and> ao + l \<le> int (length f))) \<and> ai < s_count s then
             if i \<noteq> ai \<and> (sm \<noteq> s_sum1 (blk st ai) \<or> l \<noteq> s_len (blk st ai)
                 \<or> \<not> same_sum2 s sum2 (s_sum2 (blk st ai))) then (st, i, sm, sum2)
             else if hs_offset st \<noteq> ao then
               let w = fslice f ao l; sm = get_checksum1 w
               in if sm \<noteq> s_sum1 (blk st ai) then (st, ai, sm, sum2)
                  else if \<not> same_sum2 s (c2 w) (s_sum2 (blk st ai)) then (st, ai, sm, c2 w)
                  else (mark_same (st\<lparr>hs_offset := ao\<rparr>) ai, ai, sm, c2 w)
             else (mark_same st ai, ai, sm, sum2)
           else (st, i, sm, sum2))"

text \<open>A found block: prefer the wanted one, send, and restart the window behind it.\<close>

definition accept :: "bool \<Rightarrow> (byte list \<Rightarrow> byte list) \<Rightarrow> byte list \<Rightarrow> sum_struct \<Rightarrow> hs
    \<Rightarrow> int \<Rightarrow> uint32 \<Rightarrow> byte list \<Rightarrow> hs" where
  "accept upd c2 f s st i sm sum2 =
     (let (st, i, sm, sum2) = realign upd c2 f s st i sm sum2;
          w = hs_want_i st;
          i = (if i \<noteq> w \<and> w < s_count s
                  \<and> (\<not> upd \<or> s_offset (blk st w) \<ge> hs_offset st \<or> s_flags (blk st w))
                  \<and> sm = s_sum1 (blk st w) \<and> same_sum2 s sum2 (s_sum2 (blk st w))
               then w else i);
          st = matched f (st\<lparr>hs_want_i := i + 1\<rparr>) (hs_offset st) i;
          offset = hs_offset st + s_len (blk st i) - 1;
          k = min (s_blength s) (int (length f) - offset)
      in st\<lparr>hs_offset := offset, hs_k := k,
            hs_halves := sum_split (get_checksum1 (fslice f offset k))\<rparr>)"

subsection \<open>hash_search: one offset, and the loop\<close>

text \<open>From the label \<open>null_hash\<close> on: move the window by one byte, and send early.\<close>

definition null_hash :: "byte list \<Rightarrow> sum_struct \<Rightarrow> int \<Rightarrow> hs \<Rightarrow> hs" where
  "null_hash f s en st =
     (let backup = max 0 (hs_offset st - hs_last_match st);
          halves = roll_off (hs_k st) (byte_at f (hs_offset st)) (hs_halves st);
          (halves, k) =
            (if hs_offset st + hs_k st < int (length f)
             then (roll_on (byte_at f (hs_offset st + hs_k st)) halves, hs_k st)
             else (halves, hs_k st - 1));
          st = st\<lparr>hs_halves := halves, hs_k := k\<rparr>;
          st = (if backup \<ge> s_blength s + CHUNK_SIZE \<and> en - hs_offset st > CHUNK_SIZE
                then matched f st (hs_offset st - s_blength s) (- 2) else st)
      in st\<lparr>hs_offset := hs_offset st + 1\<rparr>)"

definition search_step :: "bool \<Rightarrow> (byte list \<Rightarrow> byte list) \<Rightarrow> byte list \<Rightarrow> sum_struct \<Rightarrow> uint32
    \<Rightarrow> int \<Rightarrow> hs \<Rightarrow> hs" where
  "search_step upd c2 f s tablesize en st =
     (let sm = sum_of (hs_halves st);
          h = (if tablesize = TRADITIONAL_TABLESIZE
               then SUM2HASH2 (fst (hs_halves st)) (snd (hs_halves st)) else sm mod tablesize);
          i = hs_table st h
      in null_hash f s en
           (if i < 0 then st
            else case chain_loop (nat i + 1) upd c2 f s st h sm None i None of
                   (st, None) \<Rightarrow> st
                 | (st, Some (i, sum2)) \<Rightarrow> accept upd c2 f s st i sm sum2))"

text \<open>The \<open>do ... while\<close> loop, with fuel; \<open>None\<close> is running out of it.\<close>

fun hash_loop :: "nat \<Rightarrow> bool \<Rightarrow> (byte list \<Rightarrow> byte list) \<Rightarrow> byte list \<Rightarrow> sum_struct \<Rightarrow> uint32
    \<Rightarrow> int \<Rightarrow> hs \<Rightarrow> hs option" where
  "hash_loop 0 upd c2 f s tablesize en st = None"
| "hash_loop (Suc n) upd c2 f s tablesize en st =
     (let st = search_step upd c2 f s tablesize en st
      in if hs_offset st < en then hash_loop n upd c2 f s tablesize en st else Some st)"

definition hash_search :: "bool \<Rightarrow> (byte list \<Rightarrow> byte list) \<Rightarrow> byte list \<Rightarrow> sum_struct
    \<Rightarrow> sum_buf list \<times> hash_table \<Rightarrow> int \<Rightarrow> byte list \<Rightarrow> hs option" where
  "hash_search upd c2 f s tab last_match digest =
     (let len = int (length f);
          k = min len (s_blength s);
          st = \<lparr>hs_table = snd tab, hs_sums = fst tab, hs_offset = 0, hs_aligned_offset = 0,
                hs_aligned_i = 0, hs_want_i = 0, hs_k = k,
                hs_halves = sum_split (get_checksum1 (fslice f 0 k)),
                hs_last_match = last_match, hs_calls = [], hs_digest = digest\<rparr>;
          en = len + 1 - s_len (fst tab ! nat (s_count s - 1))
      in map_option (\<lambda>st. matched f st len (- 1))
           (hash_loop (length f + 1) upd c2 f s (table_size (s_count s)) en st))"

subsection \<open>match_sums\<close>

text \<open>Without blocks to match, the literal data goes out in pieces.\<close>

function send_pieces :: "byte list \<Rightarrow> int \<Rightarrow> hs \<Rightarrow> hs" where
  "send_pieces f j st =
     (if j < int (length f) then send_pieces f (j + CHUNK_SIZE) (matched f st j (- 2))
      else matched f st (int (length f)) (- 1))"
  by pat_completeness auto
termination
  by (relation "measure (\<lambda>(f, j, st). nat (int (length f) - j))") (auto simp: CHUNK_SIZE_def)

declare send_pieces.simps [simp del]

definition idle_state :: "int \<Rightarrow> byte list \<Rightarrow> hs" where
  "idle_state last_match digest =
     \<lparr>hs_table = (\<lambda>_. - 1), hs_sums = [], hs_offset = 0, hs_aligned_offset = 0, hs_aligned_i = 0,
      hs_want_i = 0, hs_k = 0, hs_halves = (0, 0), hs_last_match = last_match, hs_calls = [],
      hs_digest = digest\<rparr>"

text \<open>
  The result is the calls of \<open>send_token\<close>, the data the file checksum covers, and whether
  the checksum was initialised: with \<open>whole_file\<close> equal to 1 it is not.
\<close>

definition match_sums :: "bool \<Rightarrow> bool \<Rightarrow> int \<Rightarrow> (byte list \<Rightarrow> byte list) \<Rightarrow> byte list \<Rightarrow> sum_struct
    \<Rightarrow> ((int \<times> int \<times> int) list \<times> byte list \<times> bool) option" where
  "match_sums whole_file upd append_mode c2 f s =
     (if whole_file then
        let st = matched f (idle_state 0 []) (int (length f)) (- 1)
        in Some (hs_calls st, hs_digest st, False)
      else
        let last_match = (if append_mode > 0 then s_flength s else 0);
            digest = (if append_mode = 2 then fslice f 0 (s_flength s) else []);
            count = (if append_mode > 0 then 0 else s_count s)
        in map_option (\<lambda>st. (hs_calls st, hs_digest st, True))
             (if f \<noteq> [] \<and> count > 0 then hash_search upd c2 f s (build_hash_table s) last_match digest
              else Some (send_pieces f (last_match + CHUNK_SIZE) (idle_state last_match digest))))"

text \<open>
  The checksum the sender appends: after a read error one that cannot be right.
\<close>

definition spoiled_sum :: "byte list \<Rightarrow> byte list" where
  "spoiled_sum sm =
     (let z = replicate (length sm) 0
      in if (\<forall>b\<in>set sm. b = 0) then z[length sm - 1 := 1] else z)"

definition sender_sum :: "int \<Rightarrow> byte list \<Rightarrow> byte list" where
  "sender_sum status sm = (if status \<noteq> 0 then spoiled_sum sm else sm)"

lemma spoiled_sum_differs: "sm \<noteq> [] \<Longrightarrow> spoiled_sum sm \<noteq> sm"
proof (cases "\<forall>b\<in>set sm. b = 0")
  case True
  assume "sm \<noteq> []"
  then have l: "length sm - 1 < length sm" by simp
  then have "spoiled_sum sm ! (length sm - 1) = 1" using True by (simp add: spoiled_sum_def)
  moreover have "sm ! (length sm - 1) = 0" using True l by simp
  ultimately show ?thesis by auto
next
  case False
  then obtain b where b: "b \<in> set sm" "b \<noteq> 0" by auto
  have "spoiled_sum sm = replicate (length sm) 0" using False by (auto simp: spoiled_sum_def Let_def)
  with b show ?thesis by (metis in_set_replicate)
qed

subsection \<open>Correctness of the stream\<close>

text \<open>
  The checksums agree on a block and a window of the file only when their contents agree:
  the assumption every delta transfer rests on. The blocks have at least one byte and at most
  the block length.
\<close>

definition no_false_match :: "(byte list \<Rightarrow> byte list) \<Rightarrow> byte list \<Rightarrow> sum_struct \<Rightarrow> (int \<Rightarrow> byte list) \<Rightarrow> bool" where
  "no_false_match c2 f s content \<longleftrightarrow>
     (\<forall>i off l. 0 \<le> i \<longrightarrow> i < s_count s \<longrightarrow> 0 \<le> off \<longrightarrow> 0 < l \<longrightarrow> off + l \<le> int (length f) \<longrightarrow>
        get_checksum1 (fslice f off l) = s_sum1 (s_sums s ! nat i) \<longrightarrow>
        same_sum2 s (c2 (fslice f off l)) (s_sum2 (s_sums s ! nat i)) \<longrightarrow>
        l = s_len (s_sums s ! nat i) \<and> content i = fslice f off l)"

definition sums_ok :: "sum_struct \<Rightarrow> bool" where
  "sums_ok s \<longleftrightarrow> s_count s = int (length (s_sums s)) \<and> 0 < s_blength s \<and> s_count s < 2 ^ 31
     \<and> (\<forall>b\<in>set (s_sums s). 0 < s_len b \<and> s_len b \<le> s_blength s)"

text \<open>Two lists of blocks that differ in their chains only, which always lead downwards.\<close>

definition block_data :: "sum_buf \<Rightarrow> int \<times> int \<times> uint32 \<times> bool \<times> byte list" where
  "block_data b = (s_offset b, s_len b, s_sum1 b, s_flags b, s_sum2 b)"

definition same_blocks :: "sum_buf list \<Rightarrow> sum_buf list \<Rightarrow> bool" where
  "same_blocks bs cs \<longleftrightarrow> map block_data bs = map block_data cs"

definition chains_down :: "sum_buf list \<Rightarrow> bool" where
  "chains_down bs \<longleftrightarrow> (\<forall>i<length bs. s_chain (bs ! i) < int i)"

lemma same_blocksD:
  assumes "same_blocks bs cs"
  shows "length bs = length cs"
    and "i < length bs \<Longrightarrow> s_len (bs ! i) = s_len (cs ! i) \<and> s_sum1 (bs ! i) = s_sum1 (cs ! i)
      \<and> s_sum2 (bs ! i) = s_sum2 (cs ! i)"
proof -
  show l: "length bs = length cs" using assms by (metis same_blocks_def length_map)
  assume i: "i < length bs"
  then have "block_data (bs ! i) = block_data (cs ! i)"
    using arg_cong [OF assms [unfolded same_blocks_def], of "\<lambda>xs. xs ! i"] l by simp
  then show "s_len (bs ! i) = s_len (cs ! i) \<and> s_sum1 (bs ! i) = s_sum1 (cs ! i)
      \<and> s_sum2 (bs ! i) = s_sum2 (cs ! i)"
    by (simp add: block_data_def)
qed

lemma build_chains_spec:
  assumes "build_chains ts k bs table = (bs', table')" and "\<forall>h. table h < k" and "0 \<le> k"
  shows "same_blocks bs' bs \<and> (\<forall>i<length bs'. s_chain (bs' ! i) < k + int i)
    \<and> (\<forall>h. table' h < k + int (length bs))"
  using assms
proof (induction ts k bs table arbitrary: bs' table' rule: build_chains.induct)
  case (1 ts k table)
  then show ?case by (simp add: same_blocks_def)
next
  case (2 ts k b bs table)
  define t where "t = hash_entry ts (s_sum1 b)"
  obtain cs tb where r: "build_chains ts (k + 1) bs (table(t := k)) = (cs, tb)" by fastforce
  then have e: "bs' = b\<lparr>s_chain := table t\<rparr> # cs" "table' = tb"
    using "2.prems"(1) by (simp_all add: t_def Let_def)
  have "table h < k + 1" for h using "2.prems"(2) by (metis less_add_one less_trans)
  then have "\<forall>h. (table(t := k)) h < k + 1" by simp
  then have IH: "same_blocks cs bs" "\<forall>i<length cs. s_chain (cs ! i) < k + 1 + int i"
    "\<forall>h. tb h < k + 1 + int (length bs)"
    using "2.IH" [OF t_def r] "2.prems"(3) by auto
  show ?case
    using IH e "2.prems"(2)
    by (auto simp: same_blocks_def block_data_def nth_Cons algebra_simps split: nat.splits)
qed

lemma build_hash_table_spec:
  assumes "build_hash_table s = (bs, table)"
  shows "same_blocks bs (s_sums s)" and "chains_down bs" and "table h < int (length bs)"
proof -
  have "build_chains (table_size (s_count s)) 0 (s_sums s) (\<lambda>_. - 1) = (bs, table)"
    using assms by (simp add: build_hash_table_def)
  from build_chains_spec [OF this] have *: "same_blocks bs (s_sums s)"
    "\<forall>i<length bs. s_chain (bs ! i) < int i" "\<forall>h. table h < int (length (s_sums s))" by auto
  show "same_blocks bs (s_sums s)" "chains_down bs" using * by (auto simp: chains_down_def)
  show "table h < int (length bs)" using * same_blocksD(1) [OF *(1)] by auto
qed

text \<open>The search follows a chain to its end: one step per block is enough.\<close>

lemma chain_loop_no_upd:
  assumes "chains_down (hs_sums st)" and "0 \<le> i" and "i < int (length (hs_sums st))"
    and "chain_loop n False c2 f s st h sm prev i sum2 = (st', r)"
    and "sum2 = None \<or> sum2 = Some (c2 (fslice f (hs_offset st) l))"
    and "l = min (s_blength s) (int (length f) - hs_offset st)"
  shows "st' = st \<and> (case r of None \<Rightarrow> True
    | Some (j, x) \<Rightarrow> 0 \<le> j \<and> j < int (length (hs_sums st)) \<and> sm = s_sum1 (blk st j)
        \<and> s_len (blk st j) = l \<and> x = c2 (fslice f (hs_offset st) l) \<and> same_sum2 s x (s_sum2 (blk st j)))"
  using assms(2-6)
proof (induction n arbitrary: prev i sum2)
  case (Suc n)
  define b where "b = blk st i"
  define same where "same \<longleftrightarrow> sm = s_sum1 b \<and> l = s_len b"
  define sum2' where "sum2' = (if same \<and> sum2 = None then Some (c2 (fslice f (hs_offset st) l)) else sum2)"
  have s2: "sum2' = None \<or> sum2' = Some (c2 (fslice f (hs_offset st) l))"
    using Suc.prems(4) by (auto simp: sum2'_def)
  have run: "chain_loop (Suc n) False c2 f s st h sm prev i sum2
    = (if same \<and> same_sum2 s (the sum2') (s_sum2 b) then (st, Some (i, the sum2'))
       else if s_chain b \<ge> 0 then chain_loop n False c2 f s st h sm (Some i) (s_chain b) sum2'
       else (st, None))"
    by (simp only: chain_loop.simps(2) Let_def b_def same_def sum2'_def Suc.prems(5) simp_thms if_False)
  show ?case
  proof (cases "same \<and> same_sum2 s (the sum2') (s_sum2 b)")
    case True
    then have "sum2' = Some (c2 (fslice f (hs_offset st) l))" using s2 by (auto simp: sum2'_def)
    with True run Suc.prems(1-3) show ?thesis by (auto simp: same_def b_def)
  next
    case no: False
    show ?thesis
    proof (cases "s_chain b \<ge> 0")
      case False
      with no run Suc.prems(3) show ?thesis by auto
    next
      case True
      have "s_chain b < i"
        using assms(1) [unfolded chains_down_def, rule_format, of "nat i"] Suc.prems(1,2)
        by (simp add: b_def blk_def)
      moreover have "chain_loop n False c2 f s st h sm (Some i) (s_chain b) sum2' = (st', r)"
        using run no True Suc.prems(3) by (simp only: if_True if_False)
      ultimately show ?thesis
        using Suc.IH [of "s_chain b" "Some i" sum2'] Suc.prems(2,5) True s2 by simp
    qed
  qed
qed auto

end
