(* ===== verification/MatchCorrect.thy ===== *)
theory MatchCorrect
  imports MatchSums
begin

text \<open>
  Correctness of the search of match.c outside in-place updates: at every offset the rolled
  checksum is the checksum of the window, and the tokens sent so far stand for the part of the
  file before \<open>last_match\<close>.
\<close>

subsection \<open>Windows\<close>

lemma fslice_Cons: "0 < n \<Longrightarrow> fslice f off n = byte_at f off # fslice f (off + 1) (n - 1)"
  using fslice_append [of 1 "n - 1" f off] by (simp add: fslice_def)

lemma fslice_snoc: "0 \<le> n \<Longrightarrow> fslice f off n @ [byte_at f (off + n)] = fslice f off (n + 1)"
  using fslice_append [of n 1 f off] by (simp add: fslice_def)

lemma fslice_all: "fslice f 0 (int (length f)) = f"
  using fslice_within [of 0 "int (length f)" f] by simp

definition window_sums :: "byte list \<Rightarrow> uint32 \<times> uint32 \<Rightarrow> bool" where
  "window_sums w h \<longleftrightarrow> same_low h (byte_sum w, weighted_sum w)"

lemma window_sums_split: "window_sums w (sum_split (get_checksum1 w))"
  by (simp add: window_sums_def sum_split_same_low)

lemma window_sums_checksum: "window_sums w h \<Longrightarrow> sum_of h = get_checksum1 w"
  using sum_of_same_low by (auto simp: window_sums_def get_checksum1_eq)

lemma window_sums_off:
  assumes "window_sums (fslice f off k) h" and "0 < k"
  shows "window_sums (fslice f (off + 1) (k - 1)) (roll_off k (byte_at f off) h)"
proof -
  let ?w = "fslice f (off + 1) (k - 1)"
  have "int (Suc (length ?w)) = k" using assms(2) by simp
  with roll_shrink [of ?w "byte_at f off"] same_low_roll_off [OF assms(1) [unfolded window_sums_def],
      of k "byte_at f off"] assms(2)
  show ?thesis by (simp add: window_sums_def fslice_Cons)
qed

lemma window_sums_roll:
  assumes "window_sums (fslice f off k) h" and "0 < k"
  shows "window_sums (fslice f (off + 1) k)
    (roll_on (byte_at f (off + k)) (roll_off k (byte_at f off) h))"
proof -
  let ?w = "fslice f (off + 1) (k - 1)"
  have "same_low (roll_on (byte_at f (off + k)) (roll_off k (byte_at f off) h))
      (roll_on (byte_at f (off + k)) (byte_sum ?w, weighted_sum ?w))"
    using window_sums_off [OF assms] unfolding window_sums_def by (rule same_low_roll_on)
  moreover have "roll_on (byte_at f (off + k)) (byte_sum ?w, weighted_sum ?w)
      = (byte_sum (?w @ [byte_at f (off + k)]), weighted_sum (?w @ [byte_at f (off + k)]))"
    by (simp add: roll_on_def Let_def byte_sum_append weighted_sum_append algebra_simps)
  moreover have "?w @ [byte_at f (off + k)] = fslice f (off + 1) k"
    using fslice_snoc [of "k - 1" f "off + 1"] assms(2) by simp
  ultimately show ?thesis by (simp add: window_sums_def)
qed

subsection \<open>The invariant\<close>

definition events :: "byte list \<Rightarrow> (int \<times> int \<times> int) list \<Rightarrow> rx list" where
  "events f cs = concat (map (call_events f) cs)"

lemma events_snoc: "events f (cs @ [c]) = events f cs @ call_events f c"
  by (simp add: events_def)

definition core_inv :: "byte list \<Rightarrow> sum_struct \<Rightarrow> (int \<Rightarrow> byte list) \<Rightarrow> sum_buf list \<times> hash_table \<Rightarrow> hs \<Rightarrow> bool" where
  "core_inv f s content tab st \<longleftrightarrow> hs_sums st = fst tab \<and> hs_table st = snd tab \<and> 0 \<le> hs_want_i st
     \<and> 0 \<le> hs_last_match st \<and> hs_last_match st \<le> int (length f) \<and> list_all call_ok (hs_calls st)
     \<and> rx_data content (events f (hs_calls st)) = fslice f 0 (hs_last_match st)
     \<and> hs_digest st = fslice f 0 (hs_last_match st)"

definition window_inv :: "byte list \<Rightarrow> sum_struct \<Rightarrow> hs \<Rightarrow> bool" where
  "window_inv f s st \<longleftrightarrow> 0 \<le> hs_offset st \<and> hs_offset st \<le> int (length f)
     \<and> hs_k st = min (s_blength s) (int (length f) - hs_offset st)
     \<and> window_sums (fslice f (hs_offset st) (hs_k st)) (hs_halves st)"

lemma matched_core:
  assumes core: "core_inv f s content tab st"
    and "hs_last_match st \<le> offset"
    and "i \<ge> 0 \<Longrightarrow> i < 2 ^ 31 \<and> content i = fslice f offset (s_len (blk st i)) \<and> 0 \<le> s_len (blk st i)
      \<and> offset + s_len (blk st i) \<le> int (length f)"
    and "i < 0 \<Longrightarrow> i = - 2 \<and> offset \<le> int (length f)"
  shows "core_inv f s content tab (matched f st offset i)"
proof -
  let ?last = "hs_last_match st" and ?len = "if i \<ge> 0 then s_len (blk st i) else 0"
  have len: "0 \<le> ?len" using assms(3) by auto
  have "rx_data content (events f (hs_calls st @ [(i, ?last, offset - ?last)]))
      = fslice f 0 ?last @ fslice f ?last (offset - ?last) @ (if i \<ge> 0 then content i else [])"
    using core by (simp add: events_snoc rx_data_call_events core_inv_def)
  also have "\<dots> = fslice f 0 offset @ (if i \<ge> 0 then content i else [])"
    using fslice_append [of ?last "offset - ?last" f 0] core assms(2)
    by (simp add: core_inv_def)
  also have "\<dots> = fslice f 0 (offset + ?len)"
    using fslice_append [of offset "s_len (blk st i)" f 0] assms(2,3) core
    by (auto simp: core_inv_def)
  finally have "rx_data content (events f (hs_calls st @ [(i, ?last, offset - ?last)]))
      = fslice f 0 (offset + ?len)" .
  moreover have "fslice f 0 ?last @ fslice f ?last (offset - ?last + ?len) = fslice f 0 (offset + ?len)"
    using fslice_append [of ?last "offset - ?last + ?len" f 0] core assms(2) len
    by (simp add: core_inv_def)
  ultimately show ?thesis
    using core assms(2-4) by (cases "i \<ge> 0") (auto simp: core_inv_def matched_def Let_def call_ok_def)
qed

lemma accept_no_upd:
  "accept False c2 f s st i sm x =
     (let j = (if i \<noteq> hs_want_i st \<and> hs_want_i st < s_count s \<and> sm = s_sum1 (blk st (hs_want_i st))
                  \<and> same_sum2 s x (s_sum2 (blk st (hs_want_i st))) then hs_want_i st else i);
          m = matched f (st\<lparr>hs_want_i := j + 1\<rparr>) (hs_offset st) j;
          off = hs_offset m + s_len (blk m j) - 1;
          k = min (s_blength s) (int (length f) - off)
      in m\<lparr>hs_offset := off, hs_k := k, hs_halves := sum_split (get_checksum1 (fslice f off k))\<rparr>)"
  by (simp add: accept_def realign_def Let_def)

lemma matched_fields [simp]:
  "hs_offset (matched f st offset i) = hs_offset st" "hs_sums (matched f st offset i) = hs_sums st"
  "hs_k (matched f st offset i) = hs_k st" "hs_halves (matched f st offset i) = hs_halves st"
  by (simp_all add: matched_def Let_def)

lemma accept_inv:
  assumes s: "sums_ok s" and nf: "no_false_match c2 f s content" and sb: "same_blocks (fst tab) (s_sums s)"
    and core: "core_inv f s content tab st" and win: "window_inv f s st"
    and top: "hs_last_match st \<le> hs_offset st" "hs_offset st < int (length f)"
    and i: "0 \<le> i" "i < int (length (fst tab))" "sum_of (hs_halves st) = s_sum1 (blk st i)"
      "s_len (blk st i) = l" "x = c2 (fslice f (hs_offset st) l)" "same_sum2 s x (s_sum2 (blk st i))"
      "l = min (s_blength s) (int (length f) - hs_offset st)"
  defines "st' \<equiv> accept False c2 f s st i (sum_of (hs_halves st)) x"
  shows "core_inv f s content tab st'" and "window_inv f s st'"
    and "hs_last_match st' \<le> hs_offset st' + 1" and "hs_offset st' < int (length f)"
    and "hs_offset st \<le> hs_offset st'"
proof -
  let ?w = "hs_want_i st" and ?o = "hs_offset st" and ?sm = "sum_of (hs_halves st)"
  define j where "j = (if i \<noteq> ?w \<and> ?w < s_count s \<and> ?sm = s_sum1 (blk st ?w)
      \<and> same_sum2 s x (s_sum2 (blk st ?w)) then ?w else i)"
  have bl: "0 < s_blength s" and cnt: "s_count s = int (length (s_sums s))" "s_count s < 2 ^ 31"
    using s by (auto simp: sums_ok_def)
  have l: "0 < l" "?o + l \<le> int (length f)" "0 \<le> ?o" "hs_k st = l"
    using i(7) bl top win by (auto simp: window_inv_def)
  have sm: "?sm = get_checksum1 (fslice f ?o l)"
    using win l(4) by (intro window_sums_checksum) (auto simp: window_inv_def)
  have sums: "hs_sums st = fst tab" "0 \<le> ?w" using core by (auto simp: core_inv_def)
  have lens: "length (fst tab) = length (s_sums s)" using same_blocksD(1) [OF sb] .
  have j: "0 \<le> j" "j < s_count s" "?sm = s_sum1 (blk st j)" "same_sum2 s x (s_sum2 (blk st j))"
    using i sums cnt lens by (auto simp: j_def)
  have bj: "s_len (blk st j) = s_len (s_sums s ! nat j)" "s_sum1 (blk st j) = s_sum1 (s_sums s ! nat j)"
    "s_sum2 (blk st j) = s_sum2 (s_sums s ! nat j)"
    using same_blocksD(2) [OF sb, of "nat j"] j(1,2) cnt lens sums(1) by (auto simp: blk_def)
  have c: "l = s_len (blk st j)" "content j = fslice f ?o l"
    using nf [unfolded no_false_match_def, rule_format, of j ?o l] j l sm i(5) bj by auto
  let ?m = "matched f (st\<lparr>hs_want_i := j + 1\<rparr>) ?o j"
  define off where "off = ?o + l - 1"
  have st': "st' = ?m\<lparr>hs_offset := off, hs_k := min (s_blength s) (int (length f) - off),
      hs_halves := sum_split (get_checksum1 (fslice f off (min (s_blength s) (int (length f) - off))))\<rparr>"
    unfolding st'_def accept_no_upd j_def [symmetric] Let_def using c(1)
    by (simp add: blk_def off_def)
  have "core_inv f s content tab (st\<lparr>hs_want_i := j + 1\<rparr>)"
    using core j(1) by (simp add: core_inv_def)
  then have "core_inv f s content tab ?m"
    using top(1) j(1,2) cnt(2) c l by (intro matched_core) (auto simp: blk_def)
  then show "core_inv f s content tab st'"
    unfolding st' by (simp add: core_inv_def)
  show "window_inv f s st'"
    unfolding st' using l by (simp add: window_inv_def off_def window_sums_split)
  show "hs_last_match st' \<le> hs_offset st' + 1"
    unfolding st' using j(1) c(1) by (simp add: matched_def Let_def off_def blk_def)
  show "hs_offset st' < int (length f)" "hs_offset st \<le> hs_offset st'"
    unfolding st' using l by (simp_all add: off_def)
qed

subsection \<open>One step and the loop\<close>

lemma null_hash_inv:
  assumes "sums_ok s" and core: "core_inv f s content tab st" and win: "window_inv f s st"
    and "hs_last_match st \<le> hs_offset st + 1" and "hs_offset st < int (length f)"
  shows "core_inv f s content tab (null_hash f s en st) \<and> window_inv f s (null_hash f s en st)
    \<and> hs_last_match (null_hash f s en st) \<le> hs_offset (null_hash f s en st)
    \<and> hs_offset (null_hash f s en st) = hs_offset st + 1"
proof -
  define backup where "backup = max 0 (hs_offset st - hs_last_match st)"
  define halves where "halves = roll_off (hs_k st) (byte_at f (hs_offset st)) (hs_halves st)"
  define hk where "hk = (if hs_offset st + hs_k st < int (length f)
      then (roll_on (byte_at f (hs_offset st + hs_k st)) halves, hs_k st) else (halves, hs_k st - 1))"
  define st1 where "st1 = st\<lparr>hs_halves := fst hk, hs_k := snd hk\<rparr>"
  define st2 where "st2 = (if backup \<ge> s_blength s + CHUNK_SIZE \<and> en - hs_offset st1 > CHUNK_SIZE
      then matched f st1 (hs_offset st1 - s_blength s) (- 2) else st1)"
  have e: "null_hash f s en st = st2\<lparr>hs_offset := hs_offset st2 + 1\<rparr>"
    unfolding null_hash_def st2_def st1_def hk_def halves_def backup_def Let_def split_def ..
  have bl: "0 < s_blength s" using assms(1) by (simp add: sums_ok_def)
  have k: "0 < hs_k st" "hs_k st = min (s_blength s) (int (length f) - hs_offset st)" "0 \<le> hs_offset st"
    and sums: "window_sums (fslice f (hs_offset st) (hs_k st)) (hs_halves st)"
    using win bl assms(5) by (auto simp: window_inv_def)
  have hk: "snd hk = min (s_blength s) (int (length f) - (hs_offset st + 1))"
    "window_sums (fslice f (hs_offset st + 1) (snd hk)) (fst hk)"
    using k window_sums_off [OF sums k(1)] window_sums_roll [OF sums k(1)]
    by (auto simp: hk_def halves_def)
  have c1: "core_inv f s content tab st1" using core by (simp add: core_inv_def st1_def)
  have st2: "core_inv f s content tab st2 \<and> hs_last_match st2 \<le> hs_offset st + 1
      \<and> hs_offset st2 = hs_offset st \<and> hs_k st2 = snd hk \<and> hs_halves st2 = fst hk"
  proof (cases "backup \<ge> s_blength s + CHUNK_SIZE \<and> en - hs_offset st1 > CHUNK_SIZE")
    case False
    then have "st2 = st1" unfolding st2_def by (rule if_not_P)
    then show ?thesis using c1 assms(4) by (simp add: st1_def)
  next
    case True
    then have "hs_last_match st1 \<le> hs_offset st1 - s_blength s"
      using bl by (auto simp: backup_def st1_def CHUNK_SIZE_def)
    then have "core_inv f s content tab (matched f st1 (hs_offset st1 - s_blength s) (- 2))"
      using bl assms(5) by (intro matched_core [OF c1]) (auto simp: st1_def)
    moreover have "st2 = matched f st1 (hs_offset st1 - s_blength s) (- 2)"
      unfolding st2_def using True by (rule if_P)
    ultimately show ?thesis using bl by (simp add: st1_def matched_def Let_def)
  qed
  then show ?thesis
    using hk k assms(5) by (simp add: e core_inv_def window_inv_def)
qed

lemma search_step_inv:
  fixes ts :: uint32 and en :: int
  assumes s: "sums_ok s" and nf: "no_false_match c2 f s content" and sb: "same_blocks (fst tab) (s_sums s)"
    and tab: "chains_down (fst tab)" "\<And>h. snd tab h < int (length (fst tab))"
    and core: "core_inv f s content tab st" and win: "window_inv f s st"
    and top: "hs_last_match st \<le> hs_offset st" "hs_offset st < int (length f)"
  defines "st' \<equiv> search_step False c2 f s ts en st"
  shows "core_inv f s content tab st' \<and> window_inv f s st' \<and> hs_last_match st' \<le> hs_offset st'
    \<and> hs_offset st < hs_offset st'"
proof -
  define sm where "sm = sum_of (hs_halves st)"
  define h where "h = (if ts = TRADITIONAL_TABLESIZE
      then SUM2HASH2 (fst (hs_halves st)) (snd (hs_halves st)) else sm mod ts)"
  define i where "i = hs_table st h"
  define mid where "mid = (if i < 0 then st
      else case chain_loop (nat i + 1) False c2 f s st h sm None i None of
             (st, None) \<Rightarrow> st | (st, Some (i, sum2)) \<Rightarrow> accept False c2 f s st i sm sum2)"
  have sums: "hs_sums st = fst tab" "hs_table st = snd tab" using core by (auto simp: core_inv_def)
  have mid: "core_inv f s content tab mid \<and> window_inv f s mid \<and> hs_last_match mid \<le> hs_offset mid + 1
      \<and> hs_offset mid < int (length f) \<and> hs_offset st \<le> hs_offset mid"
  proof (cases "i < 0")
    case True
    then show ?thesis using core win top by (simp add: mid_def)
  next
    case False
    obtain st1 r where run: "chain_loop (nat i + 1) False c2 f s st h sm None i None = (st1, r)"
      by fastforce
    have "st1 = st \<and> (case r of None \<Rightarrow> True
      | Some (j, x) \<Rightarrow> 0 \<le> j \<and> j < int (length (hs_sums st)) \<and> sm = s_sum1 (blk st j)
        \<and> s_len (blk st j) = min (s_blength s) (int (length f) - hs_offset st)
        \<and> x = c2 (fslice f (hs_offset st) (min (s_blength s) (int (length f) - hs_offset st)))
        \<and> same_sum2 s x (s_sum2 (blk st j)))"
      by (rule chain_loop_no_upd [OF _ _ _ run]) (use tab sums False in \<open>auto simp: i_def\<close>)
    then show ?thesis
      using False run core win top accept_inv [OF s nf sb core win top]
      by (cases r) (auto simp: mid_def sm_def sums(1))
  qed
  have "st' = null_hash f s en mid"
    unfolding st'_def search_step_def Let_def mid_def i_def h_def sm_def ..
  with null_hash_inv [OF s, of f content tab mid en] mid show ?thesis by simp
qed

lemma hash_loop_inv:
  assumes "sums_ok s" and "no_false_match c2 f s content" and "same_blocks (fst tab) (s_sums s)"
    and "chains_down (fst tab)" and "\<And>h. snd tab h < int (length (fst tab))"
    and "en \<le> int (length f)"
    and "core_inv f s content tab st" and "window_inv f s st"
    and "hs_last_match st \<le> hs_offset st" and "hs_offset st < int (length f)"
    and "int (length f) - hs_offset st < int n"
  shows "\<exists>st'. hash_loop n False c2 f s ts en st = Some st' \<and> core_inv f s content tab st'"
  using assms(7-11)
proof (induction n arbitrary: st)
  case (Suc n)
  let ?st = "search_step False c2 f s ts en st"
  have step: "core_inv f s content tab ?st \<and> window_inv f s ?st \<and> hs_last_match ?st \<le> hs_offset ?st
    \<and> hs_offset st < hs_offset ?st"
    by (rule search_step_inv [OF assms(1-5) Suc.prems(1-4)])
  show ?case
  proof (cases "hs_offset ?st < en")
    case True
    with step Suc.prems(5) assms(6) show ?thesis
      by (simp add: Let_def) (rule Suc.IH, auto)
  next
    case False
    with step show ?thesis by (simp add: Let_def)
  qed
qed simp

lemma finish_stream:
  assumes core: "core_inv f s content tab st"
  defines "st' \<equiv> matched f st (int (length f)) (- 1)"
  shows "\<exists>cs offset n. hs_calls st' = cs @ [(- 1, offset, n)] \<and> list_all call_ok cs
    \<and> rx_data content (events f (hs_calls st')) = f \<and> hs_digest st' = f"
proof -
  let ?last = "hs_last_match st"
  have a: "fslice f 0 ?last @ fslice f ?last (int (length f) - ?last) = f"
    using fslice_append [of ?last "int (length f) - ?last" f 0] core fslice_all [of f]
    by (simp add: core_inv_def)
  then show ?thesis
    using core by (simp add: st'_def matched_def Let_def events_snoc rx_data_call_events core_inv_def)
qed

text \<open>
  The stream for a file: every token but the last names a block or only data, the blocks and
  literals add up to the file, and so does the data of the file checksum.
\<close>

theorem hash_search_correct:
  assumes s: "sums_ok s" and nf: "no_false_match c2 f s content" and "f \<noteq> []" and "s_count s > 0"
  shows "\<exists>st cs offset n. hash_search False c2 f s (build_hash_table s) 0 [] = Some st
    \<and> hs_calls st = cs @ [(- 1, offset, n)] \<and> list_all call_ok cs
    \<and> rx_data content (events f (hs_calls st)) = f \<and> hs_digest st = f"
proof -
  obtain bs table where t: "build_hash_table s = (bs, table)" by fastforce
  note tab = build_hash_table_spec [OF t]
  have bl: "0 < s_blength s" and cnt: "s_count s = int (length (s_sums s))"
    and lens: "\<And>b. b \<in> set (s_sums s) \<Longrightarrow> 0 < s_len b" using s by (auto simp: sums_ok_def)
  let ?last = "nat (s_count s - 1)"
  have last: "?last < length (s_sums s)" using assms(4) cnt by (cases "s_sums s") auto
  then have "0 < s_len (bs ! ?last)"
    using same_blocksD [OF tab(1)] lens by (metis nth_mem)
  then have en: "int (length f) + 1 - s_len (bs ! ?last) \<le> int (length f)" by simp
  let ?k = "min (int (length f)) (s_blength s)"
  let ?st = "\<lparr>hs_table = table, hs_sums = bs, hs_offset = 0, hs_aligned_offset = 0,
      hs_aligned_i = 0, hs_want_i = 0, hs_k = ?k, hs_halves = sum_split (get_checksum1 (fslice f 0 ?k)),
      hs_last_match = 0, hs_calls = [], hs_digest = []\<rparr>"
  have "\<exists>st'. hash_loop (length f + 1) False c2 f s (table_size (s_count s))
      (int (length f) + 1 - s_len (bs ! ?last)) ?st = Some st' \<and> core_inv f s content (bs, table) st'"
    by (rule hash_loop_inv [OF s nf])
      (use tab bl assms(3) en window_sums_split in \<open>auto simp: core_inv_def window_inv_def events_def min.commute\<close>)
  then obtain st' where st': "hash_loop (length f + 1) False c2 f s (table_size (s_count s))
      (int (length f) + 1 - s_len (bs ! ?last)) ?st = Some st'" "core_inv f s content (bs, table) st'"
    by blast
  then show ?thesis
    using finish_stream [OF st'(2)] by (simp add: hash_search_def t Let_def)
qed

lemma send_pieces_inv:
  assumes "core_inv f s content tab st" and "hs_last_match st \<le> j" and "j \<ge> 0"
  shows "\<exists>cs offset n. hs_calls (send_pieces f j st) = cs @ [(- 1, offset, n)] \<and> list_all call_ok cs
    \<and> rx_data content (events f (hs_calls (send_pieces f j st))) = f \<and> hs_digest (send_pieces f j st) = f"
  using assms
proof (induction f j st rule: send_pieces.induct)
  case (1 f j st)
  show ?case
  proof (cases "j < int (length f)")
    case False
    then show ?thesis
      using finish_stream [OF "1.prems"(1)] by (subst (1 2 3) send_pieces.simps) simp
  next
    case True
    have "core_inv f s content tab (matched f st j (- 2))"
      using "1.prems" True by (intro matched_core) auto
    moreover have "hs_last_match (matched f st j (- 2)) \<le> j + CHUNK_SIZE"
      by (simp add: matched_def Let_def CHUNK_SIZE_def)
    ultimately show ?thesis
      using "1.IH" [OF True] "1.prems"(3) True
      by (subst (1 2 3) send_pieces.simps) (simp add: CHUNK_SIZE_def)
  qed
qed

theorem match_sums_correct:
  assumes "0 < s_count s \<longrightarrow> sums_ok s" and "no_false_match c2 f s content" and "append_mode \<le> 0"
  shows "\<exists>cs offset n started. match_sums whole False append_mode c2 f s
      = Some (cs @ [(- 1, offset, n)], f, started) \<and> started = (\<not> whole)
    \<and> list_all call_ok cs \<and> rx_data content (events f (cs @ [(- 1, offset, n)])) = f"
proof -
  have idle: "core_inv f s content ([], \<lambda>_. - 1) (idle_state 0 [])"
    by (simp add: core_inv_def idle_state_def events_def)
  show ?thesis
  proof (cases whole)
    case True
    then show ?thesis using finish_stream [OF idle] by (auto simp: match_sums_def Let_def)
  next
    case False
    show ?thesis
    proof (cases "f \<noteq> [] \<and> s_count s > 0")
      case True
      then show ?thesis
        using False hash_search_correct [OF _ assms(2)] assms(1,3)
        by (auto simp: match_sums_def Let_def)
    next
      case no: False
      have l: "hs_last_match (idle_state 0 []) \<le> 0 + CHUNK_SIZE" "0 \<le> 0 + CHUNK_SIZE"
        by (simp_all add: idle_state_def CHUNK_SIZE_def)
      show ?thesis
        using no False send_pieces_inv [OF idle l] assms(3) by (auto simp: match_sums_def Let_def)
    qed
  qed
qed

end
