(* ===== verification/Receiver.thy ===== *)
theory Receiver
  imports MatchCorrect DeltaFile History
begin

text \<open>
  \<open>receive_data\<close> (receiver.c): the receiver puts a file together from the token stream and
  its basis file and, in a backup that is not the first one, writes the delta file as it goes.
  The model is the run with \<open>updating_basis_or_equiv\<close> equal to 0: the output is a file of
  its own, written in order. The file checksum is an argument, \<open>digest\<close>.
\<close>

subsection \<open>State\<close>

text \<open>
  The settings of a run: the options, whether \<open>fd\<close> is open, whether the delta file is
  written, and what the uninitialised \<open>sum.blength\<close> holds when no header is read.
\<close>

record rx_cfg =
  x_whole_file :: bool
  x_append_mode :: int
  x_protocol :: int
  x_csum_length :: int
  x_fd :: bool
  x_delta :: bool
  x_stack_blength :: int

record rx_state =
  r_offset :: int
  r_out :: "byte list"
  r_digest :: "byte list"
  r_delta :: "byte list"
  r_map :: "map_struct option"

subsection \<open>One token\<close>

definition rx_literal :: "rx_cfg \<Rightarrow> byte list \<Rightarrow> rx_state \<Rightarrow> rx_state" where
  "rx_literal cfg d st =
     (let i = int (length d) in
      st\<lparr>r_digest := r_digest st @ d,
         r_out := (if x_fd cfg then r_out st @ d else r_out st),
         r_delta := (if x_delta cfg
                     then r_delta st @ bytes_of (unmatch_line i (r_offset st)) @ d else r_delta st),
         r_offset := r_offset st + i\<rparr>)"

definition rx_block :: "rx_cfg \<Rightarrow> os \<Rightarrow> byte list \<Rightarrow> delta_meta \<Rightarrow> int \<Rightarrow> rx_state
    \<Rightarrow> exit_code + rx_state" where
  "rx_block cfg w basis h i st =
     (let offset2 = i * d_block_length h; len = block_len h i
      in case (case r_map st of
                 None \<Rightarrow> Inr (None, None)
               | Some m \<Rightarrow> map_sum id (\<lambda>(d, m). (d, Some m)) (map_ptr w basis m offset2 len)) of
           Inl e \<Rightarrow> Inl e
         | Inr (None, m) \<Rightarrow> Inr (st\<lparr>r_map := m, r_offset := r_offset st + len\<rparr>)
         | Inr (Some d, m) \<Rightarrow>
             Inr (st\<lparr>r_map := m,
                     r_digest := r_digest st @ d,
                     r_out := (if x_fd cfg then r_out st @ d else r_out st),
                     r_delta := (if x_delta cfg
                                 then r_delta st @ bytes_of (match_line i (r_offset st) offset2)
                                 else r_delta st),
                     r_offset := r_offset st + len\<rparr>))"

fun rx_step :: "rx_cfg \<Rightarrow> os \<Rightarrow> byte list \<Rightarrow> delta_meta \<Rightarrow> rx \<Rightarrow> rx_state
    \<Rightarrow> exit_code + rx_state" where
  "rx_step cfg w basis h (Literal d) st = Inr (rx_literal cfg d st)"
| "rx_step cfg w basis h (Block i) st = rx_block cfg w basis h i st"

subsection \<open>The loop\<close>

function receive_loop :: "rx_cfg \<Rightarrow> os \<Rightarrow> byte list \<Rightarrow> delta_meta \<Rightarrow> nat \<Rightarrow> rx_state \<Rightarrow> byte list
    \<Rightarrow> exit_code + (rx_state \<times> byte list)" where
  "receive_loop cfg w basis h residue st s =
     (case simple_recv_token residue s of
        Inl e \<Rightarrow> Inl e
      | Inr ((i, d, residue'), s') \<Rightarrow>
          if i = 0 then Inr (st, s')
          else case rx_step cfg w basis h (if i > 0 then Literal d else Block (- (i + 1))) st of
                 Inl e \<Rightarrow> Inl e
               | Inr st' \<Rightarrow> receive_loop cfg w basis h residue' st' s')"
  by pat_completeness auto
termination
  by (relation "measure (\<lambda>(cfg, w, basis, h, residue, st, s). length s)")
    (auto dest: simple_recv_token_length)

declare receive_loop.simps [simp del]

subsection \<open>Append mode\<close>

text \<open>
  With \<open>append_mode\<close> the target keeps its first \<open>flength\<close> bytes; in mode 2 they go into
  the file checksum, in pieces of \<open>CHUNK_SIZE\<close>.
\<close>

definition sum_flength :: "sum_head \<Rightarrow> int" where
  "sum_flength h = s_count h * s_blength h
     - (if s_remainder h \<noteq> 0 then s_blength h - s_remainder h else 0)"

definition opt_bytes :: "byte list option \<Rightarrow> byte list" where
  "opt_bytes d = (case d of None \<Rightarrow> [] | Some d \<Rightarrow> d)"

function append_sums :: "os \<Rightarrow> byte list \<Rightarrow> int \<Rightarrow> int \<Rightarrow> int \<Rightarrow> map_struct
    \<Rightarrow> exit_code + (byte list \<times> map_struct)" where
  "append_sums w basis flength j offset m =
     (if j < flength then
        (case map_ptr w basis m offset CHUNK_SIZE of
           Inl e \<Rightarrow> Inl e
         | Inr (d, m) \<Rightarrow>
             map_sum id (\<lambda>(ds, m). (opt_bytes d @ ds, m))
               (append_sums w basis flength (j + CHUNK_SIZE) j m))
      else if offset < flength then
        map_sum id (\<lambda>(d, m). (opt_bytes d, m)) (map_ptr w basis m offset (flength - offset))
      else Inr ([], m))"
  by pat_completeness auto
termination
  by (relation "measure (\<lambda>(w, basis, flength, j, offset, m). nat (flength - j))")
    (auto simp: CHUNK_SIZE_def)

declare append_sums.simps [simp del]

subsection \<open>receive_data\<close>

definition rx_meta :: "sum_head \<Rightarrow> int \<Rightarrow> int \<Rightarrow> delta_meta" where
  "rx_meta h total_size size_r =
     \<lparr>d_file_size = total_size, d_content_size = size_r, d_block_length = s_blength h,
      d_block_count = s_count h, d_remainder = s_remainder h\<rparr>"

definition rx_sum_head :: "rx_cfg \<Rightarrow> sum_head reader" where
  "rx_sum_head cfg =
     (if x_whole_file cfg
      then rreturn \<lparr>s_count = 0, s_blength = x_stack_blength cfg, s_s2length = 0, s_remainder = 0\<rparr>
      else read_sum_head (x_protocol cfg) (x_csum_length cfg))"

text \<open>
  The state before the first token: the window on the basis, the prefix that append mode keeps
  and the first line of the delta file.
\<close>

definition rx_start :: "rx_cfg \<Rightarrow> os \<Rightarrow> byte list option \<Rightarrow> int \<Rightarrow> int \<Rightarrow> byte list \<Rightarrow> sum_head
    \<Rightarrow> exit_code + rx_state" where
  "rx_start cfg w basis size_r total_size old h =
     (let m = (case basis of
                 Some f \<Rightarrow>
                   if size_r > 0
                   then Some (map_file size_r (max (s_blength h * 2) (16 * 1024)) (s_blength h))
                   else None
               | None \<Rightarrow> None);
          delta = (if x_delta cfg then bytes_of (meta_line (rx_meta h total_size size_r)) else [])
      in if x_append_mode cfg > 0 then
           let flength = sum_flength h in
           map_sum id (\<lambda>(d, m). \<lparr>r_offset = flength, r_out = fslice old 0 flength, r_digest = d,
                                  r_delta = delta, r_map = m\<rparr>)
             (case m of
                Some m \<Rightarrow> if x_append_mode cfg = 2
                  then map_sum id (\<lambda>(d, m). (d, Some m))
                         (append_sums w (opt_bytes basis) flength CHUNK_SIZE 0 m)
                  else Inr ([], Some m)
              | None \<Rightarrow> Inr ([], None))
         else Inr \<lparr>r_offset = 0, r_out = [], r_digest = [], r_delta = delta, r_map = m\<rparr>)"

text \<open>
  Appending is in place, so the target is cut to the final offset: what lies between the
  written bytes and that offset is the old file.
\<close>

definition rx_target :: "rx_cfg \<Rightarrow> byte list \<Rightarrow> rx_state \<Rightarrow> byte list" where
  "rx_target cfg old st =
     (if x_append_mode cfg > 0
      then fslice (r_out st @ drop (length (r_out st)) old) 0 (r_offset st)
      else r_out st)"

text \<open>
  The result is the return value, the target file, the delta file and the rest of the input.
  The code compares \<open>file_sum1\<close> with itself.
\<close>

record rx_result =
  x_ret :: int
  x_target :: "byte list"
  x_delta_file :: "byte list"

definition receive_data :: "rx_cfg \<Rightarrow> os \<Rightarrow> (byte list \<Rightarrow> byte list) \<Rightarrow> byte list option \<Rightarrow> int
    \<Rightarrow> int \<Rightarrow> byte list \<Rightarrow> rx_result reader" where
  "receive_data cfg w digest basis size_r total_size old =
     rbind (rx_sum_head cfg) (\<lambda>h s.
       case rx_start cfg w basis size_r total_size old h of
         Inl e \<Rightarrow> Inl e
       | Inr st \<Rightarrow>
           (case receive_loop cfg w (opt_bytes basis) (rx_meta h total_size size_r) 0 st s of
              Inl e \<Rightarrow> Inl e
            | Inr (st, s) \<Rightarrow>
                let file_sum1 = digest (r_digest st) in
                rbind (read_buf (length file_sum1)) (\<lambda>sender_file_sum. rreturn
                  \<lparr>x_ret = (if x_fd cfg \<and> file_sum1 \<noteq> file_sum1 then 0 else 1),
                   x_target = rx_target cfg old st, x_delta_file = r_delta st\<rparr>) s))"

subsection \<open>The loop as a fold over the tokens\<close>

fun rx_steps :: "rx_cfg \<Rightarrow> os \<Rightarrow> byte list \<Rightarrow> delta_meta \<Rightarrow> rx list \<Rightarrow> rx_state
    \<Rightarrow> exit_code + rx_state" where
  "rx_steps cfg w basis h [] st = Inr st"
| "rx_steps cfg w basis h (t # ts) st =
     (case rx_step cfg w basis h t st of
        Inl e \<Rightarrow> Inl e
      | Inr st \<Rightarrow> rx_steps cfg w basis h ts st)"

lemma receive_loop_tokens:
  "recv_tokens residue s = Inr (ts, rest, r) \<Longrightarrow>
   receive_loop cfg w basis h residue st s
     = map_sum id (\<lambda>st. (st, rest)) (rx_steps cfg w basis h ts st)"
proof (induction residue s arbitrary: ts rest r st rule: recv_tokens.induct)
  case (1 residue s)
  obtain i d r' s' where tok: "simple_recv_token residue s = Inr ((i, d, r'), s')"
    using "1.prems" by (subst (asm) recv_tokens.simps) (auto split: sum.splits prod.splits)
  show ?case
  proof (cases "i = 0")
    case True
    with "1.prems" tok have "ts = []" "rest = s'"
      by (subst (asm) recv_tokens.simps, simp)+
    with True tok show ?thesis by (subst receive_loop.simps) simp
  next
    case False
    let ?t = "if i > 0 then Literal d else Block (- (i + 1))"
    from "1.prems" tok False obtain ts' where
      ts: "recv_tokens r' s' = Inr (ts', rest, r)" "ts = ?t # ts'"
      by (subst (asm) recv_tokens.simps) (cases "recv_tokens r' s'"; auto)
    show ?thesis
    proof (cases "rx_step cfg w basis h ?t st")
      case (Inl e)
      with tok False ts(2) show ?thesis by (subst receive_loop.simps) (simp split del: if_split)
    next
      case (Inr st')
      have "receive_loop cfg w basis h r' st' s'
          = map_sum id (\<lambda>st. (st, rest)) (rx_steps cfg w basis h ts' st')"
        by (rule "1.IH" [OF tok refl refl refl False ts(1)])
      with tok False Inr ts(2) show ?thesis
        by (subst receive_loop.simps) (simp split del: if_split)
    qed
  qed
qed

subsection \<open>The records of the delta file\<close>

fun ops_of :: "delta_meta \<Rightarrow> int \<Rightarrow> rx list \<Rightarrow> delta_op list" where
  "ops_of h off [] = []"
| "ops_of h off (Literal d # ts) = OpData d off # ops_of h (off + int (length d)) ts"
| "ops_of h off (Block i # ts) =
     OpMatch i off (i * d_block_length h) # ops_of h (off + block_len h i) ts"

fun rx_ok :: "delta_meta \<Rightarrow> rx \<Rightarrow> bool" where
  "rx_ok h (Literal d) \<longleftrightarrow> int (length d) \<le> UNMATCH_SIZE"
| "rx_ok h (Block i) \<longleftrightarrow> 0 \<le> i \<and> i < 2 ^ 31 \<and> 0 < block_len h i"

definition block_content :: "delta_meta \<Rightarrow> byte list \<Rightarrow> int \<Rightarrow> byte list" where
  "block_content h basis i = fslice basis (i * d_block_length h) (block_len h i)"

lemma ops_of_meaning: "delta_meaning h basis (ops_of h off ts) = rx_data (block_content h basis) ts"
  by (induction h off ts rule: ops_of.induct) (auto simp: delta_meaning_def block_content_def)

lemma ops_of_ok:
  assumes "0 \<le> d_block_length h" "d_block_length h < 2 ^ 31" "\<forall>t\<in>set ts. rx_ok h t" "0 \<le> off"
    "off + int (length (rx_data (block_content h basis) ts)) < 2 ^ 63"
  shows "\<forall>p\<in>set (ops_of h off ts). op_ok h p"
  using assms
proof (induction h off ts rule: ops_of.induct)
  case (3 h off i ts)
  then have i: "0 \<le> i" "i < 2 ^ 31" "0 < block_len h i" by auto
  have "i * d_block_length h \<le> 2 ^ 31 * 2 ^ 31"
    using i "3.prems"(1,2) by (intro mult_mono) auto
  then have "int64 (i * d_block_length h)" "0 \<le> i * d_block_length h"
    using i "3.prems"(1) by (auto simp: int64_def intro: order_trans [of _ 0])
  moreover have "int64 i" "int64 off" using i 3 by (auto simp: int64_def)
  ultimately show ?case
    using 3 i by (auto simp: block_content_def)
qed (auto simp: int64_def)

subsection \<open>What the receiver writes\<close>

definition map_for :: "byte list \<Rightarrow> rx list \<Rightarrow> map_struct option \<Rightarrow> bool" where
  "map_for basis ts m \<longleftrightarrow>
     (case m of None \<Rightarrow> (\<forall>i. Block i \<notin> set ts) | Some m \<Rightarrow> map_inv basis m)"

lemma rx_steps_correct:
  assumes "os_ok w" and "0 \<le> d_block_length h" and "\<forall>t\<in>set ts. rx_ok h t"
    and "map_for basis ts (r_map st)"
  shows "\<exists>m. rx_steps cfg w basis h ts st = Inr
    \<lparr>r_offset = r_offset st + int (length (rx_data (block_content h basis) ts)),
     r_out = r_out st @ (if x_fd cfg then rx_data (block_content h basis) ts else []),
     r_digest = r_digest st @ rx_data (block_content h basis) ts,
     r_delta = r_delta st @ (if x_delta cfg
       then concat (map op_bytes (ops_of h (r_offset st) ts)) else []),
     r_map = m\<rparr>"
  using assms(3,4)
proof (induction ts arbitrary: st)
  case Nil
  then show ?case by (cases st) auto
next
  case (Cons t ts)
  show ?case
  proof (cases t)
    case (Literal d)
    let ?st = "rx_literal cfg d st"
    have "\<forall>t\<in>set ts. rx_ok h t" "map_for basis ts (r_map ?st)"
      using Cons.prems Literal by (auto simp: map_for_def rx_literal_def Let_def split: option.splits)
    from Cons.IH [OF this] Literal show ?thesis
      by (auto simp: rx_literal_def Let_def add.assoc)
  next
    case (Block i)
    with Cons.prems obtain m where m: "r_map st = Some m" "map_inv basis m"
      by (auto simp: map_for_def split: option.splits)
    from Cons.prems Block have i: "0 \<le> i * d_block_length h" "0 < block_len h i"
      using assms(2) by auto
    from map_ptr_window [OF assms(1) m(2) i] obtain m' where
      m': "map_ptr w basis m (i * d_block_length h) (block_len h i)
        = Inr (Some (block_content h basis i), m')" "map_inv basis m'"
      by (auto simp: block_content_def)
    define st' where "st' = st\<lparr>r_map := Some m', r_digest := r_digest st @ block_content h basis i,
      r_out := (if x_fd cfg then r_out st @ block_content h basis i else r_out st),
      r_delta := (if x_delta cfg
        then r_delta st @ bytes_of (match_line i (r_offset st) (i * d_block_length h)) else r_delta st),
      r_offset := r_offset st + block_len h i\<rparr>"
    have step: "rx_step cfg w basis h t st = Inr st'"
      using m m' Block by (simp add: rx_block_def Let_def st'_def)
    have "\<forall>t\<in>set ts. rx_ok h t" "map_for basis ts (r_map st')"
      using Cons.prems m'(2) by (auto simp: map_for_def st'_def)
    from Cons.IH [OF this] obtain m'' where
      "rx_steps cfg w basis h ts st' = Inr
        \<lparr>r_offset = r_offset st' + int (length (rx_data (block_content h basis) ts)),
         r_out = r_out st' @ (if x_fd cfg then rx_data (block_content h basis) ts else []),
         r_digest = r_digest st' @ rx_data (block_content h basis) ts,
         r_delta = r_delta st' @ (if x_delta cfg
           then concat (map op_bytes (ops_of h (r_offset st') ts)) else []),
         r_map = m''\<rparr>" by blast
    moreover have "int (length (block_content h basis i)) = block_len h i"
      using i by (simp add: block_content_def)
    ultimately show ?thesis
      using step Block by (intro exI [of _ m'']) (simp add: st'_def)
  qed
qed

definition delta_file_of :: "rx_cfg \<Rightarrow> delta_meta \<Rightarrow> rx list \<Rightarrow> byte list" where
  "delta_file_of cfg h ts = (if x_delta cfg then delta_bytes h (ops_of h 0 ts) else [])"

lemma receive_data_tokens:
  assumes "os_ok w" and "\<not> x_whole_file cfg" and "x_append_mode cfg \<le> 0"
    and head: "sum_head_ok (x_protocol cfg) (x_csum_length cfg) h"
    and toks: "recv_tokens 0 (toks @ sm @ rest) = Inr (ts, sm @ rest, r)"
    and meta: "meta = rx_meta h total_size size_r" and data: "data = rx_data (block_content meta (opt_bytes basis)) ts"
    and ok: "\<forall>t\<in>set ts. rx_ok meta t"
    and basis: "(basis \<noteq> None \<and> 0 < size_r) \<or> (\<forall>i. Block i \<notin> set ts)"
    and sm: "length sm = length (digest data)"
  shows "receive_data cfg w digest basis size_r total_size old
      (write_sum_head (x_protocol cfg) (Some h) @ toks @ sm @ rest)
    = Inr (\<lparr>x_ret = 1, x_target = (if x_fd cfg then data else []),
            x_delta_file = delta_file_of cfg meta ts\<rparr>, rest)"
proof -
  define delta0 where "delta0 = (if x_delta cfg then bytes_of (meta_line meta) else [])"
  obtain m where st: "rx_start cfg w basis size_r total_size old h
      = Inr \<lparr>r_offset = 0, r_out = [], r_digest = [], r_delta = delta0, r_map = m\<rparr>"
    and m: "map_for (opt_bytes basis) ts m"
    using assms(3) basis unfolding rx_start_def meta [symmetric] delta0_def [symmetric]
    by (auto simp: Let_def map_for_def map_inv_map_file split: option.splits)
  have bl: "0 \<le> d_block_length meta"
    using head meta by (simp add: rx_meta_def sum_head_ok_def)
  from rx_steps_correct [OF assms(1) bl ok, where basis = "opt_bytes basis" and cfg = cfg
      and st = "\<lparr>r_offset = 0, r_out = [], r_digest = [], r_delta = delta0, r_map = m\<rparr>"]
  obtain m' where steps: "rx_steps cfg w (opt_bytes basis) meta ts
      \<lparr>r_offset = 0, r_out = [], r_digest = [], r_delta = delta0, r_map = m\<rparr>
    = Inr \<lparr>r_offset = int (length data), r_out = (if x_fd cfg then data else []), r_digest = data,
           r_delta = delta0 @ (if x_delta cfg then concat (map op_bytes (ops_of meta 0 ts)) else []),
           r_map = m'\<rparr>"
    using m unfolding data by (simp cong: if_cong) blast
  have sh: "rx_sum_head cfg (write_sum_head (x_protocol cfg) (Some h) @ toks @ sm @ rest)
      = Inr (h, toks @ sm @ rest)"
    using assms(2) read_sum_head_write_sum_head [OF head] by (simp add: rx_sum_head_def)
  have df: "delta_file_of cfg meta ts
      = delta0 @ (if x_delta cfg then concat (map op_bytes (ops_of meta 0 ts)) else [])"
    by (simp add: delta_file_of_def delta_bytes_def delta0_def)
  show ?thesis
    using receive_loop_tokens [OF toks, of cfg w "opt_bytes basis" meta] assms(3)
    by (simp add: receive_data_def sh st steps meta [symmetric] rx_target_def
        rbind_def read_buf_def sm [symmetric] df)
qed

theorem delta_file_reproduces:
  assumes "meta_ok h" and "0 \<le> d_block_length h" and "d_block_length h < 2 ^ 31"
    and "\<forall>t\<in>set ts. rx_ok h t" and "length (rx_data (block_content h basis) ts) < 2 ^ 63"
  shows "reproduces basis (delta_bytes h (ops_of h 0 ts)) (rx_data (block_content h basis) ts)"
  using apply_delta_delta_bytes [OF _ assms(1)] ops_of_ok [OF assms(2-4), of 0 basis] assms(5)
  by (simp add: reproduces_def ops_of_meaning)

subsection \<open>From the sender's search to the receiver's files\<close>

lemma events_rx_ok:
  assumes "list_all call_ok cs"
    and "\<And>i. Block i \<in> set (events f (cs @ [(- 1, offset, n)])) \<Longrightarrow> 0 < block_len h i"
  shows "\<forall>t\<in>set (events f (cs @ [(- 1, offset, n)])). rx_ok h t"
proof -
  have chunk: "\<forall>t\<in>set (chunk_list f oft k 0). rx_ok h t" for oft k
    using chunk_list_lengths [of 0 f oft k] by (fastforce simp: CHUNK_SIZE_def UNMATCH_SIZE_def)
  have "\<forall>t\<in>set (call_events f c). rx_ok h t"
    if "call_ok c" "\<And>i. Block i \<in> set (call_events f c) \<Longrightarrow> 0 < block_len h i" for c
    using that chunk by (cases c) (auto simp: call_events_def call_ok_def split: if_splits)
  moreover have "\<forall>t\<in>set (call_events f (- 1, offset, n)). rx_ok h t"
    using chunk by (auto simp: call_events_def)
  ultimately show ?thesis
    using assms by (fastforce simp: events_def list_all_iff)
qed

text \<open>A stream that rebuilds the file whatever the blocks hold has no blocks.\<close>

lemma length_rx_data: "Block i \<in> set ts \<Longrightarrow> length (content i) \<le> length (rx_data content ts)"
  by (induction content ts rule: rx_data.induct) auto

lemma no_blocks_without_sums:
  assumes "s_count s \<le> 0" and "match_sums False False 0 c2 f s = Some (calls, f, True)"
  shows "Block i \<notin> set (events f calls)"
proof
  assume b: "Block i \<in> set (events f calls)"
  let ?content = "\<lambda>_. replicate (Suc (length f)) (0 :: byte)"
  have "no_false_match c2 f s ?content" using assms(1) by (simp add: no_false_match_def)
  from match_sums_correct [OF _ this, of 0 False] assms
  have "rx_data ?content (events f calls) = f" by auto
  with length_rx_data [OF b, of ?content] show False by simp
qed

text \<open>
  The sender works with the sums of \<open>old\<close>; the receiver takes the blocks from its own basis,
  which is another file in a differential backup. The delta file records the matches, so it
  rebuilds the new file from \<open>old\<close>; the target gets the blocks of the basis.
\<close>

theorem transfer_two_bases:
  assumes "os_ok w" and "\<not> x_whole_file cfg" and "x_append_mode cfg \<le> 0"
    and head: "sum_head_ok (x_protocol cfg) (x_csum_length cfg) (sum_head.truncate s)"
    and sums: "0 < s_count s \<longrightarrow> sums_ok s" and meta: "meta = rx_meta (sum_head.truncate s) total_size size_r"
    and nfm: "no_false_match c2 f s (block_content meta old)"
    and basis: "(basis \<noteq> None \<and> 0 < size_r) \<or> s_count s \<le> 0"
    and sizes: "int64 total_size" "int64 size_r" "length f < 2 ^ 63"
  shows "\<exists>calls ts. match_sums False False 0 c2 f s = Some (calls, f, True) \<and> ts = events f calls
    \<and> rx_data (block_content meta old) ts = f
    \<and> (s_count s \<le> 0 \<longrightarrow> (\<forall>i. Block i \<notin> set ts)) \<and> (\<forall>t\<in>set ts. rx_ok meta t)
    \<and> (\<forall>digest old rest. length (digest f) = length (digest (rx_data (block_content meta (opt_bytes basis)) ts)) \<longrightarrow>
        receive_data cfg w digest basis size_r total_size old
          (write_sum_head (x_protocol cfg) (Some (sum_head.truncate s))
           @ concat (map (send_call f) calls) @ digest f @ rest)
        = Inr (\<lparr>x_ret = 1, x_target = (if x_fd cfg then rx_data (block_content meta (opt_bytes basis)) ts else []),
            x_delta_file = delta_file_of cfg meta ts\<rparr>, rest))
    \<and> (x_delta cfg \<longrightarrow> reproduces old (delta_file_of cfg meta ts) f)"
proof -
  from match_sums_correct [OF sums nfm, of 0 False] obtain cs offset n where
    ms: "match_sums False False 0 c2 f s = Some (cs @ [(- 1, offset, n)], f, True)"
    and cs: "list_all call_ok cs"
    and data: "rx_data (block_content meta old) (events f (cs @ [(- 1, offset, n)])) = f"
    by auto
  define ts where "ts = events f (cs @ [(- 1, offset, n)])"
  have bl: "0 \<le> s_blength s" "0 < s_count s \<longrightarrow> 0 < s_blength s" "s_blength s < 2 ^ 31" "0 \<le> s_count s" "s_count s < 2 ^ 31"
      "0 \<le> s_remainder s" "s_remainder s < 2 ^ 31"
    using head sums by (auto simp: sum_head_ok_def sums_ok_def sum_head.truncate_def max_blength_def
        MAX_BLOCK_SIZE_def OLD_MAX_BLOCK_SIZE_def split: if_splits)
  have m: "d_block_length meta = s_blength s" "d_block_count meta = s_count s"
      "d_remainder meta = s_remainder s" "d_file_size meta = total_size" "d_content_size meta = size_r"
    by (simp_all add: meta rx_meta_def sum_head.truncate_def)
  have none: "s_count s \<le> 0 \<longrightarrow> (\<forall>i. Block i \<notin> set ts)"
    using no_blocks_without_sums [OF _ ms] by (simp add: ts_def)
  have pos: "0 < block_len meta i" if "Block i \<in> set ts" for i
    using bl that none by (cases "0 < s_count s") (auto simp: block_len_def m)
  have ok: "\<forall>t\<in>set ts. rx_ok meta t"
    unfolding ts_def by (rule events_rx_ok [OF cs pos [unfolded ts_def]])
  have toks: "recv_tokens 0 (concat (map (send_call f) (cs @ [(- 1, offset, n)])) @ sm @ rest)
      = Inr (ts, sm @ rest, 0)" for sm rest
    using recv_tokens_send_calls [OF cs, of f offset n "sm @ rest"] by (simp add: ts_def events_def)
  have nb: "(basis \<noteq> None \<and> 0 < size_r) \<or> (\<forall>i. Block i \<notin> set ts)"
    using basis none by auto
  note rd = receive_data_tokens [OF assms(1-3) head toks meta refl ok nb]
  have "meta_ok meta"
    using bl sizes by (simp add: meta_ok_def m int64_def)
  from delta_file_reproduces [OF this _ _ ok, of old]
  have "x_delta cfg \<longrightarrow> reproduces old (delta_file_of cfg meta ts) f"
    using bl sizes(3) data by (simp add: m delta_file_of_def ts_def)
  with ms rd data none ok show ?thesis
    by (intro exI [of _ "cs @ [(- 1, offset, n)]"] exI [of _ ts]) (simp add: ts_def)
qed

theorem transfer_correct:
  assumes "os_ok w" and "\<not> x_whole_file cfg" and "x_append_mode cfg \<le> 0"
    and "sum_head_ok (x_protocol cfg) (x_csum_length cfg) (sum_head.truncate s)"
    and "0 < s_count s \<longrightarrow> sums_ok s" and "meta = rx_meta (sum_head.truncate s) total_size size_r"
    and "no_false_match c2 f s (block_content meta (opt_bytes basis))"
    and "(basis \<noteq> None \<and> 0 < size_r) \<or> s_count s \<le> 0"
    and "int64 total_size" "int64 size_r" "length f < 2 ^ 63"
  shows "\<exists>calls D. match_sums False False 0 c2 f s = Some (calls, f, True)
    \<and> (\<forall>digest old rest. receive_data cfg w digest basis size_r total_size old
          (write_sum_head (x_protocol cfg) (Some (sum_head.truncate s))
           @ concat (map (send_call f) calls) @ digest f @ rest)
        = Inr (\<lparr>x_ret = 1, x_target = (if x_fd cfg then f else []), x_delta_file = D\<rparr>, rest))
    \<and> (x_delta cfg \<longrightarrow> reproduces (opt_bytes basis) D f)"
proof -
  from transfer_two_bases [OF assms] obtain calls ts where
    "match_sums False False 0 c2 f s = Some (calls, f, True)"
    "rx_data (block_content meta (opt_bytes basis)) ts = f"
    "\<forall>digest old rest. length (digest f) = length (digest (rx_data (block_content meta (opt_bytes basis)) ts)) \<longrightarrow>
        receive_data cfg w digest basis size_r total_size old
          (write_sum_head (x_protocol cfg) (Some (sum_head.truncate s))
           @ concat (map (send_call f) calls) @ digest f @ rest)
        = Inr (\<lparr>x_ret = 1, x_target = (if x_fd cfg then rx_data (block_content meta (opt_bytes basis)) ts else []),
            x_delta_file = delta_file_of cfg meta ts\<rparr>, rest)"
    "x_delta cfg \<longrightarrow> reproduces (opt_bytes basis) (delta_file_of cfg meta ts) f"
    by blast
  then show ?thesis by (intro exI [of _ calls] exI [of _ "delta_file_of cfg meta ts"]) simp
qed

end
