(* ===== verification/Sums.thy ===== *)
theory Sums
  imports Receiver "HOL-Library.Signed_Division"
begin

text \<open>
  The block sums: \<open>sum_sizes_sqroot\<close> and \<open>generate_and_send_sums\<close> (generator.c) and
  \<open>receive_sums\<close> (sender.c), and the whole transfer: from the sums of a basis over the
  sender's search to the file and the delta file of the receiver.
\<close>

subsection \<open>Block and checksum sizes (sum_sizes_sqroot)\<close>

definition BLOCK_SIZE :: int where "BLOCK_SIZE = 700"
definition SUM_LENGTH :: int where "SUM_LENGTH = 16"
definition SHORT_SUM_LENGTH :: int where "SHORT_SUM_LENGTH = 2"
definition BLOCKSUM_BIAS :: int where "BLOCKSUM_BIAS = 10"

definition int32_of :: "int \<Rightarrow> int" where
  "int32_of z = sint (word_of_int z :: uint32)"

text \<open>\<open>for (c = 1, l = len; l >>= 2; c <<= 1)\<close>.\<close>

function sqrt_top :: "int \<Rightarrow> int \<Rightarrow> int" where
  "sqrt_top l c = (let l = drop_bit 2 l in if l > 0 then sqrt_top l (int32_of (push_bit 1 c)) else c)"
  by pat_completeness auto
termination
  by (relation "measure (\<lambda>(l, c). nat l)") (auto simp: drop_bit_eq_div)

declare sqrt_top.simps [simp del]

text \<open>The loop that settles the bits of the square root down to 8.\<close>

function sqrt_bits :: "int \<Rightarrow> int \<Rightarrow> int \<Rightarrow> int" where
  "sqrt_bits len c blength =
     (let blength = blength OR c;
          blength = (if len < blength * blength then blength AND NOT c else blength);
          c = drop_bit 1 c
      in if c \<ge> 8 then sqrt_bits len c blength else blength)"
  by pat_completeness auto
termination
  by (relation "measure (\<lambda>(len, c, blength). nat c)") (auto simp: drop_bit_eq_div)

declare sqrt_bits.simps [simp del]

definition block_length :: "int \<Rightarrow> int \<Rightarrow> int \<Rightarrow> int" where
  "block_length protocol_version block_size len =
     (if block_size \<noteq> 0 then block_size
      else if len \<le> BLOCK_SIZE * BLOCK_SIZE then BLOCK_SIZE
      else let c = sqrt_top len 1
           in if c < 0 \<or> c \<ge> max_blength protocol_version then max_blength protocol_version
              else max (sqrt_bits len c 0) BLOCK_SIZE)"

function bias_up :: "int \<Rightarrow> int \<Rightarrow> int" where
  "bias_up l b = (let l = drop_bit 1 l in if l > 0 then bias_up l (b + 2) else b)"
  by pat_completeness auto
termination
  by (relation "measure (\<lambda>(l, b). nat l)") (auto simp: drop_bit_eq_div)

declare bias_up.simps [simp del]

function bias_down :: "int \<Rightarrow> int \<Rightarrow> int" where
  "bias_down c b = (let c = drop_bit 1 c in if c > 0 \<and> b \<noteq> 0 then bias_down c (b - 1) else b)"
  by pat_completeness auto
termination
  by (relation "measure (\<lambda>(c, b). nat c)") (auto simp: drop_bit_eq_div)

declare bias_down.simps [simp del]

definition sum2_length :: "int \<Rightarrow> int \<Rightarrow> int \<Rightarrow> int \<Rightarrow> int" where
  "sum2_length protocol_version csum_length blength len =
     (if protocol_version < 27 then csum_length
      else if csum_length = SUM_LENGTH then SUM_LENGTH
      else let b = bias_down blength (bias_up len BLOCKSUM_BIAS)
           in min (max ((b + 1 - 32 + 7) sdiv 8) csum_length) SUM_LENGTH)"

text \<open>No value stands for \<open>sum->count == -1\<close>.\<close>

definition sum_sizes_sqroot :: "int \<Rightarrow> int \<Rightarrow> int \<Rightarrow> int \<Rightarrow> sum_head option" where
  "sum_sizes_sqroot protocol_version csum_length block_size len =
     (if len < 0 then None
      else let blength = block_length protocol_version block_size len;
               remainder = len mod blength;
               l = len div blength + (if remainder \<noteq> 0 then 1 else 0)
           in if int32_of l \<noteq> l then None
              else Some \<lparr>s_count = l, s_blength = blength,
                         s_s2length = sum2_length protocol_version csum_length blength len,
                         s_remainder = remainder\<rparr>)"

subsection \<open>Sending the sums (generate_and_send_sums)\<close>

function send_sums :: "os \<Rightarrow> (byte list \<Rightarrow> byte list) \<Rightarrow> byte list \<Rightarrow> sum_head \<Rightarrow> int \<Rightarrow> int \<Rightarrow> int
    \<Rightarrow> map_struct \<Rightarrow> exit_code + byte list" where
  "send_sums w c2 f h i len offset m =
     (if i < s_count h then
        let n1 = min len (s_blength h) in
        (case map_ptr w f m offset n1 of
           Inl e \<Rightarrow> Inl e
         | Inr (d, m) \<Rightarrow>
             let map = opt_bytes d in
             map_sum id (\<lambda>out. write_int (sint (get_checksum1 map))
                 @ take (nat (s_s2length h)) (c2 map) @ out)
               (send_sums w c2 f h (i + 1) (len - n1) (offset + n1) m))
      else Inr [])"
  by pat_completeness auto
termination
  by (relation "measure (\<lambda>(w, c2, f, h, i, len, offset, m). nat (s_count h - i))") auto

declare send_sums.simps [simp del]

definition MAX_MAP_SIZE :: int where "MAX_MAP_SIZE = 256 * 1024"

definition generate_and_send_sums :: "int \<Rightarrow> int \<Rightarrow> int \<Rightarrow> int \<Rightarrow> os \<Rightarrow> (byte list \<Rightarrow> byte list)
    \<Rightarrow> byte list \<Rightarrow> int \<Rightarrow> exit_code + (int \<times> byte list)" where
  "generate_and_send_sums protocol_version csum_length block_size append_mode w c2 f len =
     (case sum_sizes_sqroot protocol_version csum_length block_size len of
        None \<Rightarrow> Inr (- 1, [])
      | Some h \<Rightarrow>
          if append_mode > 0 then Inr (0, write_sum_head protocol_version (Some h))
          else map_sum id (\<lambda>out. (0, write_sum_head protocol_version (Some h) @ out))
                 (send_sums w c2 f h 0 len 0 (map_file len MAX_MAP_SIZE (s_blength h))))"

subsection \<open>Receiving the sums (receive_sums)\<close>

function recv_sum_bufs :: "sum_head \<Rightarrow> int \<Rightarrow> int \<Rightarrow> (sum_buf list) reader" where
  "recv_sum_bufs h i offset =
     (if i < s_count h then
        rbind read_int (\<lambda>sum1.
        rbind (read_buf (nat (s_s2length h))) (\<lambda>sum2.
          let len = (if i = s_count h - 1 \<and> s_remainder h \<noteq> 0 then s_remainder h else s_blength h)
          in rbind (recv_sum_bufs h (i + 1) (offset + len)) (\<lambda>bs. rreturn
               (\<lparr>s_offset = offset, s_len = len, s_sum1 = word_of_int sum1, s_chain = 0,
                 s_flags = False, s_sum2 = sum2\<rparr> # bs))))
      else rreturn [])"
  by pat_completeness auto
termination
  by (relation "measure (\<lambda>(h, i, offset). nat (s_count h - i))") auto

declare recv_sum_bufs.simps [simp del]

definition receive_sums :: "int \<Rightarrow> int \<Rightarrow> int \<Rightarrow> sum_struct reader" where
  "receive_sums protocol_version csum_length append_mode =
     rbind (read_sum_head protocol_version csum_length) (\<lambda>h.
       if append_mode > 0 then rreturn (sum_head.extend h \<lparr>s_flength = sum_flength h, s_sums = []\<rparr>)
       else rbind (recv_sum_bufs h 0 0) (\<lambda>bs. rreturn
         (sum_head.extend h \<lparr>s_flength = sum_list (map s_len bs), s_sums = bs\<rparr>)))"

subsection \<open>The rounded square root\<close>

lemma int32_of_id: "- (2 ^ 31) \<le> z \<Longrightarrow> z < 2 ^ 31 \<Longrightarrow> int32_of z = z"
  by (simp add: int32_of_def signed_of_int signed_take_bit_int_eq_self)

lemma int32_of_double: "int32_of (2 * int32_of z) = int32_of (2 * z)"
  by (simp add: int32_of_def)

lemma or_new_bit:
  assumes "2 ^ Suc k dvd (b :: int)"
  shows "b OR 2 ^ k = b + 2 ^ k" and "(b OR 2 ^ k) AND NOT (2 ^ k) = b"
proof -
  from assms have nb: "\<not> bit b n" if "n \<le> k" for n
    using that by (metis bit_push_bit_iff_int dvdE le_imp_less_Suc mult.commute not_le push_bit_eq_mult)
  then show "b OR 2 ^ k = b + 2 ^ k"
    by (intro disjunctive_add [symmetric]) (auto simp: bit_simps)
  show "(b OR 2 ^ k) AND NOT (2 ^ k) = b"
    using nb by (intro bit_eqI) (auto simp: bit_simps)
qed

lemma sqrt_bits_spec:
  assumes "3 \<le> k" and "2 ^ Suc k dvd b" and "0 \<le> b" and "b * b \<le> len"
    and "len < (b + 2 ^ Suc k) * (b + 2 ^ Suc k)"
  shows "let r = sqrt_bits len (2 ^ k) b in
    b \<le> r \<and> r < b + 2 ^ Suc k \<and> 8 dvd r \<and> r * r \<le> len \<and> len < (r + 8) * (r + 8)"
  using assms
proof (induction k arbitrary: b)
  case 0
  then show ?case by simp
next
  case (Suc k)
  define b' where "b' = (if len < (b + 2 ^ Suc k) * (b + 2 ^ Suc k) then b else b + 2 ^ Suc k)"
  have ob: "b OR 2 ^ Suc k = b + 2 ^ Suc k" "(b OR 2 ^ Suc k) AND NOT (2 ^ Suc k) = b"
    using or_new_bit [of "Suc k" b] Suc.prems(2) by blast+
  have half: "drop_bit 1 (2 ^ Suc k :: int) = 2 ^ k"
    by (simp add: drop_bit_eq_div)
  have step: "sqrt_bits len (2 ^ Suc k) b
      = (if (8 :: int) \<le> 2 ^ k then sqrt_bits len (2 ^ k) b' else b')"
    unfolding sqrt_bits.simps [of len "2 ^ Suc k" b] Let_def half ob b'_def
    using ob by (simp del: power_Suc)
  have dvd: "2 ^ Suc k dvd b"
    using Suc.prems(2) by (metis dvd_trans le_imp_power_dvd lessI less_imp_le)
  have b': "2 ^ Suc k dvd b'" "0 \<le> b'" "b' * b' \<le> len" "b \<le> b'" "b' \<le> b + 2 ^ Suc k"
    using Suc.prems dvd by (auto simp: b'_def)
  have up: "len < (b' + 2 ^ Suc k) * (b' + 2 ^ Suc k)"
    using Suc.prems(5) by (auto simp: b'_def add.assoc)
  have lt: "b' + 2 ^ Suc k \<le> b + 2 ^ Suc (Suc k)"
    using b' by simp
  show ?case
  proof (cases "3 \<le> k")
    case True
    then have "(2 :: int) ^ 3 \<le> 2 ^ k" by (intro power_increasing) auto
    with Suc.IH [OF True b'(1-3) up] step b'(4) lt show ?thesis
      by (auto simp: Let_def)
  next
    case False
    with Suc.prems(1) have k: "k = 2" by simp
    then show ?thesis
      using step b' up by (auto simp: Let_def)
  qed
qed

lemma sqrt_top_spec:
  assumes "4 ^ k \<le> l" and "l < 4 ^ Suc k"
  shows "sqrt_top l (int32_of (2 ^ j)) = int32_of (2 ^ (j + k))"
  using assms
proof (induction k arbitrary: l j)
  case 0
  then have "drop_bit 2 l = 0" by (simp add: drop_bit_eq_div)
  then show ?case by (subst sqrt_top.simps) (simp add: Let_def)
next
  case (Suc k)
  then have l: "4 ^ k \<le> drop_bit 2 l" "drop_bit 2 l < 4 ^ Suc k"
    by (auto simp: drop_bit_eq_div)
  then have "0 < drop_bit 2 l"
    by (metis less_le_trans zero_less_numeral zero_less_power)
  then show ?case
    using Suc.IH [OF l, of "Suc j"]
    by (subst sqrt_top.simps) (simp add: Let_def push_bit_eq_mult int32_of_double mult.commute)
qed

lemma between_powers_of_4: "0 < (l :: int) \<Longrightarrow> \<exists>k. 4 ^ k \<le> l \<and> l < 4 ^ Suc k"
proof (induction "nat l" arbitrary: l rule: less_induct)
  case less
  show ?case
  proof (cases "l < 4")
    case True
    with less.prems show ?thesis by (intro exI [of _ 0]) auto
  next
    case False
    then have "nat (l div 4) < nat l" by auto
    moreover from False have "0 < l div 4" by presburger
    ultimately obtain k where "4 ^ k \<le> l div 4" "l div 4 < 4 ^ Suc k"
      using less.hyps [of "l div 4"] by auto
    then show ?thesis by (intro exI [of _ "Suc k"]) auto
  qed
qed

lemma max_blength_cases: "max_blength pv = 2 ^ 29 \<or> max_blength pv = 2 ^ 17"
  by (simp add: max_blength_def MAX_BLOCK_SIZE_def OLD_MAX_BLOCK_SIZE_def)

lemma sqrt_bits_top:
  assumes "4 ^ k \<le> len" and "len < 4 ^ Suc k" and "3 \<le> k" and "(2 :: int) ^ k < max_blength pv"
  shows "let r = sqrt_bits len (2 ^ k) 0 in
    0 \<le> r \<and> r \<le> max_blength pv \<and> r * r \<le> len \<and> len < (r + 8) * (r + 8)"
proof -
  have four: "(2 :: int) ^ Suc k * 2 ^ Suc k = 4 ^ Suc k"
    by (simp flip: power_mult_distrib)
  have "0 * 0 \<le> len" using assms(1) by (auto intro: order_trans [of _ "4 ^ k"])
  from sqrt_bits_spec [OF assms(3) dvd_0_right order_refl this] assms(2) four
  have r: "let r = sqrt_bits len (2 ^ k) 0 in
      0 \<le> r \<and> r < 2 ^ Suc k \<and> r * r \<le> len \<and> len < (r + 8) * (r + 8)"
    by (auto simp: Let_def)
  have "(2 :: int) ^ Suc k \<le> max_blength pv"
  proof -
    obtain n where n: "max_blength pv = 2 ^ n" using max_blength_cases by metis
    with assms(4) have "k < n" by (metis not_less one_le_numeral power_increasing)
    then show ?thesis unfolding n by (intro power_increasing) auto
  qed
  with r show ?thesis by (auto simp: Let_def)
qed

theorem block_length_root:
  assumes "0 \<le> len" and "len < 2 ^ 63" and "bl = block_length pv 0 len"
  shows "BLOCK_SIZE \<le> bl \<and> bl \<le> max_blength pv
    \<and> (bl = max_blength pv \<or> len < (bl + 8) * (bl + 8)) \<and> (bl = BLOCK_SIZE \<or> bl = max_blength pv \<or> bl * bl \<le> len)"
proof (cases "len \<le> BLOCK_SIZE * BLOCK_SIZE")
  case True
  with assms max_blength_cases [of pv] show ?thesis
    by (auto simp: block_length_def BLOCK_SIZE_def)
next
  case False
  then have len: "490000 < len" by (simp add: BLOCK_SIZE_def)
  then obtain k where k: "4 ^ k \<le> len" "len < 4 ^ Suc k"
    using between_powers_of_4 [of len] by auto
  have k3: "3 \<le> k"
  proof (rule ccontr)
    assume "\<not> 3 \<le> k"
    then have "(4 :: int) ^ Suc k \<le> 4 ^ 3" by (intro power_increasing) auto
    with k len show False by simp
  qed
  have "sqrt_top len (int32_of (2 ^ 0)) = int32_of (2 ^ (0 + k))"
    by (rule sqrt_top_spec [OF k])
  then have c: "sqrt_top len 1 = int32_of (2 ^ k)"
    using int32_of_id [of 1] by simp
  show ?thesis
  proof (cases "sqrt_top len 1 < 0 \<or> sqrt_top len 1 \<ge> max_blength pv")
    case True
    with False assms max_blength_cases [of pv] show ?thesis
      by (auto simp: block_length_def BLOCK_SIZE_def Let_def)
  next
    case no: False
    have "(2 :: int) ^ (2 * k) < 2 ^ 63"
      using k(1) assms(2) by (simp add: power_mult)
    then have "k \<le> 31" by (subst (asm) power_strict_increasing_iff) auto
    then have "k \<noteq> 31 \<longrightarrow> (2 :: int) ^ k < 2 ^ 31" by (subst power_strict_increasing_iff) auto
    moreover have "k \<noteq> 31" using no c by (auto simp: int32_of_def)
    ultimately have ck: "sqrt_top len 1 = 2 ^ k"
      using c int32_of_id [of "2 ^ k"] by (simp add: order_trans [of _ 0])
    with no have "(2 :: int) ^ k < max_blength pv" by simp
    define r where "r = sqrt_bits len (2 ^ k) 0"
    have r: "0 \<le> r" "r \<le> max_blength pv" "r * r \<le> len" "len < (r + 8) * (r + 8)"
      using sqrt_bits_top [OF k k3 \<open>2 ^ k < max_blength pv\<close>] by (simp_all add: r_def Let_def)
    have "(r + 8) * (r + 8) \<le> (max r 700 + 8) * (max r 700 + 8)"
      using r(1) by (intro mult_mono) auto
    moreover have "bl = max r 700"
      using no False assms(3) ck by (simp add: block_length_def BLOCK_SIZE_def Let_def r_def)
    ultimately show ?thesis
      using r max_blength_cases [of pv] by (auto simp: BLOCK_SIZE_def max_def)
  qed
qed

subsection \<open>The sums that arrive\<close>

definition head_block_len :: "sum_head \<Rightarrow> int \<Rightarrow> int" where
  "head_block_len h i =
     (if i = s_count h - 1 \<and> s_remainder h \<noteq> 0 then s_remainder h else s_blength h)"

definition block_of :: "byte list \<Rightarrow> sum_head \<Rightarrow> int \<Rightarrow> byte list" where
  "block_of f h i = fslice f (i * s_blength h) (head_block_len h i)"

definition buf_of :: "(byte list \<Rightarrow> byte list) \<Rightarrow> byte list \<Rightarrow> sum_head \<Rightarrow> int \<Rightarrow> sum_buf" where
  "buf_of c2 f h i =
     \<lparr>s_offset = i * s_blength h, s_len = head_block_len h i, s_sum1 = get_checksum1 (block_of f h i),
      s_chain = 0, s_flags = False, s_sum2 = take (nat (s_s2length h)) (c2 (block_of f h i))\<rparr>"

definition bufs_of :: "(byte list \<Rightarrow> byte list) \<Rightarrow> byte list \<Rightarrow> sum_head \<Rightarrow> int \<Rightarrow> sum_buf list" where
  "bufs_of c2 f h i = map (buf_of c2 f h) [i..s_count h - 1]"

text \<open>The header describes a file of \<open>len\<close> bytes.\<close>

definition head_for :: "int \<Rightarrow> sum_head \<Rightarrow> bool" where
  "head_for len h \<longleftrightarrow> 0 \<le> len \<and> 0 < s_blength h \<and> 0 \<le> s_s2length h
     \<and> s_remainder h = len mod s_blength h
     \<and> s_count h = len div s_blength h + (if s_remainder h \<noteq> 0 then 1 else 0)"

lemma head_for_block:
  assumes "head_for len h" and "0 \<le> i" and "i < s_count h"
  shows "min (len - i * s_blength h) (s_blength h) = head_block_len h i" and "0 < head_block_len h i"
proof -
  obtain q r where q: "len = q * s_blength h + r" "0 \<le> r" "r < s_blength h" "s_remainder h = r"
      "s_count h = q + (if r \<noteq> 0 then 1 else 0)" "0 < s_blength h"
    using assms(1) by (auto simp: head_for_def intro!: that [of "len div s_blength h" "len mod s_blength h"])
  show "0 < head_block_len h i"
    using q(2,4,6) by (auto simp: head_block_len_def)
  show "min (len - i * s_blength h) (s_blength h) = head_block_len h i"
  proof (cases "i = q")
    case True
    then show ?thesis using assms(3) q(2-5) unfolding q(1) by (auto simp: head_block_len_def split: if_splits)
  next
    case False
    then have "i + 1 \<le> q" using assms(3) q(5) by (auto split: if_splits)
    then have "(i + 1) * s_blength h \<le> q * s_blength h"
      using q(6) by (intro mult_right_mono) auto
    then have "s_blength h \<le> len - i * s_blength h" using q(1,2) by (simp add: algebra_simps)
    moreover have "i = s_count h - 1 \<longrightarrow> s_remainder h = 0"
      using False q(4,5) by auto
    ultimately show ?thesis by (auto simp: head_block_len_def)
  qed
qed

lemma recv_send_sums:
  assumes "os_ok w" and "head_for len h" and c2: "\<And>x. nat (s_s2length h) \<le> length (c2 x)"
    and "0 \<le> i" and "i \<le> s_count h" and "map_inv f m"
  shows "\<exists>out. send_sums w c2 f h i (len - i * s_blength h) (i * s_blength h) m = Inr out
    \<and> (\<forall>rest. recv_sum_bufs h i (i * s_blength h) (out @ rest) = Inr (bufs_of c2 f h i, rest))"
  using assms(4-6)
proof (induction "nat (s_count h - i)" arbitrary: i m)
  case 0
  then show ?case
    by (subst send_sums.simps, subst recv_sum_bufs.simps) (simp add: bufs_of_def)
next
  case (Suc k)
  then have i: "i < s_count h" by simp
  have n1: "min (len - i * s_blength h) (s_blength h) = head_block_len h i" "0 < head_block_len h i"
    using head_for_block [OF assms(2) Suc.prems(1) i] by simp_all
  have off: "0 \<le> i * s_blength h" using Suc.prems(1) assms(2) by (simp add: head_for_def)
  from map_ptr_window [OF assms(1) Suc.prems(3) off n1(2)] obtain m' where
    m': "map_ptr w f m (i * s_blength h) (head_block_len h i) = Inr (Some (block_of f h i), m')" "map_inv f m'"
    by (auto simp: block_of_def)
  have "k = nat (s_count h - (i + 1))" "0 \<le> i + 1" "i + 1 \<le> s_count h"
    using Suc.hyps(2) Suc.prems(1) i by simp_all
  from Suc.hyps(1) [OF this m'(2)] obtain out where
    out: "send_sums w c2 f h (i + 1) (len - (i + 1) * s_blength h) ((i + 1) * s_blength h) m' = Inr out"
    "\<And>rest. recv_sum_bufs h (i + 1) ((i + 1) * s_blength h) (out @ rest) = Inr (bufs_of c2 f h (i + 1), rest)"
    by blast
  have full: "send_sums w c2 f h (i + 1) (len - i * s_blength h - head_block_len h i)
      (i * s_blength h + head_block_len h i) m' = Inr out
    \<and> (\<forall>rest. recv_sum_bufs h (i + 1) (i * s_blength h + head_block_len h i) (out @ rest)
        = Inr (bufs_of c2 f h (i + 1), rest))"
  proof (cases "head_block_len h i = s_blength h")
    case True
    with out show ?thesis by (simp add: algebra_simps)
  next
    case False
    then have last: "i + 1 = s_count h" by (auto simp: head_block_len_def split: if_splits)
    have "send_sums w c2 f h (i + 1) a b c = Inr []" "recv_sum_bufs h (i + 1) b s = Inr ([], s)" for a b c s
      using last by (subst send_sums.simps recv_sum_bufs.simps; simp)+
    with out last show ?thesis by (simp add: bufs_of_def)
  qed
  have rd: "read_int (write_int (sint (get_checksum1 (block_of f h i))) @ s)
      = Inr (sint (get_checksum1 (block_of f h i)), s)" for s
    using sint_ge [of "get_checksum1 (block_of f h i)"] sint_lt [of "get_checksum1 (block_of f h i)"]
    by (intro read_int_write_int) (simp add: is_int32_def)
  have b: "bufs_of c2 f h i = buf_of c2 f h i # bufs_of c2 f h (i + 1)"
    using i by (simp add: bufs_of_def upto_rec1)
  show ?case
    using i full c2 [of "block_of f h i"] unfolding b
    by (subst send_sums.simps, subst recv_sum_bufs.simps)
      (simp add: n1 m'(1) opt_bytes_def rbind_def rd read_buf_def Let_def buf_of_def
        flip: head_block_len_def)
qed

lemma sum2_length_bounds:
  "0 \<le> cl \<Longrightarrow> cl \<le> SUM_LENGTH \<Longrightarrow> cl \<le> sum2_length pv cl bl len \<and> sum2_length pv cl bl len \<le> SUM_LENGTH"
  by (simp add: sum2_length_def Let_def)

lemma block_length_ok:
  assumes "0 \<le> len" "len < 2 ^ 63" "0 \<le> bs" "bs \<le> max_blength pv"
  shows "0 < block_length pv bs len \<and> block_length pv bs len \<le> max_blength pv"
  using block_length_root [OF assms(1,2) refl, of pv] assms(3,4)
  by (cases "bs = 0") (auto simp: block_length_def BLOCK_SIZE_def)

theorem sum_sizes_ok:
  assumes "sum_sizes_sqroot pv cl bs len = Some h" and "len < 2 ^ 63" and "0 \<le> bs"
    and "bs \<le> max_blength pv" and "0 \<le> cl" and "cl \<le> SUM_LENGTH"
  shows "sum_head_ok pv cl h \<and> head_for len h"
proof -
  define bl where "bl = block_length pv bs len"
  have len: "0 \<le> len" using assms(1) by (simp add: sum_sizes_sqroot_def split: if_splits)
  have bl: "0 < bl" "bl \<le> max_blength pv"
    using block_length_ok [OF len assms(2-4)] by (simp_all add: bl_def)
  define l where "l = len div bl + (if len mod bl \<noteq> 0 then 1 else 0)"
  have h: "h = \<lparr>s_count = l, s_blength = bl, s_s2length = sum2_length pv cl bl len, s_remainder = len mod bl\<rparr>"
    and l: "int32_of l = l"
    using assms(1) len by (auto simp: sum_sizes_sqroot_def Let_def bl_def l_def split: if_splits)
  have "l < 2 ^ 31"
    using l sint_lt [of "word_of_int l :: uint32"] by (simp add: int32_of_def)
  moreover have "0 \<le> len div bl" using len bl(1) by (rule pos_imp_zdiv_nonneg_iff [THEN iffD2, rotated])
  moreover have "0 \<le> len mod bl" "len mod bl \<le> bl" using bl(1) by (simp_all add: less_imp_le)
  ultimately show ?thesis
    using bl len sum2_length_bounds [OF assms(5,6), of pv bl len] assms(5)
    by (auto simp: h sum_head_ok_def head_for_def l_def SUM_LENGTH_def MAX_DIGEST_LEN_def sum2_length_def)
qed

definition sums_for :: "(byte list \<Rightarrow> byte list) \<Rightarrow> byte list \<Rightarrow> sum_head \<Rightarrow> sum_struct" where
  "sums_for c2 f h = sum_head.extend h
     \<lparr>s_flength = sum_list (map s_len (bufs_of c2 f h 0)), s_sums = bufs_of c2 f h 0\<rparr>"

text \<open>The sums of a file at a length that need not be its own.\<close>

theorem receive_sums_at_length:
  assumes "os_ok w" and h: "sum_sizes_sqroot pv cl bs len = Some h"
    and "len < 2 ^ 63" and "0 \<le> bs" and "bs \<le> max_blength pv" and "0 \<le> cl" and "cl \<le> SUM_LENGTH"
    and c2: "\<And>x. 16 \<le> length (c2 x)"
  shows "\<exists>out. generate_and_send_sums pv cl bs 0 w c2 f len = Inr (0, write_sum_head pv (Some h) @ out)
    \<and> (\<forall>rest. receive_sums pv cl 0 (write_sum_head pv (Some h) @ out @ rest) = Inr (sums_for c2 f h, rest))"
proof -
  have ok: "sum_head_ok pv cl h" "head_for len h"
    using sum_sizes_ok [OF h assms(3-7)] by simp_all
  then have s2: "nat (s_s2length h) \<le> length (c2 x)" and c: "0 \<le> s_count h" for x
    using c2 [of x] by (auto simp: sum_head_ok_def MAX_DIGEST_LEN_def)
  have "\<exists>out. send_sums w c2 f h 0 (len - 0 * s_blength h) (0 * s_blength h)
        (map_file len MAX_MAP_SIZE (s_blength h)) = Inr out
    \<and> (\<forall>rest. recv_sum_bufs h 0 (0 * s_blength h) (out @ rest) = Inr (bufs_of c2 f h 0, rest))"
    by (rule recv_send_sums [OF assms(1) ok(2) s2 order_refl c map_inv_map_file])
  then obtain out where "send_sums w c2 f h 0 len 0 (map_file len MAX_MAP_SIZE (s_blength h)) = Inr out"
    "\<And>rest. recv_sum_bufs h 0 0 (out @ rest) = Inr (bufs_of c2 f h 0, rest)"
    by auto
  with read_sum_head_write_sum_head [OF ok(1)] show ?thesis
    by (simp add: generate_and_send_sums_def h receive_sums_def rbind_def sums_for_def)
qed

subsection \<open>The whole transfer\<close>

text \<open>
  The checksums tell the windows of the new file from the blocks of the basis: what the
  algorithm takes for granted when it sends a block number in place of the data.
\<close>

definition no_collision :: "(byte list \<Rightarrow> byte list) \<Rightarrow> byte list \<Rightarrow> byte list \<Rightarrow> sum_head \<Rightarrow> bool" where
  "no_collision c2 f basis h \<longleftrightarrow>
     (\<forall>i off l. 0 \<le> i \<longrightarrow> i < s_count h \<longrightarrow> 0 \<le> off \<longrightarrow> 0 < l \<longrightarrow> off + l \<le> int (length f) \<longrightarrow>
        get_checksum1 (fslice f off l) = get_checksum1 (block_of basis h i) \<longrightarrow>
        take (nat (s_s2length h)) (c2 (fslice f off l)) = take (nat (s_s2length h)) (c2 (block_of basis h i)) \<longrightarrow>
        fslice f off l = block_of basis h i)"

lemma sums_for_fields [simp]:
  "s_count (sums_for c2 f h) = s_count h" "s_blength (sums_for c2 f h) = s_blength h"
  "s_s2length (sums_for c2 f h) = s_s2length h" "s_remainder (sums_for c2 f h) = s_remainder h"
  "s_sums (sums_for c2 f h) = bufs_of c2 f h 0" "sum_head.truncate (sums_for c2 f h) = h"
  by (simp_all add: sums_for_def sum_head.defs)

lemma bufs_of_nth: "0 \<le> i \<Longrightarrow> i < s_count h \<Longrightarrow> bufs_of c2 f h 0 ! nat i = buf_of c2 f h i"
  by (simp add: bufs_of_def)

lemma sums_for_ok:
  assumes "head_for len h" and "s_count h < 2 ^ 31"
  shows "sums_ok (sums_for c2 f h)"
proof -
  have "0 \<le> s_count h"
    using assms(1) by (simp add: head_for_def pos_imp_zdiv_nonneg_iff)
  moreover have "head_block_len h i \<le> s_blength h" for i
    using assms(1) by (auto simp: head_block_len_def head_for_def less_imp_le)
  ultimately show ?thesis
    using assms head_for_block(2) [OF assms(1)]
    by (auto simp: sums_ok_def bufs_of_def buf_of_def head_for_def)
qed

lemma no_false_match_sums_for:
  assumes "head_for len h" and "no_collision c2 f basis h"
  shows "no_false_match c2 f (sums_for c2 basis h) (block_content (rx_meta h total_size size_r) basis)"
  unfolding no_false_match_def
proof (intro allI impI)
  fix i off l
  assume a: "0 \<le> i" "i < s_count (sums_for c2 basis h)" "0 \<le> off" "0 < l" "off + l \<le> int (length f)"
    "get_checksum1 (fslice f off l) = s_sum1 (s_sums (sums_for c2 basis h) ! nat i)"
    "same_sum2 (sums_for c2 basis h) (c2 (fslice f off l)) (s_sum2 (s_sums (sums_for c2 basis h) ! nat i))"
  then have eq: "fslice f off l = block_of basis h i"
    using assms(2) by (auto simp: no_collision_def bufs_of_nth buf_of_def same_sum2_def)
  have "nat l = nat (head_block_len h i)"
    using arg_cong [OF eq, of length] by (simp add: block_of_def)
  moreover have "0 < head_block_len h i" using a head_for_block(2) [OF assms(1)] by simp
  ultimately have "l = head_block_len h i" using a(4) by simp
  then show "l = s_len (s_sums (sums_for c2 basis h) ! nat i)
      \<and> block_content (rx_meta h total_size size_r) basis i = fslice f off l"
    using a(1,2) eq
    by (simp add: bufs_of_nth buf_of_def block_content_def block_of_def rx_meta_def block_len_def
        head_block_len_def)
qed

theorem backup_transfer:
  assumes "os_ok w" "os_ok w'" and "\<not> x_whole_file cfg" and "x_append_mode cfg \<le> 0"
    and pv: "pv = x_protocol cfg" "cl = x_csum_length cfg"
    and h: "sum_sizes_sqroot pv cl bs (int (length basis)) = Some h"
    and bounds: "0 \<le> bs" "bs \<le> max_blength pv" "0 \<le> cl" "cl \<le> SUM_LENGTH"
    and sizes: "length basis < 2 ^ 63" "length f < 2 ^ 63"
    and c2: "\<And>x. 16 \<le> length (c2 x)"
    and nc: "no_collision c2 f basis h"
  shows "\<exists>out s calls D. generate_and_send_sums pv cl bs 0 w c2 basis (int (length basis)) = Inr (0, out)
    \<and> receive_sums pv cl 0 out = Inr (s, [])
    \<and> match_sums False False 0 c2 f s = Some (calls, f, True)
    \<and> (\<forall>digest old rest. receive_data cfg w' digest (Some basis) (int (length basis)) (int (length f)) old
          (write_sum_head pv (Some (sum_head.truncate s)) @ concat (map (send_call f) calls) @ digest f @ rest)
        = Inr (\<lparr>x_ret = 1, x_target = (if x_fd cfg then f else []), x_delta_file = D\<rparr>, rest))
    \<and> (x_delta cfg \<longrightarrow> reproduces basis D f)"
proof -
  have ok: "sum_head_ok pv cl h" "head_for (int (length basis)) h"
    using sum_sizes_ok [OF h _ bounds] sizes by simp_all
  have len: "int (length basis) < 2 ^ 63" using sizes(1) by simp
  obtain out where
    out: "generate_and_send_sums pv cl bs 0 w c2 basis (int (length basis)) = Inr (0, write_sum_head pv (Some h) @ out)"
    "receive_sums pv cl 0 (write_sum_head pv (Some h) @ out @ []) = Inr (sums_for c2 basis h, [])"
    using receive_sums_at_length [where ?c2.0 = c2 and f = basis, OF assms(1) h len bounds c2] by blast
  have c: "s_count h < 2 ^ 31" using ok(1) by (simp add: sum_head_ok_def)
  let ?s = "sums_for c2 basis h" and ?n = "int (length basis)"
  have b: "(Some basis \<noteq> None \<and> 0 < ?n) \<or> s_count ?s \<le> 0"
    using ok(2) by (cases basis) (auto simp: head_for_def)
  have head: "sum_head_ok (x_protocol cfg) (x_csum_length cfg) (sum_head.truncate ?s)"
    using ok(1) pv by simp
  have nfm: "no_false_match c2 f ?s
      (block_content (rx_meta (sum_head.truncate ?s) (int (length f)) ?n) (opt_bytes (Some basis)))"
    using no_false_match_sums_for [OF ok(2) nc] by (simp add: opt_bytes_def)
  have i64: "int64 (int (length f))" "int64 ?n" using sizes by (simp_all add: int64_def)
  from transfer_correct [OF assms(2-4) head _ refl nfm b i64 sizes(2)] sums_for_ok [OF ok(2) c] out
  show ?thesis
    by (simp add: pv opt_bytes_def)
qed

end
