(* ===== verification/Backup.thy ===== *)
theory Backup
  imports IncrRetention RecoverySpec Sums
begin

text \<open>
  One file of a backup run, as \<open>recv_files\<close> (receiver.c) handles it: the names and
  directories of the backup store, the test for the first backup, the transfer, the first full
  copy or the delta file, and the retention at the end. Runs with a partial directory, delayed
  updates, \<open>inplace\<close> or an alternate basis are not covered.
\<close>

subsection \<open>Names, directories and the first backup\<close>

definition backup_kind :: "int \<Rightarrow> string" where
  "backup_kind backup_type = (if backup_type \<noteq> 0 then ''differential'' else ''incremental'')"

definition prepare_backup :: "fs \<Rightarrow> string \<Rightarrow> int \<Rightarrow> fs \<times> bool" where
  "prepare_backup fs fname backup_type =
     (let (dir_name, file_name) = split_path fname;
          kind = backup_kind backup_type;
          prefix = file_name @ ''.full.'';
          full_dir = backup_dir dir_name file_name kind ''full'';
          fs = snd (mkdir_recursive fs full_dir);
          fs = snd (mkdir_recursive fs (backup_dir dir_name file_name kind ''delta''));
          found = (opendir_ok fs full_dir
                   \<and> list_ex (\<lambda>n. take (length prefix) n = prefix) (dir_names fs full_dir))
      in (fs, \<not> found))"

subsection \<open>The full copy\<close>

text \<open>
  A file that cannot be opened is reported, and then handed to \<open>fclose\<close> as a null pointer.
\<close>

definition copy_full_backup :: "fs \<Rightarrow> string \<Rightarrow> string \<Rightarrow> delta_error + fs" where
  "copy_full_backup fs fname full_backup_fname =
     (case file_content fs fname of
        None \<Rightarrow> Inl Undefined
      | Some c \<Rightarrow> if can_write fs full_backup_fname then Inr (write_path fs full_backup_fname c)
                  else Inl Undefined)"

subsection \<open>One file\<close>

text \<open>
  The arguments after the settings: the number of backups to keep, the kind of backup, the file
  system, the file, the time stamp of the run, the length the file list gives, and the input.
\<close>

definition recv_backup_file :: "os \<Rightarrow> rx_cfg \<Rightarrow> (byte list \<Rightarrow> byte list) \<Rightarrow> int \<Rightarrow> int \<Rightarrow> fs \<Rightarrow> string
    \<Rightarrow> string \<Rightarrow> int \<Rightarrow> byte list \<Rightarrow> delta_error + (fs \<times> byte list)" where
  "recv_backup_file w cfg digest num backup_type fs0 fname version total_size input =
     (let (dir_name, file_name) = split_path fname;
          kind = backup_kind backup_type;
          full_backup_fname = full_name dir_name file_name kind version;
          delta_backup_fname = delta_name dir_name file_name kind version;
          (fs, first_backup) = prepare_backup fs0 fname backup_type;
          basis = file_content fs fname;
          size_r = (case basis of Some c \<Rightarrow> int (length c) | None \<Rightarrow> 0);
          skip = (map_of fs fname = Some Dir \<or> \<not> dir_ok fs dir_name);
          cfg = cfg\<lparr>x_fd := \<not> skip, x_delta := \<not> first_backup\<rparr>;
          (basis, size_r) = (if skip then (None, 0) else (basis, size_r))
      in case receive_data cfg w digest basis size_r total_size [] input of
           Inl e \<Rightarrow> Inl (Exit e)
         | Inr (r, rest) \<Rightarrow>
             let fs = (if first_backup then fs else write_path fs delta_backup_fname (x_delta_file r))
             in if skip then Inr (fs, rest)
                else
                  let fs = (if x_ret r = 1 then write_path fs fname (x_target r) else fs)
                  in case (if first_backup \<or> x_whole_file cfg
                           then copy_full_backup fs fname full_backup_fname else Inr fs) of
                       Inl e \<Rightarrow> Inl e
                     | Inr fs \<Rightarrow>
                         map_sum id (\<lambda>(ret, fs). (fs, rest))
                           (manage_backup_version w backup_type num fs
                             (manage_path dir_name file_name kind)))"

subsection \<open>Paths\<close>

lemma split_path_cases:
  assumes "split_path fname = (d, f)"
  obtains "fname = f" "d = ''.''" "CHR ''/'' \<notin> set f" | "fname = d @ ''/'' @ f" "CHR ''/'' \<notin> set f"
proof (cases "CHR ''/'' \<in> set fname")
  case False
  then show ?thesis using assms that(1) split_path_file [OF False] by auto
next
  case True
  then obtain a b where "fname = a @ CHR ''/'' # b" "CHR ''/'' \<notin> set b"
    by (metis split_list_last)
  then show ?thesis using assms that(2) split_path_append [of b a] by auto
qed

lemma fname_outside_store:
  assumes "split_path fname = (d, f)"
  shows "entry_name (backup_dir d f kind sub) fname = None"
    and "fname \<noteq> manage_path d f kind @ r"
    and "fname \<noteq> full_name d f kind t" and "fname \<noteq> delta_name d f kind t"
proof -
  have out: "fname \<noteq> manage_path d f kind @ r" for r
    using assms
  proof (cases rule: split_path_cases)
    case 1
    have "CHR ''/'' \<in> set (manage_path d f kind @ r)" by (simp add: manage_path_def)
    with 1 show ?thesis by metis
  next
    case 2
    then show ?thesis by (auto simp: manage_path_def dest!: arg_cong [of _ _ length])
  qed
  then show "fname \<noteq> manage_path d f kind @ r" .
  have b: "backup_dir d f kind sub = manage_path d f kind @ sub @ ''/''" for sub
    by (simp add: backup_dir_def manage_path_def)
  show "fname \<noteq> full_name d f kind t" "fname \<noteq> delta_name d f kind t"
    using out by (simp_all add: full_name_def delta_name_def b)
  show "entry_name (backup_dir d f kind sub) fname = None"
  proof (cases "entry_name (backup_dir d f kind sub) fname")
    case (Some n)
    from entry_name_Some [OF this] out show ?thesis by (simp add: b)
  qed
qed

subsection \<open>Writing beside and into the store\<close>

lemma map_of_write: "can_write fs p \<Longrightarrow> map_of (write_path fs p c) = (map_of fs)(p \<mapsto> File c)"
  by (simp add: write_path_def update_conv')

lemma opendir_write: "can_write fs p \<Longrightarrow> opendir_ok (write_path fs p c) q = opendir_ok fs q"
  by (auto simp: opendir_ok_def map_of_write can_write_def)

lemma dir_set_write:
  "can_write fs p \<Longrightarrow> dir_set (write_path fs p c) q
    = (if entry_name q p = None then dir_set fs q else insert p (dir_set fs q))"
  by (auto simp: dir_set_def map_of_write split: if_splits)

lemma incr_store_write_other:
  assumes "fs_ok fs" and "can_write fs p" and store: "incr_store fs d f h fts dts"
    and "\<And>sub. entry_name (backup_dir d f ''incremental'' sub) p = None"
    and "\<And>t. p \<noteq> full_name d f ''incremental'' t" "\<And>t. p \<noteq> delta_name d f ''incremental'' t"
  shows "incr_store (write_path fs p c) d f h fts dts"
proof -
  have "store_lists (write_path fs p c) d f ''incremental'' fts dts"
    using incr_storeD(1) [OF store] assms(2,4)
    unfolding store_lists_iff [OF assms(1)] store_lists_iff [OF fs_ok_ops(1) [OF assms(1)]]
    by (simp add: opendir_write dir_set_write)
  then show ?thesis
    using store assms(5,6) unfolding incr_store_def by (simp add: file_content_write [OF assms(2)] not_sym [OF assms(5)] not_sym [OF assms(6)])
qed

lemma entry_delta_name: "CHR ''/'' \<notin> set f \<Longrightarrow> ts_ok t \<Longrightarrow>
  entry_name (backup_dir d f kind ''delta'') (delta_name d f kind t) = Some (f @ ''.delta.'' @ t)"
  by (auto simp: entry_name_def delta_name_def ts_ok_def Let_def)

lemma entry_delta_full:
  "entry_name (backup_dir d f kind ''full'') (delta_name d f kind t) = None"
proof (cases "entry_name (backup_dir d f kind ''full'') (delta_name d f kind t)")
  case (Some n)
  from entry_name_Some [OF this] show ?thesis by (simp add: delta_name_def backup_dir_def)
qed

lemma can_write_delta_name:
  assumes "fs_ok fs" and "store_lists fs d f kind fts dts" and "CHR ''/'' \<notin> set f" and "ts_ok t"
    and "t \<notin> set dts"
  shows "can_write fs (delta_name d f kind t)"
proof -
  let ?dir = "d @ ''/'' @ f @ ''.backup/'' @ kind @ ''/delta''"
  have "opendir_ok fs (?dir @ ''/'')" and ds: "dir_set fs (backup_dir d f kind ''delta'') = delta_name d f kind ` set dts"
    using assms(2) by (simp_all add: store_lists_iff [OF assms(1)] backup_dir_def)
  then have "map_of fs ?dir = Some Dir" by (simp add: opendir_ok_def butlast_append)
  moreover have "split_path (delta_name d f kind t) = (?dir, f @ ''.delta.'' @ t)"
    using split_path_append [of "f @ ''.delta.'' @ t" ?dir] assms(3,4)
    by (auto simp: delta_name_def backup_dir_def ts_ok_def)
  moreover have "map_of fs (delta_name d f kind t) \<noteq> Some Dir"
  proof
    assume dir: "map_of fs (delta_name d f kind t) = Some Dir"
    then have "delta_name d f kind t \<in> dir_set fs (backup_dir d f kind ''delta'')"
      using entry_delta_name [OF assms(3,4)] by (auto simp: dir_set_def)
    then show False using assms(5) unfolding ds by auto
  qed
  ultimately show ?thesis by (simp add: can_write_def dir_ok_def)
qed

text \<open>A new version: its delta is written, and the history grows.\<close>

lemma hist_snoc:
  assumes "hist_ok h" and "h \<noteq> []" and "ts_ok t" and "fst (last h) < t"
  shows "hist_ok (h @ [(t, c)])" and "u \<in> set (map fst h) \<Longrightarrow> u < t"
    and "u \<in> set (map fst h) \<Longrightarrow> map_of (h @ [(t, c)]) u = map_of h u"
proof -
  have lt: "u < t" if u: "u \<in> set (map fst h)" for u
  proof -
    obtain i where i: "i < length h" "fst (h ! i) = u" using u by (auto simp: in_set_conv_nth)
    have "u \<le> fst (last h)"
    proof (cases "Suc i = length h")
      case True
      then have "length h - 1 = i" by simp
      with i assms(2) show ?thesis by (simp add: last_conv_nth)
    next
      case False
      with i hist_sorted [OF assms(1), of i "length h - 1"] assms(2) show ?thesis
        by (simp add: last_conv_nth less_imp_le)
    qed
    with assms(4) show ?thesis by simp
  qed
  then show "u \<in> set (map fst h) \<Longrightarrow> u < t" .
  show "hist_ok (h @ [(t, c)])" using assms(1,3) lt by (auto simp: hist_ok_def sorted_wrt_append)
  show "map_of (h @ [(t, c)]) u = map_of h u" if u: "u \<in> set (map fst h)"
  proof -
    have "map_of h u \<noteq> None" using u by (simp add: map_of_eq_None_iff)
    moreover have "u \<noteq> t" using lt [OF u] by simp
    ultimately show ?thesis by (simp add: map_add_def split: option.split)
  qed
qed

lemma incr_store_add_delta:
  assumes ok: "fs_ok fs" and store: "incr_store fs d f h fts dts" and f: "CHR ''/'' \<notin> set f"
    and t: "ts_ok t" "fst (last h) < t" and h: "h \<noteq> []"
    and rep: "reproduces (snd (last h)) delta c"
  shows "incr_store (write_path fs (delta_name d f ''incremental'' t) delta) d f (h @ [(t, c)]) fts (dts @ [t])"
    (is "incr_store ?fs _ _ ?h _ ?dts")
proof -
  let ?p = "delta_name d f ''incremental'' t"
  note st = incr_storeD [OF store]
  note hs = hist_snoc [OF st(2) h t]
  have dts: "u \<in> set (map fst h) \<and> u < t" if "u \<in> set dts" for u
    using that st(5) hs(2) by auto
  have hd: "hd fts \<in> set (map fst h)"
    using st(3) st(4) [of "hd fts"] by (simp add: map_of_eq_None_iff)
  have w: "can_write fs ?p"
    by (rule can_write_delta_name [OF ok st(1) f t(1)]) (use dts in blast)
  have e: "entry_name (backup_dir d f ''incremental'' ''delta'') ?p = Some (f @ ''.delta.'' @ t)"
    "entry_name (backup_dir d f ''incremental'' ''full'') ?p = None"
    using entry_delta_name [OF f t(1)] entry_delta_full by simp_all
  show ?thesis
    unfolding incr_store_def
  proof (intro conjI ballI allI impI)
    have "sorted_wrt (<) (dts @ [t])"
      using store_names(4) [OF st(1)] dts by (simp add: sorted_wrt_append)
    then show "store_lists ?fs d f ''incremental'' fts ?dts"
      using st(1) e unfolding store_lists_iff [OF ok] store_lists_iff [OF fs_ok_ops(1) [OF ok]]
      by (simp add: opendir_write [OF w] dir_set_write [OF w])
    show "hist_ok ?h" by (rule hs(1))
    show "fts \<noteq> []" by (rule st(3))
    show "set ?dts = {u \<in> set (map fst ?h). hd fts < u}"
      using st(5) hs(2) [OF hd] by auto
  next
    fix u assume u: "u \<in> set fts"
    then have "u \<in> set (map fst h)" using st(4) [OF u] by (simp add: map_of_eq_None_iff)
    with u st(4) [OF u] hs(3) [of u] show "map_of ?h u \<noteq> None"
      "file_content ?fs (full_name d f ''incremental'' u) = map_of ?h u"
      by (simp_all add: file_content_write [OF w])
  next
    fix i assume i: "Suc i < length ?h" "fst (?h ! Suc i) \<in> set ?dts"
    show "\<exists>delta'. file_content ?fs (delta_name d f ''incremental'' (fst (?h ! Suc i))) = Some delta'
        \<and> reproduces (snd (?h ! i)) delta' (snd (?h ! Suc i))"
    proof (cases "Suc i = length h")
      case True
      moreover have "h ! i = last h" using True h by (metis diff_Suc_1 last_conv_nth)
      ultimately show ?thesis using rep by (simp add: nth_append file_content_write [OF w])
    next
      case False
      then have l: "Suc i < length h" using i(1) by simp
      then have "fst (h ! Suc i) \<noteq> t" using hs(2) [of "fst (h ! Suc i)"] by fastforce
      then show ?thesis
        using i(2) l st(6) [OF l] by (simp add: nth_append file_content_write [OF w])
    qed
  qed
qed

subsection \<open>What the retention leaves alone\<close>

lemma map_of_remove_other: "q \<noteq> p \<Longrightarrow> map_of (remove_path fs p) q = map_of fs q"
  by (auto simp: remove_path_def delete_conv' split: option.splits node.splits)

lemma map_of_write_other: "q \<noteq> p \<Longrightarrow> map_of (write_path fs p c) q = map_of fs q"
  by (simp add: write_path_def update_conv')

lemma drop_deltas_other:
  "drop_deltas fs ts ds i = (j, fs') \<Longrightarrow> q \<notin> set ds \<Longrightarrow> map_of fs' q = map_of fs q \<and> (fs_ok fs \<longrightarrow> fs_ok fs')"
  by (induction fs ts ds i rule: drop_deltas.induct)
    (auto simp: map_of_remove_other fs_ok_ops split: if_splits)

lemma drop_oldest_full_other:
  assumes "drop_oldest_full num fs fulls deltas = Inr (j, i, fs')"
    and "q \<notin> set (files_of fulls)" and "q \<notin> set deltas"
  shows "map_of fs' q = map_of fs q \<and> (fs_ok fs \<longrightarrow> fs_ok fs')"
proof -
  have "p = q \<longrightarrow> False" if "file_path (files_of fulls) k = Some p" for k p
    using that assms(2) by (auto simp: file_path_def split: if_splits)
  then show ?thesis
    using assms drop_deltas_other [of _ _ deltas 0 _ _ q]
    by (fastforce simp: drop_oldest_full_def Let_def map_of_remove_other fs_ok_ops
        split: if_splits option.splits prod.splits)
qed

lemma map_sum_Inr: "map_sum id g x = Inr y \<longleftrightarrow> (\<exists>z. x = Inr z \<and> y = g z)"
  by (cases x) auto

lemma update_incre_other:
  assumes "update_incre_full_backup s fs full delta = Inr (r, fs')"
    and "\<And>p. updated_full_path full delta = Some p \<Longrightarrow> q \<noteq> p"
  shows "map_of fs' q = map_of fs q \<and> (fs_ok fs \<longrightarrow> fs_ok fs')"
  using assms
  by (auto simp: update_incre_full_backup_def Let_def map_of_write_other fs_ok_ops map_sum_Inr
      split: option.splits if_splits)

lemma updated_full_path_dir:
  assumes "entry_name d full = Some n" and "d = d' @ ''/''" and "updated_full_path full delta = Some p"
  shows "\<exists>x. p = d @ x"
proof -
  have "CHR ''/'' \<notin> set n" "full = d' @ CHR ''/'' # n"
    using assms(1,2) entry_name_Some [OF assms(1)] by (auto simp: entry_name_def Let_def split: if_splits)
  then have "split_path full = (d', n)" by (simp add: split_path_append)
  with assms show ?thesis by (auto simp: updated_full_path_def Let_def split: option.splits)
qed

lemma read_sort_dir_entries:
  assumes "read_sort_dir_files fs d = Some l" and "p \<in> set l"
  shows "\<exists>n. entry_name d p = Some n"
proof -
  have "set l = dir_set fs d"
    using assms(1) set_dir_paths [of d fs] by (auto simp: read_sort_dir_files_def split: if_splits)
  with assms(2) show ?thesis by (auto simp: dir_set_def)
qed

text \<open>Every path the retention removes or writes lies below its directory.\<close>

lemma manage_backup_version_other:
  assumes run: "manage_backup_version s backup_type num fs p = Inr (r, fs')" and q: "\<And>x. q \<noteq> p @ x"
  shows "map_of fs' q = map_of fs q \<and> (fs_ok fs \<longrightarrow> fs_ok fs')"
proof -
  define fulls where "fulls = read_sort_dir_files fs (p @ ''full/'')"
  define deltas where "deltas = read_sort_dir_files fs (p @ ''delta/'')"
  have ent: "\<exists>n. entry_name (p @ ''full/'') x = Some n" if "x \<in> set (files_of fulls)" for x
    using that read_sort_dir_entries [of fs "p @ ''full/''"]
    by (cases fulls) (simp_all add: fulls_def [symmetric] files_of_def)
  have ent': "\<exists>n. entry_name (p @ ''delta/'') x = Some n" if "x \<in> set (files_of deltas)" for x
    using that read_sort_dir_entries [of fs "p @ ''delta/''"]
    by (cases deltas) (simp_all add: deltas_def [symmetric] files_of_def)
  have qf: "q \<notin> set (files_of fulls)" "q \<notin> set (files_of deltas)"
    using ent [of q] ent' [of q] q entry_name_Some by (metis append_assoc)+
  have fp: "x \<noteq> q" if "file_path (files_of deltas) k = Some x \<or> file_path (files_of fulls) k = Some x" for k x
    using that qf by (auto simp: file_path_def split: if_splits)
  have up: "q \<noteq> x" if pre: "file_path (files_of fulls) k = Some full" "updated_full_path full delta = Some x"
    for k full delta x
  proof -
    obtain n where "entry_name (p @ ''full/'') full = Some n"
      using pre(1) ent [of full] by (fastforce simp: file_path_def split: if_splits)
    from updated_full_path_dir [OF this _ pre(2), of "p @ ''full''"] q show ?thesis by (metis append_assoc append_Cons append_Nil)
  qed
  have remove: "map_of (remove_path g x) q = map_of fs q \<and> (fs_ok fs \<longrightarrow> fs_ok (remove_path g x))"
    if "map_of g q = map_of fs q \<and> (fs_ok fs \<longrightarrow> fs_ok g)" "x \<noteq> q" for g x
    using that by (simp add: map_of_remove_other fs_ok_ops not_sym)
  note old = drop_oldest_full_other [OF _ qf, of num fs]
  consider "fs' = fs"
    | (diff) j i g where "drop_oldest_full num fs fulls (files_of deltas) = Inr (j, i, g)"
        "fs' = g \<or> (\<exists>d. file_path (files_of deltas) i = Some d \<and> fs' = remove_path g d)"
    | (incr) j i g full d g' r where "drop_oldest_full num fs fulls (files_of deltas) = Inr (j, i, g)"
        "file_path (files_of fulls) j = Some full" "file_path (files_of deltas) i = Some d"
        "update_incre_full_backup s g full d = Inr (r, g')" "fs' = remove_path (remove_path g' d) full"
    using run unfolding manage_backup_version_def Let_def fulls_def [symmetric] deltas_def [symmetric]
    by (simp split: if_splits sum.splits prod.splits option.splits; blast)
  then show ?thesis
  proof cases
    case diff
    from old [OF diff(1)] diff(2) remove fp show ?thesis by blast
  next
    case incr
    have "map_of g' q = map_of g q \<and> (fs_ok g \<longrightarrow> fs_ok g')"
      using incr(4) up [OF incr(2)] by (rule update_incre_other)
    with old [OF incr(1)] have "map_of g' q = map_of fs q \<and> (fs_ok fs \<longrightarrow> fs_ok g')" by simp
    then show ?thesis
      unfolding incr(5) using fp incr(2,3) by (intro remove) blast+
  qed simp
qed

subsection \<open>The directories of a store exist\<close>

definition parent_dirs :: "string \<Rightarrow> string list" where
  "parent_dirs p = map (\<lambda>i. take i p) (filter (\<lambda>i. p ! i = CHR ''/'') [1..<length p])"

definition dir_exists :: "fs \<Rightarrow> string \<Rightarrow> bool" where
  "dir_exists fs q \<longleftrightarrow> dir_ok fs q \<or> map_of fs q \<noteq> None"

lemma mkdir_loop_exists: "\<forall>q\<in>set ps. dir_exists fs q \<Longrightarrow> mkdir_loop fs ps = (0, fs)"
  by (induction ps) (auto simp: mkdir1_def dir_exists_def)

lemma parent_dirs_append:
  assumes "CHR ''/'' \<notin> set x" and "p \<noteq> []"
  shows "parent_dirs (p @ x) = parent_dirs p"
proof -
  have "filter (\<lambda>i. (p @ x) ! i = CHR ''/'') [length p..<length p + length x] = []"
    using assms(1) by (auto simp: filter_empty_conv nth_append in_set_conv_nth)
  moreover have "filter (\<lambda>i. (p @ x) ! i = CHR ''/'') [1..<length p] = filter (\<lambda>i. p ! i = CHR ''/'') [1..<length p]"
    by (rule filter_cong) (auto simp: nth_append)
  moreover have "[1..<length (p @ x)] = [1..<length p] @ [length p..<length p + length x]"
    using assms(2) upt_add_eq_append [of 1 "length p" "length x"] by (cases p) auto
  ultimately show ?thesis
    by (auto simp: parent_dirs_def simp del: upt_Suc)
qed

lemma parent_dirs_outside: "q \<in> set (parent_dirs p) \<Longrightarrow> q \<noteq> p @ x"
  by (auto simp: parent_dirs_def dest: arg_cong [of _ _ length])

lemma mkdir_backup_dir:
  assumes "\<forall>q\<in>set (parent_dirs (manage_path d f kind)). dir_exists fs q"
    and "opendir_ok fs (backup_dir d f kind sub)" and "CHR ''/'' \<notin> set sub"
  shows "mkdir_recursive fs (backup_dir d f kind sub) = (0, fs)"
proof -
  have b: "backup_dir d f kind sub = (manage_path d f kind @ sub) @ ''/''"
    by (simp add: backup_dir_def manage_path_def)
  have "map_of fs (manage_path d f kind @ sub) = Some Dir"
    using assms(2) by (simp add: b opendir_ok_def butlast_append del: append_assoc)
  then have "dir_exists fs (manage_path d f kind @ sub)" by (simp add: dir_exists_def)
  moreover have "parent_dirs (manage_path d f kind @ sub) = parent_dirs (manage_path d f kind)"
    by (rule parent_dirs_append [OF assms(3)]) (simp add: manage_path_def)
  ultimately have "mkdir_loop fs (parent_dirs (manage_path d f kind @ sub) @ [manage_path d f kind @ sub]) = (0, fs)"
    using assms(1) by (intro mkdir_loop_exists) auto
  then show ?thesis
    by (simp add: mkdir_recursive_def Let_def b parent_dirs_def butlast_append del: append_assoc upt_Suc)
qed

lemma dir_exists_write: "can_write fs p \<Longrightarrow> dir_exists fs q \<Longrightarrow> dir_exists (write_path fs p c) q"
  by (auto simp: dir_exists_def dir_ok_def map_of_write can_write_def)

lemma can_write_write_other: "can_write fs p \<Longrightarrow> can_write fs q \<Longrightarrow> can_write (write_path fs p c) q"
  by (auto simp: can_write_def dir_ok_def map_of_write)

subsection \<open>One incremental backup\<close>

text \<open>
  The state between two backups of a file: the store holds a history whose last version is the
  file itself. What is neither the file nor in its store is beside it.
\<close>

definition beside :: "string \<Rightarrow> string \<Rightarrow> string \<Rightarrow> bool" where
  "beside kind fname q \<longleftrightarrow> q \<noteq> fname
     \<and> (let (d, f) = split_path fname in \<forall>x. q \<noteq> manage_path d f kind @ x)"

definition backup_state :: "fs \<Rightarrow> string \<Rightarrow> history \<Rightarrow> string list \<Rightarrow> string list \<Rightarrow> bool" where
  "backup_state fs fname h fts dts \<longleftrightarrow>
     (let (d, f) = split_path fname
      in fs_ok fs \<and> incr_store fs d f h fts dts \<and> h \<noteq> [] \<and> can_write fs fname
         \<and> file_content fs fname = Some (snd (last h))
         \<and> can_write fs (recovery_file d f ''recovery'') \<and> can_write fs (recovery_file d f ''recovery.tmp'')
         \<and> (\<forall>q\<in>set (parent_dirs (manage_path d f ''incremental'')). dir_exists fs q))"

lemma prepare_backup_store:
  assumes "fs_ok fs" and lists: "store_lists fs d f kind fts dts" and "fts \<noteq> []"
    and sp: "split_path fname = (d, f)" and kind: "kind = backup_kind backup_type"
    and par: "\<forall>q\<in>set (parent_dirs (manage_path d f kind)). dir_exists fs q"
  shows "prepare_backup fs fname backup_type = (fs, False)"
proof -
  let ?dir = "backup_dir d f kind ''full''" and ?pre = "f @ ''.full.''"
  have l: "opendir_ok fs ?dir" "opendir_ok fs (backup_dir d f kind ''delta'')"
    "dir_set fs ?dir = full_name d f kind ` set fts"
    using lists unfolding store_lists_iff [OF assms(1)] by auto
  have "full_name d f kind (hd fts) \<in> dir_set fs ?dir" using l(3) assms(3) by simp
  then obtain n where n: "n \<in> set (dir_names fs ?dir)" "full_name d f kind (hd fts) = ?dir @ n"
    unfolding set_dir_paths [symmetric] by auto
  then have "take (length ?pre) n = ?pre" by (auto simp: full_name_def)
  with n have "list_ex (\<lambda>n. take (length ?pre) n = ?pre) (dir_names fs ?dir)"
    by (auto simp: list_ex_iff)
  then show ?thesis
    using mkdir_backup_dir [OF par l(1)] mkdir_backup_dir [OF par l(2)] l(1)
    by (simp add: prepare_backup_def sp kind [symmetric])
qed

text \<open>
  A backup that is not the first one: the delta and the file are written, then the retention
  runs. What it does to the store is left to the two kinds of stores.
\<close>

lemma later_backup:
  assumes ok: "fs_ok fs" and lists: "store_lists fs d f kind fts dts" and "fts \<noteq> []"
    and sp: "split_path fname = (d, f)" and kind: "kind = backup_kind backup_type"
    and par: "\<forall>q\<in>set (parent_dirs (manage_path d f kind)). dir_exists fs q"
    and wh: "\<not> x_whole_file cfg" and t: "ts_ok t" "t \<notin> set dts" and w: "can_write fs fname"
    and cur: "file_content fs fname = Some cur"
    and rx: "receive_data (cfg\<lparr>x_fd := True, x_delta := True\<rparr>) w digest (Some cur) (int (length cur)) total_size [] input
      = Inr (\<lparr>x_ret = 1, x_target = c, x_delta_file = D\<rparr>, rest)"
    and fs2: "fs2 = write_path (write_path fs (delta_name d f kind t) D) fname c"
    and man: "manage_backup_version w backup_type num fs2 (manage_path d f kind) = Inr (0, fs')"
  shows "recv_backup_file w cfg digest num backup_type fs fname t total_size input = Inr (fs', rest)"
    and "fs_ok fs'" and "can_write fs' fname" and "file_content fs' fname = Some c"
    and "\<And>e. e = ''recovery'' \<or> e = ''recovery.tmp'' \<Longrightarrow> can_write fs (recovery_file d f e) \<Longrightarrow> can_write fs' (recovery_file d f e)"
    and "\<forall>q\<in>set (parent_dirs (manage_path d f kind)). dir_exists fs' q"
    and "\<And>q. beside kind fname q \<Longrightarrow> map_of fs' q = map_of fs q"
proof -
  have slash: "CHR ''/'' \<notin> set f" using sp by (cases rule: split_path_cases) auto
  let ?dn = "delta_name d f kind t" and ?mp = "manage_path d f kind"
  have wd: "can_write fs ?dn" by (rule can_write_delta_name [OF ok lists slash t])
  have w1: "can_write (write_path fs ?dn D) fname" using wd w by (rule can_write_write_other)
  have ok2: "fs_ok fs2" using ok by (simp add: fs_ok_ops fs2)
  have prep: "prepare_backup fs fname backup_type = (fs, False)"
    by (rule prepare_backup_store [OF ok lists assms(3) sp kind par])
  have dir: "dir_ok fs d" "map_of fs fname \<noteq> Some Dir" using w sp by (simp_all add: can_write_def)
  then show "recv_backup_file w cfg digest num backup_type fs fname t total_size input = Inr (fs', rest)"
    using rx man wh by (simp add: recv_backup_file_def sp prep cur kind [symmetric] fs2)
  note out = fname_outside_store [OF sp, of kind]
  have other: "map_of fs' q = map_of fs2 q \<and> (fs_ok fs2 \<longrightarrow> fs_ok fs')" if "\<And>x. q \<noteq> ?mp @ x" for q
    using manage_backup_version_other [OF man] that by blast
  then have same: "map_of fs' q = map_of fs2 q" if "\<And>x. q \<noteq> ?mp @ x" for q using that by blast
  show "fs_ok fs'" using other [of fname] out(2) ok2 by auto
  have fn: "map_of fs' fname = map_of fs2 fname" by (rule same) (rule out(2))
  have dd: "map_of fs' d = map_of fs2 d"
    by (rule same) (auto simp: manage_path_def dest: arg_cong [of _ _ length])
  have keep: "can_write fs2 p" if "can_write fs p" for p
    using can_write_write_other [OF w1 can_write_write_other [OF wd that]] by (simp add: fs2)
  show "can_write fs' fname" using keep [OF w] fn dd sp by (simp add: can_write_def dir_ok_def)
  show "file_content fs' fname = Some c" using fn w1 by (simp add: file_content_def map_of_write fs2)
  show "can_write fs' (recovery_file d f e)" if e: "e = ''recovery'' \<or> e = ''recovery.tmp''" "can_write fs (recovery_file d f e)" for e
  proof -
    let ?dir = "d @ ''/'' @ f @ ''.backup''"
    have rs: "split_path (recovery_file d f e) = (?dir, f @ ''.'' @ e)"
      using split_path_append [of "f @ ''.'' @ e" ?dir] slash e(1) by (auto simp: recovery_file_def)
    have "f @ ''.'' @ e \<noteq> kind @ CHR ''/'' # x" for x
      using slash e(1) by (auto dest: arg_cong [of _ _ "\<lambda>l. CHR ''/'' \<in> set l"])
    then have "recovery_file d f e \<noteq> ?mp @ x" for x by (simp add: recovery_file_def manage_path_def)
    then have "map_of fs' (recovery_file d f e) = map_of fs2 (recovery_file d f e)" by (rule same)
    moreover have "map_of fs' ?dir = map_of fs2 ?dir"
      by (rule same) (auto simp: manage_path_def dest: arg_cong [of _ _ length])
    ultimately show ?thesis using keep [OF e(2)] by (simp add: can_write_def dir_ok_def rs)
  qed
  show "\<forall>q\<in>set (parent_dirs ?mp). dir_exists fs' q"
  proof
    fix q assume q: "q \<in> set (parent_dirs ?mp)"
    have "dir_exists fs2 q" using par q wd w1 by (simp add: dir_exists_write fs2)
    then show "dir_exists fs' q" using same [of q] parent_dirs_outside [OF q] by (simp add: dir_exists_def dir_ok_def)
  qed
  show "map_of fs' q = map_of fs q" if q: "beside kind fname q" for q
  proof -
    have o: "q \<noteq> fname" "\<And>x. q \<noteq> ?mp @ x" using q sp by (auto simp: beside_def)
    have "?dn = ?mp @ ''delta/'' @ f @ ''.delta.'' @ t"
      by (simp add: delta_name_def backup_dir_def manage_path_def)
    then have "q \<noteq> ?dn" using o(2) by metis
    with o show ?thesis using same by (simp add: map_of_write_other fs2)
  qed
qed

theorem backup_step:
  assumes st: "backup_state fs fname h fts dts" and os: "os_ok w" and "1 \<le> num"
    and wh: "\<not> x_whole_file cfg" and dot: "CHR ''.'' \<notin> set (snd (split_path fname))"
    and t: "ts_ok t" "fst (last h) < t"
    and rx: "receive_data (cfg\<lparr>x_fd := True, x_delta := True\<rparr>) w digest (Some (snd (last h)))
        (int (length (snd (last h)))) total_size [] input
      = Inr (\<lparr>x_ret = 1, x_target = c, x_delta_file = D\<rparr>, rest)"
    and rep: "reproduces (snd (last h)) D c"
    and r: "retain_incr num fts (dts @ [t]) = (fts', dts')"
  shows "\<exists>fs'. recv_backup_file w cfg digest num 0 fs fname t total_size input = Inr (fs', rest)
    \<and> backup_state fs' fname (h @ [(t, c)]) fts' dts' \<and> (\<forall>q. beside ''incremental'' fname q \<longrightarrow> map_of fs' q = map_of fs q)"
proof -
  obtain d f where sp: "split_path fname = (d, f)" by fastforce
  let ?inc = "''incremental''"
  have ok: "fs_ok fs" and store: "incr_store fs d f h fts dts" and h: "h \<noteq> []" and w: "can_write fs fname"
    and cur: "file_content fs fname = Some (snd (last h))"
    and par: "\<forall>q\<in>set (parent_dirs (manage_path d f ?inc)). dir_exists fs q"
    and rec: "can_write fs (recovery_file d f ''recovery'')" "can_write fs (recovery_file d f ''recovery.tmp'')"
    using st sp by (auto simp: backup_state_def)
  note parts = incr_storeD [OF store]
  have slash: "CHR ''/'' \<notin> set f" using sp by (cases rule: split_path_cases) auto
  let ?dn = "delta_name d f ?inc t"
  let ?fs1 = "write_path fs ?dn D" and ?fs2 = "write_path (write_path fs ?dn D) fname c"
  have new: "t \<notin> set dts" using parts(5) hist_snoc(2) [OF parts(2) h t] by auto
  have wd: "can_write fs ?dn" by (rule can_write_delta_name [OF ok parts(1) slash t(1) new])
  have s1: "incr_store ?fs1 d f (h @ [(t, c)]) fts (dts @ [t])"
    by (rule incr_store_add_delta [OF ok store slash t h rep])
  have w2: "can_write ?fs1 fname" using wd w by (rule can_write_write_other)
  have ok1: "fs_ok ?fs1" and ok2: "fs_ok ?fs2" using ok by (simp_all add: fs_ok_ops)
  note out = fname_outside_store [OF sp, of ?inc]
  have s2: "incr_store ?fs2 d f (h @ [(t, c)]) fts (dts @ [t])"
    using incr_store_write_other [OF ok1 w2 s1] out by blast
  obtain fs' where man: "manage_backup_version w 0 num ?fs2 (manage_path d f ?inc) = Inr (0, fs')"
    and s3: "incr_store fs' d f (h @ [(t, c)]) fts' dts'"
    using manage_incremental_correct [OF os ok2 s2 assms(3) _ slash r] dot sp by auto
  have k: "?inc = backup_kind 0" by (simp add: backup_kind_def)
  note step = later_backup [OF ok parts(1,3) sp k par wh t(1) new w cur rx refl man]
  have "backup_state fs' fname (h @ [(t, c)]) fts' dts'"
    using step(2-6) s3 rec by (simp add: backup_state_def sp)
  with step(1,7) show ?thesis by blast
qed

subsection \<open>A series of backups, and recovery\<close>

text \<open>
  Runs of the backup code on one file. Each step is a transfer whose delta file reproduces the
  new version from the old one, which \<open>backup_transfer\<close> shows for the streams of the sender.
\<close>

inductive backup_runs :: "os \<Rightarrow> rx_cfg \<Rightarrow> (byte list \<Rightarrow> byte list) \<Rightarrow> int \<Rightarrow> string \<Rightarrow> fs \<Rightarrow> history
    \<Rightarrow> fs \<Rightarrow> history \<Rightarrow> bool"
  for w cfg digest num fname fs h where
  start: "backup_runs w cfg digest num fname fs h fs h"
| step: "\<lbrakk>backup_runs w cfg digest num fname fs h fs1 h1; ts_ok t; fst (last h1) < t;
    receive_data (cfg\<lparr>x_fd := True, x_delta := True\<rparr>) w digest (Some (snd (last h1)))
        (int (length (snd (last h1)))) total_size [] input
      = Inr (\<lparr>x_ret = 1, x_target = c, x_delta_file = D\<rparr>, rest);
    reproduces (snd (last h1)) D c;
    recv_backup_file w cfg digest num 0 fs1 fname t total_size input = Inr (fs2, rest)\<rbrakk>
    \<Longrightarrow> backup_runs w cfg digest num fname fs h fs2 (h1 @ [(t, c)])"

lemma backup_runs_state:
  assumes "backup_runs w cfg digest num fname fs h fs' h'" and "backup_state fs fname h fts dts"
    and "os_ok w" and "1 \<le> num" and "\<not> x_whole_file cfg" and "CHR ''.'' \<notin> set (snd (split_path fname))"
  shows "\<exists>fts' dts'. backup_state fs' fname h' fts' dts'"
  using assms(1)
proof induction
  case start
  show ?case using assms(2) by blast
next
  case (step fs1 h1 t total_size input c D rest fs2)
  then obtain fts1 dts1 where st: "backup_state fs1 fname h1 fts1 dts1" by blast
  obtain fts2 dts2 where "retain_incr num fts1 (dts1 @ [t]) = (fts2, dts2)" by fastforce
  from backup_step [OF st assms(3-6) step.hyps(2-5) this] step.hyps(6)
  show ?case by auto
qed

theorem backups_then_recover:
  assumes runs: "backup_runs w cfg digest num fname fs h fs' h'" and "backup_state fs fname h fts dts"
    and "os_ok w" and "1 \<le> num" and "\<not> x_whole_file cfg"
    and sp: "split_path fname = (d, f)" and "CHR ''.'' \<notin> set f"
  shows "\<exists>F. \<forall>v p0. F \<le> v \<longrightarrow> no_nul v \<longrightarrow>
    (\<exists>p fs''. combine_incremental_files w fs' d f
        (read_sort_dir_files fs' (backup_dir d f ''incremental'' ''full''))
        (read_sort_dir_files fs' (backup_dir d f ''incremental'' ''delta'')) v p0 = Inr (0, p, fs'')
      \<and> file_content fs'' p = content_at h' v \<and> content_at h' v \<noteq> None) \<and> F \<le> fst (last h')"
proof -
  obtain fts' dts' where st: "backup_state fs' fname h' fts' dts'"
    using backup_runs_state [OF runs assms(2-5)] sp assms(7) by auto
  then have store: "incr_store fs' d f h' fts' dts'" and h: "h' \<noteq> []"
    and rec: "can_write fs' (recovery_file d f ''recovery'')" "can_write fs' (recovery_file d f ''recovery.tmp'')"
    using sp by (auto simp: backup_state_def)
  have slash: "CHR ''/'' \<notin> set f" using sp by (cases rule: split_path_cases) auto
  note parts = incr_storeD [OF store]
  have "hd fts' \<in> set (map fst h')" using parts(3) parts(4) [of "hd fts'"] by (simp add: map_of_eq_None_iff)
  then obtain i where i: "i < length h'" "fst (h' ! i) = hd fts'" by (auto simp: in_set_conv_nth)
  have "hd fts' \<le> fst (last h')"
    using hist_sorted [OF parts(2), of i "length h' - 1"] i h
    by (cases "i = length h' - 1") (auto simp: last_conv_nth less_imp_le)
  then show ?thesis
    using combine_incremental_correct [OF assms(3) store _ _ slash rec] by blast
qed

text \<open>
  From a first full backup on there is one full backup, and the deltas are those of the newest
  \<open>num\<close> versions.
\<close>

lemma one_full_window:
  assumes "retain_incr num [F] dts = (fts', dts')" and "1 \<le> num" and "int (length dts) \<le> num + 1"
  shows "\<exists>F'. fts' = [F']" and "length dts' = min (nat num) (length dts)"
proof -
  have d: "drop_old num [F] dts = ([F], dts)" using assms(2) by (simp add: drop_old_def)
  have "fts' = [F] \<and> dts' = dts \<and> int (length dts) \<le> num
      \<or> fts' = [hd dts] \<and> dts' = tl dts \<and> int (length dts) = num + 1"
    using assms(1,3) d by (auto simp: retain_incr_def insert_ts_def split: if_splits)
  then show "\<exists>F'. fts' = [F']" "length dts' = min (nat num) (length dts)"
    using assms(2) by (auto simp: min_def)
qed

lemma backup_runs_window:
  assumes "backup_runs w cfg digest num fname fs [(t0, c0)] fs' h'" and "backup_state fs fname [(t0, c0)] [t0] []"
    and "os_ok w" and "1 \<le> num" and "\<not> x_whole_file cfg" and "CHR ''.'' \<notin> set (snd (split_path fname))"
  shows "\<exists>F dts. backup_state fs' fname h' [F] dts \<and> length dts = min (nat num) (length h' - 1)"
  using assms(1)
proof induction
  case start
  show ?case using assms(2) by auto
next
  case (step fs1 h1 t total_size input c D rest fs2)
  then obtain F dts where st: "backup_state fs1 fname h1 [F] dts" "length dts = min (nat num) (length h1 - 1)"
    by blast
  have h1: "h1 \<noteq> []" using st(1) by (simp add: backup_state_def Let_def split: prod.splits)
  obtain fts2 dts2 where r: "retain_incr num [F] (dts @ [t]) = (fts2, dts2)" by fastforce
  have len: "int (length (dts @ [t])) \<le> num + 1" using st(2) assms(4) by simp
  from one_full_window [OF r assms(4) len] obtain F' where
    F': "fts2 = [F']" "length dts2 = min (nat num) (length (dts @ [t]))" by blast
  have "backup_state fs2 fname (h1 @ [(t, c)]) [F'] dts2"
    using backup_step [OF st(1) assms(3-6) step.hyps(2-5) r] step.hyps(6) F'(1) by auto
  moreover have "length dts2 = min (nat num) (length (h1 @ [(t, c)]) - 1)"
    using F'(2) st(2) h1 by (cases h1) (auto simp: min_def)
  ultimately show ?case by blast
qed

lemma window_start:
  assumes store: "incr_store fs d f h [F] dts" and "length dts \<le> length h - 1" and "h \<noteq> []"
  shows "F = fst (h ! (length h - 1 - length dts))"
proof -
  note parts = incr_storeD [OF store]
  have "F \<in> set (map fst h)" using parts(4) [of F] by (simp add: map_of_eq_None_iff)
  then obtain i where i: "i < length h" "fst (h ! i) = F" by (auto simp: in_set_conv_nth)
  have inj: "inj_on (\<lambda>j. fst (h ! j)) {..<length h}"
    using hist_sorted [OF parts(2)] by (auto intro!: inj_onI) (metis less_irrefl linorder_neqE_nat)
  have "set dts = (\<lambda>j. fst (h ! j)) ` {i<..<length h}"
  proof -
    have "F < fst (h ! j) \<longleftrightarrow> i < j" if "j < length h" for j
      using hist_sorted [OF parts(2), of i j] hist_sorted [OF parts(2), of j i] i that
      by (cases i j rule: linorder_cases) (auto dest: less_asym)
    moreover have "set (map fst h) = (\<lambda>j. fst (h ! j)) ` {..<length h}"
    proof -
      have "set h = (\<lambda>j. h ! j) ` {..<length h}" by (auto simp: set_conv_nth)
      then show ?thesis by (simp add: image_image)
    qed
    ultimately have "{u \<in> set (map fst h). F < u} = (\<lambda>j. fst (h ! j)) ` {i<..<length h}" by auto
    then show ?thesis using parts(5) by simp
  qed
  moreover have "distinct dts" using store_names(4) [OF parts(1)] by (simp add: strict_sorted_iff)
  moreover have "{i<..<length h} \<subseteq> {..<length h}" by auto
  ultimately have "length dts = card {i<..<length h}"
    using card_image [OF inj_on_subset [OF inj, of "{i<..<length h}"]] distinct_card [of dts] by auto
  with i show ?thesis by simp
qed

lemma content_at_nth:
  assumes "hist_ok h" and "i < length h"
  shows "content_at h (fst (h ! i)) = Some (snd (h ! i))"
proof -
  have "fst (h ! j) \<le> fst (h ! i) \<longleftrightarrow> j < Suc i" if "j < length h" for j
    using hist_sorted [OF assms(1), of i j] hist_sorted [OF assms(1), of j i] assms(2) that
    by (cases i j rule: linorder_cases) auto
  from content_at_index [OF this] assms(2) show ?thesis by simp
qed

theorem newest_versions_recoverable:
  assumes runs: "backup_runs w cfg digest num fname fs [(t0, c0)] fs' h'"
    and "backup_state fs fname [(t0, c0)] [t0] []" and "os_ok w" and "1 \<le> num" and "\<not> x_whole_file cfg"
    and sp: "split_path fname = (d, f)" and "CHR ''.'' \<notin> set f"
    and i: "i < length h'" "int (length h') \<le> int i + num + 1"
  shows "\<exists>p fs''. combine_incremental_files w fs' d f
        (read_sort_dir_files fs' (backup_dir d f ''incremental'' ''full''))
        (read_sort_dir_files fs' (backup_dir d f ''incremental'' ''delta'')) (fst (h' ! i)) p0 = Inr (0, p, fs'')
      \<and> file_content fs'' p = Some (snd (h' ! i))"
proof -
  obtain F dts where st: "backup_state fs' fname h' [F] dts" "length dts = min (nat num) (length h' - 1)"
    using backup_runs_window [OF runs assms(2-5)] sp assms(7) by auto
  then have store: "incr_store fs' d f h' [F] dts" and h: "h' \<noteq> []"
    and rec: "can_write fs' (recovery_file d f ''recovery'')" "can_write fs' (recovery_file d f ''recovery.tmp'')"
    using sp by (auto simp: backup_state_def)
  have slash: "CHR ''/'' \<notin> set f" using sp by (cases rule: split_path_cases) auto
  note parts = incr_storeD [OF store]
  have F: "F = fst (h' ! (length h' - 1 - length dts))"
    by (rule window_start [OF store _ h]) (use st(2) in simp)
  have "length h' - 1 - length dts \<le> i" using i st(2) by (auto simp: min_def)
  then have "hd [F] \<le> fst (h' ! i)"
    using hist_sorted [OF parts(2), of "length h' - 1 - length dts" i] i(1) F
    by (cases "length h' - 1 - length dts = i") (auto simp: less_imp_le)
  moreover have "no_nul (fst (h' ! i))"
    using hist_ts_ok [OF parts(2), of "fst (h' ! i)"] i(1) by (simp add: ts_ok_def)
  moreover have "content_at h' (fst (h' ! i)) = Some (snd (h' ! i))"
    using content_at_nth [OF parts(2) i(1)] .
  ultimately show ?thesis
    using combine_incremental_correct [OF assms(3) store _ _ slash rec, of "fst (h' ! i)" p0] by fastforce
qed

subsection \<open>The first backup\<close>

text \<open>
  No entry of the full directory has the prefix of the file: the transfer writes no delta, and
  the file is copied to the first full backup.
\<close>

lemma first_backup:
  assumes ok: "fs_ok fs" and sp: "split_path fname = (d, f)" and t: "ts_ok t" and "1 \<le> num"
    and kind: "kind = backup_kind backup_type"
    and mk: "mkdir_recursive fs (backup_dir d f kind ''full'') = (0, fs1)"
      "mkdir_recursive fs1 (backup_dir d f kind ''delta'') = (0, fs2)"
    and ok2: "fs_ok fs2" and dirs: "opendir_ok fs2 (backup_dir d f kind ''full'')"
      "opendir_ok fs2 (backup_dir d f kind ''delta'')"
      "dir_set fs2 (backup_dir d f kind ''full'') = {}"
      "dir_set fs2 (backup_dir d f kind ''delta'') = {}"
    and w: "can_write fs2 fname"
    and rx: "receive_data (cfg\<lparr>x_fd := True, x_delta := False\<rparr>) w digest (file_content fs2 fname)
        (case file_content fs2 fname of Some c \<Rightarrow> int (length c) | None \<Rightarrow> 0) total_size [] input
      = Inr (\<lparr>x_ret = 1, x_target = c, x_delta_file = D\<rparr>, rest)"
    and fs': "fs' = write_path (write_path fs2 fname c) (full_name d f kind t) c"
  shows "recv_backup_file w cfg digest num backup_type fs fname t total_size input = Inr (fs', rest)"
    and "fs_ok fs'" and "store_lists fs' d f kind [t] []" and "file_content fs' (full_name d f kind t) = Some c"
    and "file_content fs' fname = Some c" and "\<And>p. can_write fs2 p \<Longrightarrow> can_write fs' p"
    and "\<And>q. dir_exists fs2 q \<Longrightarrow> dir_exists fs' q"
    and "\<And>q. beside kind fname q \<Longrightarrow> map_of fs' q = map_of fs2 q"
proof -
  let ?fn = "full_name d f kind t" and ?fs3 = "write_path fs2 fname c"
  have slash: "CHR ''/'' \<notin> set f" using sp by (cases rule: split_path_cases) auto
  have names: "dir_names fs2 (backup_dir d f kind ''full'') = []"
    using dirs(3) set_dir_paths [of "backup_dir d f kind ''full''" fs2] by simp
  have prep: "prepare_backup fs fname backup_type = (fs2, True)"
    by (simp add: prepare_backup_def sp kind [symmetric] mk names)
  note out = fname_outside_store [OF sp, of kind]
  have wf3: "can_write ?fs3 ?fn"
  proof -
    let ?dir = "d @ ''/'' @ f @ ''.backup/'' @ kind @ ''/full''"
    have "map_of fs2 ?dir = Some Dir"
      using dirs(1) by (simp add: backup_dir_def opendir_ok_def butlast_append)
    moreover have "split_path ?fn = (?dir, f @ ''.full.'' @ t)"
      using split_path_append [of "f @ ''.full.'' @ t" ?dir] slash t
      by (auto simp: full_name_def backup_dir_def ts_ok_def)
    moreover have "map_of fs2 ?fn = None"
      using dirs(3) entry_full_name [OF slash t, of d kind] by (auto simp: dir_set_def)
    ultimately have "can_write fs2 ?fn" by (simp add: can_write_def dir_ok_def)
    with w show ?thesis by (rule can_write_write_other)
  qed
  show ok4: "fs_ok fs'" using ok2 by (simp add: fs_ok_ops fs')
  have e: "entry_name (backup_dir d f kind sub) fname = None" for sub using out(1) .
  show l: "store_lists fs' d f kind [t] []"
    unfolding store_lists_iff [OF ok4]
    using dirs w entry_full_name [OF slash t, of d kind]
    by (simp add: fs' opendir_write [OF wf3] opendir_write [OF w] dir_set_write [OF wf3]
        dir_set_write [OF w] e entry_full_delta)
  show "file_content fs' ?fn = Some c" by (simp add: fs' file_content_write [OF wf3])
  show "file_content fs' fname = Some c"
    using out(3) by (simp add: fs' file_content_write [OF wf3] file_content_write [OF w])
  have "manage_backup_version w backup_type num fs' (manage_path d f kind) = Inr (0, fs')"
    using l assms(4) by (simp add: manage_backup_version_def manage_path_dirs store_lists_def)
  moreover have "copy_full_backup ?fs3 fname ?fn = Inr fs'"
    using wf3 by (simp add: fs' copy_full_backup_def file_content_write [OF w])
  moreover have "map_of fs2 fname \<noteq> Some Dir" "dir_ok fs2 d"
    using w sp by (simp_all add: can_write_def)
  ultimately show "recv_backup_file w cfg digest num backup_type fs fname t total_size input = Inr (fs', rest)"
    using rx by (simp add: recv_backup_file_def sp prep kind [symmetric])
  show "can_write fs' p" if "can_write fs2 p" for p
    using can_write_write_other [OF wf3 can_write_write_other [OF w that]] by (simp add: fs')
  show "dir_exists fs' q" if "dir_exists fs2 q" for q
    using that by (simp add: fs' dir_exists_write [OF wf3] dir_exists_write [OF w])
  show "map_of fs' q = map_of fs2 q" if q: "beside kind fname q" for q
  proof -
    have "?fn = manage_path d f kind @ ''full/'' @ f @ ''.full.'' @ t"
      by (simp add: full_name_def backup_dir_def manage_path_def)
    then have "q \<noteq> ?fn" "q \<noteq> fname" using q sp by (auto simp: beside_def)
    then show ?thesis by (simp add: map_of_write_other fs')
  qed
qed

theorem first_backup_step:
  assumes ok: "fs_ok fs" and sp: "split_path fname = (d, f)" and t: "ts_ok t" and "1 \<le> num"
    and mk: "mkdir_recursive fs (backup_dir d f ''incremental'' ''full'') = (0, fs1)"
      "mkdir_recursive fs1 (backup_dir d f ''incremental'' ''delta'') = (0, fs2)"
    and ok2: "fs_ok fs2" and dirs: "opendir_ok fs2 (backup_dir d f ''incremental'' ''full'')"
      "opendir_ok fs2 (backup_dir d f ''incremental'' ''delta'')"
      "dir_set fs2 (backup_dir d f ''incremental'' ''full'') = {}"
      "dir_set fs2 (backup_dir d f ''incremental'' ''delta'') = {}"
    and par: "\<forall>q\<in>set (parent_dirs (manage_path d f ''incremental'')). dir_exists fs2 q"
    and w: "can_write fs2 fname" "can_write fs2 (recovery_file d f ''recovery'')"
      "can_write fs2 (recovery_file d f ''recovery.tmp'')"
    and rx: "receive_data (cfg\<lparr>x_fd := True, x_delta := False\<rparr>) w digest (file_content fs2 fname)
        (case file_content fs2 fname of Some c \<Rightarrow> int (length c) | None \<Rightarrow> 0) total_size [] input
      = Inr (\<lparr>x_ret = 1, x_target = c, x_delta_file = D\<rparr>, rest)"
  shows "\<exists>fs'. recv_backup_file w cfg digest num 0 fs fname t total_size input = Inr (fs', rest)
    \<and> backup_state fs' fname [(t, c)] [t] [] \<and> (\<forall>q. beside ''incremental'' fname q \<longrightarrow> map_of fs' q = map_of fs2 q)"
proof -
  have k: "''incremental'' = backup_kind 0" by (simp add: backup_kind_def)
  note step = first_backup [OF ok sp t assms(4) k mk ok2 dirs w(1) rx refl]
  have "incr_store (write_path (write_path fs2 fname c) (full_name d f ''incremental'' t) c) d f [(t, c)] [t] []"
    using step(3,4) t by (simp add: incr_store_def hist_ok_def)
  then show ?thesis using step w par by (simp add: backup_state_def sp)
qed

end
