(* ===== verification/Series.thy ===== *)
theory Series
  imports Backup
begin

text \<open>
  The three processes put together for one file of an incremental or differential backup: the
  generator sends the sums of its basis (generator.c), the sender answers with the tokens
  (sender.c), the receiver writes the file and the store. A series of such backups can be
  recovered: the path that \<open>send_files\<close> opens holds the version that was asked for.
\<close>

subsection \<open>The generator's part (recv_generator from prepare_to_open on)\<close>

text \<open>The file whose blocks are summed: in a differential backup the newest full backup.\<close>

definition gen_file :: "fs \<Rightarrow> string \<Rightarrow> int \<Rightarrow> byte list option" where
  "gen_file fs fname backup_type =
     (if backup_type = 1 then
        (case find_newest_full_backup fs fname of
           (r, Some p) \<Rightarrow> if r = 0 then file_content fs p else file_content fs fname
         | (r, None) \<Rightarrow> file_content fs fname)
      else file_content fs fname)"

text \<open>The length is that of \<open>fname\<close>, whichever file is opened.\<close>

definition generator_sums :: "rx_cfg \<Rightarrow> int \<Rightarrow> os \<Rightarrow> (byte list \<Rightarrow> byte list) \<Rightarrow> fs \<Rightarrow> string \<Rightarrow> int
    \<Rightarrow> exit_code + byte list" where
  "generator_sums cfg block_size w c2 fs fname backup_type =
     (let no_sums = Inr (write_sum_head (x_protocol cfg) None) in
      case file_content fs fname of
        None \<Rightarrow> no_sums
      | Some old \<Rightarrow>
          if x_whole_file cfg then no_sums
          else (case gen_file fs fname backup_type of
            None \<Rightarrow> no_sums
          | Some basis \<Rightarrow>
              if old = [] then no_sums
              else (case generate_and_send_sums (x_protocol cfg) (x_csum_length cfg) block_size
                      (x_append_mode cfg) w c2 basis (int (length old)) of
                Inl e \<Rightarrow> Inl e
              | Inr (r, out) \<Rightarrow> if r < 0 then no_sums else Inr out)))"

subsection \<open>The sender's part (send_files from receive_sums on)\<close>

definition sender_reply :: "rx_cfg \<Rightarrow> (byte list \<Rightarrow> byte list) \<Rightarrow> (byte list \<Rightarrow> byte list) \<Rightarrow> byte list \<Rightarrow> byte list
    \<Rightarrow> delta_error + byte list" where
  "sender_reply cfg c2 digest f input =
     (case receive_sums (x_protocol cfg) (x_csum_length cfg) (x_append_mode cfg) input of
        Inl e \<Rightarrow> Inl (Exit e)
      | Inr (s, _) \<Rightarrow>
          (case match_sums (x_whole_file cfg) False (x_append_mode cfg) c2 f s of
             None \<Rightarrow> Inl Undefined
           | Some (calls, data, started) \<Rightarrow>
               if started then
                 Inr (write_sum_head (x_protocol cfg) (Some (sum_head.truncate s))
                   @ concat (map (send_call f) calls) @ digest data)
               else Inl Undefined))"

definition backup_once :: "os \<Rightarrow> rx_cfg \<Rightarrow> int \<Rightarrow> (byte list \<Rightarrow> byte list) \<Rightarrow> (byte list \<Rightarrow> byte list) \<Rightarrow> int \<Rightarrow> int
    \<Rightarrow> fs \<Rightarrow> string \<Rightarrow> string \<Rightarrow> byte list \<Rightarrow> delta_error + fs" where
  "backup_once w cfg block_size c2 digest num backup_type fs fname version f =
     (case generator_sums cfg block_size w c2 fs fname backup_type of
        Inl e \<Rightarrow> Inl (Exit e)
      | Inr sums \<Rightarrow>
          (case sender_reply cfg c2 digest f sums of
             Inl e \<Rightarrow> Inl e
           | Inr reply \<Rightarrow>
               map_sum id fst (recv_backup_file w cfg digest num backup_type fs fname version
                 (int (length f)) reply)))"

fun backup_series :: "os \<Rightarrow> rx_cfg \<Rightarrow> int \<Rightarrow> (byte list \<Rightarrow> byte list) \<Rightarrow> (byte list \<Rightarrow> byte list) \<Rightarrow> int \<Rightarrow> int
    \<Rightarrow> fs \<Rightarrow> string \<Rightarrow> history \<Rightarrow> delta_error + fs" where
  "backup_series w cfg block_size c2 digest num backup_type fs fname [] = Inr fs"
| "backup_series w cfg block_size c2 digest num backup_type fs fname ((t, c) # vs) =
     (case backup_once w cfg block_size c2 digest num backup_type fs fname t c of
        Inl e \<Rightarrow> Inl e
      | Inr fs' \<Rightarrow> backup_series w cfg block_size c2 digest num backup_type fs' fname vs)"

subsection \<open>One transfer\<close>

text \<open>
  The settings of a delta transfer, and the condition on the two checksums: no block of the
  basis agrees with a different window of the new file.
\<close>

definition delta_cfg :: "rx_cfg \<Rightarrow> int \<Rightarrow> bool" where
  "delta_cfg cfg block_size \<longleftrightarrow> \<not> x_whole_file cfg \<and> x_append_mode cfg \<le> 0
     \<and> 0 \<le> block_size \<and> block_size \<le> max_blength (x_protocol cfg)
     \<and> 0 \<le> x_csum_length cfg \<and> x_csum_length cfg \<le> SUM_LENGTH"

definition safe_at :: "rx_cfg \<Rightarrow> int \<Rightarrow> (byte list \<Rightarrow> byte list) \<Rightarrow> int \<Rightarrow> byte list \<Rightarrow> byte list \<Rightarrow> bool" where
  "safe_at cfg block_size c2 len basis f \<longleftrightarrow>
     (\<forall>h. sum_sizes_sqroot (x_protocol cfg) (x_csum_length cfg) block_size len = Some h
        \<longrightarrow> no_collision c2 f basis h)"

definition delta_safe :: "rx_cfg \<Rightarrow> int \<Rightarrow> (byte list \<Rightarrow> byte list) \<Rightarrow> byte list \<Rightarrow> byte list \<Rightarrow> bool" where
  "delta_safe cfg block_size c2 basis f \<longleftrightarrow> safe_at cfg block_size c2 (int (length basis)) basis f"

text \<open>The head without sums.\<close>

definition empty_sums :: "rx_cfg \<Rightarrow> sum_struct" where
  "empty_sums cfg = sum_head.extend
     \<lparr>s_count = 0, s_blength = 0,
      s_s2length = (if x_protocol cfg < 27 then x_csum_length cfg else 0), s_remainder = 0\<rparr>
     \<lparr>s_flength = 0, s_sums = []\<rparr>"

lemma empty_sums_fields [simp]:
  "s_count (empty_sums cfg) = 0" "s_blength (empty_sums cfg) = 0" "s_remainder (empty_sums cfg) = 0"
  by (simp_all add: empty_sums_def sum_head.defs)

lemma receive_empty_sums:
  assumes "delta_cfg cfg bs"
  shows "receive_sums (x_protocol cfg) (x_csum_length cfg) am (write_sum_head (x_protocol cfg) None)
      = Inr (empty_sums cfg, []) \<or> 0 < am"
    and "sum_head_ok (x_protocol cfg) (x_csum_length cfg) (sum_head.truncate (empty_sums cfg))"
proof -
  let ?h = "\<lparr>s_count = 0, s_blength = 0,
    s_s2length = (if x_protocol cfg < 27 then x_csum_length cfg else 0), s_remainder = 0\<rparr>"
  have t: "sum_head.truncate (empty_sums cfg) = ?h" by (simp add: empty_sums_def sum_head.defs)
  have ok: "sum_head_ok (x_protocol cfg) (x_csum_length cfg) ?h"
    using assms by (simp add: sum_head_ok_def delta_cfg_def SUM_LENGTH_def MAX_DIGEST_LEN_def max_blength_def
        MAX_BLOCK_SIZE_def OLD_MAX_BLOCK_SIZE_def)
  then show "sum_head_ok (x_protocol cfg) (x_csum_length cfg) (sum_head.truncate (empty_sums cfg))"
    by (simp add: t)
  have "write_sum_head (x_protocol cfg) None = write_sum_head (x_protocol cfg) (Some ?h)"
    by (simp add: write_sum_head_def)
  with read_sum_head_write_sum_head [OF ok, of "[]"]
  have "read_sum_head (x_protocol cfg) (x_csum_length cfg) (write_sum_head (x_protocol cfg) None) = Inr (?h, [])"
    by simp
  moreover have "recv_sum_bufs ?h 0 0 = rreturn []" by (subst recv_sum_bufs.simps) simp
  ultimately show "receive_sums (x_protocol cfg) (x_csum_length cfg) am (write_sum_head (x_protocol cfg) None)
      = Inr (empty_sums cfg, []) \<or> 0 < am"
    by (simp add: receive_sums_def rbind_def empty_sums_def)
qed

lemma match_sums_append: "am \<le> 0 \<Longrightarrow> match_sums wh upd am c2 f s = match_sums wh upd 0 c2 f s"
  by (simp add: match_sums_def)

lemma sender_reply_match:
  assumes "delta_cfg cfg bs"
    and "receive_sums (x_protocol cfg) (x_csum_length cfg) (x_append_mode cfg) sums = Inr (s, r)"
    and "match_sums False False 0 c2 f s = Some (calls, f, True)"
  shows "sender_reply cfg c2 digest f sums
    = Inr (write_sum_head (x_protocol cfg) (Some (sum_head.truncate s)) @ concat (map (send_call f) calls) @ digest f)"
  using assms match_sums_append [of "x_append_mode cfg" False False c2 f s]
  by (simp add: sender_reply_def delta_cfg_def)

text \<open>
  What the sender gets: the sums of \<open>old\<close>, cut into blocks that fit the file the receiver
  will take as its basis.
\<close>

definition sums_fit :: "rx_cfg \<Rightarrow> (byte list \<Rightarrow> byte list) \<Rightarrow> byte list \<Rightarrow> byte list option \<Rightarrow> byte list
    \<Rightarrow> sum_struct \<Rightarrow> bool" where
  "sums_fit cfg c2 old basis f s \<longleftrightarrow>
     sum_head_ok (x_protocol cfg) (x_csum_length cfg) (sum_head.truncate s)
     \<and> (0 < s_count s \<longrightarrow> sums_ok s)
     \<and> (\<forall>n m. no_false_match c2 f s (block_content (rx_meta (sum_head.truncate s) n m) old))
     \<and> (s_count s \<le> 0 \<or> opt_bytes basis \<noteq> [])"

lemma empty_sums_fit: "delta_cfg cfg bs \<Longrightarrow> sums_fit cfg c2 old basis f (empty_sums cfg)"
  using receive_empty_sums(2) by (simp add: sums_fit_def no_false_match_def)

lemma generator_sums_fit:
  assumes "os_ok w" and cfg: "delta_cfg cfg bs" and c2: "\<And>x. 16 \<le> length (c2 x)"
    and b: "\<And>x y. file_content fs fname = Some x \<Longrightarrow> gen_file fs fname backup_type = Some y
      \<Longrightarrow> length x < 2 ^ 63 \<and> safe_at cfg bs c2 (int (length x)) y f"
  shows "\<exists>sums s. generator_sums cfg bs w c2 fs fname backup_type = Inr sums
    \<and> receive_sums (x_protocol cfg) (x_csum_length cfg) (x_append_mode cfg) sums = Inr (s, [])
    \<and> sums_fit cfg c2 (opt_bytes (gen_file fs fname backup_type)) (file_content fs fname) f s
    \<and> (\<forall>x y h. file_content fs fname = Some x \<and> gen_file fs fname backup_type = Some y \<and> x \<noteq> []
        \<and> sum_sizes_sqroot (x_protocol cfg) (x_csum_length cfg) bs (int (length x)) = Some h \<longrightarrow> s = sums_for c2 y h)"
proof -
  let ?pv = "x_protocol cfg" and ?cl = "x_csum_length cfg"
  let ?sums = "generator_sums cfg bs w c2 fs fname backup_type"
  have am: "x_append_mode cfg \<le> 0" "\<not> x_whole_file cfg" using cfg by (simp_all add: delta_cfg_def)
  have none: ?thesis if "?sums = Inr (write_sum_head ?pv None)"
      and "\<not> (\<exists>x y h. file_content fs fname = Some x \<and> gen_file fs fname backup_type = Some y \<and> x \<noteq> []
        \<and> sum_sizes_sqroot ?pv ?cl bs (int (length x)) = Some h)"
    using that receive_empty_sums(1) [OF cfg, of "x_append_mode cfg"] am empty_sums_fit [OF cfg] by auto
  show ?thesis
  proof (cases "file_content fs fname = None \<or> gen_file fs fname backup_type = None")
    case True
    then show ?thesis using am by (intro none) (auto simp: generator_sums_def Let_def split: option.split)
  next
    case False
    then obtain x y where Some: "file_content fs fname = Some x" "gen_file fs fname backup_type = Some y" by auto
    show ?thesis
    proof (cases "x = [] \<or> sum_sizes_sqroot ?pv ?cl bs (int (length x)) = None")
      case True
      then show ?thesis
        using Some am by (intro none) (auto simp: generator_sums_def generate_and_send_sums_def Let_def)
    next
      case False
      then obtain h where h: "sum_sizes_sqroot ?pv ?cl bs (int (length x)) = Some h" and ne: "x \<noteq> []"
        by blast
      have bounds: "0 \<le> bs" "bs \<le> max_blength ?pv" "0 \<le> ?cl" "?cl \<le> SUM_LENGTH"
        using cfg by (simp_all add: delta_cfg_def)
      have len: "length x < 2 ^ 63" and safe: "no_collision c2 f y h"
        using b [OF Some] h by (simp_all add: safe_at_def)
      have int_len: "int (length x) < 2 ^ 63" using len by simp
      have ok: "sum_head_ok ?pv ?cl h" "head_for (int (length x)) h"
        using sum_sizes_ok [OF h int_len bounds] by simp_all
      have mode: "generate_and_send_sums ?pv ?cl bs (x_append_mode cfg) w c2 y n
          = generate_and_send_sums ?pv ?cl bs 0 w c2 y n"
        "receive_sums ?pv ?cl (x_append_mode cfg) = receive_sums ?pv ?cl 0" for n
        using am by (simp_all add: generate_and_send_sums_def receive_sums_def split: option.split)
      obtain out where
        "generate_and_send_sums ?pv ?cl bs 0 w c2 y (int (length x)) = Inr (0, write_sum_head ?pv (Some h) @ out)"
        and rcv: "\<And>rest. receive_sums ?pv ?cl 0 (write_sum_head ?pv (Some h) @ out @ rest) = Inr (sums_for c2 y h, rest)"
        using receive_sums_at_length [where ?c2.0 = c2 and f = y, OF assms(1) h int_len bounds c2] by blast
      then have "?sums = Inr (write_sum_head ?pv (Some h) @ out)"
        using Some ne am mode(1) by (simp add: generator_sums_def)
      moreover have "s_count h < 2 ^ 31" using ok(1) by (simp add: sum_head_ok_def)
      then have "sums_ok (sums_for c2 y h)" by (rule sums_for_ok [OF ok(2)])
      then have "sums_fit cfg c2 y (Some x) f (sums_for c2 y h)"
        using ok(1) no_false_match_sums_for [OF ok(2) safe] ne by (simp add: sums_fit_def opt_bytes_def)
      ultimately show ?thesis using rcv [of "[]"] mode(2) Some h ne by (auto simp: opt_bytes_def)
    qed
  qed
qed

text \<open>
  The answer of the sender: with it the receiver, whose basis is \<open>basis\<close>, ends with the file
  \<open>target\<close>, and the delta file turns \<open>old\<close> into the new version.
\<close>

definition answers :: "rx_cfg \<Rightarrow> os \<Rightarrow> (byte list \<Rightarrow> byte list) \<Rightarrow> byte list \<Rightarrow> byte list option \<Rightarrow> byte list
    \<Rightarrow> byte list \<Rightarrow> byte list \<Rightarrow> bool" where
  "answers cfg w digest old basis f reply target \<longleftrightarrow>
     (\<forall>dl. \<exists>D. (\<forall>pre rest. receive_data (cfg\<lparr>x_fd := True, x_delta := dl\<rparr>) w digest basis
          (int (length (opt_bytes basis))) (int (length f)) pre (reply @ rest)
        = Inr (\<lparr>x_ret = 1, x_target = target, x_delta_file = D\<rparr>, rest))
      \<and> (dl \<longrightarrow> reproduces old D f))"

lemma answersD:
  assumes "answers cfg w digest old basis f reply target"
  obtains D where "receive_data (cfg\<lparr>x_fd := True, x_delta := dl\<rparr>) w digest basis
          (int (length (opt_bytes basis))) (int (length f)) [] reply
        = Inr (\<lparr>x_ret = 1, x_target = target, x_delta_file = D\<rparr>, [])" "dl \<longrightarrow> reproduces old D f"
  using assms unfolding answers_def by (metis append_Nil2)

lemma length_block_content: "length (block_content h b i) = nat (block_len h i)"
  by (simp add: block_content_def)

lemma length_rx_data_basis:
  "length (rx_data (block_content h b) ts) = length (rx_data (block_content h b') ts)"
proof (induction ts)
  case (Cons t ts)
  then show ?case by (cases t) (simp_all add: length_block_content)
qed simp

lemma file_transfer:
  assumes "os_ok w'" and cfg: "delta_cfg cfg bs" and fit: "sums_fit cfg c2 old basis f s"
    and rcv: "receive_sums (x_protocol cfg) (x_csum_length cfg) (x_append_mode cfg) sums = Inr (s, r)"
    and sizes: "length f < 2 ^ 63" "length (opt_bytes basis) < 2 ^ 63"
    and digest: "opt_bytes basis \<noteq> old \<longrightarrow> (\<forall>x y. length (digest x) = length (digest y))"
    and meta: "meta = rx_meta (sum_head.truncate s) (int (length f)) (int (length (opt_bytes basis)))"
  shows "\<exists>calls reply. match_sums False False 0 c2 f s = Some (calls, f, True)
    \<and> sender_reply cfg c2 digest f sums = Inr reply
    \<and> rx_data (block_content meta old) (events f calls) = f
    \<and> answers cfg w' digest old basis f reply (rx_data (block_content meta (opt_bytes basis)) (events f calls))"
proof -
  let ?pv = "x_protocol cfg" and ?n = "int (length (opt_bytes basis))"
  let ?target = "\<lambda>calls. rx_data (block_content meta (opt_bytes basis)) (events f calls)"
  have head: "sum_head_ok ?pv (x_csum_length cfg) (sum_head.truncate s)" "0 < s_count s \<longrightarrow> sums_ok s"
    and nfm: "no_false_match c2 f s (block_content meta old)"
    and b: "(basis \<noteq> None \<and> 0 < ?n) \<or> s_count s \<le> 0"
    using fit by (auto simp: sums_fit_def opt_bytes_def meta split: option.splits)
  have i64: "int64 (int (length f))" "int64 ?n" using sizes by (simp_all add: int64_def)
  define reply where "reply = (\<lambda>calls. write_sum_head ?pv (Some (sum_head.truncate s)) @ concat (map (send_call f) calls) @ digest f)"
  have run: "\<exists>calls D. match_sums False False 0 c2 f s = Some (calls, f, True)
      \<and> rx_data (block_content meta old) (events f calls) = f
      \<and> (\<forall>pre rest. receive_data (cfg\<lparr>x_fd := True, x_delta := dl\<rparr>) w' digest basis ?n (int (length f)) pre
          (reply calls @ rest) = Inr (\<lparr>x_ret = 1, x_target = ?target calls, x_delta_file = D\<rparr>, rest))
      \<and> (dl \<longrightarrow> reproduces old D f)" for dl
  proof -
    let ?c = "cfg\<lparr>x_fd := True, x_delta := dl\<rparr>"
    have c: "\<not> x_whole_file ?c" "x_append_mode ?c \<le> 0"
      "sum_head_ok (x_protocol ?c) (x_csum_length ?c) (sum_head.truncate s)"
      using cfg head(1) by (simp_all add: delta_cfg_def)
    note t = transfer_two_bases [OF assms(1) c head(2) meta nfm b i64 sizes(1)]
    obtain calls where calls: "match_sums False False 0 c2 f s = Some (calls, f, True)"
      and ts: "rx_data (block_content meta old) (events f calls) = f"
      and rx: "\<And>digest pre rest. length (digest f) = length (digest (?target calls)) \<Longrightarrow>
        receive_data ?c w' digest basis ?n (int (length f)) pre
          (write_sum_head (x_protocol ?c) (Some (sum_head.truncate s))
           @ concat (map (send_call f) calls) @ digest f @ rest)
        = Inr (\<lparr>x_ret = 1, x_target = (if x_fd ?c then ?target calls else []),
            x_delta_file = delta_file_of ?c meta (events f calls)\<rparr>, rest)"
      and rep: "x_delta ?c \<longrightarrow> reproduces old (delta_file_of ?c meta (events f calls)) f"
      using t by (elim exE conjE) (rule that, assumption, simp_all)
    have "length (digest f) = length (digest (?target calls))"
      using digest ts by (cases "opt_bytes basis = old") auto
    with rx [of digest] rep calls ts show ?thesis
      by (intro exI [of _ calls] exI [of _ "delta_file_of ?c meta (events f calls)"]) (simp add: reply_def)
  qed
  obtain calls where calls: "match_sums False False 0 c2 f s = Some (calls, f, True)"
    and ts: "rx_data (block_content meta old) (events f calls) = f" using run by blast
  have "answers cfg w' digest old basis f (reply calls) (?target calls)"
    unfolding answers_def
  proof
    fix dl
    from run [of dl] calls show "\<exists>D. (\<forall>pre rest. receive_data (cfg\<lparr>x_fd := True, x_delta := dl\<rparr>) w' digest basis ?n
        (int (length f)) pre (reply calls @ rest) = Inr (\<lparr>x_ret = 1, x_target = ?target calls, x_delta_file = D\<rparr>, rest))
      \<and> (dl \<longrightarrow> reproduces old D f)"
      by auto
  qed
  moreover have "sender_reply cfg c2 digest f sums = Inr (reply calls)"
    using sender_reply_match [OF cfg rcv calls, of digest] by (simp add: reply_def)
  ultimately show ?thesis using calls ts by blast
qed

subsection \<open>A file without backups\<close>

text \<open>Nothing has the name of the backup directory as a prefix, and the file's directory exists.\<close>

definition fresh :: "fs \<Rightarrow> string \<Rightarrow> bool" where
  "fresh fs fname \<longleftrightarrow>
     (let (d, f) = split_path fname
      in fs_ok fs \<and> can_write fs fname \<and> (\<forall>x. map_of fs (d @ ''/'' @ f @ ''.backup'' @ x) = None)
         \<and> (\<forall>q\<in>set (parent_dirs d). dir_exists fs q))"

lemma parent_dirs_snoc:
  assumes "CHR ''/'' \<notin> set x"
  shows "parent_dirs (p @ CHR ''/'' # x) = parent_dirs p @ (if p = [] then [] else [p])"
proof -
  let ?q = "p @ ''/''"
  have "parent_dirs (?q @ x) = parent_dirs ?q" by (rule parent_dirs_append [OF assms]) simp
  moreover have "parent_dirs ?q = parent_dirs p @ (if p = [] then [] else [p])"
  proof (cases "p = []")
    case False
    have "filter (\<lambda>i. ?q ! i = CHR ''/'') [1..<length p] = filter (\<lambda>i. p ! i = CHR ''/'') [1..<length p]"
      by (rule filter_cong) (auto simp: nth_append)
    moreover have "[1..<length ?q] = [1..<length p] @ [length p]" using False by (cases p) simp_all
    ultimately show ?thesis using False by (auto simp: parent_dirs_def simp del: upt_Suc)
  qed (simp add: parent_dirs_def)
  ultimately show ?thesis by simp
qed

lemma mkdir_loop_append:
  "\<forall>q\<in>set ps. dir_exists fs q \<Longrightarrow> mkdir_loop fs (ps @ qs) = mkdir_loop fs qs"
  by (induction ps) (auto simp: mkdir1_def dir_exists_def)

lemma mkdir1_new:
  assumes "map_of fs p = None" and "split_path p = (d, n)" and "dir_ok fs d" and "p \<noteq> ''''" and "p \<noteq> ''.''"
  shows "mkdir1 fs p = Some (AList.update p Dir fs)"
  using assms by (simp add: mkdir1_def dir_ok_def)

lemma mkdir_recursive_slash:
  "CHR ''/'' \<notin> set x \<Longrightarrow> mkdir_recursive fs (p @ ''/'' @ x @ ''/'')
    = mkdir_loop fs (parent_dirs p @ (if p = [] then [] else [p]) @ [p @ ''/'' @ x])"
  using parent_dirs_snoc [of x p]
  by (simp add: mkdir_recursive_def parent_dirs_def butlast_append Let_def del: upt_Suc)

lemma fresh_store:
  assumes fresh: "fresh fs fname" and sp: "split_path fname = (d, f)"
    and kind: "CHR ''/'' \<notin> set kind" "CHR ''.'' \<notin> set kind"
  obtains fs1 fs2 where
    "mkdir_recursive fs (backup_dir d f kind ''full'') = (0, fs1)"
    "mkdir_recursive fs1 (backup_dir d f kind ''delta'') = (0, fs2)"
    "fs_ok fs2" "opendir_ok fs2 (backup_dir d f kind ''full'')"
    "opendir_ok fs2 (backup_dir d f kind ''delta'')"
    "dir_set fs2 (backup_dir d f kind ''full'') = {}"
    "dir_set fs2 (backup_dir d f kind ''delta'') = {}"
    "\<forall>q\<in>set (parent_dirs (manage_path d f kind)). dir_exists fs2 q"
    "can_write fs2 fname" "can_write fs2 (recovery_file d f ''recovery'')"
    "can_write fs2 (recovery_file d f ''recovery.tmp'')"
    "file_content fs2 fname = file_content fs fname"
    "\<forall>other. other \<noteq> kind \<longrightarrow> CHR ''/'' \<notin> set other \<longrightarrow>
      map_of fs2 (d @ ''/'' @ f @ ''.backup/'' @ other @ ''/full'') = None"
proof
  define B I FU DE where dirs: "B = d @ ''/'' @ f @ ''.backup''" "I = B @ ''/'' @ kind"
    "FU = I @ ''/'' @ ''full''" "DE = I @ ''/'' @ ''delta''"
  let ?mk = "AList.update"
  define fs1 where "fs1 = ?mk FU Dir (?mk I Dir (?mk B Dir fs))"
  define fs2 where "fs2 = ?mk DE Dir fs1"
  have slash: "CHR ''/'' \<notin> set f" using sp by (cases rule: split_path_cases) auto
  have fs: "fs_ok fs" and cw: "can_write fs fname" and none: "map_of fs (B @ x) = None"
    and par: "\<forall>q\<in>set (parent_dirs d). dir_exists fs q" for x
    using fresh sp by (auto simp: fresh_def dirs)
  have free: "map_of fs B = None" "map_of fs I = None" "map_of fs FU = None" "map_of fs DE = None"
    using none [of "[]"] none [of "''/'' @ kind"] none [of "''/'' @ kind @ ''/full''"]
      none [of "''/'' @ kind @ ''/delta''"] by (simp_all add: dirs)
  have ne: "B \<noteq> I" "I \<noteq> B" "B \<noteq> FU" "FU \<noteq> B" "B \<noteq> DE" "DE \<noteq> B" "I \<noteq> FU" "FU \<noteq> I" "I \<noteq> DE" "DE \<noteq> I"
      "FU \<noteq> DE" "DE \<noteq> FU"
    by (simp_all add: dirs)
  have m1: "map_of fs1 = (map_of fs)(B \<mapsto> Dir, I \<mapsto> Dir, FU \<mapsto> Dir)"
    by (simp add: fs1_def update_conv')
  have m2: "map_of fs2 = (map_of fs)(B \<mapsto> Dir, I \<mapsto> Dir, FU \<mapsto> Dir, DE \<mapsto> Dir)"
    by (simp add: fs2_def m1 update_conv')
  have split: "split_path B = (d, f @ ''.backup'')" "split_path I = (B, kind)"
      "split_path FU = (I, ''full'')" "split_path DE = (I, ''delta'')"
    using slash split_path_append [of "f @ ''.backup''" d] split_path_append [of kind B] kind(1)
      split_path_append [of "''full''" I] split_path_append [of "''delta''" I] by (simp_all add: dirs)
  have d: "dir_ok fs d" using cw sp by (simp add: can_write_def)
  then have pd: "\<forall>q\<in>set (parent_dirs d @ (if d = [] then [] else [d])). dir_exists fs q"
    using par by (auto simp: dir_exists_def)
  have pB: "parent_dirs B = parent_dirs d @ (if d = [] then [] else [d])"
    using slash parent_dirs_snoc [of "f @ ''.backup''" d] by (simp add: dirs)
  have pI: "parent_dirs I = parent_dirs B @ [B]"
    using parent_dirs_snoc [of kind B] kind(1) by (simp add: dirs)
  have nB: "B \<noteq> ''''" "B \<noteq> ''.''" "I \<noteq> ''''" "I \<noteq> ''.''" "FU \<noteq> ''''" "FU \<noteq> ''.''" "DE \<noteq> ''''" "DE \<noteq> ''.''"
    by (auto simp: dirs dest: arg_cong [of _ _ length])
  have 1: "mkdir1 fs B = Some (?mk B Dir fs)"
    using mkdir1_new [OF free(1) split(1) d] nB by simp
  have 2: "mkdir1 (?mk B Dir fs) I = Some (?mk I Dir (?mk B Dir fs))"
    using mkdir1_new [OF _ split(2)] free ne nB by (simp add: update_conv' dir_ok_def)
  have 3: "mkdir1 (?mk I Dir (?mk B Dir fs)) FU = Some fs1"
    using mkdir1_new [OF _ split(3)] free ne nB by (simp add: update_conv' dir_ok_def fs1_def)
  have 4: "mkdir1 fs1 DE = Some fs2"
    using mkdir1_new [OF _ split(4)] free ne nB by (simp add: m1 dir_ok_def fs2_def)
  have bd: "backup_dir d f kind ''full'' = I @ ''/'' @ ''full'' @ ''/''"
      "backup_dir d f kind ''delta'' = I @ ''/'' @ ''delta'' @ ''/''"
    by (simp_all add: backup_dir_def dirs)
  have "I \<noteq> []" using nB by simp
  then have r1: "mkdir_recursive fs (backup_dir d f kind ''full'')
      = mkdir_loop fs ((parent_dirs d @ (if d = [] then [] else [d])) @ [B, I, FU])"
    unfolding bd using mkdir_recursive_slash [of "''full''" fs I] by (simp add: pI pB dirs(3))
  show "mkdir_recursive fs (backup_dir d f kind ''full'') = (0, fs1)"
    unfolding r1 mkdir_loop_append [OF pd] by (simp add: 1 2 3)
  have e1: "dir_exists fs1 q" if "dir_exists fs q" for q
    using that by (auto simp: dir_exists_def dir_ok_def m1)
  have new: "dir_exists fs1 B" "dir_exists fs1 I" by (simp_all add: dir_exists_def m1)
  have "\<forall>q\<in>set ((parent_dirs d @ (if d = [] then [] else [d])) @ [B, I]). dir_exists fs1 q"
    using pd e1 new by auto
  note app = mkdir_loop_append [OF this, of "[DE]"]
  have r2: "mkdir_recursive fs1 (backup_dir d f kind ''delta'')
      = mkdir_loop fs1 (((parent_dirs d @ (if d = [] then [] else [d])) @ [B, I]) @ [DE])"
    unfolding bd using mkdir_recursive_slash [of "''delta''" fs1 I] \<open>I \<noteq> []\<close> by (simp add: pI pB dirs(4))
  show "mkdir_recursive fs1 (backup_dir d f kind ''delta'') = (0, fs2)"
    unfolding r2 app by (simp add: 4)
  show "fs_ok fs2" using fs by (simp add: fs_ok_def fs2_def fs1_def distinct_update)
  show "opendir_ok fs2 (backup_dir d f kind ''full'')"
    "opendir_ok fs2 (backup_dir d f kind ''delta'')"
    using ne by (simp_all add: bd opendir_ok_def butlast_append m2 flip: dirs(3) [simplified] dirs(4) [simplified])
  have entry: "entry_name (I @ ''/'' @ sub @ ''/'') p = None" if "p \<in> dom (map_of fs2)" "CHR ''/'' \<notin> set sub" "sub \<noteq> []" for sub p
  proof (rule ccontr)
    assume "entry_name (I @ ''/'' @ sub @ ''/'') p \<noteq> None"
    then obtain n where p: "p = (I @ ''/'' @ sub @ ''/'') @ n"
      using entry_name_Some by blast
    then have "map_of fs p = None" using none [of "''/'' @ kind @ ''/'' @ sub @ ''/'' @ n"] by (simp add: dirs)
    with that(1) consider "p = B" | "p = I" | "p = FU" | "p = DE" by (auto simp: m2 split: if_splits)
    then show False
    proof cases
      case 3
      with p have "''full'' = sub @ CHR ''/'' # n" by (simp add: dirs(3))
      then show False by (auto dest: arg_cong [of _ _ "\<lambda>l. CHR ''/'' \<in> set l"])
    next
      case 4
      with p have "''delta'' = sub @ CHR ''/'' # n" by (simp add: dirs(4))
      then show False by (auto dest: arg_cong [of _ _ "\<lambda>l. CHR ''/'' \<in> set l"])
    qed (use p in \<open>auto simp: dirs dest: arg_cong [of _ _ length]\<close>)
  qed
  show "dir_set fs2 (backup_dir d f kind ''full'') = {}"
    "dir_set fs2 (backup_dir d f kind ''delta'') = {}"
    unfolding bd using entry [of _ "''full''"] entry [of _ "''delta''"] by (auto simp: dir_set_def)
  have mp: "manage_path d f kind = I @ CHR ''/'' # []" by (simp add: manage_path_def dirs)
  have "parent_dirs (manage_path d f kind) = parent_dirs I @ [I]"
    unfolding mp using parent_dirs_snoc [of "[]" I] \<open>I \<noteq> []\<close> by simp
  moreover have "dir_exists fs2 q" if "dir_exists fs q" for q
    using that by (auto simp: dir_exists_def dir_ok_def m2)
  moreover have "dir_exists fs2 B" "dir_exists fs2 I" by (simp_all add: dir_exists_def m2)
  ultimately show "\<forall>q\<in>set (parent_dirs (manage_path d f kind)). dir_exists fs2 q"
    using pd by (simp add: pI pB ball_Un split: if_splits)
  have nf: "fname \<noteq> B" "fname \<noteq> I" "fname \<noteq> FU" "fname \<noteq> DE"
    using sp by (cases rule: split_path_cases; auto simp: dirs dest: arg_cong [of _ _ length])+
  show "can_write fs2 fname" using cw nf sp by (auto simp: can_write_def dir_ok_def m2)
  show "file_content fs2 fname = file_content fs fname" using nf by (simp add: file_content_def m2)
  have rec: "can_write fs2 (recovery_file d f e)" if e: "CHR ''/'' \<notin> set e" "e \<noteq> []" for e
  proof -
    have r: "recovery_file d f e = B @ ''/'' @ f @ ''.'' @ e" by (simp add: recovery_file_def dirs)
    have "split_path (recovery_file d f e) = (B, f @ ''.'' @ e)"
      unfolding r using split_path_append [of "f @ ''.'' @ e" B] slash e(1) by simp
    moreover have "f @ ''.'' @ e \<noteq> kind"
      using kind(2) by auto
    then have "recovery_file d f e \<noteq> I" unfolding r by (simp add: dirs(2))
    moreover have "f @ ''.'' @ e \<noteq> kind @ CHR ''/'' # y" for y
      using slash e(1) by (auto dest: arg_cong [of _ _ "\<lambda>l. CHR ''/'' \<in> set l"])
    then have "recovery_file d f e \<noteq> FU" "recovery_file d f e \<noteq> DE" unfolding r by (simp_all add: dirs(2-4))
    moreover have "recovery_file d f e \<noteq> B" unfolding r by simp
    moreover have "map_of fs (recovery_file d f e) = None" using none [of "''/'' @ f @ ''.'' @ e"] by (simp add: r)
    ultimately show ?thesis using ne by (simp add: can_write_def dir_ok_def m2)
  qed
  show "can_write fs2 (recovery_file d f ''recovery'')" "can_write fs2 (recovery_file d f ''recovery.tmp'')"
    by (rule rec; simp)+
  have "map_of fs2 (d @ ''/'' @ f @ ''.backup/'' @ other @ ''/full'') = None" if o: "other \<noteq> kind" "CHR ''/'' \<notin> set other" for other
  proof -
    have p: "d @ ''/'' @ f @ ''.backup/'' @ other @ ''/full'' = B @ CHR ''/'' # other @ ''/full''" by (simp add: dirs(1))
    have "other @ ''/full'' \<noteq> kind" "other @ ''/full'' \<noteq> kind @ ''/delta''" "other @ ''/full'' \<noteq> kind @ ''/full''"
      using kind(1) o by (auto dest: arg_cong [of _ _ "\<lambda>l. CHR ''/'' \<in> set l"] simp: append_eq_append_conv)
    then have "B @ CHR ''/'' # other @ ''/full'' \<notin> {B, I, FU, DE}" by (simp add: dirs(2-4))
    then show ?thesis unfolding p using none [of "''/'' @ other @ ''/full''"] by (auto simp: m2)
  qed
  then show "\<forall>other. other \<noteq> kind \<longrightarrow> CHR ''/'' \<notin> set other \<longrightarrow>
      map_of fs2 (d @ ''/'' @ f @ ''.backup/'' @ other @ ''/full'') = None" by blast
qed

subsection \<open>A series of backups\<close>

fun deltas_safe :: "rx_cfg \<Rightarrow> int \<Rightarrow> (byte list \<Rightarrow> byte list) \<Rightarrow> byte list \<Rightarrow> history \<Rightarrow> bool" where
  "deltas_safe cfg block_size c2 prev [] = True"
| "deltas_safe cfg block_size c2 prev ((t, c) # vs) =
     (delta_safe cfg block_size c2 prev c \<and> deltas_safe cfg block_size c2 c vs)"

text \<open>One backup of a file: the three processes run through, whatever the state of the store.\<close>

lemma backup_once_transfer:
  assumes "os_ok w" and cfg: "delta_cfg cfg bs" and c2: "\<And>x. 16 \<le> length (c2 x)" and f: "length f < 2 ^ 63"
    and b: "\<forall>x. file_content fs fname = Some x \<longrightarrow> length x < 2 ^ 63"
    and safe: "\<forall>x y. file_content fs fname = Some x \<longrightarrow> gen_file fs fname backup_type = Some y
      \<longrightarrow> safe_at cfg bs c2 (int (length x)) y f"
    and basis: "basis = file_content fs fname" and old: "old = opt_bytes (gen_file fs fname backup_type)"
    and digest: "opt_bytes basis \<noteq> old \<longrightarrow> (\<forall>x y. length (digest x) = length (digest y))"
  shows "\<exists>reply target. backup_once w cfg bs c2 digest num backup_type fs fname t f
        = map_sum id fst (recv_backup_file w cfg digest num backup_type fs fname t (int (length f)) reply)
    \<and> length target = length f \<and> (opt_bytes basis = old \<longrightarrow> target = f)
    \<and> answers cfg w digest old basis f reply target
    \<and> (\<forall>h calls. sum_sizes_sqroot (x_protocol cfg) (x_csum_length cfg) bs (int (length (opt_bytes basis))) = Some h
        \<longrightarrow> opt_bytes basis \<noteq> [] \<longrightarrow> gen_file fs fname backup_type = Some old
        \<longrightarrow> match_sums False False 0 c2 f (sums_for c2 old h) = Some (calls, f, True)
        \<longrightarrow> target = rx_data (block_content (rx_meta h (int (length f)) (int (length (opt_bytes basis)))) (opt_bytes basis))
            (events f calls))"
proof -
  have bs: "\<And>x y. file_content fs fname = Some x \<Longrightarrow> gen_file fs fname backup_type = Some y
      \<Longrightarrow> length x < 2 ^ 63 \<and> safe_at cfg bs c2 (int (length x)) y f"
    using b safe by blast
  obtain sums s where sums: "generator_sums cfg bs w c2 fs fname backup_type = Inr sums"
    "receive_sums (x_protocol cfg) (x_csum_length cfg) (x_append_mode cfg) sums = Inr (s, [])"
    "sums_fit cfg c2 old basis f s"
    and s: "\<And>h. opt_bytes basis \<noteq> [] \<Longrightarrow> gen_file fs fname backup_type = Some old
        \<Longrightarrow> sum_sizes_sqroot (x_protocol cfg) (x_csum_length cfg) bs (int (length (opt_bytes basis))) = Some h
        \<Longrightarrow> s = sums_for c2 old h"
    using generator_sums_fit [OF assms(1) cfg c2 bs] unfolding basis old opt_bytes_def
    by (fastforce split: option.splits)
  have "length (opt_bytes basis) < 2 ^ 63" using b by (simp add: basis opt_bytes_def split: option.split)
  from file_transfer [OF assms(1) cfg sums(3,2) f this digest refl] obtain reply calls where
    calls: "match_sums False False 0 c2 f s = Some (calls, f, True)" and "sender_reply cfg c2 digest f sums = Inr reply"
    and ts: "rx_data (block_content (rx_meta (sum_head.truncate s) (int (length f)) (int (length (opt_bytes basis)))) old)
        (events f calls) = f"
    and ans: "answers cfg w digest old basis f reply (rx_data (block_content (rx_meta (sum_head.truncate s) (int (length f))
        (int (length (opt_bytes basis)))) (opt_bytes basis)) (events f calls))" (is "answers _ _ _ _ _ _ _ ?target")
    by blast
  then have once: "backup_once w cfg bs c2 digest num backup_type fs fname t f
        = map_sum id fst (recv_backup_file w cfg digest num backup_type fs fname t (int (length f)) reply)"
    using sums(1) by (simp add: backup_once_def)
  have "length ?target = length f" "opt_bytes basis = old \<longrightarrow> ?target = f"
    using ts length_rx_data_basis by metis+
  moreover have "?target = rx_data (block_content (rx_meta h (int (length f)) (int (length (opt_bytes basis)))) (opt_bytes basis))
      (events f cs)"
    if "sum_sizes_sqroot (x_protocol cfg) (x_csum_length cfg) bs (int (length (opt_bytes basis))) = Some h"
      "opt_bytes basis \<noteq> []" "gen_file fs fname backup_type = Some old"
      "match_sums False False 0 c2 f (sums_for c2 old h) = Some (cs, f, True)" for h cs
    using s [OF that(2,3,1)] that(4) calls by simp
  ultimately show ?thesis using ans once by blast
qed

text \<open>In an incremental backup both ends use the file itself.\<close>

lemma backup_once_incremental:
  assumes "os_ok w" and cfg: "delta_cfg cfg bs" and c2: "\<And>x. 16 \<le> length (c2 x)" and f: "length f < 2 ^ 63"
    and b: "\<And>x. file_content fs fname = Some x \<Longrightarrow> length x < 2 ^ 63 \<and> delta_safe cfg bs c2 x f"
    and basis: "basis = file_content fs fname"
  shows "\<exists>reply. backup_once w cfg bs c2 digest num 0 fs fname t f
        = map_sum id fst (recv_backup_file w cfg digest num 0 fs fname t (int (length f)) reply)
    \<and> answers cfg w digest (opt_bytes basis) basis f reply f"
proof -
  have g: "gen_file fs fname 0 = basis" by (simp add: gen_file_def basis)
  have safe: "\<forall>x y. file_content fs fname = Some x \<longrightarrow> gen_file fs fname 0 = Some y \<longrightarrow> safe_at cfg bs c2 (int (length x)) y f"
    using b g basis by (simp add: delta_safe_def)
  have len: "\<forall>x. file_content fs fname = Some x \<longrightarrow> length x < 2 ^ 63" using b by blast
  have same: "opt_bytes basis = opt_bytes (gen_file fs fname 0)" by (simp add: g)
  then have digest: "opt_bytes basis \<noteq> opt_bytes (gen_file fs fname 0) \<longrightarrow> (\<forall>x y. length (digest x) = length (digest y))"
    by simp
  from backup_once_transfer [OF assms(1) cfg c2 f len safe basis refl digest, of num t] same
  show ?thesis by auto
qed

lemma series_runs:
  assumes "backup_runs w cfg digest num fname fs0 h0 fs h" and "backup_state fs fname h fts dts"
    and "os_ok w" and "1 \<le> num" and cfg: "delta_cfg cfg bs" and c2: "\<And>x. 16 \<le> length (c2 x)"
    and dot: "CHR ''.'' \<notin> set (snd (split_path fname))"
    and "hist_ok (h @ vs)" and "deltas_safe cfg bs c2 (snd (last h)) vs"
    and "\<forall>c\<in>set (map snd (h @ vs)). length c < 2 ^ 63"
  shows "\<exists>fs'. backup_series w cfg bs c2 digest num 0 fs fname vs = Inr fs'
    \<and> backup_runs w cfg digest num fname fs0 h0 fs' (h @ vs)
    \<and> (\<exists>fts' dts'. backup_state fs' fname (h @ vs) fts' dts')
    \<and> (\<forall>q. beside ''incremental'' fname q \<longrightarrow> map_of fs' q = map_of fs q)"
  using assms(1,2,8-10)
proof (induction vs arbitrary: fs h fts dts)
  case Nil
  then show ?case by auto
next
  case (Cons v vs)
  obtain t c where v: "v = (t, c)" by fastforce
  have st: "backup_state fs fname h fts dts" by (rule Cons.prems(2))
  then have h: "h \<noteq> []" and cur: "file_content fs fname = Some (snd (last h))"
    by (auto simp: backup_state_def Let_def split: prod.splits)
  have t: "ts_ok t" "fst (last h) < t"
    using Cons.prems(3) h by (auto simp: v hist_ok_def sorted_wrt_append)
  have lens: "length c < 2 ^ 63" "length (snd (last h)) < 2 ^ 63"
    using Cons.prems(5) h by (auto simp: v)
  have safe: "delta_safe cfg bs c2 (snd (last h)) c" "deltas_safe cfg bs c2 c vs"
    using Cons.prems(4) by (simp_all add: v)
  have b: "\<And>x. file_content fs fname = Some x \<Longrightarrow> length x < 2 ^ 63 \<and> delta_safe cfg bs c2 x c"
    using cur lens(2) safe(1) by simp
  obtain reply where once: "backup_once w cfg bs c2 digest num 0 fs fname t c
        = map_sum id fst (recv_backup_file w cfg digest num 0 fs fname t (int (length c)) reply)"
    and rx: "answers cfg w digest (snd (last h)) (Some (snd (last h))) c reply c"
    using backup_once_incremental [OF assms(3) cfg c2 lens(1) b cur [symmetric], of digest num t]
    unfolding opt_bytes_def option.case by blast
  obtain D where D: "receive_data (cfg\<lparr>x_fd := True, x_delta := True\<rparr>) w digest (Some (snd (last h)))
          (int (length (snd (last h)))) (int (length c)) [] reply
        = Inr (\<lparr>x_ret = 1, x_target = c, x_delta_file = D\<rparr>, [])" "reproduces (snd (last h)) D c"
    by (rule answersD [OF rx, where dl = True, simplified opt_bytes_def option.case]) blast
  have wh: "\<not> x_whole_file cfg" using cfg by (simp add: delta_cfg_def)
  obtain fts1 dts1 where r: "retain_incr num fts (dts @ [t]) = (fts1, dts1)" by fastforce
  obtain fs1 where fs1: "recv_backup_file w cfg digest num 0 fs fname t (int (length c)) reply = Inr (fs1, [])"
    "backup_state fs1 fname (h @ [(t, c)]) fts1 dts1" "\<And>q. beside ''incremental'' fname q \<Longrightarrow> map_of fs1 q = map_of fs q"
    using backup_step [OF st assms(3,4) wh dot t D r] by blast
  have runs: "backup_runs w cfg digest num fname fs0 h0 fs1 (h @ [(t, c)])"
    by (rule backup_runs.step [OF Cons.prems(1) t D fs1(1)])
  from Cons.IH [OF runs fs1(2)] Cons.prems(3,5) safe(2) obtain fs' where
    "backup_series w cfg bs c2 digest num 0 fs1 fname vs = Inr fs'"
    "backup_runs w cfg digest num fname fs0 h0 fs' (h @ (t, c) # vs)"
    "\<exists>fts' dts'. backup_state fs' fname (h @ (t, c) # vs) fts' dts'"
    "\<And>q. beside ''incremental'' fname q \<Longrightarrow> map_of fs' q = map_of fs1 q"
    by (auto simp: v)
  with once fs1(1,3) show ?case by (auto simp: v)
qed

subsection \<open>Recovery\<close>

text \<open>Without a differential directory the incremental store is the one that is read.\<close>

lemma recovery_source_incremental:
  assumes "file_content fs fname \<noteq> None" and sp: "split_path fname = (d, f)" and "CHR ''.'' \<notin> set f"
    and "map_of fs (d @ ''/'' @ f @ ''.backup/differential/full'') = None"
    and "files_of (read_sort_dir_files fs (backup_dir d f ''incremental'' ''full'')) \<noteq> []"
  shows "recovery_source w fs fname v = map_sum id snd (combine_incremental_files w fs d f
    (read_sort_dir_files fs (backup_dir d f ''incremental'' ''full''))
    (read_sort_dir_files fs (backup_dir d f ''incremental'' ''delta'')) v [])"
proof -
  have "fname \<noteq> ''.''" "fname \<noteq> ''..''" using sp assms(3) by (auto simp: split_path_def)
  moreover have "read_sort_dir_files fs (backup_dir d f ''differential'' ''full'') = None"
    using assms(4) by (simp add: read_sort_dir_files_def opendir_ok_def backup_dir_def butlast_append)
  ultimately show ?thesis
    using assms(1,5) sp
    by (simp add: recovery_source_def decide_recovery_type_def read_backup_lists_def choose_type_def files_of_def)
qed

theorem series_recoverable:
  assumes "fresh fs fname" and "os_ok w" and "1 \<le> num" and cfg: "delta_cfg cfg bs"
    and c2: "\<And>x. 16 \<le> length (c2 x)" and dot: "CHR ''.'' \<notin> set (snd (split_path fname))"
    and h: "hist_ok h" "h \<noteq> []" and lens: "\<forall>c\<in>set (map snd h). length c < 2 ^ 63"
    and old: "\<And>x. file_content fs fname = Some x \<Longrightarrow> length x < 2 ^ 63 \<and> delta_safe cfg bs c2 x (snd (hd h))"
    and safe: "deltas_safe cfg bs c2 (snd (hd h)) (tl h)"
  shows "\<exists>fs'. backup_series w cfg bs c2 digest num 0 fs fname h = Inr fs'
    \<and> file_content fs' fname = Some (snd (last h))
    \<and> (\<forall>i. i < length h \<longrightarrow> int (length h) \<le> int i + num + 1 \<longrightarrow>
        (\<exists>p fs''. recovery_source w fs' fname (fst (h ! i)) = Inr (p, fs'')
           \<and> file_content fs'' p = Some (snd (h ! i))))"
proof -
  obtain d f where sp: "split_path fname = (d, f)" by fastforce
  obtain t c vs where hh: "h = (t, c) # vs" using h(2) by (cases h) auto
  let ?diff = "d @ ''/'' @ f @ ''.backup/differential/full''"
  have kind: "CHR ''/'' \<notin> set ''incremental''" "CHR ''.'' \<notin> set ''incremental''" by simp_all
  obtain fs1 fs2 where fresh: "mkdir_recursive fs (backup_dir d f ''incremental'' ''full'') = (0, fs1)"
    "mkdir_recursive fs1 (backup_dir d f ''incremental'' ''delta'') = (0, fs2)"
    "fs_ok fs2" "opendir_ok fs2 (backup_dir d f ''incremental'' ''full'')"
    "opendir_ok fs2 (backup_dir d f ''incremental'' ''delta'')"
    "dir_set fs2 (backup_dir d f ''incremental'' ''full'') = {}"
    "dir_set fs2 (backup_dir d f ''incremental'' ''delta'') = {}"
    "\<forall>q\<in>set (parent_dirs (manage_path d f ''incremental'')). dir_exists fs2 q"
    "can_write fs2 fname" "can_write fs2 (recovery_file d f ''recovery'')"
    "can_write fs2 (recovery_file d f ''recovery.tmp'')"
    "file_content fs2 fname = file_content fs fname" and other: "\<forall>other. other \<noteq> ''incremental'' \<longrightarrow> CHR ''/'' \<notin> set other \<longrightarrow>
      map_of fs2 (d @ ''/'' @ f @ ''.backup/'' @ other @ ''/full'') = None"
    by (rule fresh_store [OF assms(1) sp kind])
  have none: "map_of fs2 ?diff = None" using other [rule_format, of "''differential''"] by simp
  have lc: "length c < 2 ^ 63" using lens by (simp add: hh)
  have oldc: "\<And>x. file_content fs fname = Some x \<Longrightarrow> length x < 2 ^ 63 \<and> delta_safe cfg bs c2 x c"
    using old by (simp add: hh)
  obtain reply where once: "backup_once w cfg bs c2 digest num 0 fs fname t c
        = map_sum id fst (recv_backup_file w cfg digest num 0 fs fname t (int (length c)) reply)"
    and rx: "answers cfg w digest (opt_bytes (file_content fs fname)) (file_content fs fname) c reply c"
    using backup_once_incremental [where fs = fs and fname = fname and digest = digest and num = num and t = t,
        OF assms(2) cfg c2 lc oldc refl] by blast
  have len: "int (length (opt_bytes b)) = (case b of Some c \<Rightarrow> int (length c) | None \<Rightarrow> 0)" for b
    by (simp add: opt_bytes_def split: option.split)
  obtain D where D: "receive_data (cfg\<lparr>x_fd := True, x_delta := False\<rparr>) w digest (file_content fs2 fname)
        (case file_content fs2 fname of Some c \<Rightarrow> int (length c) | None \<Rightarrow> 0) (int (length c)) [] reply
      = Inr (\<lparr>x_ret = 1, x_target = c, x_delta_file = D\<rparr>, [])"
    unfolding fresh(12) len [symmetric] by (rule answersD [OF rx, where dl = False])
  have t: "ts_ok t" using h(1) by (simp add: hh hist_ok_def)
  have "fs_ok fs" using assms(1) sp by (simp add: fresh_def)
  from first_backup_step [OF this sp t assms(3) fresh(1-11) D] obtain fs3 where
    fs3: "recv_backup_file w cfg digest num 0 fs fname t (int (length c)) reply = Inr (fs3, [])"
    "backup_state fs3 fname [(t, c)] [t] []" "\<And>q. beside ''incremental'' fname q \<Longrightarrow> map_of fs3 q = map_of fs2 q"
    by blast
  have "hist_ok ([(t, c)] @ vs)" "deltas_safe cfg bs c2 (snd (last [(t, c)])) vs"
    "\<forall>c\<in>set (map snd ([(t, c)] @ vs)). length c < 2 ^ 63"
    using h(1) safe lens by (simp_all add: hh)
  from series_runs [where digest = digest, OF backup_runs.start fs3(2) assms(2,3) cfg c2 dot this] obtain fs' fts dts where
    fs': "backup_series w cfg bs c2 digest num 0 fs3 fname vs = Inr fs'"
    "backup_runs w cfg digest num fname fs3 [(t, c)] fs' h"
    "backup_state fs' fname h fts dts" "\<And>q. beside ''incremental'' fname q \<Longrightarrow> map_of fs' q = map_of fs3 q"
    unfolding hh append_Cons append_Nil by blast
  have run: "backup_series w cfg bs c2 digest num 0 fs fname h = Inr fs'"
    using once fs3(1) fs'(1) by (simp add: hh)
  have store: "incr_store fs' d f h fts dts" and cur: "file_content fs' fname = Some (snd (last h))"
    using fs'(3) sp by (simp_all add: backup_state_def)
  have slash: "CHR ''/'' \<notin> set f" using sp by (cases rule: split_path_cases) auto
  have "?diff \<noteq> fname"
    using sp by (cases rule: split_path_cases) (auto dest: arg_cong [of _ _ length])
  moreover have "?diff \<noteq> manage_path d f ''incremental'' @ x" for x by (simp add: manage_path_def)
  ultimately have "beside ''incremental'' fname ?diff" by (simp add: beside_def sp)
  then have diff: "map_of fs' ?diff = None" using fs3(3) fs'(4) none by simp
  have fulls: "files_of (read_sort_dir_files fs' (backup_dir d f ''incremental'' ''full'')) \<noteq> []"
    using incr_storeD(1,3) [OF store] by (simp add: store_lists_def files_of_def)
  have dotf: "CHR ''.'' \<notin> set f" using dot sp by simp
  have wh: "\<not> x_whole_file cfg" using cfg by (simp add: delta_cfg_def)
  have "\<exists>p fs''. recovery_source w fs' fname (fst (h ! i)) = Inr (p, fs'') \<and> file_content fs'' p = Some (snd (h ! i))"
    if i: "i < length h" "int (length h) \<le> int i + num + 1" for i
    using newest_versions_recoverable [OF fs'(2) fs3(2) assms(2,3) wh sp dotf i, of "[]"]
      recovery_source_incremental [OF _ sp dotf diff fulls, of w "fst (h ! i)"] cur by auto
  with run cur show ?thesis by blast
qed

end
