(* ===== verification/DiffSeries.thy ===== *)
theory DiffSeries
  imports Series
begin

text \<open>
  Series of differential backups. The generator sums the newest full backup, so a delta stands
  for its version whatever the file holds, and the newest versions can be recovered. The
  receiver takes the matched blocks from the file itself: the file becomes the new version only
  when it agrees with the full backup in these blocks.
\<close>

subsection \<open>The store grows\<close>

lemma diff_storeD:
  assumes "diff_store fs d f h fts dts"
  shows "store_lists fs d f ''differential'' fts dts" and "hist_ok h" and "fts \<noteq> []"
    and "t \<in> set fts \<Longrightarrow> map_of h t \<noteq> None \<and> file_content fs (full_name d f ''differential'' t) = map_of h t"
    and "t \<in> set dts \<Longrightarrow> ts_ok t \<and> (\<exists>delta c c' F.
          file_content fs (delta_name d f ''differential'' t) = Some delta \<and> map_of h t = Some c
          \<and> F \<in> set fts \<and> F < t \<and> (\<forall>G\<in>set fts. G < t \<longrightarrow> G \<le> F)
          \<and> map_of h F = Some c' \<and> reproduces c' delta c)"
  using assms unfolding diff_store_def by blast+

lemma diff_store_dts: "diff_store fs d f h fts dts \<Longrightarrow> t \<in> set dts \<Longrightarrow> t \<in> set (map fst h)"
  using diff_storeD(5) [of fs d f h fts dts t] by (metis map_of_eq_None_iff option.distinct(1) list.set_map)

lemma diff_store_write_other:
  assumes "fs_ok fs" and w: "can_write fs p" and store: "diff_store fs d f h fts dts"
    and "\<And>sub. entry_name (backup_dir d f ''differential'' sub) p = None"
    and "\<And>t. p \<noteq> full_name d f ''differential'' t" "\<And>t. p \<noteq> delta_name d f ''differential'' t"
  shows "diff_store (write_path fs p c) d f h fts dts"
proof -
  have "store_lists (write_path fs p c) d f ''differential'' fts dts"
    using diff_storeD(1) [OF store] assms(4)
    unfolding store_lists_iff [OF assms(1)] store_lists_iff [OF fs_ok_ops(1) [OF assms(1)]]
    by (simp add: opendir_write [OF w] dir_set_write [OF w])
  then show ?thesis
    using store assms(5,6) unfolding diff_store_def
    by (simp add: file_content_write [OF w] not_sym [OF assms(5)] not_sym [OF assms(6)])
qed

lemma diff_store_add_delta:
  assumes ok: "fs_ok fs" and store: "diff_store fs d f h [F] dts" and f: "CHR ''/'' \<notin> set f"
    and t: "ts_ok t" "fst (last h) < t" and h: "h \<noteq> []"
    and F: "map_of h F = Some c'" and rep: "reproduces c' delta c"
  shows "diff_store (write_path fs (delta_name d f ''differential'' t) delta) d f (h @ [(t, c)]) [F] (dts @ [t])"
    (is "diff_store ?fs _ _ ?h _ ?dts")
proof -
  let ?p = "delta_name d f ''differential'' t"
  note st = diff_storeD [OF store]
  note hs = hist_snoc [OF st(2) h t]
  have dts: "u \<in> set (map fst h)" "u < t" if "u \<in> set dts" for u
    using diff_store_dts [OF store that] hs(2) by auto
  have hF: "F \<in> set (map fst h)" using F by (metis map_of_eq_None_iff option.distinct(1) list.set_map)
  have w: "can_write fs ?p"
    by (rule can_write_delta_name [OF ok st(1) f t(1)]) (use dts in blast)
  have e: "entry_name (backup_dir d f ''differential'' ''delta'') ?p = Some (f @ ''.delta.'' @ t)"
    "entry_name (backup_dir d f ''differential'' ''full'') ?p = None"
    using entry_delta_name [OF f t(1)] entry_delta_full by simp_all
  have keep: "map_of ?h u = map_of h u" if "u \<in> set (map fst h)" for u using hs(3) [OF that] .
  show ?thesis
    unfolding diff_store_def
  proof (intro conjI ballI)
    have "sorted_wrt (<) (dts @ [t])"
      using store_names(4) [OF st(1)] dts by (simp add: sorted_wrt_append)
    then show "store_lists ?fs d f ''differential'' [F] ?dts"
      using st(1) e unfolding store_lists_iff [OF ok] store_lists_iff [OF fs_ok_ops(1) [OF ok]]
      by (simp add: opendir_write [OF w] dir_set_write [OF w])
    show "hist_ok ?h" by (rule hs(1))
    show "[F] \<noteq> []" by simp
  next
    fix u assume u: "u \<in> set [F]"
    then show "map_of ?h u \<noteq> None" "file_content ?fs (full_name d f ''differential'' u) = map_of ?h u"
      using st(4) [of F] keep [OF hF] by (simp_all add: file_content_write [OF w])
  next
    fix u assume u: "u \<in> set ?dts"
    show "ts_ok u" using u t(1) st(5) by auto
    show "\<exists>delta c c' G. file_content ?fs (delta_name d f ''differential'' u) = Some delta \<and> map_of ?h u = Some c
          \<and> G \<in> set [F] \<and> G < u \<and> (\<forall>G'\<in>set [F]. G' < u \<longrightarrow> G' \<le> G)
          \<and> map_of ?h G = Some c' \<and> reproduces c' delta c"
    proof (cases "u = t")
      case True
      have "map_of h t = None" using hs(2) by (auto simp: map_of_eq_None_iff)
      then show ?thesis
        using True rep F keep [OF hF] hs(2) [OF hF] by (auto simp: file_content_write [OF w] map_add_def)
    next
      case False
      then have "u \<in> set dts" using u by simp
      from st(5) [OF this] keep [OF hF] keep [OF dts(1) [OF this]] False show ?thesis
        by (auto simp: file_content_write [OF w])
    qed
  qed
qed

subsection \<open>A file of one block\<close>

text \<open>
  A file that fits in one block and is its own basis is sent as the number of that block.
\<close>

lemma one_block_len:
  assumes h: "head_for (int (length f)) h" "s_count h = 1" and "f \<noteq> []"
  shows "head_block_len h 0 = int (length f)" and "int (length f) \<le> s_blength h" and "0 < s_blength h"
proof -
  let ?n = "int (length f)" and ?bl = "s_blength h"
  have hb: "0 < ?bl" "s_remainder h = ?n mod ?bl" "?n div ?bl + (if ?n mod ?bl \<noteq> 0 then 1 else 0) = 1"
    using h by (auto simp: head_for_def)
  have "head_block_len h 0 = ?n \<and> ?n \<le> ?bl"
  proof (cases "?n mod ?bl = 0")
    case True
    then have "?n = ?bl" using hb(3) div_mult_mod_eq [of ?n ?bl] by simp
    then show ?thesis using True hb(2) h(2) by (simp add: head_block_len_def)
  next
    case False
    then have "?n mod ?bl = ?n" using hb(3) div_mult_mod_eq [of ?n ?bl] by simp
    then show ?thesis using False hb(1,2) h(2) pos_mod_bound [OF hb(1), of ?n] by (simp add: head_block_len_def)
  qed
  then show "head_block_len h 0 = ?n" "?n \<le> ?bl" "0 < ?bl" using hb(1) by simp_all
qed

lemma one_block_match:
  assumes h: "head_for (int (length f)) h" "s_count h = 1" and "f \<noteq> []"
  shows "match_sums False False 0 c2 f (sums_for c2 f h) = Some ([(0, 0, 0), (- 1, int (length f), 0)], f, True)"
proof -
  let ?n = "int (length f)" and ?s = "sums_for c2 f h"
  let ?b = "buf_of c2 f h 0"
  note n = one_block_len [OF assms]
  have b: "block_of f h 0 = f" using fslice_all [of f] by (simp add: block_of_def n(1))
  have buf: "s_sum1 ?b = get_checksum1 f" "s_len ?b = ?n" "s_sum2 ?b = take (nat (s_s2length h)) (c2 f)"
    by (simp_all add: buf_of_def b n(1))
  have bufs: "bufs_of c2 f h 0 = [?b]" using h(2) by (simp add: bufs_of_def)
  have ts: "table_size 1 = TRADITIONAL_TABLESIZE" by code_simp
  let ?t = "SUM2HASH (get_checksum1 f)"
  have tab: "build_hash_table ?s = ([?b\<lparr>s_chain := - 1\<rparr>], (\<lambda>_. - 1)(?t := 0))"
    by (simp add: build_hash_table_def h(2) ts bufs hash_entry_def buf Let_def)
  obtain s1 s2 where halves: "sum_split (get_checksum1 f) = (s1, s2)" by fastforce
  have w: "window_sums f (s1, s2)" using window_sums_split [of f] by (simp add: halves)
  have sm: "sum_of (s1, s2) = get_checksum1 f" by (rule window_sums_checksum [OF w])
  have key: "SUM2HASH2 s1 s2 = ?t" by (simp add: SUM2HASH_sum_of sm)
  have all: "fslice f 0 ?n = f" by (rule fslice_all)
  define st0 where "st0 = \<lparr>hs_table = (\<lambda>_. - 1)(?t := 0), hs_sums = [?b\<lparr>s_chain := - 1\<rparr>], hs_offset = 0,
      hs_aligned_offset = 0, hs_aligned_i = 0, hs_want_i = 0, hs_k = ?n, hs_halves = (s1, s2),
      hs_last_match = 0, hs_calls = [], hs_digest = []\<rparr>"
  have chain: "chain_loop 1 False c2 f ?s st0 ?t (get_checksum1 f) None 0 None = (st0, Some (0, c2 f))"
    using n by (simp add: st0_def blk_def buf Let_def min_absorb2 all same_sum2_def)
  define st1 where "st1 = accept False c2 f ?s st0 0 (get_checksum1 f) (c2 f)"
  have st1: "hs_offset st1 = ?n - 1" "hs_last_match st1 = ?n" "hs_calls st1 = [(0, 0, 0)]" "hs_digest st1 = f"
    by (simp_all add: st1_def accept_def realign_def st0_def matched_def blk_def buf Let_def all)
  define st2 where "st2 = null_hash f ?s 1 st1"
  have st2: "hs_offset st2 = ?n" "hs_last_match st2 = ?n" "hs_calls st2 = [(0, 0, 0)]" "hs_digest st2 = f"
    using st1 n(3) by (simp_all add: st2_def null_hash_def Let_def CHUNK_SIZE_def split_def)
  have step: "search_step False c2 f ?s (table_size 1) 1 st0 = st2"
    using chain by (simp add: search_step_def ts st0_def key sm Let_def st2_def st1_def)
  have "hash_loop (length f + 1) False c2 f ?s (table_size 1) 1 st0 = Some st2"
    using step st2(1) assms(3) by (cases f) (simp_all add: Let_def)
  then have "hash_search False c2 f ?s (build_hash_table ?s) 0 [] = Some (matched f st2 ?n (- 1))"
    using n(2) by (simp add: hash_search_def tab h(2) buf min_absorb1 all halves Let_def del: hash_loop.simps flip: st0_def)
  then show ?thesis
    using st2 assms(3) h(2) by (simp add: match_sums_def matched_def Let_def)
qed

subsection \<open>One differential backup\<close>

text \<open>
  The state between two backups: one full backup, of the first version, and a file as long as
  the last version.
\<close>

definition diff_state :: "fs \<Rightarrow> string \<Rightarrow> history \<Rightarrow> string list \<Rightarrow> bool" where
  "diff_state fs fname h dts \<longleftrightarrow>
     (let (d, f) = split_path fname
      in fs_ok fs \<and> h \<noteq> [] \<and> diff_store fs d f h [fst (hd h)] dts \<and> can_write fs fname
         \<and> (\<exists>cur. file_content fs fname = Some cur \<and> length cur = length (snd (last h)))
         \<and> can_write fs (recovery_file d f ''recovery'')
         \<and> (\<forall>q\<in>set (parent_dirs (manage_path d f ''differential'')). dir_exists fs q))"

lemma diff_state_full:
  assumes "diff_state fs fname h dts"
  shows "gen_file fs fname 1 = Some (snd (hd h))"
proof -
  obtain d f where sp: "split_path fname = (d, f)" by fastforce
  have store: "diff_store fs d f h [fst (hd h)] dts" and h: "h \<noteq> []" using assms by (auto simp: diff_state_def sp)
  note st = diff_storeD [OF store]
  have "map_of h (fst (hd h)) = Some (snd (hd h))" using h by (cases h) auto
  then show ?thesis
    using store_names(1) [OF st(1)] st(4) [of "fst (hd h)"]
    by (simp add: gen_file_def find_newest_full_backup_def sp read_sort_dir_files_def split: if_splits)
qed

lemma retain_one_full:
  "1 \<le> num \<Longrightarrow> retain_diff num [F] dts = ([F], if int (length dts) > num then tl dts else dts)"
  by (simp add: retain_diff_def drop_old_def)

theorem diff_step:
  assumes st: "diff_state fs fname h dts" and os: "os_ok w" and num: "1 \<le> num" and cfg: "delta_cfg cfg bs"
    and c2: "\<And>x. 16 \<le> length (c2 x)" and digest: "\<forall>x y. length (digest x) = length (digest y)"
    and t: "ts_ok t" "fst (last h) < t" and c: "length c < 2 ^ 63" "length (snd (last h)) < 2 ^ 63"
    and safe: "safe_at cfg bs c2 (int (length (snd (last h)))) (snd (hd h)) c"
  shows "\<exists>fs'. backup_once w cfg bs c2 digest num 1 fs fname t c = Inr fs'
    \<and> diff_state fs' fname (h @ [(t, c)]) (if int (length dts) \<ge> num then tl (dts @ [t]) else dts @ [t])
    \<and> (file_content fs fname = Some (snd (hd h)) \<longrightarrow> file_content fs' fname = Some c)
    \<and> (\<forall>sh. c = snd (hd h) \<and> c \<noteq> [] \<and> length c = length (snd (last h)) \<and> s_count sh = 1
          \<and> sum_sizes_sqroot (x_protocol cfg) (x_csum_length cfg) bs (int (length c)) = Some sh
        \<longrightarrow> file_content fs' fname = file_content fs fname)
    \<and> (\<forall>q. beside ''differential'' fname q \<longrightarrow> map_of fs' q = map_of fs q)"
proof -
  obtain d f where sp: "split_path fname = (d, f)" by fastforce
  let ?dif = "''differential''" and ?F = "fst (hd h)"
  obtain cur where ok: "fs_ok fs" and h: "h \<noteq> []" and store: "diff_store fs d f h [?F] dts" and w: "can_write fs fname"
    and cur: "file_content fs fname = Some cur" "length cur = length (snd (last h))"
    and rec: "can_write fs (recovery_file d f ''recovery'')"
    and par: "\<forall>q\<in>set (parent_dirs (manage_path d f ?dif)). dir_exists fs q"
    using st sp by (auto simp: diff_state_def)
  have slash: "CHR ''/'' \<notin> set f" using sp by (cases rule: split_path_cases) auto
  note parts = diff_storeD [OF store] and full = diff_state_full [OF st]
  have len: "\<forall>x. file_content fs fname = Some x \<longrightarrow> length x < 2 ^ 63" using cur c(2) by simp
  have safe': "\<forall>x y. file_content fs fname = Some x \<longrightarrow> gen_file fs fname 1 = Some y \<longrightarrow> safe_at cfg bs c2 (int (length x)) y c"
    using cur safe full by simp
  have full_old: "snd (hd h) = opt_bytes (gen_file fs fname 1)" by (simp add: full opt_bytes_def)
  have dg: "opt_bytes (Some cur) \<noteq> snd (hd h) \<longrightarrow> (\<forall>x y. length (digest x) = length (digest y))" using digest by simp
  obtain reply target where once: "backup_once w cfg bs c2 digest num 1 fs fname t c
      = map_sum id fst (recv_backup_file w cfg digest num 1 fs fname t (int (length c)) reply)"
    and target: "length target = length c" "cur = snd (hd h) \<longrightarrow> target = c"
    and ans: "answers cfg w digest (snd (hd h)) (Some cur) c reply target"
    and stale: "\<And>sh calls. sum_sizes_sqroot (x_protocol cfg) (x_csum_length cfg) bs (int (length cur)) = Some sh
        \<Longrightarrow> cur \<noteq> [] \<Longrightarrow> match_sums False False 0 c2 c (sums_for c2 (snd (hd h)) sh) = Some (calls, c, True)
        \<Longrightarrow> target = rx_data (block_content (rx_meta sh (int (length c)) (int (length cur))) cur) (events c calls)"
    using backup_once_transfer [where backup_type = 1 and digest = digest and num = num and t = t,
        OF os cfg c2 c(1) len safe' cur(1) [symmetric] full_old dg]
    by (elim exE conjE) (rule that, simp_all add: opt_bytes_def full)
  obtain D where D: "receive_data (cfg\<lparr>x_fd := True, x_delta := True\<rparr>) w digest (Some cur) (int (length cur)) (int (length c)) [] reply
      = Inr (\<lparr>x_ret = 1, x_target = target, x_delta_file = D\<rparr>, [])" "reproduces (snd (hd h)) D c"
    by (rule answersD [OF ans, where dl = True]) (simp add: opt_bytes_def)
  let ?dn = "delta_name d f ?dif t"
  let ?fs1 = "write_path fs ?dn D" and ?fs2 = "write_path (write_path fs ?dn D) fname target"
  have new: "t \<notin> set dts" using diff_store_dts [OF store] hist_snoc(2) [OF parts(2) h t] by auto
  have wd: "can_write fs ?dn" by (rule can_write_delta_name [OF ok parts(1) slash t(1) new])
  have hF: "map_of h ?F = Some (snd (hd h))" using h by (cases h) auto
  have s1: "diff_store ?fs1 d f (h @ [(t, c)]) [?F] (dts @ [t])"
    by (rule diff_store_add_delta [OF ok store slash t h hF D(2)])
  have w2: "can_write ?fs1 fname" using wd w by (rule can_write_write_other)
  have ok1: "fs_ok ?fs1" and ok2: "fs_ok ?fs2" using ok by (simp_all add: fs_ok_ops)
  note out = fname_outside_store [OF sp, of ?dif]
  have s2: "diff_store ?fs2 d f (h @ [(t, c)]) [?F] (dts @ [t])"
    using diff_store_write_other [OF ok1 w2 s1] out by blast
  let ?dts = "if int (length dts) \<ge> num then tl (dts @ [t]) else dts @ [t]"
  have r: "retain_diff num [?F] (dts @ [t]) = ([?F], ?dts)"
    using retain_one_full [OF num, of ?F "dts @ [t]"] by auto
  obtain fs' where man: "manage_backup_version w 1 num ?fs2 (manage_path d f ?dif) = Inr (0, fs')"
    and s3: "diff_store fs' d f (h @ [(t, c)]) [?F] ?dts"
    using manage_differential_correct [OF ok2 s2 num r, of w] by auto
  have k: "?dif = backup_kind 1" by (simp add: backup_kind_def)
  have wh: "\<not> x_whole_file cfg" using cfg by (simp add: delta_cfg_def)
  note step = later_backup [OF ok parts(1,3) sp k par wh t(1) new w cur(1) D(1) refl man]
  have "diff_state fs' fname (h @ [(t, c)]) ?dts"
    using step(2-6) s3 rec target(1) h by (simp add: diff_state_def sp)
  moreover have "backup_once w cfg bs c2 digest num 1 fs fname t c = Inr fs'"
    using once step(1) by simp
  moreover have "target = cur"
    if a: "c = snd (hd h)" "c \<noteq> []" "length c = length (snd (last h))" "s_count sh = 1"
      "sum_sizes_sqroot (x_protocol cfg) (x_csum_length cfg) bs (int (length c)) = Some sh" for sh
  proof -
    have l: "length cur = length c" "cur \<noteq> []" using a(2,3) cur(2) by auto
    have hf: "head_for (int (length c)) sh"
      using sum_sizes_ok [OF a(5)] c(1) cfg by (simp add: delta_cfg_def)
    from one_block_match [OF hf a(4,2), of c2] stale [of sh] l a(1,5)
    have t: "target = rx_data (block_content (rx_meta sh (int (length c)) (int (length cur))) cur)
        (events c [(0, 0, 0), (- 1, int (length c), 0)])" by auto
    have b: "block_len (rx_meta sh n m) 0 = int (length c)" for n m
      using one_block_len(1) [OF hf a(4,2)] by (simp add: block_len_def rx_meta_def head_block_len_def a(4) split: if_splits)
    show ?thesis
      using fslice_all [of cur] unfolding t by (simp add: events_def call_events_def block_content_def b l(1))
  qed
  ultimately show ?thesis using step(4,7) target(2) cur(1) by auto
qed

subsection \<open>A series of differential backups\<close>

text \<open>
  The blocks of the full backup are cut at the length of the previous version; the checksums
  must tell them from the windows of the next one.
\<close>

fun diffs_safe :: "rx_cfg \<Rightarrow> int \<Rightarrow> (byte list \<Rightarrow> byte list) \<Rightarrow> byte list \<Rightarrow> byte list \<Rightarrow> history \<Rightarrow> bool" where
  "diffs_safe cfg block_size c2 full prev [] = True"
| "diffs_safe cfg block_size c2 full prev ((t, c) # vs) =
     (safe_at cfg block_size c2 (int (length prev)) full c \<and> diffs_safe cfg block_size c2 full c vs)"

text \<open>The deltas that are kept: those of the newest \<open>num\<close> versions after the first.\<close>

definition kept :: "int \<Rightarrow> history \<Rightarrow> string list" where
  "kept num h = drop (length h - 1 - nat num) (map fst (tl h))"

lemma kept_snoc:
  assumes "h \<noteq> []" and "1 \<le> num"
  shows "(if int (length (kept num h)) \<ge> num then tl (kept num h @ [t]) else kept num h @ [t]) = kept num (h @ [(t, c)])"
proof -
  define n where "n = nat num - 1"
  have n: "num = int (Suc n)" "nat num = Suc n" using assms(2) by (simp_all add: n_def)
  obtain e h' where h: "h = e # h'" using assms(1) by (cases h) auto
  let ?xs = "map fst h'"
  have k: "kept num h = drop (length ?xs - Suc n) ?xs" "kept num (h @ [(t, c)]) = drop (length ?xs - n) (?xs @ [t])"
    by (simp_all add: kept_def h n(2))
  show ?thesis
  proof (cases "Suc n \<le> length ?xs")
    case True
    then have "drop (length ?xs - Suc n) ?xs \<noteq> []" by simp
    moreover have "int (length (kept num h)) \<ge> num" unfolding k(1) using True n(1) by simp
    moreover have "tl (drop (length ?xs - Suc n) ?xs) = drop (length ?xs - n) ?xs"
      using True by (metis Suc_diff_Suc Suc_le_lessD drop_Suc tl_drop)
    ultimately show ?thesis using True unfolding k by simp
  next
    case False
    then have "int (length (kept num h)) < num" unfolding k(1) using n(1) by simp
    with False show ?thesis unfolding k by simp
  qed
qed

lemma diff_series_runs:
  assumes "diff_state fs fname h (kept num h)" and os: "os_ok w" and num: "1 \<le> num" and cfg: "delta_cfg cfg bs"
    and c2: "\<And>x. 16 \<le> length (c2 x)" and digest: "\<forall>x y. length (digest x) = length (digest y)"
    and "hist_ok (h @ vs)" and "\<forall>c\<in>set (map snd (h @ vs)). length c < 2 ^ 63"
    and "diffs_safe cfg bs c2 (snd (hd h)) (snd (last h)) vs"
  shows "\<exists>fs'. backup_series w cfg bs c2 digest num 1 fs fname vs = Inr fs'
    \<and> diff_state fs' fname (h @ vs) (kept num (h @ vs))
    \<and> (\<forall>q. beside ''differential'' fname q \<longrightarrow> map_of fs' q = map_of fs q)"
  using assms(1,7-9)
proof (induction vs arbitrary: fs h)
  case Nil
  then show ?case by auto
next
  case (Cons v vs)
  obtain t c where v: "v = (t, c)" by fastforce
  have h: "h \<noteq> []" using Cons.prems(1) by (auto simp: diff_state_def Let_def split: prod.splits)
  have t: "ts_ok t" "fst (last h) < t"
    using Cons.prems(2) h by (auto simp: v hist_ok_def sorted_wrt_append)
  have lens: "length c < 2 ^ 63" "length (snd (last h)) < 2 ^ 63"
    using Cons.prems(3) h by (auto simp: v)
  have safe: "safe_at cfg bs c2 (int (length (snd (last h)))) (snd (hd h)) c" "diffs_safe cfg bs c2 (snd (hd h)) c vs"
    using Cons.prems(4) by (simp_all add: v)
  from diff_step [OF Cons.prems(1) os num cfg c2 digest t lens safe(1)] obtain fs1 where
    fs1: "backup_once w cfg bs c2 digest num 1 fs fname t c = Inr fs1"
    "diff_state fs1 fname (h @ [(t, c)]) (kept num (h @ [(t, c)]))"
    "\<And>q. beside ''differential'' fname q \<Longrightarrow> map_of fs1 q = map_of fs q"
    unfolding kept_snoc [where t = t and c = c, OF h num] by blast
  have "hist_ok ((h @ [(t, c)]) @ vs)" "\<forall>c\<in>set (map snd ((h @ [(t, c)]) @ vs)). length c < 2 ^ 63"
    "diffs_safe cfg bs c2 (snd (hd (h @ [(t, c)]))) (snd (last (h @ [(t, c)]))) vs"
    using Cons.prems(2,3) safe(2) h by (simp_all add: v)
  from Cons.IH [OF fs1(2) this] obtain fs' where
    "backup_series w cfg bs c2 digest num 1 fs1 fname vs = Inr fs'"
    "diff_state fs' fname (h @ v # vs) (kept num (h @ v # vs))"
    "\<And>q. beside ''differential'' fname q \<Longrightarrow> map_of fs' q = map_of fs1 q"
    by (auto simp: v)
  with fs1 show ?case by (auto simp: v)
qed

subsection \<open>Recovery\<close>

text \<open>Without an incremental directory the differential store is the one that is read.\<close>

lemma recovery_source_differential:
  assumes "file_content fs fname \<noteq> None" and sp: "split_path fname = (d, f)" and "CHR ''.'' \<notin> set f"
    and "map_of fs (d @ ''/'' @ f @ ''.backup/incremental/full'') = None"
    and "files_of (read_sort_dir_files fs (backup_dir d f ''differential'' ''full'')) \<noteq> []"
  shows "recovery_source w fs fname v = map_sum id snd (combine_differental_files w fs d f
    (read_sort_dir_files fs (backup_dir d f ''differential'' ''full''))
    (read_sort_dir_files fs (backup_dir d f ''differential'' ''delta'')) v [])"
proof -
  have "fname \<noteq> ''.''" "fname \<noteq> ''..''" using sp assms(3) by (auto simp: split_path_def)
  moreover have "read_sort_dir_files fs (backup_dir d f ''incremental'' ''full'') = None"
    using assms(4) by (simp add: read_sort_dir_files_def opendir_ok_def backup_dir_def butlast_append)
  ultimately show ?thesis
    using assms(1,5) sp
    by (simp add: recovery_source_def decide_recovery_type_def read_backup_lists_def choose_type_def files_of_def)
qed

lemma sorted_last_ge: "sorted_wrt (<) (ts :: string list) \<Longrightarrow> t \<in> set ts \<Longrightarrow> t \<le> last ts"
  by (induction ts rule: rev_induct) (auto simp: sorted_wrt_append less_imp_le)

lemma diff_state_recover:
  assumes st: "diff_state fs fname h (kept num h)" and os: "os_ok w" and "1 \<le> num"
    and sp: "split_path fname = (d, f)"
    and i: "i < length h" and "i = 0 \<or> int (length h) \<le> int i + num"
  shows "\<exists>p fs'. combine_differental_files w fs d f
      (read_sort_dir_files fs (backup_dir d f ''differential'' ''full''))
      (read_sort_dir_files fs (backup_dir d f ''differential'' ''delta'')) (fst (h ! i)) p0 = Inr (0, p, fs')
    \<and> file_content fs' p = Some (snd (h ! i))"
proof -
  have store: "diff_store fs d f h [fst (hd h)] (kept num h)" and h: "h \<noteq> []"
    and rec: "can_write fs (recovery_file d f ''recovery'')"
    using st sp by (auto simp: diff_state_def)
  have slash: "CHR ''/'' \<notin> set f" using sp by (cases rule: split_path_cases) auto
  note parts = diff_storeD [OF store]
  have h0: "fst (hd h) = fst (h ! 0)" using h by (simp add: hd_conv_nth)
  have le: "fst (hd h) \<le> fst (h ! i)"
    using hist_sorted [OF parts(2), of 0 i] i h0 by (cases "i = 0") (auto simp: less_imp_le)
  have nul: "no_nul (fst (h ! i))" using hist_ts_ok [OF parts(2), of "fst (h ! i)"] i by (simp add: ts_ok_def)
  have hi: "map_of h (fst (h ! i)) = Some (snd (h ! i))"
    by (rule hist_nth_map_of [OF parts(2) i])
  note rec = combine_differental_correct [OF os store _ nul slash rec, of "fst (hd h)" p0]
  obtain r p fs' where run: "combine_differental_files w fs d f
      (read_sort_dir_files fs (backup_dir d f ''differential'' ''full''))
      (read_sort_dir_files fs (backup_dir d f ''differential'' ''delta'')) (fst (h ! i)) p0 = Inr (r, p, fs')"
    and res: "if fst (hd h) = fst (h ! i) then r = 0 \<and> file_content fs' p = map_of h (fst (h ! i))
       else case filter (\<lambda>t. fst (hd h) < t \<and> t \<le> fst (h ! i)) (kept num h) of
           [] \<Rightarrow> r = - 1 \<and> p = p0
         | ts \<Rightarrow> r = 0 \<and> file_content fs' p = map_of h (last ts)"
    using rec le by auto
  show ?thesis
  proof (cases "i = 0")
    case True
    then show ?thesis using run res hi h0 by auto
  next
    case False
    have lt: "fst (hd h) < fst (h ! i)"
      using hist_sorted [OF parts(2), of 0 i] i h0 False by simp
    let ?k = "length h - 1 - nat num"
    have nth: "kept num h ! j = fst (h ! (?k + j + 1))" if "?k + j + 1 < length h" for j
      using that by (cases h) (auto simp: kept_def nth_tl)
    have j: "?k + (i - 1 - ?k) + 1 = i" "i - 1 - ?k < length (kept num h)"
      using False i assms(6) assms(3) by (auto simp: kept_def)
    then have mem: "fst (h ! i) \<in> set (kept num h)"
      using nth [of "i - 1 - ?k"] i by (metis nth_mem)
    have sorted: "sorted_wrt (<) (kept num h)" using store_names(4) [OF parts(1)] .
    let ?ts = "filter (\<lambda>t. fst (hd h) < t \<and> t \<le> fst (h ! i)) (kept num h)"
    have ne: "fst (h ! i) \<in> set ?ts" using mem lt by simp
    have "?ts \<noteq> []" using mem lt by (auto simp: filter_empty_conv)
    then have "last ?ts = fst (h ! i)"
      using last_in_set [of ?ts] sorted_last_ge [OF sorted_wrt_filter [OF sorted] ne] by (auto intro: antisym)
    moreover have "fst (hd h) \<noteq> fst (h ! i)" using lt by simp
    with res \<open>?ts \<noteq> []\<close> have "r = 0 \<and> file_content fs' p = map_of h (last ?ts)" by (simp split: list.splits)
    ultimately have "r = 0 \<and> file_content fs' p = Some (snd (h ! i))" using hi by simp
    with run show ?thesis by blast
  qed
qed

lemma first_diff_backup:
  assumes fresh: "fresh fs fname" and os: "os_ok w" and num: "1 \<le> num" and cfg: "delta_cfg cfg bs"
    and c2: "\<And>x. 16 \<le> length (c2 x)" and t: "ts_ok t" and c: "length c < 2 ^ 63"
    and old: "\<And>x. file_content fs fname = Some x \<Longrightarrow> length x < 2 ^ 63 \<and> delta_safe cfg bs c2 x c"
  shows "\<exists>fs'. backup_once w cfg bs c2 digest num 1 fs fname t c = Inr fs'
    \<and> diff_state fs' fname [(t, c)] [] \<and> file_content fs' fname = Some c
    \<and> (\<forall>d f. split_path fname = (d, f) \<longrightarrow> map_of fs' (d @ ''/'' @ f @ ''.backup/incremental/full'') = None)"
proof -
  obtain d f where sp: "split_path fname = (d, f)" by fastforce
  let ?dif = "''differential''"
  have kind: "CHR ''/'' \<notin> set ?dif" "CHR ''.'' \<notin> set ?dif" and k: "?dif = backup_kind 1" by (simp_all add: backup_kind_def)
  obtain fs1 fs2 where new: "mkdir_recursive fs (backup_dir d f ?dif ''full'') = (0, fs1)"
    "mkdir_recursive fs1 (backup_dir d f ?dif ''delta'') = (0, fs2)"
    "fs_ok fs2" "opendir_ok fs2 (backup_dir d f ?dif ''full'')"
    "opendir_ok fs2 (backup_dir d f ?dif ''delta'')"
    "dir_set fs2 (backup_dir d f ?dif ''full'') = {}"
    "dir_set fs2 (backup_dir d f ?dif ''delta'') = {}"
    "\<forall>q\<in>set (parent_dirs (manage_path d f ?dif)). dir_exists fs2 q"
    "can_write fs2 fname" "can_write fs2 (recovery_file d f ''recovery'')"
    "can_write fs2 (recovery_file d f ''recovery.tmp'')"
    "file_content fs2 fname = file_content fs fname" and other: "\<forall>other. other \<noteq> ?dif \<longrightarrow> CHR ''/'' \<notin> set other \<longrightarrow>
      map_of fs2 (d @ ''/'' @ f @ ''.backup/'' @ other @ ''/full'') = None"
    by (rule fresh_store [OF fresh sp kind])
  have ok: "fs_ok fs" and none: "map_of fs (d @ ''/'' @ f @ ''.backup'' @ x) = None" for x
    using fresh sp by (auto simp: fresh_def)
  have g: "gen_file fs fname 1 = file_content fs fname"
    using none [of "''/differential/full''"]
    by (simp add: gen_file_def find_newest_full_backup_def sp opendir_ok_def backup_dir_def butlast_append)
  have len: "\<forall>x. file_content fs fname = Some x \<longrightarrow> length x < 2 ^ 63" using old by blast
  have safe: "\<forall>x y. file_content fs fname = Some x \<longrightarrow> gen_file fs fname 1 = Some y \<longrightarrow> safe_at cfg bs c2 (int (length x)) y c"
    using old g by (simp add: delta_safe_def)
  have same: "opt_bytes (file_content fs fname) = opt_bytes (gen_file fs fname 1)" by (simp add: g)
  then have dg: "opt_bytes (file_content fs fname) \<noteq> opt_bytes (gen_file fs fname 1)
      \<longrightarrow> (\<forall>x y. length (digest x) = length (digest y))" by simp
  obtain reply where once: "backup_once w cfg bs c2 digest num 1 fs fname t c
      = map_sum id fst (recv_backup_file w cfg digest num 1 fs fname t (int (length c)) reply)"
    and ans: "answers cfg w digest (opt_bytes (file_content fs fname)) (file_content fs fname) c reply c"
    using backup_once_transfer [where backup_type = 1 and digest = digest and num = num and t = t,
        OF os cfg c2 c len safe refl refl dg] same by auto
  have b: "int (length (opt_bytes b)) = (case b of Some c \<Rightarrow> int (length c) | None \<Rightarrow> 0)" for b
    by (simp add: opt_bytes_def split: option.split)
  obtain D where D: "receive_data (cfg\<lparr>x_fd := True, x_delta := False\<rparr>) w digest (file_content fs2 fname)
        (case file_content fs2 fname of Some c \<Rightarrow> int (length c) | None \<Rightarrow> 0) (int (length c)) [] reply
      = Inr (\<lparr>x_ret = 1, x_target = c, x_delta_file = D\<rparr>, [])"
    unfolding new(12) b [symmetric] by (rule answersD [OF ans, where dl = False])
  note step = first_backup [OF ok sp t num k new(1-7,9) D refl]
  let ?fs' = "write_path (write_path fs2 fname c) (full_name d f ?dif t) c"
  have "diff_store ?fs' d f [(t, c)] [t] []"
    using step(3,4) t by (simp add: diff_store_def hist_ok_def)
  then have "diff_state ?fs' fname [(t, c)] []"
    using step new(8-10) by (simp add: diff_state_def sp)
  moreover have "beside ?dif fname (d @ ''/'' @ f @ ''.backup/incremental/full'')"
    using sp by (auto simp: beside_def manage_path_def elim: split_path_cases dest: arg_cong [of _ _ length])
  then have "map_of ?fs' (d @ ''/'' @ f @ ''.backup/incremental/full'') = None"
    using step(8) other [rule_format, of "''incremental''"] by simp
  ultimately show ?thesis using once step(1,5) sp by auto
qed

theorem diff_series_recoverable:
  assumes "fresh fs fname" and os: "os_ok w" and num: "1 \<le> num" and cfg: "delta_cfg cfg bs"
    and c2: "\<And>x. 16 \<le> length (c2 x)" and digest: "\<forall>x y. length (digest x) = length (digest y)"
    and dot: "CHR ''.'' \<notin> set (snd (split_path fname))"
    and h: "hist_ok h" "h \<noteq> []" and lens: "\<forall>c\<in>set (map snd h). length c < 2 ^ 63"
    and old: "\<And>x. file_content fs fname = Some x \<Longrightarrow> length x < 2 ^ 63 \<and> delta_safe cfg bs c2 x (snd (hd h))"
    and safe: "diffs_safe cfg bs c2 (snd (hd h)) (snd (hd h)) (tl h)"
  shows "\<exists>fs'. backup_series w cfg bs c2 digest num 1 fs fname h = Inr fs'
    \<and> (\<forall>i. i < length h \<longrightarrow> i = 0 \<or> int (length h) \<le> int i + num \<longrightarrow>
        (\<exists>p fs''. recovery_source w fs' fname (fst (h ! i)) = Inr (p, fs'')
           \<and> file_content fs'' p = Some (snd (h ! i))))"
proof -
  obtain d f where sp: "split_path fname = (d, f)" by fastforce
  obtain t c vs where hh: "h = (t, c) # vs" using h(2) by (cases h) auto
  have tc: "ts_ok t" "length c < 2 ^ 63" using h(1) lens by (simp_all add: hh hist_ok_def)
  have oldc: "\<And>x. file_content fs fname = Some x \<Longrightarrow> length x < 2 ^ 63 \<and> delta_safe cfg bs c2 x c"
    using old by (simp add: hh)
  obtain fs1 where fs1: "backup_once w cfg bs c2 digest num 1 fs fname t c = Inr fs1" "diff_state fs1 fname [(t, c)] []"
    "map_of fs1 (d @ ''/'' @ f @ ''.backup/incremental/full'') = None"
    using first_diff_backup [where digest = digest, OF assms(1) os num cfg c2 tc oldc] sp by blast
  have st: "diff_state fs1 fname [(t, c)] (kept num [(t, c)])" using fs1(2) by (simp add: kept_def)
  obtain fs' where fs': "backup_series w cfg bs c2 digest num 1 fs1 fname vs = Inr fs'" "diff_state fs' fname h (kept num h)"
    and frame: "\<And>q. beside ''differential'' fname q \<Longrightarrow> map_of fs' q = map_of fs1 q"
    using diff_series_runs [where vs = vs and ?c2.0 = c2, OF st os num cfg c2 digest] h(1) lens safe by (auto simp: hh)
  have "diff_store fs' d f h [fst (hd h)] (kept num h)" using fs'(2) by (simp add: diff_state_def sp)
  then have fulls: "files_of (read_sort_dir_files fs' (backup_dir d f ''differential'' ''full'')) \<noteq> []"
    by (simp add: diff_store_def store_lists_def files_of_def)
  have "beside ''differential'' fname (d @ ''/'' @ f @ ''.backup/incremental/full'')"
    using sp by (auto simp: beside_def manage_path_def elim: split_path_cases dest: arg_cong [of _ _ length])
  then have inc: "map_of fs' (d @ ''/'' @ f @ ''.backup/incremental/full'') = None" using frame fs1(3) by simp
  have cur: "file_content fs' fname \<noteq> None" using fs'(2) by (auto simp: diff_state_def sp)
  have dotf: "CHR ''.'' \<notin> set f" using dot sp by simp
  have "\<exists>p fs''. recovery_source w fs' fname (fst (h ! i)) = Inr (p, fs'') \<and> file_content fs'' p = Some (snd (h ! i))"
    if i: "i < length h" "i = 0 \<or> int (length h) \<le> int i + num" for i
    using diff_state_recover [OF fs'(2) os num sp i, of "[]"]
      recovery_source_differential [OF cur sp dotf inc fulls, of w "fst (h ! i)"] by auto
  moreover have "backup_series w cfg bs c2 digest num 1 fs fname h = Inr fs'"
    using fs1(1) fs'(1) by (simp add: hh)
  ultimately show ?thesis by blast
qed

subsection \<open>What becomes of the file itself\<close>

text \<open>
  A file of one block that is changed and then goes back to its first version: the sender finds
  the block of the full backup, and the receiver copies the block of the file, which holds the
  second version. The run reports no error.
\<close>

theorem stale_target:
  assumes "fresh fs fname" and os: "os_ok w" and num: "1 \<le> num" and cfg: "delta_cfg cfg bs"
    and c2: "\<And>x. 16 \<le> length (c2 x)" and digest: "\<forall>x y. length (digest x) = length (digest y)"
    and h: "hist_ok [(t1, c), (t2, c'), (t3, c)]" and lens: "length c = length c'" "c \<noteq> []" "length c < 2 ^ 63"
    and old: "\<And>x. file_content fs fname = Some x \<Longrightarrow> length x < 2 ^ 63 \<and> delta_safe cfg bs c2 x c"
    and safe: "delta_safe cfg bs c2 c c'" "delta_safe cfg bs c2 c c"
    and one: "sum_sizes_sqroot (x_protocol cfg) (x_csum_length cfg) bs (int (length c)) = Some sh" "s_count sh = 1"
  shows "\<exists>fs'. backup_series w cfg bs c2 digest num 1 fs fname [(t1, c), (t2, c'), (t3, c)] = Inr fs'
    \<and> file_content fs' fname = Some c'"
proof -
  have ts: "ts_ok t1" "ts_ok t2" "ts_ok t3" "t1 < t2" "t2 < t3" using h by (auto simp: hist_ok_def)
  have s: "safe_at cfg bs c2 (int (length c)) c c'" "safe_at cfg bs c2 (int (length c')) c c"
    using safe lens(1) by (simp_all add: delta_safe_def)
  obtain fs1 where fs1: "backup_once w cfg bs c2 digest num 1 fs fname t1 c = Inr fs1" "diff_state fs1 fname [(t1, c)] []"
    "file_content fs1 fname = Some c"
    using first_diff_backup [where digest = digest, OF assms(1) os num cfg c2 ts(1) lens(3) old] by blast
  have pre1: "fst (last [(t1, c)]) < t2" "length c' < 2 ^ 63" "length (snd (last [(t1, c)])) < 2 ^ 63"
      "safe_at cfg bs c2 (int (length (snd (last [(t1, c)])))) (snd (hd [(t1, c)])) c'"
    and pre2: "fst (last [(t1, c), (t2, c')]) < t3" "length c < 2 ^ 63" "length (snd (last [(t1, c), (t2, c')])) < 2 ^ 63"
      "safe_at cfg bs c2 (int (length (snd (last [(t1, c), (t2, c')])))) (snd (hd [(t1, c), (t2, c')])) c"
    using ts(4,5) lens s by simp_all
  obtain fs2 dts where fs2: "backup_once w cfg bs c2 digest num 1 fs1 fname t2 c' = Inr fs2"
    "diff_state fs2 fname [(t1, c), (t2, c')] dts" "file_content fs2 fname = Some c'"
    using diff_step [OF fs1(2) os num cfg c2 digest ts(2) pre1] fs1(3) by auto
  obtain fs3 where "backup_once w cfg bs c2 digest num 1 fs2 fname t3 c = Inr fs3" "file_content fs3 fname = Some c'"
    using diff_step [OF fs2(2) os num cfg c2 digest ts(3) pre2] fs2(3) one lens(1,2) by auto
  with fs1(1) fs2(1) show ?thesis by simp
qed

end
