(* ===== verification/FileWrite.thy ===== *)
theory FileWrite
  imports MapFile
begin

text \<open>
  The write side of fileio.c: \<open>write_file\<close> with its buffer, \<open>write_sparse\<close> with the
  zeros it seeks over, \<open>flush_write_file\<close>, \<open>skip_matched\<close> and \<open>sparse_end\<close>. The
  kernel may write less than it is given; a call interrupted by a signal is the call that
  follows it.
\<close>

subsection \<open>The file behind the descriptor\<close>

text \<open>
  The file and the position of the descriptor, the buffer (\<open>wf_writeBuf\<close> up to
  \<open>wf_writeBufCnt\<close>), \<open>sparse_seek\<close> and \<open>sparse_past_write\<close>.
\<close>

record wf =
  wf_file :: "byte list"
  wf_pos :: int
  wf_buf :: "byte list"
  wf_seek :: int
  wf_past :: int

definition write_at :: "byte list \<Rightarrow> int \<Rightarrow> byte list \<Rightarrow> byte list" where
  "write_at f p d = fslice f 0 p @ d @ drop (nat p + length d) f"

text \<open>
  The answers of the kernel: how many bytes a \<open>write\<close> at a position takes, negative for an
  error.
\<close>

type_synonym wsys = "int \<Rightarrow> int \<Rightarrow> int"

definition sys_write :: "wsys \<Rightarrow> wf \<Rightarrow> byte list \<Rightarrow> int \<times> wf" where
  "sys_write k st d =
     (let n = int (length d); r = k (wf_pos st) n
      in if r < 0 then (- 1, st)
         else let r = max 1 (min r n)
              in (r, st\<lparr>wf_file := write_at (wf_file st) (wf_pos st) (take (nat r) d),
                        wf_pos := wf_pos st + r\<rparr>))"

definition ftruncate :: "byte list \<Rightarrow> int \<Rightarrow> byte list" where
  "ftruncate f n = fslice f 0 n"

text \<open>\<open>do_punch_hole\<close> with \<open>FALLOC_FL_PUNCH_HOLE\<close>.\<close>

definition do_punch_hole :: "wf \<Rightarrow> int \<Rightarrow> int \<Rightarrow> int \<times> wf" where
  "do_punch_hole st pos len =
     (let f = wf_file st;
          st = st\<lparr>wf_file := take (length f) (write_at f pos (replicate (nat len) 0)),
                  wf_pos := wf_pos st + len\<rparr>
      in (if wf_pos st = pos + len then 0 else - 1, st))"

subsection \<open>The buffer (flush_write_file)\<close>

text \<open>
  \<open>bp\<close> is what \<open>bp\<close> and the count describe. After an error the count is what was left,
  and the buffer starts where it did.
\<close>

function flush_loop :: "wsys \<Rightarrow> wf \<Rightarrow> byte list \<Rightarrow> int \<Rightarrow> int \<times> wf" where
  "flush_loop k st bp ret =
     (if bp \<noteq> [] then
        let (ret, st') = sys_write k st bp
        in if ret < 0 then (ret, st\<lparr>wf_buf := take (length bp) (wf_buf st)\<rparr>)
           else flush_loop k st' (drop (nat ret) bp) ret
      else (ret, st\<lparr>wf_buf := []\<rparr>))"
  by pat_completeness auto
termination
  by (relation "measure (\<lambda>(k, st, bp, ret). length bp)")
    (auto simp: sys_write_def Let_def max_def split: if_splits)

declare flush_loop.simps [simp del]

definition flush_write_file :: "wsys \<Rightarrow> wf \<Rightarrow> int \<times> wf" where
  "flush_write_file k st = flush_loop k st (wf_buf st) 0"

lemma flush_loop_empty: "flush_loop k st bp ret = (r, st') \<Longrightarrow> r \<ge> 0 \<Longrightarrow> wf_buf st' = []"
proof (induction k st bp ret rule: flush_loop.induct)
  case (1 k st bp ret)
  show ?case
  proof (cases "bp = []")
    case True
    with "1.prems" show ?thesis by (subst (asm) flush_loop.simps) auto
  next
    case False
    obtain n st1 where s: "sys_write k st bp = (n, st1)" by fastforce
    with "1.prems" False have "\<not> n < 0" by (subst (asm) flush_loop.simps) (auto split: if_splits)
    then show ?thesis
      using "1.IH" [OF False s [symmetric] refl] "1.prems" False s
      by (subst (asm) flush_loop.simps) simp
  qed
qed

subsection \<open>write_sparse\<close>

definition write_sparse :: "wsys \<Rightarrow> int \<Rightarrow> bool \<Rightarrow> int \<Rightarrow> wf \<Rightarrow> byte list \<Rightarrow> int \<times> wf" where
  "write_sparse k preallocated_len use_seek offset st buf =
     (let len = int (length buf);
          l1 = int (length (takeWhile (\<lambda>b. b = 0) buf));
          rest = dropWhile (\<lambda>b. b = 0) buf;
          l2 = int (length (takeWhile (\<lambda>b. b = 0) (rev rest)));
          st = st\<lparr>wf_seek := wf_seek st + l1\<rparr>
      in if l1 = len then (len, st)
         else
           let (err, st) =
             (if wf_seek st \<noteq> 0 then
                if wf_past st \<ge> preallocated_len then (0, st\<lparr>wf_pos := wf_pos st + wf_seek st\<rparr>)
                else let (r, st) = do_punch_hole st (wf_past st) (wf_seek st)
                     in if r < 0 then (- 1, st\<lparr>wf_seek := 0\<rparr>) else (0, st)
              else (0 :: int, st))
           in if err < 0 then (- 1, st)
              else
                let st = st\<lparr>wf_seek := l2, wf_past := offset + len - l2\<rparr>
                in if use_seek then (len, st\<lparr>wf_pos := wf_pos st + (len - (l1 + l2))\<rparr>)
                   else
                     let d = take (nat (len - (l1 + l2))) rest; (ret, st) = sys_write k st d
                     in if ret \<le> 0 then (ret, st\<lparr>wf_seek := 0\<rparr>)
                        else if ret \<noteq> len - (l1 + l2) then (l1 + ret, st\<lparr>wf_seek := 0\<rparr>)
                        else (len, st))"

subsection \<open>write_file\<close>

definition SPARSE_WRITE_SIZE :: nat where "SPARSE_WRITE_SIZE = 1024"
definition WRITE_BUF_SIZE :: nat where "WRITE_BUF_SIZE = 32 * 1024 * 8"

text \<open>
  The loop of \<open>write_file\<close>: \<open>ret\<close> is what it has taken so far. A full buffer that is
  flushed before anything fits goes round once more.
\<close>

function write_loop :: "wsys \<Rightarrow> bool \<Rightarrow> int \<Rightarrow> bool \<Rightarrow> int \<Rightarrow> wf \<Rightarrow> byte list \<Rightarrow> int \<Rightarrow> int \<times> wf" where
  "write_loop k sparse_files pre use_seek offset st buf ret =
     (if buf = [] then (ret, st)
      else if sparse_files then
        let (r1, st) = write_sparse k pre use_seek offset st (take SPARSE_WRITE_SIZE buf)
        in if r1 \<le> 0 then (if ret > 0 then ret else r1, st)
           else write_loop k sparse_files pre use_seek (offset + r1) st (drop (nat r1) buf) (ret + r1)
      else
        let r1 = min (length buf) (WRITE_BUF_SIZE - length (wf_buf st));
            st = st\<lparr>wf_buf := wf_buf st @ take r1 buf\<rparr>
        in if length (wf_buf st) = WRITE_BUF_SIZE then
             let (r, st) = flush_write_file k st
             in if r < 0 then (- 1, st)
                else write_loop k sparse_files pre use_seek offset st (drop r1 buf) (ret + int r1)
           else if r1 = 0 then (if ret > 0 then ret else 0, st)
           else write_loop k sparse_files pre use_seek offset st (drop r1 buf) (ret + int r1))"
  by pat_completeness auto
termination
  by (relation "measures [\<lambda>(k, sf, pre, us, offset, st, buf, ret). length buf,
        \<lambda>(k, sf, pre, us, offset, st, buf, ret). length (wf_buf st)]")
    (auto simp: flush_write_file_def WRITE_BUF_SIZE_def SPARSE_WRITE_SIZE_def dest!: sym [of _ "flush_loop _ _ _ _"] flush_loop_empty)

declare write_loop.simps [simp del]

definition write_file :: "wsys \<Rightarrow> bool \<Rightarrow> int \<Rightarrow> bool \<Rightarrow> int \<Rightarrow> wf \<Rightarrow> byte list \<Rightarrow> int \<times> wf" where
  "write_file k sparse_files pre use_seek offset st buf
     = write_loop k sparse_files pre use_seek offset st buf 0"

subsection \<open>skip_matched and sparse_end\<close>

definition skip_matched :: "wsys \<Rightarrow> bool \<Rightarrow> int \<Rightarrow> int \<Rightarrow> wf \<Rightarrow> byte list \<Rightarrow> int \<times> wf" where
  "skip_matched k sparse_files pre offset st buf =
     (let len = int (length buf) in
      if sparse_files then
        let (r, st) = write_file k sparse_files pre True offset st buf
        in (if r \<noteq> len then - 1 else 0, st)
      else
        let (r, st) = flush_write_file k st
        in if r < 0 then (- 1, st)
           else let st = st\<lparr>wf_pos := wf_pos st + len\<rparr>
                in (if wf_pos st \<noteq> offset + len then - 1 else 0, st))"

definition sparse_end :: "wf \<Rightarrow> int \<Rightarrow> int \<times> wf" where
  "sparse_end st n =
     (if wf_seek st = 0 then (0, st)
      else (0, st\<lparr>wf_file := ftruncate (wf_file st) n, wf_seek := 0\<rparr>))"

subsection \<open>Writing a file in pieces\<close>

text \<open>
  The calls \<open>receive_data\<close> makes for a file, up to the first that falls short, and the end of
  the file.
\<close>

fun write_pieces :: "wsys \<Rightarrow> bool \<Rightarrow> int \<Rightarrow> int \<Rightarrow> wf \<Rightarrow> byte list list \<Rightarrow> wf option" where
  "write_pieces k sparse_files pre offset st [] = Some st"
| "write_pieces k sparse_files pre offset st (d # ds) =
     (let (r, st') = write_file k sparse_files pre False offset st d
      in if r \<noteq> int (length d) then None
         else write_pieces k sparse_files pre (offset + int (length d)) st' ds)"

definition finish_file :: "wsys \<Rightarrow> bool \<Rightarrow> int \<Rightarrow> wf \<Rightarrow> int \<times> wf" where
  "finish_file k sparse_files offset st =
     (if offset > 0 then if sparse_files then sparse_end st offset else flush_write_file k st
      else (0, st))"

subsection \<open>The buffered writes\<close>

lemma length_write_at: "0 \<le> p \<Longrightarrow> p \<le> int (length f) \<Longrightarrow>
  length (write_at f p d) = max (length f) (nat p + length d)"
  by (auto simp: write_at_def max_def)

lemma write_at_take: "0 \<le> p \<Longrightarrow> p \<le> int (length f) \<Longrightarrow> write_at f p d = take (nat p) f @ d @ drop (nat p + length d) f"
  using fslice_within [of 0 p f] by (simp add: write_at_def)

lemma write_at_append:
  assumes "0 \<le> p" and "p \<le> int (length f)"
  shows "write_at (write_at f p a) (p + int (length a)) b = write_at f p (a @ b)"
proof -
  have n: "nat (p + int (length a)) = nat p + length a" using assms(1) by simp
  have "p + int (length a) \<le> int (length (write_at f p a))"
    using assms by (simp add: length_write_at)
  then have "write_at (write_at f p a) (p + int (length a)) b
      = take (nat p + length a) (write_at f p a) @ b @ drop (nat p + length a + length b) (write_at f p a)"
    using assms(1) n by (subst write_at_take) auto
  moreover have "nat p \<le> length f" using assms by simp
  ultimately show ?thesis
    by (simp add: write_at_take [OF assms] n ac_simps)
qed

text \<open>The content once the buffer is written out.\<close>

definition wf_out :: "wf \<Rightarrow> byte list" where
  "wf_out st = write_at (wf_file st) (wf_pos st) (wf_buf st)"

definition wf_ok :: "wf \<Rightarrow> bool" where
  "wf_ok st \<longleftrightarrow> 0 \<le> wf_pos st \<and> wf_pos st \<le> int (length (wf_file st)) \<and> length (wf_buf st) < WRITE_BUF_SIZE"

lemma flush_loop_correct:
  assumes "0 \<le> wf_pos st" and "wf_pos st \<le> int (length (wf_file st))"
    and "flush_loop k st bp ret = (r, st')" and "r \<ge> 0"
  shows "wf_file st' = write_at (wf_file st) (wf_pos st) bp \<and> wf_pos st' = wf_pos st + int (length bp)"
  using assms
proof (induction k st bp ret arbitrary: r st' rule: flush_loop.induct)
  case (1 k st bp ret)
  show ?case
  proof (cases "bp = []")
    case True
    with "1.prems" show ?thesis by (subst (asm) flush_loop.simps) (auto simp: write_at_take)
  next
    case False
    obtain n st1 where s: "sys_write k st bp = (n, st1)" by fastforce
    with "1.prems"(3,4) False have n0: "\<not> n < 0" by (subst (asm) flush_loop.simps) (auto split: if_splits)
    then have n: "0 < n" "n \<le> int (length bp)" "wf_pos st1 = wf_pos st + n"
      "wf_file st1 = write_at (wf_file st) (wf_pos st) (take (nat n) bp)"
      using s False by (auto simp: sys_write_def Let_def Suc_le_eq split: if_splits)
    have next_: "flush_loop k st1 (drop (nat n) bp) n = (r, st')"
      using "1.prems"(3) False s n0 by (subst (asm) flush_loop.simps) simp
    have len: "int (length (take (nat n) bp)) = n" using n by simp
    have "0 \<le> wf_pos st1" "wf_pos st1 \<le> int (length (wf_file st1))"
      using n "1.prems"(1,2) len by (simp_all add: length_write_at)
    from "1.IH" [OF False s [symmetric] refl n0 this next_ "1.prems"(4)]
    have "wf_file st' = write_at (wf_file st1) (wf_pos st1) (drop (nat n) bp)"
      "wf_pos st' = wf_pos st1 + int (length (drop (nat n) bp))" by auto
    moreover have "write_at (wf_file st1) (wf_pos st1) (drop (nat n) bp) = write_at (wf_file st) (wf_pos st) bp"
      using write_at_append [OF "1.prems"(1,2), of "take (nat n) bp" "drop (nat n) bp"] n len by simp
    ultimately show ?thesis using n by (simp add: of_nat_diff)
  qed
qed

lemma flush_write_file_correct:
  assumes "0 \<le> wf_pos st" and "wf_pos st \<le> int (length (wf_file st))"
    and "flush_write_file k st = (r, st')" and "r \<ge> 0"
  shows "wf_file st' = wf_out st" and "wf_pos st' = wf_pos st + int (length (wf_buf st))" and "wf_buf st' = []"
  using flush_loop_correct [OF assms(1,2), of k "wf_buf st" 0 r st'] flush_loop_empty [of k st "wf_buf st" 0 r st'] assms
  by (auto simp: flush_write_file_def wf_out_def)

lemma flush_wf_ok:
  assumes "wf_pos st \<ge> 0" and "wf_pos st \<le> int (length (wf_file st))"
    and "flush_write_file k st = (r, st')" and "r \<ge> 0"
  shows "wf_ok st'" and "wf_out st' = wf_out st" and "wf_pos st' + int (length (wf_buf st')) = wf_pos st + int (length (wf_buf st))"
proof -
  note fl = flush_write_file_correct [OF assms]
  have le: "wf_pos st' \<le> int (length (wf_file st'))"
    unfolding fl wf_out_def using assms(1,2) by (simp add: length_write_at)
  with fl assms(1) show "wf_ok st'" by (simp add: wf_ok_def WRITE_BUF_SIZE_def)
  show "wf_pos st' + int (length (wf_buf st')) = wf_pos st + int (length (wf_buf st))"
    using fl by simp
  show "wf_out st' = wf_out st"
    using le fl assms(1) by (subst wf_out_def) (simp add: write_at_take)
qed

lemma write_loop_buffered:
  assumes "wf_ok st" and "write_loop k False pre us offset st buf ret = (r, st')" and "r \<ge> 0" and "0 \<le> ret"
  shows "wf_ok st' \<and> r = ret + int (length buf) \<and> wf_out st' = write_at (wf_file st) (wf_pos st) (wf_buf st @ buf)
    \<and> wf_pos st' + int (length (wf_buf st')) = wf_pos st + int (length (wf_buf st)) + int (length buf)"
  using assms
proof (induction "length buf" arbitrary: st buf ret rule: less_induct)
  case less
  define r1 where "r1 = min (length buf) (WRITE_BUF_SIZE - length (wf_buf st))"
  define st1 where "st1 = st\<lparr>wf_buf := wf_buf st @ take r1 buf\<rparr>"
  show ?case
  proof (cases "buf = []")
    case True
    with less.prems show ?thesis by (subst (asm) write_loop.simps) (auto simp: wf_out_def)
  next
    case False
    then have r1: "0 < r1" "r1 \<le> length buf"
      using less.prems(1) by (auto simp: r1_def wf_ok_def)
    have ok: "0 \<le> wf_pos st" "wf_pos st \<le> int (length (wf_file st))"
      using less.prems(1) by (simp_all add: wf_ok_def)
    have shorter: "length (drop r1 buf) < length buf" using r1 by simp
    show ?thesis
    proof (cases "length (wf_buf st1) = WRITE_BUF_SIZE")
      case True
      obtain fr st2 where fl: "flush_write_file k st1 = (fr, st2)" by fastforce
      have rec: "\<not> fr < 0" "write_loop k False pre us offset st2 (drop r1 buf) (ret + int r1) = (r, st')"
        using less.prems(2,3) False True fl
        by (subst (asm) write_loop.simps, auto simp: Let_def st1_def r1_def split: if_splits)+
      have ok1: "0 \<le> wf_pos st1" "wf_pos st1 \<le> int (length (wf_file st1))" using ok by (simp_all add: st1_def)
      note f2 = flush_wf_ok [OF ok1 fl] flush_write_file_correct [OF ok1 fl]
      have "wf_ok st' \<and> r = ret + int r1 + int (length (drop r1 buf))
          \<and> wf_out st' = write_at (wf_file st2) (wf_pos st2) (wf_buf st2 @ drop r1 buf)
          \<and> wf_pos st' + int (length (wf_buf st')) = wf_pos st2 + int (length (wf_buf st2)) + int (length (drop r1 buf))"
        using less.hyps [OF shorter _ rec(2) less.prems(3)] f2 rec(1) less.prems(4) by simp
      moreover have "write_at (wf_file st2) (wf_pos st2) (wf_buf st2 @ drop r1 buf)
          = write_at (wf_file st) (wf_pos st) (wf_buf st @ buf)"
        using f2(4-6) rec(1) write_at_append [OF ok1, of "wf_buf st1" "drop r1 buf"]
        by (simp add: wf_out_def) (simp add: st1_def)
      moreover have "wf_pos st2 + int (length (wf_buf st2)) = wf_pos st + int (length (wf_buf st)) + int r1"
        using f2(3) rec(1) r1 by (simp add: st1_def)
      ultimately show ?thesis using r1 by (simp add: of_nat_diff)
    next
      case no: False
      have rec: "write_loop k False pre us offset st1 (drop r1 buf) (ret + int r1) = (r, st')"
        using less.prems(2) False no r1
        by (subst (asm) write_loop.simps) (auto simp: Let_def st1_def r1_def split: if_splits)
      have "wf_ok st1" using less.prems(1) no by (auto simp: wf_ok_def st1_def r1_def)
      from less.hyps [OF shorter this rec less.prems(3)] less.prems(4) r1 show ?thesis
        by (simp add: st1_def of_nat_diff)
    qed
  qed
qed

subsection \<open>The sparse writes\<close>

text \<open>
  The content of a new file whose trailing zeros are still pending. Nothing has been written
  at or after the position.
\<close>

definition sparse_inv :: "int \<Rightarrow> byte list \<Rightarrow> wf \<Rightarrow> bool" where
  "sparse_inv pre v st \<longleftrightarrow> v = fslice (wf_file st) 0 (wf_pos st) @ replicate (nat (wf_seek st)) 0
     \<and> int (length (wf_file st)) \<le> wf_pos st \<and> 0 \<le> wf_seek st \<and> pre \<le> wf_past st
     \<and> (wf_seek st = 0 \<longrightarrow> wf_pos st = int (length (wf_file st)))"

lemma sparse_inv_length: "sparse_inv pre v st \<Longrightarrow> int (length v) = wf_pos st + wf_seek st"
  by (auto simp: sparse_inv_def)

lemma takeWhile_zeros: "takeWhile (\<lambda>b. b = (0::byte)) xs = replicate (length (takeWhile (\<lambda>b. b = 0) xs)) 0"
  by (metis (full_types) replicate_length_same set_takeWhileD)

lemma zeros_split:
  fixes buf :: "byte list"
  obtains l1 mid l2 where "buf = replicate l1 0 @ mid @ replicate l2 0"
    "l1 = length (takeWhile (\<lambda>b. b = 0) buf)" "dropWhile (\<lambda>b. b = 0) buf = mid @ replicate l2 0"
    "l2 = length (takeWhile (\<lambda>b. b = 0) (rev (dropWhile (\<lambda>b. b = 0) buf)))"
    "dropWhile (\<lambda>b. b = 0) buf \<noteq> [] \<longrightarrow> mid \<noteq> []"
proof -
  define rest where "rest = dropWhile (\<lambda>b. b = 0) buf"
  define l2 where "l2 = length (takeWhile (\<lambda>b. b = 0) (rev rest))"
  define mid where "mid = rev (dropWhile (\<lambda>b. b = 0) (rev rest))"
  have "rev rest = replicate l2 0 @ rev mid"
    using takeWhile_dropWhile_id [of "\<lambda>b. b = 0" "rev rest"] takeWhile_zeros [of "rev rest"]
    by (simp add: l2_def mid_def)
  then have r: "rest = mid @ replicate l2 0" by (metis rev_append rev_replicate rev_rev_ident)
  have ne: "mid \<noteq> []" if "rest \<noteq> []"
  proof
    assume "mid = []"
    with r that have "hd rest = 0" by (cases l2) auto
    moreover have "hd rest \<noteq> 0" using that hd_dropWhile [of "\<lambda>b. b = 0" buf] by (simp add: rest_def)
    ultimately show False by simp
  qed
  show ?thesis
    by (rule that [of "length (takeWhile (\<lambda>b. b = 0) buf)" mid l2])
      (use r ne takeWhile_zeros [of buf] takeWhile_dropWhile_id [of "\<lambda>b. b = 0" buf] in
        \<open>simp_all add: l2_def rest_def flip: rest_def\<close>)
qed

lemma fslice_pad: "int (length f) \<le> p \<Longrightarrow> 0 \<le> n \<Longrightarrow> fslice f 0 (p + n) = fslice f 0 p @ replicate (nat n) 0"
  using fslice_append [of p n f 0] fslice_past_end [of f p n] by simp

lemma write_sparse_correct:
  assumes inv: "sparse_inv pre v st" and ws: "write_sparse k pre False (int (length v)) st buf = (r, st')"
    and "0 < r" and "buf \<noteq> []" and "pre \<le> 0"
  shows "nat r \<le> length buf \<and> sparse_inv pre (v @ take (nat r) buf) st'"
proof -
  obtain l1 mid l2 where buf: "buf = replicate l1 0 @ mid @ replicate l2 0"
    "l1 = length (takeWhile (\<lambda>b. b = 0) buf)" and rest: "dropWhile (\<lambda>b. b = 0) buf = mid @ replicate l2 0"
    "l2 = length (takeWhile (\<lambda>b. b = 0) (rev (dropWhile (\<lambda>b. b = 0) buf)))"
    and ne: "dropWhile (\<lambda>b. b = 0) buf \<noteq> [] \<longrightarrow> mid \<noteq> []"
    using zeros_split .
  note i = inv [unfolded sparse_inv_def]
  have len: "length buf = l1 + length mid + l2" by (subst buf(1)) simp
  show ?thesis
  proof (cases "l1 = length buf")
    case True
    with len have "mid = []" "l2 = 0" by auto
    with buf(1) have b: "buf = replicate l1 0" by simp
    have "(r, st') = (int (length buf), st\<lparr>wf_seek := wf_seek st + int l1\<rparr>)"
      using ws True unfolding write_sparse_def Let_def buf(2) [symmetric] by auto
    moreover have "0 < l1" using b assms(4) by (cases l1) auto
    ultimately show ?thesis
      using i b by (auto simp: sparse_inv_def nat_add_distrib replicate_add)
  next
    case False
    have mid: "mid \<noteq> []" using ne rest(1) False len by (cases mid) auto
    define p1 where "p1 = wf_pos st + (wf_seek st + int l1)"
    define st1 where "st1 = st\<lparr>wf_seek := int l2, wf_pos := p1,
      wf_past := int (length v) + int (length buf) - int l2\<rparr>"
    obtain n st2 where w: "sys_write k st1 mid = (n, st2)" by fastforce
    have lm: "int (length buf) - (int l1 + int l2) = int (length mid)" using len by simp
    have d: "take (nat (int (length mid))) (mid @ replicate l2 0) = mid" by simp
    have past: "pre \<le> wf_past st" using i by simp
    have l1: "int l1 \<noteq> int (length buf)" using False by simp
    have res: "(r, st') = (if n \<le> 0 then (n, st2\<lparr>wf_seek := 0\<rparr>)
        else if n \<noteq> int (length mid) then (int l1 + n, st2\<lparr>wf_seek := 0\<rparr>) else (int (length buf), st2))"
      using ws l1 w past unfolding write_sparse_def Let_def buf(2) [symmetric]
      unfolding rest(2) [symmetric] unfolding rest(1) lm d st1_def p1_def
      by (cases st, cases "wf_seek st + int l1 = 0") (simp_all split: if_splits)
    have n: "0 < n" "n \<le> int (length mid)" "st2 = st1\<lparr>wf_file := write_at (wf_file st) p1 (take (nat n) mid), wf_pos := p1 + n\<rparr>"
      using w res assms(3) mid by (auto simp: sys_write_def Let_def st1_def Suc_le_eq split: if_splits)
    have fl: "wf_file st2 = (v @ replicate l1 0) @ take (nat n) mid"
    proof -
      have "int (length (wf_file st)) \<le> p1" using i unfolding p1_def by linarith
      then have "length (wf_file st) \<le> nat p1 + length (take (nat n) mid)" by linarith
      then show ?thesis
        using n i fslice_pad [of "wf_file st" "wf_pos st" "wf_seek st + int l1"]
        by (simp add: write_at_def p1_def nat_add_distrib replicate_add)
    qed
    have p: "wf_pos st2 = int (length (wf_file st2))"
      unfolding fl using n i by (simp add: p1_def)
    have sl: "fslice (wf_file st2) 0 (wf_pos st2) = wf_file st2"
      unfolding p using fslice_within [of 0 "int (length (wf_file st2))" "wf_file st2"] by simp
    have past2: "pre \<le> wf_past st2" using n(3) assms(5) len by (simp add: st1_def)
    show ?thesis
    proof (cases "n = int (length mid)")
      case True
      then have "r = int (length buf)" "st' = st2" using res n by auto
      then show ?thesis
        using sl p fl past2 True buf(1) n(3) by (auto simp: sparse_inv_def st1_def)
    next
      case part: False
      then have "r = int l1 + n" "st' = st2\<lparr>wf_seek := 0\<rparr>" using res n by auto
      moreover have "take (nat (int l1 + n)) buf = replicate l1 0 @ take (nat n) mid"
        using n part by (subst buf(1)) (simp add: nat_add_distrib)
      ultimately show ?thesis
        using sl p fl past2 n len by (auto simp: sparse_inv_def)
    qed
  qed
qed

lemma write_loop_sparse:
  assumes "sparse_inv pre v st" and "pre \<le> 0"
    and "write_loop k True pre False (int (length v)) st buf ret = (ret + int (length buf), st')" and "0 \<le> ret"
  shows "sparse_inv pre (v @ buf) st'"
  using assms
proof (induction "length buf" arbitrary: v st buf ret rule: less_induct)
  case less
  show ?case
  proof (cases "buf = []")
    case True
    with less.prems show ?thesis by (subst (asm) write_loop.simps) auto
  next
    case False
    let ?b = "take SPARSE_WRITE_SIZE buf"
    obtain r1 st1 where w: "write_sparse k pre False (int (length v)) st ?b = (r1, st1)" by fastforce
    have r1: "0 < r1"
    proof (rule ccontr)
      assume "\<not> 0 < r1"
      moreover have "0 < int (length buf)" using False by simp
      ultimately show False using less.prems(3,4) False w
        by (subst (asm) write_loop.simps) (auto split: if_splits)
    qed
    have ws: "nat r1 \<le> length ?b" "sparse_inv pre (v @ take (nat r1) ?b) st1"
      using write_sparse_correct [OF less.prems(1) w r1 _ less.prems(2)] False
      by (auto simp: SPARSE_WRITE_SIZE_def)
    then have t: "take (nat r1) ?b = take (nat r1) buf" by (simp add: min_absorb1)
    have l: "nat r1 \<le> length buf" using ws(1) by simp
    have rec: "write_loop k True pre False (int (length v) + r1) st1 (drop (nat r1) buf) (ret + r1)
        = (ret + int (length buf), st')"
      using less.prems(3) False w r1 by (subst (asm) write_loop.simps) simp
    have e: "int (length v) + r1 = int (length (v @ take (nat r1) buf))" using l r1 by simp
    have e2: "ret + int (length buf) = (ret + r1) + int (length (drop (nat r1) buf))"
      using l r1 by (simp add: of_nat_diff)
    have "write_loop k True pre False (int (length (v @ take (nat r1) buf))) st1 (drop (nat r1) buf) (ret + r1)
        = ((ret + r1) + int (length (drop (nat r1) buf)), st')"
      using rec unfolding e e2 .
    from less.hyps [OF _ ws(2) [unfolded t] less.prems(2) this] r1 l False less.prems(4)
    show ?thesis by simp
  qed
qed

subsection \<open>The file on disk\<close>

lemma write_pieces_buffered:
  assumes "wf_ok st" and "write_pieces k False pre offset st ds = Some st'"
  shows "wf_ok st' \<and> wf_out st' = write_at (wf_file st) (wf_pos st) (wf_buf st @ concat ds)"
  using assms
proof (induction ds arbitrary: st offset)
  case Nil
  then show ?case by (simp add: wf_out_def)
next
  case (Cons d ds)
  obtain r st1 where w: "write_file k False pre False offset st d = (r, st1)" by fastforce
  with Cons.prems(2) have r: "r = int (length d)"
    and rest: "write_pieces k False pre (offset + int (length d)) st1 ds = Some st'"
    by (auto split: if_splits)
  from write_loop_buffered [OF Cons.prems(1) w [unfolded write_file_def]] r
  have w1: "wf_ok st1" "wf_out st1 = write_at (wf_file st) (wf_pos st) (wf_buf st @ d)"
    "wf_pos st1 + int (length (wf_buf st1)) = wf_pos st + int (length (wf_buf st @ d))" by auto
  have ok: "0 \<le> wf_pos st" "wf_pos st \<le> int (length (wf_file st))" "0 \<le> wf_pos st1"
      "wf_pos st1 \<le> int (length (wf_file st1))"
    using Cons.prems(1) w1(1) by (simp_all add: wf_ok_def)
  have "write_at (wf_file st1) (wf_pos st1) (wf_buf st1 @ x) = write_at (wf_file st) (wf_pos st) (wf_buf st @ d @ x)" for x
    using write_at_append [OF ok(3,4), of "wf_buf st1" x] write_at_append [OF ok(1,2), of "wf_buf st @ d" x] w1(2,3)
    by (simp add: wf_out_def)
  with Cons.IH [OF w1(1) rest] show ?case by simp
qed


lemma write_pieces_sparse:
  assumes "sparse_inv pre v st" and "pre \<le> 0" and "write_pieces k True pre (int (length v)) st ds = Some st'"
  shows "sparse_inv pre (v @ concat ds) st'"
  using assms
proof (induction ds arbitrary: v st)
  case (Cons d ds)
  obtain r st1 where w: "write_file k True pre False (int (length v)) st d = (r, st1)" by fastforce
  with Cons.prems(3) have r: "r = int (length d)"
    and rest: "write_pieces k True pre (int (length (v @ d))) st1 ds = Some st'"
    by (auto split: if_splits)
  have "write_loop k True pre False (int (length v)) st d 0 = (0 + int (length d), st1)"
    using w r by (simp add: write_file_def)
  from write_loop_sparse [OF Cons.prems(1,2) this] have "sparse_inv pre (v @ d) st1" by simp
  from Cons.IH [OF this Cons.prems(2) rest] show ?case by simp
qed simp

theorem written_file_correct:
  assumes "wf_file st = []" and "wf_pos st = 0" and "wf_buf st = []" and "wf_seek st = 0" and "0 \<le> wf_past st"
    and "write_pieces k sparse_files 0 0 st ds = Some st'"
    and "finish_file k sparse_files (int (length (concat ds))) st' = (r, st'')" and "0 \<le> r"
  shows "wf_file st'' = concat ds"
proof (cases sparse_files)
  case True
  have "sparse_inv 0 [] st" using assms(1-5) by (simp add: sparse_inv_def)
  then have inv: "sparse_inv 0 (concat ds) st'"
    using write_pieces_sparse [of 0 "[]" st k ds st'] assms(6) True by simp
  then have i: "concat ds = fslice (wf_file st') 0 (wf_pos st') @ replicate (nat (wf_seek st')) 0"
    "int (length (wf_file st')) \<le> wf_pos st'" "0 \<le> wf_seek st'"
    "wf_seek st' = 0 \<longrightarrow> wf_pos st' = int (length (wf_file st'))"
    by (simp_all add: sparse_inv_def)
  have trunc: "ftruncate (wf_file st') (int (length (concat ds))) = concat ds"
    using fslice_pad [OF i(2,3)] sparse_inv_length [OF inv] i(1) by (simp add: ftruncate_def)
  show ?thesis
  proof (cases "wf_seek st' = 0")
    case no_seek: True
    with i have "concat ds = wf_file st'"
      using fslice_within [of 0 "int (length (wf_file st'))" "wf_file st'"] by simp
    with assms(7) True no_seek show ?thesis by (auto simp: finish_file_def sparse_end_def split: if_splits)
  next
    case False
    then have "concat ds \<noteq> []" using i(1,3) by auto
    with assms(7) True False trunc show ?thesis
      by (auto simp: finish_file_def sparse_end_def split: if_splits)
  qed
next
  case False
  have "wf_ok st" using assms(1-3) by (simp add: wf_ok_def WRITE_BUF_SIZE_def)
  with write_pieces_buffered [of st k 0 0 ds st'] assms(1-3,6) False
  have w: "wf_ok st'" "wf_out st' = concat ds" by (auto simp: write_at_def)
  show ?thesis
  proof (cases "concat ds = []")
    case True
    with w have "wf_file st' = []"
      by (auto simp: wf_ok_def wf_out_def dest: arg_cong [of _ _ length] simp: length_write_at)
    with True assms(7) show ?thesis by (simp add: finish_file_def)
  next
    case ne: False
    with assms(7) False have "flush_write_file k st' = (r, st'')" by (simp add: finish_file_def)
    with flush_write_file_correct(1) [of st' k r st''] w assms(8) show ?thesis by (simp add: wf_ok_def)
  qed
qed

subsection \<open>Without write errors the file gets written\<close>

lemma sys_write_total:
  assumes "\<forall>p n. 0 \<le> k p n" and "sys_write k st d = (r, st')"
  shows "1 \<le> r" and "d \<noteq> [] \<Longrightarrow> r \<le> int (length d)" and "wf_past st' = wf_past st"
proof -
  have "\<not> k (wf_pos st) (int (length d)) < 0" using assms(1) by (simp add: not_less)
  with assms(2) show "1 \<le> r" "d \<noteq> [] \<Longrightarrow> r \<le> int (length d)" "wf_past st' = wf_past st"
    by (cases d; auto simp: sys_write_def Let_def)+
qed

lemma flush_loop_total:
  "\<forall>p n. 0 \<le> k p n \<Longrightarrow> 0 \<le> ret \<Longrightarrow> 0 \<le> fst (flush_loop k st bp ret)"
proof (induction k st bp ret rule: flush_loop.induct)
  case (1 k st bp ret)
  show ?case
  proof (cases "bp = []")
    case True
    with "1.prems" show ?thesis by (subst flush_loop.simps) simp
  next
    case False
    obtain n st1 where s: "sys_write k st bp = (n, st1)" by fastforce
    from sys_write_total(1) [OF "1.prems"(1) this] have n: "\<not> n < 0" by simp
    with "1.IH" [OF False s [symmetric] refl n] "1.prems"(1) False s show ?thesis
      by (subst flush_loop.simps) simp
  qed
qed

lemma write_sparse_total:
  assumes "\<forall>p n. 0 \<le> k p n" and "buf \<noteq> []" and "pre \<le> wf_past st" and "pre \<le> offset"
    and "write_sparse k pre False offset st buf = (r, st')"
  shows "0 < r \<and> r \<le> int (length buf) \<and> pre \<le> wf_past st'"
proof -
  let ?l1 = "length (takeWhile (\<lambda>b. b = 0) buf)" and ?rest = "dropWhile (\<lambda>b. b = 0) buf"
  let ?l2 = "length (takeWhile (\<lambda>b. b = 0) (rev ?rest))"
  have len: "?l1 + length ?rest = length buf" by (metis length_append takeWhile_dropWhile_id)
  have l2: "?l2 \<le> length ?rest" by (metis length_rev length_takeWhile_le)
  have lt: "?l1 \<noteq> length buf \<Longrightarrow> ?l2 < length ?rest"
  proof -
    assume "?l1 \<noteq> length buf"
    then have ne: "?rest \<noteq> []" using len by (cases ?rest) auto
    then have "hd ?rest \<noteq> 0" using hd_dropWhile [of "\<lambda>b. b = 0" buf] by simp
    moreover have "hd ?rest \<in> set (rev ?rest)" using ne by simp
    ultimately have n: "takeWhile (\<lambda>b. b = 0) (rev ?rest) \<noteq> rev ?rest"
      by (auto simp: takeWhile_eq_all_conv)
    show "?l2 < length ?rest"
    proof (rule ccontr)
      assume "\<not> ?l2 < length ?rest"
      then have "take ?l2 (rev ?rest) = rev ?rest" by simp
      moreover have "takeWhile (\<lambda>b. b = 0) (rev ?rest) = take ?l2 (rev ?rest)" by (rule takeWhile_eq_take)
      ultimately show False using n by argo
    qed
  qed
  show ?thesis
  proof (cases "?l1 = length buf")
    case True
    with assms show ?thesis by (auto simp: write_sparse_def Let_def)
  next
    case False
    define d where "d = take (nat (int (length buf) - (int ?l1 + int ?l2))) ?rest"
    define st2 where "st2 = (if wf_seek st + int ?l1 \<noteq> 0
      then st\<lparr>wf_pos := wf_pos st + (wf_seek st + int ?l1), wf_seek := int ?l2, wf_past := offset + int (length buf) - int ?l2\<rparr>
      else st\<lparr>wf_seek := int ?l2, wf_past := offset + int (length buf) - int ?l2\<rparr>)"
    obtain ret st3 where sw: "sys_write k st2 d = (ret, st3)" by fastforce
    have "nat (int (length buf) - (int ?l1 + int ?l2)) \<le> length ?rest" using len by linarith
    then have d: "int (length d) = int (length buf) - (int ?l1 + int ?l2)"
      unfolding d_def length_take using lt [OF False] len by linarith
    then have "0 < int (length d)" using lt [OF False] len by linarith
    then have d0: "d \<noteq> []" by simp
    note sw' = sys_write_total [OF assms(1) sw]
    have "pre \<le> wf_past st2" using assms(4) l2 len by (simp add: st2_def)
    then show ?thesis
      using assms(3,5) False sw sw' d d0 len
      by (auto simp: write_sparse_def Let_def st2_def simp flip: d_def split: if_splits)
  qed
qed

lemma write_loop_sparse_total:
  assumes "\<forall>p n. 0 \<le> k p n" and "pre \<le> wf_past st" and "pre \<le> offset" and "0 \<le> ret"
    and "write_loop k True pre False offset st buf ret = (r, st')"
  shows "r = ret + int (length buf) \<and> pre \<le> wf_past st'"
  using assms(2-5)
proof (induction "length buf" arbitrary: offset st buf ret rule: less_induct)
  case less
  show ?case
  proof (cases "buf = []")
    case True
    with less.prems show ?thesis by (subst (asm) write_loop.simps) auto
  next
    case False
    let ?b = "take SPARSE_WRITE_SIZE buf"
    obtain r1 st1 where w: "write_sparse k pre False offset st ?b = (r1, st1)" by fastforce
    have "?b \<noteq> []" using False by (simp add: SPARSE_WRITE_SIZE_def)
    from write_sparse_total [OF assms(1) this less.prems(1,2) w]
    have r1: "0 < r1" "r1 \<le> int (length buf)" "pre \<le> wf_past st1" by auto
    have rest: "write_loop k True pre False (offset + r1) st1 (drop (nat r1) buf) (ret + r1) = (r, st')"
      using less.prems(4) False w r1(1) by (subst (asm) write_loop.simps) simp
    have "length (drop (nat r1) buf) < length buf" using r1(1) False by simp
    from less.hyps [OF this r1(3) _ _ rest] less.prems(2,3) r1 show ?thesis by (simp add: of_nat_diff)
  qed
qed

lemma write_loop_buffered_total:
  assumes "\<forall>p n. 0 \<le> k p n" and "wf_ok st" and "0 \<le> ret"
  shows "0 \<le> fst (write_loop k False pre us offset st buf ret)"
  using assms(2,3)
proof (induction "length buf" arbitrary: st buf ret rule: less_induct)
  case less
  define r1 where "r1 = min (length buf) (WRITE_BUF_SIZE - length (wf_buf st))"
  define st1 where "st1 = st\<lparr>wf_buf := wf_buf st @ take r1 buf\<rparr>"
  have ok: "0 \<le> wf_pos st1" "wf_pos st1 \<le> int (length (wf_file st1))"
    using less.prems(1) by (simp_all add: wf_ok_def st1_def)
  show ?case
  proof (cases "buf = []")
    case True
    with less.prems show ?thesis by (subst write_loop.simps) simp
  next
    case False
    then have r1: "0 < r1" "length (drop r1 buf) < length buf"
      using less.prems(1) by (auto simp: r1_def wf_ok_def)
    show ?thesis
    proof (cases "length (wf_buf st1) = WRITE_BUF_SIZE")
      case True
      obtain fr st2 where fl: "flush_write_file k st1 = (fr, st2)" by fastforce
      have "0 \<le> fr" using flush_loop_total [OF assms(1), of 0 st1 "wf_buf st1"] fl by (simp add: flush_write_file_def)
      with flush_wf_ok [OF ok fl] have "wf_ok st2" "\<not> fr < 0" by simp_all
      moreover have "length (wf_buf st) + min (length buf) r1 = WRITE_BUF_SIZE" using True by (simp add: st1_def)
      ultimately show ?thesis
        using less.hyps [OF r1(2), of st2 "ret + int r1"] less.prems(2) False True fl
        by (subst write_loop.simps) (simp add: Let_def flip: r1_def st1_def)
    next
      case no: False
      have "wf_ok st1" using less.prems(1) no by (auto simp: wf_ok_def st1_def r1_def)
      moreover have "length (wf_buf st) + min (length buf) r1 \<noteq> WRITE_BUF_SIZE" using no by (simp add: st1_def)
      ultimately show ?thesis
        using less.hyps [OF r1(2), of st1 "ret + int r1"] less.prems(2) False no r1(1)
        by (subst write_loop.simps) (simp add: Let_def flip: r1_def st1_def)
    qed
  qed
qed

lemma write_pieces_total:
  assumes "\<forall>p n. 0 \<le> k p n" and "if sparse_files then pre \<le> wf_past st \<and> pre \<le> offset else wf_ok st"
  shows "\<exists>st'. write_pieces k sparse_files pre offset st ds = Some st'"
  using assms(2)
proof (induction ds arbitrary: offset st)
  case (Cons d ds)
  obtain r st1 where w: "write_loop k sparse_files pre False offset st d 0 = (r, st1)" by fastforce
  have "r = int (length d) \<and> (if sparse_files then pre \<le> wf_past st1 \<and> pre \<le> offset + int (length d) else wf_ok st1)"
  proof (cases sparse_files)
    case True
    with write_loop_sparse_total [OF assms(1), of pre st offset 0 d r st1] w Cons.prems show ?thesis by simp
  next
    case False
    with write_loop_buffered_total [OF assms(1), of st 0 pre False offset d] w Cons.prems have "0 \<le> r" by simp
    with write_loop_buffered [of st k pre False offset d 0 r st1] w Cons.prems False show ?thesis by simp
  qed
  with Cons.IH [of st1 "offset + int (length d)"] w show ?case by (simp add: write_file_def)
qed simp

theorem file_gets_written:
  assumes "wf_file st = []" and "wf_pos st = 0" and "wf_buf st = []" and "wf_seek st = 0" and "0 \<le> wf_past st"
    and "\<forall>p n. 0 \<le> k p n"
  shows "\<exists>st' r st''. write_pieces k sparse_files 0 0 st ds = Some st'
    \<and> finish_file k sparse_files (int (length (concat ds))) st' = (r, st'') \<and> 0 \<le> r \<and> wf_file st'' = concat ds"
proof -
  have "if sparse_files then 0 \<le> wf_past st \<and> (0 :: int) \<le> 0 else wf_ok st"
    using assms(1-5) by (simp add: wf_ok_def WRITE_BUF_SIZE_def)
  from write_pieces_total [OF assms(6) this, of ds] obtain st' where
    st': "write_pieces k sparse_files 0 0 st ds = Some st'" by blast
  obtain r st'' where fin: "finish_file k sparse_files (int (length (concat ds))) st' = (r, st'')" by fastforce
  have "0 \<le> fst (finish_file k sparse_files n st')" for n
    using flush_loop_total [OF assms(6), of 0 st' "wf_buf st'"]
    by (simp add: finish_file_def sparse_end_def flush_write_file_def)
  with fin have "0 \<le> r" by (metis fst_conv)
  with written_file_correct [OF assms(1-5) st' fin] st' fin show ?thesis by blast
qed

subsection \<open>sparse_past_write between two files\<close>

text \<open>
  \<open>sparse_past_write\<close> keeps its value from the file before. With a target of four bytes
  (\<open>preallocated_len\<close> 4) and the value 9 left over, the zeros of the new data are seeked over
  and the old bytes stay; with the value 0 they are punched out.
\<close>

definition four_ones :: "int \<Rightarrow> wf" where
  "four_ones past = \<lparr>wf_file = [1, 1, 1, 1], wf_pos = 0, wf_buf = [], wf_seek = 0, wf_past = past\<rparr>"

lemma stale_sparse_past_write:
  "wf_file (snd (write_file (\<lambda>p n. n) True 4 False 0 (four_ones 9) [0, 0, 7])) = [1, 1, 7, 1]
    \<and> wf_file (snd (write_file (\<lambda>p n. n) True 4 False 0 (four_ones 0) [0, 0, 7])) = [0, 0, 7, 1]"
  by code_simp

end
