(* ===== verification/Md5.thy ===== *)
theory Md5
  imports Wire MapFile
begin

text \<open>
  The MD5 routines of lib/md5.c over the context of lib/mdigest.h, and their specification:
  the digest of a message is the fold of the compression over the blocks of the padded message,
  whatever the pieces the message arrives in.
\<close>

subsection \<open>Contexts and blocks\<close>

definition CSUM_CHUNK :: nat where "CSUM_CHUNK = 64"

type_synonym regs = "uint32 \<times> uint32 \<times> uint32 \<times> uint32"

text \<open>\<open>totalN\<close> counts bytes in md5.c and bits in mdfour.c.\<close>

record md_context =
  md_regs :: regs
  totalN :: uint32
  totalN2 :: uint32
  md_buffer :: "byte list"

definition md_init :: regs where
  "md_init = (0x67452301, 0xEFCDAB89, 0x98BADCFE, 0x10325476)"

definition regs_add :: "regs \<Rightarrow> regs \<Rightarrow> regs" where
  "regs_add = (\<lambda>(a, b, c, d) (a', b', c', d'). (a + a', b + b', c + c', d + d'))"

definition regs_bytes :: "regs \<Rightarrow> byte list" where
  "regs_bytes = (\<lambda>(a, b, c, d). SIVAL a @ SIVAL b @ SIVAL c @ SIVAL d)"

text \<open>The compression of every whole block of a message.\<close>

function blocks :: "(regs \<Rightarrow> byte list \<Rightarrow> regs) \<Rightarrow> regs \<Rightarrow> byte list \<Rightarrow> regs" where
  "blocks p r bs = (if length bs < CSUM_CHUNK then r
     else blocks p (p r (take CSUM_CHUNK bs)) (drop CSUM_CHUNK bs))"
  by pat_completeness auto
termination
  by (relation "measure (\<lambda>(p, r, bs). length bs)") (auto simp: CSUM_CHUNK_def)

declare blocks.simps [simp del]

subsection \<open>md5_process\<close>

definition md5_S :: "uint32 \<Rightarrow> nat \<Rightarrow> uint32" where
  "md5_S x n = push_bit n x OR drop_bit (32 - n) (x AND 0xFFFFFFFF)"

text \<open>
  One use of the macro \<open>P\<close>; the registers change places from one use to the next.
\<close>

definition md5_P :: "(uint32 \<Rightarrow> uint32 \<Rightarrow> uint32 \<Rightarrow> uint32) \<Rightarrow> (nat \<Rightarrow> uint32) \<Rightarrow> regs \<Rightarrow> nat \<times> nat \<times> uint32
    \<Rightarrow> regs" where
  "md5_P F X = (\<lambda>(a, b, c, d) (k, s, t). (d, md5_S (a + (F b c d + X k + t)) s + b, b, c))"

definition md5_F1 :: "uint32 \<Rightarrow> uint32 \<Rightarrow> uint32 \<Rightarrow> uint32" where
  "md5_F1 x y z = z XOR (x AND (y XOR z))"

definition md5_F2 :: "uint32 \<Rightarrow> uint32 \<Rightarrow> uint32 \<Rightarrow> uint32" where
  "md5_F2 x y z = y XOR (z AND (x XOR y))"

definition md5_F3 :: "uint32 \<Rightarrow> uint32 \<Rightarrow> uint32 \<Rightarrow> uint32" where
  "md5_F3 x y z = (x XOR y) XOR z"

definition md5_F4 :: "uint32 \<Rightarrow> uint32 \<Rightarrow> uint32 \<Rightarrow> uint32" where
  "md5_F4 x y z = y XOR (x OR NOT z)"

definition md5_round1 :: "(nat \<times> nat \<times> uint32) list" where
  "md5_round1 = [
     (0, 7, 0xD76AA478), (1, 12, 0xE8C7B756), (2, 17, 0x242070DB), (3, 22, 0xC1BDCEEE),
     (4, 7, 0xF57C0FAF), (5, 12, 0x4787C62A), (6, 17, 0xA8304613), (7, 22, 0xFD469501),
     (8, 7, 0x698098D8), (9, 12, 0x8B44F7AF), (10, 17, 0xFFFF5BB1), (11, 22, 0x895CD7BE),
     (12, 7, 0x6B901122), (13, 12, 0xFD987193), (14, 17, 0xA679438E), (15, 22, 0x49B40821)]"

definition md5_round2 :: "(nat \<times> nat \<times> uint32) list" where
  "md5_round2 = [
     (1, 5, 0xF61E2562), (6, 9, 0xC040B340), (11, 14, 0x265E5A51), (0, 20, 0xE9B6C7AA),
     (5, 5, 0xD62F105D), (10, 9, 0x02441453), (15, 14, 0xD8A1E681), (4, 20, 0xE7D3FBC8),
     (9, 5, 0x21E1CDE6), (14, 9, 0xC33707D6), (3, 14, 0xF4D50D87), (8, 20, 0x455A14ED),
     (13, 5, 0xA9E3E905), (2, 9, 0xFCEFA3F8), (7, 14, 0x676F02D9), (12, 20, 0x8D2A4C8A)]"

definition md5_round3 :: "(nat \<times> nat \<times> uint32) list" where
  "md5_round3 = [
     (5, 4, 0xFFFA3942), (8, 11, 0x8771F681), (11, 16, 0x6D9D6122), (14, 23, 0xFDE5380C),
     (1, 4, 0xA4BEEA44), (4, 11, 0x4BDECFA9), (7, 16, 0xF6BB4B60), (10, 23, 0xBEBFBC70),
     (13, 4, 0x289B7EC6), (0, 11, 0xEAA127FA), (3, 16, 0xD4EF3085), (6, 23, 0x04881D05),
     (9, 4, 0xD9D4D039), (12, 11, 0xE6DB99E5), (15, 16, 0x1FA27CF8), (2, 23, 0xC4AC5665)]"

definition md5_round4 :: "(nat \<times> nat \<times> uint32) list" where
  "md5_round4 = [
     (0, 6, 0xF4292244), (7, 10, 0x432AFF97), (14, 15, 0xAB9423A7), (5, 21, 0xFC93A039),
     (12, 6, 0x655B59C3), (3, 10, 0x8F0CCC92), (10, 15, 0xFFEFF47D), (1, 21, 0x85845DD1),
     (8, 6, 0x6FA87E4F), (15, 10, 0xFE2CE6E0), (6, 15, 0xA3014314), (13, 21, 0x4E0811A1),
     (4, 6, 0xF7537E82), (11, 10, 0xBD3AF235), (2, 15, 0x2AD7D2BB), (9, 21, 0xEB86D391)]"

definition md5_process :: "regs \<Rightarrow> byte list \<Rightarrow> regs" where
  "md5_process r data =
     (let X = (\<lambda>k. IVAL data (4 * k));
          r1 = foldl (md5_P md5_F1 X) r md5_round1;
          r2 = foldl (md5_P md5_F2 X) r1 md5_round2;
          r3 = foldl (md5_P md5_F3 X) r2 md5_round3;
          r4 = foldl (md5_P md5_F4 X) r3 md5_round4
      in regs_add r r4)"

subsection \<open>md5_begin, md5_update, md5_result\<close>

definition md5_begin :: "md_context \<Rightarrow> md_context" where
  "md5_begin ctx = ctx\<lparr>md_regs := md_init, totalN := 0, totalN2 := 0\<rparr>"

function md5_chunks :: "md_context \<Rightarrow> byte list \<Rightarrow> md_context \<times> byte list" where
  "md5_chunks ctx input =
     (if CSUM_CHUNK \<le> length input then
        md5_chunks (ctx\<lparr>md_regs := md5_process (md_regs ctx) (take CSUM_CHUNK input)\<rparr>)
          (drop CSUM_CHUNK input)
      else (ctx, input))"
  by pat_completeness auto
termination
  by (relation "measure (\<lambda>(ctx, input). length input)") (auto simp: CSUM_CHUNK_def)

declare md5_chunks.simps [simp del]

definition md5_update :: "md_context \<Rightarrow> byte list \<Rightarrow> md_context" where
  "md5_update ctx input =
     (if input = [] then ctx
      else
        let len = word_of_nat (length input) :: uint32;
            left = unat (totalN ctx AND 0x3F);
            fill = CSUM_CHUNK - left;
            n = (totalN ctx + len) AND 0xFFFFFFFF;
            ctx = ctx\<lparr>totalN := n, totalN2 := (if n < len then totalN2 ctx + 1 else totalN2 ctx)\<rparr>;
            (ctx, input, left) =
              (if left \<noteq> 0 \<and> fill \<le> length input then
                 let buf = overwrite (md_buffer ctx) left (take fill input)
                 in (ctx\<lparr>md_buffer := buf, md_regs := md5_process (md_regs ctx) buf\<rparr>, drop fill input, 0)
               else (ctx, input, left));
            (ctx, input) = md5_chunks ctx input
        in if input \<noteq> [] then ctx\<lparr>md_buffer := overwrite (md_buffer ctx) left input\<rparr> else ctx)"

definition md5_padding :: "byte list" where
  "md5_padding = 0x80 # replicate 63 0"

definition md5_result :: "md_context \<Rightarrow> byte list" where
  "md5_result ctx =
     (let high = drop_bit 29 (totalN ctx) OR push_bit 3 (totalN2 ctx);
          low = push_bit 3 (totalN ctx);
          msglen = SIVAL low @ SIVAL high;
          last = unat (totalN ctx AND 0x3F);
          padn = (if last < 56 then 56 - last else 120 - last);
          ctx = md5_update ctx (take padn md5_padding);
          ctx = md5_update ctx msglen
      in regs_bytes (md_regs ctx))"

definition get_md5 :: "byte list \<Rightarrow> byte list" where
  "get_md5 input =
     md5_result (md5_update (md5_begin \<lparr>md_regs = md_init, totalN = 0, totalN2 = 0,
       md_buffer = replicate 64 0\<rparr>) input)"

subsection \<open>Blocks\<close>

lemma blocks_short: "length bs < CSUM_CHUNK \<Longrightarrow> blocks p r bs = r"
  by (subst blocks.simps) simp

lemma blocks_block: "length b = CSUM_CHUNK \<Longrightarrow> blocks p r (b @ bs) = blocks p (p r b) bs"
  by (subst blocks.simps) simp

lemma blocks_append:
  assumes "CSUM_CHUNK dvd length a"
  shows "blocks p r (a @ b) = blocks p (blocks p r a) b"
  using assms
proof (induction "length a" arbitrary: a r rule: less_induct)
  case less
  show ?case
  proof (cases "a = []")
    case True
    then show ?thesis by (simp add: blocks_short CSUM_CHUNK_def)
  next
    case False
    then have l: "CSUM_CHUNK \<le> length a" using less.prems by (simp add: dvd_imp_le)
    define x y where "x = take CSUM_CHUNK a" and "y = drop CSUM_CHUNK a"
    have xy: "a = x @ y" "length x = CSUM_CHUNK" "length y < length a" "CSUM_CHUNK dvd length y"
      using l less.prems False by (simp_all add: x_def y_def CSUM_CHUNK_def)
    then show ?thesis using less.hyps [OF xy(3,4)] by (simp add: blocks_block)
  qed
qed

lemma md5_chunks_blocks:
  "md5_chunks ctx input = (ctx\<lparr>md_regs := blocks md5_process (md_regs ctx) input\<rparr>,
     drop (CSUM_CHUNK * (length input div CSUM_CHUNK)) input)"
proof (induction ctx input rule: md5_chunks.induct)
  case (1 ctx input)
  show ?case
  proof (cases "CSUM_CHUNK \<le> length input")
    case False
    then show ?thesis by (subst md5_chunks.simps) (simp add: blocks_short)
  next
    case True
    have d: "length input div CSUM_CHUNK = Suc ((length input - CSUM_CHUNK) div CSUM_CHUNK)"
      using True by (simp add: CSUM_CHUNK_def le_div_geq)
    have b: "blocks md5_process (md_regs ctx) input
        = blocks md5_process (md5_process (md_regs ctx) (take CSUM_CHUNK input)) (drop CSUM_CHUNK input)"
      using True by (subst blocks.simps) simp
    show ?thesis
      using "1.IH" [OF True] True by (subst md5_chunks.simps) (simp add: b d add.commute)
  qed
qed

subsection \<open>The context describes the message\<close>

text \<open>A message is its whole blocks and a tail in the buffer.\<close>

definition whole :: "byte list \<Rightarrow> byte list" where
  "whole msg = take (CSUM_CHUNK * (length msg div CSUM_CHUNK)) msg"

definition tail :: "byte list \<Rightarrow> byte list" where
  "tail msg = drop (CSUM_CHUNK * (length msg div CSUM_CHUNK)) msg"

lemma whole_tail: "msg = whole msg @ tail msg" "CSUM_CHUNK dvd length (whole msg)"
  "length (tail msg) = length msg mod CSUM_CHUNK" "length (tail msg) < CSUM_CHUNK"
proof -
  show "msg = whole msg @ tail msg" by (simp add: whole_def tail_def)
  have "CSUM_CHUNK * (length msg div CSUM_CHUNK) \<le> length msg" by (rule times_div_less_eq_dividend)
  then show "CSUM_CHUNK dvd length (whole msg)" by (simp add: whole_def)
  show "length (tail msg) = length msg mod CSUM_CHUNK"
    by (simp add: tail_def minus_mult_div_eq_mod)
  then show "length (tail msg) < CSUM_CHUNK" by (simp add: CSUM_CHUNK_def)
qed

lemma whole_tail_append:
  assumes "CSUM_CHUNK dvd length a" and "length t < CSUM_CHUNK"
  shows "whole (a @ t) = a" and "tail (a @ t) = t"
proof -
  have "length (a @ t) div CSUM_CHUNK = length a div CSUM_CHUNK"
    using assms by (auto elim!: dvdE)
  then have "CSUM_CHUNK * (length (a @ t) div CSUM_CHUNK) = length a"
    using assms(1) by simp
  then show "whole (a @ t) = a" "tail (a @ t) = t" by (simp_all add: whole_def tail_def)
qed

lemma tail_append: "CSUM_CHUNK dvd length a \<Longrightarrow> tail (a @ b) = tail b"
  using whole_tail_append(2) [of "a @ whole b" "tail b"] whole_tail [of b] by simp

definition md5_inv :: "md_context \<Rightarrow> byte list \<Rightarrow> bool" where
  "md5_inv ctx msg \<longleftrightarrow> md_regs ctx = blocks md5_process md_init msg
     \<and> length (md_buffer ctx) = CSUM_CHUNK \<and> take (length (tail msg)) (md_buffer ctx) = tail msg
     \<and> totalN ctx = word_of_nat (length msg) \<and> totalN2 ctx = word_of_nat (length msg div 2 ^ 32)"

lemma blocks_whole: "blocks p r msg = blocks p r (whole msg)"
  using blocks_append [OF whole_tail(2) [of msg], of p r "tail msg"] whole_tail(1,4) [of msg]
  by (simp add: blocks_short)

lemma unat_and_3F: "unat (word_of_nat n AND (0x3F :: uint32)) = n mod 64"
proof -
  have "(0x3F :: uint32) = mask 6" by (simp add: mask_eq_exp_minus_1)
  then have "word_of_nat n AND (0x3F :: uint32) = take_bit 6 (word_of_nat n)" by (simp only: take_bit_eq_mask)
  then have "unat (word_of_nat n AND (0x3F :: uint32)) = take_bit 6 (unat (word_of_nat n :: uint32))"
    by (simp only: unsigned_take_bit_eq)
  then show ?thesis
    by (simp add: unat_of_nat take_bit_eq_mod mod_mod_cancel)
qed

text \<open>The carry from the low to the high half of the count.\<close>

lemma count_carry:
  fixes n l :: nat
  assumes "l < 2 ^ 32"
  shows "(word_of_nat n + word_of_nat l) AND (0xFFFFFFFF :: uint32) = word_of_nat (n + l)"
    and "(if (word_of_nat (n + l) :: uint32) < word_of_nat l then word_of_nat (n div 2 ^ 32) + 1
          else word_of_nat (n div 2 ^ 32)) = (word_of_nat ((n + l) div 2 ^ 32) :: uint32)"
proof -
  have "(0xFFFFFFFF :: uint32) = - 1" by simp
  then show "(word_of_nat n + word_of_nat l) AND (0xFFFFFFFF :: uint32) = word_of_nat (n + l)"
    by (simp only: and.right_neutral of_nat_add)
  define q m where "q = n div 2 ^ 32" and "m = n mod 2 ^ 32"
  have n: "n = q * 2 ^ 32 + m" "m < 2 ^ 32" by (simp_all add: q_def m_def)
  have "(word_of_nat (n + l) :: uint32) < word_of_nat l \<longleftrightarrow> (n + l) mod 2 ^ 32 < l"
    using assms by (simp add: word_less_nat_alt unat_of_nat del: of_nat_add)
  also have "(n + l) mod 2 ^ 32 = (m + l) mod 2 ^ 32" by (simp add: m_def mod_add_left_eq)
  also have "(m + l) mod 2 ^ 32 < l \<longleftrightarrow> 2 ^ 32 \<le> m + l"
    using n(2) assms by (cases "2 ^ 32 \<le> m + l"; simp add: mod_if; arith)
  finally have c: "(word_of_nat (n + l) :: uint32) < word_of_nat l \<longleftrightarrow> 2 ^ 32 \<le> m + l" .
  have "(n + l) div 2 ^ 32 = q + (m + l) div 2 ^ 32" by (simp add: n(1) add.assoc)
  also have "(m + l) div 2 ^ 32 = (if 2 ^ 32 \<le> m + l then 1 else 0)"
    using n(2) assms by (auto simp: div_if)
  finally show "(if (word_of_nat (n + l) :: uint32) < word_of_nat l then word_of_nat (n div 2 ^ 32) + 1
          else word_of_nat (n div 2 ^ 32)) = (word_of_nat ((n + l) div 2 ^ 32) :: uint32)"
    using c by (simp add: q_def add.commute)
qed

theorem md5_update_inv:
  assumes inv: "md5_inv ctx msg" and len: "length input < 2 ^ 32"
  shows "md5_inv (md5_update ctx input) (msg @ input)"
proof (cases "input = []")
  case True
  with inv show ?thesis by (simp add: md5_update_def)
next
  case False
  define a t where "a = whole msg" and "t = tail msg"
  note wt = whole_tail [of msg, folded a_def t_def]
  let ?N = "word_of_nat (length (msg @ input)) :: uint32"
  let ?N2 = "word_of_nat (length (msg @ input) div 2 ^ 32) :: uint32"
  have i: "md_regs ctx = blocks md5_process md_init a" "length (md_buffer ctx) = CSUM_CHUNK"
    "take (length t) (md_buffer ctx) = t" "totalN ctx = word_of_nat (length msg)"
    "totalN2 ctx = word_of_nat (length msg div 2 ^ 32)"
    using inv blocks_whole [of md5_process md_init msg] by (simp_all add: md5_inv_def a_def t_def)
  have left: "unat (totalN ctx AND 0x3F) = length t"
    using wt(3) unat_and_3F [of "length msg"] by (simp add: i(4) CSUM_CHUNK_def)
  have cnt: "(totalN ctx + word_of_nat (length input)) AND 0xFFFFFFFF = ?N"
    "(if ?N < word_of_nat (length input) then totalN2 ctx + 1 else totalN2 ctx) = ?N2"
    using count_carry [OF len, of "length msg"] by (simp_all only: i(4,5) length_append)
  show ?thesis
  proof (cases "length t \<noteq> 0 \<and> CSUM_CHUNK - length t \<le> length input")
    case True
    define x y where "x = take (CSUM_CHUNK - length t) input" and "y = drop (CSUM_CHUNK - length t) input"
    have xy: "input = x @ y" "length (t @ x) = CSUM_CHUNK"
      using True wt(4) by (simp_all add: x_def y_def)
    have buf: "overwrite (md_buffer ctx) (length t) x = t @ x"
      using i(2,3) xy(2) by (simp add: overwrite_def)
    let ?r = "blocks md5_process (md5_process (md_regs ctx) (t @ x)) y"
    have upd: "md5_update ctx input = ctx\<lparr>totalN := ?N, totalN2 := ?N2, md_regs := ?r,
        md_buffer := (if tail y \<noteq> [] then overwrite (t @ x) 0 (tail y) else t @ x)\<rparr>"
      using False True unfolding md5_update_def Let_def left cnt
      by (simp add: buf md5_chunks_blocks flip: x_def y_def tail_def)
    have msg: "msg @ input = (a @ (t @ x)) @ y" using wt(1) xy(1) by simp
    have dv: "CSUM_CHUNK dvd length (a @ (t @ x))" using wt(2) xy(2) by simp
    have "?r = blocks md5_process md_init (msg @ input)"
      unfolding msg blocks_append [OF dv] blocks_append [OF wt(2)] using xy(2) blocks_block [of "t @ x" md5_process _ "[]"]
      by (simp add: i(1) blocks_short CSUM_CHUNK_def)
    moreover have "tail (msg @ input) = tail y" unfolding msg by (rule tail_append [OF dv])
    moreover have "length (tail y) < CSUM_CHUNK" by (rule whole_tail(4))
    ultimately show ?thesis
      using xy(2) by (auto simp: md5_inv_def upd overwrite_def)
  next
    case no: False
    have msg: "msg @ input = a @ (t @ input)" using wt(1) by simp
    have upd: "md5_update ctx input = ctx\<lparr>totalN := ?N, totalN2 := ?N2,
        md_regs := blocks md5_process (md_regs ctx) input,
        md_buffer := (if tail input \<noteq> [] then overwrite (md_buffer ctx) (length t) (tail input) else md_buffer ctx)\<rparr>"
      using False no unfolding md5_update_def Let_def left cnt
      by (auto simp: md5_chunks_blocks simp flip: tail_def)
    show ?thesis
    proof (cases "t = []")
      case True
      then show ?thesis
        using wt(2) whole_tail(4) [of input] i blocks_append [OF wt(2)] tail_append [OF wt(2)] unfolding md5_inv_def upd msg
        by (auto simp: overwrite_def)
    next
      case ne: False
      then have short: "length (t @ input) < CSUM_CHUNK" using no wt(4) by auto
      have "tail input = input" "tail (a @ t @ input) = t @ input"
        using whole_tail_append [of "[]" input] whole_tail_append [OF wt(2) short] short by simp_all
      moreover have "blocks md5_process (md_regs ctx) input = md_regs ctx"
        using short by (simp add: blocks_short)
      moreover have "blocks md5_process md_init (a @ t @ input) = blocks md5_process md_init a"
        using short by (simp add: blocks_append [OF wt(2)] blocks_short)
      ultimately show ?thesis
        using short i unfolding md5_inv_def upd msg by (auto simp: overwrite_def)
    qed
  qed
qed
subsection \<open>The digest\<close>

definition md_pad :: "byte list \<Rightarrow> byte list" where
  "md_pad msg =
     (let last = length msg mod 64
      in 0x80 # replicate ((if last < 56 then 56 else 120) - last - 1) 0
         @ SIVAL64 (word_of_nat (8 * length msg)))"

definition md5 :: "byte list \<Rightarrow> byte list" where
  "md5 msg = regs_bytes (blocks md5_process md_init (msg @ md_pad msg))"

lemma bit_word_of_nat: "bit (word_of_nat n :: 'a::len word) k \<longleftrightarrow> k < LENGTH('a) \<and> bit n k"
  by transfer (auto simp: bit_take_bit_iff bit_of_nat_iff_bit)

lemma count_bits:
  "SIVAL (push_bit 3 (word_of_nat n)) @ SIVAL (drop_bit 29 (word_of_nat n) OR push_bit 3 (word_of_nat (n div 2 ^ 32)))
    = SIVAL64 (word_of_nat (8 * n))"
proof -
  have e: "8 * n = push_bit 3 n" "n div 2 ^ 32 = drop_bit 32 n"
    by (simp_all add: push_bit_eq_mult drop_bit_eq_div)
  have "push_bit 3 (word_of_nat n :: uint32) = ucast (word_of_nat (push_bit 3 n) :: uint64)"
    by (rule bit_word_eqI) (auto simp: bit_word_of_nat bit_simps)
  moreover have "drop_bit 29 (word_of_nat n :: uint32) OR push_bit 3 (word_of_nat (drop_bit 32 n))
      = ucast (drop_bit 32 (word_of_nat (push_bit 3 n) :: uint64))"
  proof (rule bit_word_eqI)
    fix k assume "k < LENGTH(32)"
    then have k: "k < 32" by simp
    show "bit (drop_bit 29 (word_of_nat n :: uint32) OR push_bit 3 (word_of_nat (drop_bit 32 n))) k
        = bit (ucast (drop_bit 32 (word_of_nat (push_bit 3 n) :: uint64)) :: uint32) k"
    proof (cases "k < 3")
      case True
      then show ?thesis using k by (simp add: bit_word_of_nat bit_simps)
    next
      case False
      then obtain j where "k = 3 + j" by (metis add.commute le_Suc_ex not_le)
      then show ?thesis using k by (simp add: bit_word_of_nat bit_simps add.commute)
    qed
  qed
  ultimately show ?thesis unfolding e SIVAL64_def by simp
qed

theorem md5_result_spec:
  assumes inv: "md5_inv ctx msg"
  shows "md5_result ctx = md5 msg"
proof -
  let ?last = "length msg mod 64"
  let ?padn = "if ?last < 56 then 56 - ?last else 120 - ?last"
  have lastl: "?last < 64" by simp
  have n: "totalN ctx = word_of_nat (length msg)" "totalN2 ctx = word_of_nat (length msg div 2 ^ 32)"
    using inv by (simp_all add: md5_inv_def)
  have take_pad: "take ?padn md5_padding = 0x80 # replicate ((if ?last < 56 then 56 else 120) - ?last - 1) 0"
    using lastl by (cases "?last < 56") (auto simp: md5_padding_def take_Cons' min_def)
  have pad: "take ?padn md5_padding @ SIVAL64 (word_of_nat (8 * length msg)) = md_pad msg"
    unfolding take_pad by (simp add: md_pad_def Let_def)
  have "length (take ?padn md5_padding) \<le> length md5_padding" by simp
  also have "length md5_padding < 2 ^ 32" by (simp add: md5_padding_def)
  finally have l: "length (take ?padn md5_padding) < 2 ^ 32" .
  let ?c1 = "md5_update ctx (take ?padn md5_padding)"
  let ?c2 = "md5_update ?c1 (SIVAL64 (word_of_nat (8 * length msg)))"
  have "md5_inv ?c1 (msg @ take ?padn md5_padding)" by (rule md5_update_inv [OF inv l])
  then have "md5_inv ?c2 ((msg @ take ?padn md5_padding) @ SIVAL64 (word_of_nat (8 * length msg)))"
    by (rule md5_update_inv) simp
  then have "md_regs ?c2 = blocks md5_process md_init (msg @ md_pad msg)"
    by (simp add: md5_inv_def pad del: append_assoc) (simp flip: pad)
  then show ?thesis
    unfolding md5_result_def Let_def n unat_and_3F count_bits md5_def by (rule arg_cong)
qed

lemma md5_begin_inv: "length (md_buffer ctx) = CSUM_CHUNK \<Longrightarrow> md5_inv (md5_begin ctx) []"
  by (simp add: md5_inv_def md5_begin_def blocks_short CSUM_CHUNK_def tail_def)

lemma get_md5_spec: "length input < 2 ^ 32 \<Longrightarrow> get_md5 input = md5 input"
  using md5_result_spec [OF md5_update_inv [OF md5_begin_inv]] by (simp add: get_md5_def CSUM_CHUNK_def)

text \<open>A test vector of RFC 1321.\<close>

lemma md5_abc: "get_md5 (bytes_of ''abc'') = [0x90, 0x01, 0x50, 0x98, 0x3C, 0xD2, 0x4F, 0xB0, 0xD6, 0x96,
    0x3F, 0x7D, 0x28, 0xE1, 0x7F, 0x72]"
  by code_simp

end
