(* ===== verification/Md4.thy ===== *)
theory Md4
  imports Md5
begin

text \<open>
  The MD4 routines of lib/mdfour.c. An update whose length is not a multiple of 64 pads and
  ends the message; an update of length 0 does so on its own. Before protocol 27 the high half
  of the bit count is left out of the padding.
\<close>

subsection \<open>mdfour64\<close>

definition md4_F :: "uint32 \<Rightarrow> uint32 \<Rightarrow> uint32 \<Rightarrow> uint32" where
  "md4_F x y z = (x AND y) OR (NOT x AND z)"

definition md4_G :: "uint32 \<Rightarrow> uint32 \<Rightarrow> uint32 \<Rightarrow> uint32" where
  "md4_G x y z = (x AND y) OR (x AND z) OR (y AND z)"

definition md4_H :: "uint32 \<Rightarrow> uint32 \<Rightarrow> uint32 \<Rightarrow> uint32" where
  "md4_H x y z = (x XOR y) XOR z"

definition lshift :: "uint32 \<Rightarrow> nat \<Rightarrow> uint32" where
  "lshift x s = (push_bit s x AND 0xffffffff) OR (drop_bit (32 - s) x AND 0xffffffff)"

text \<open>
  The macros \<open>ROUND1\<close>, \<open>ROUND2\<close> and \<open>ROUND3\<close> with their function and constant; the
  registers change places from one use to the next.
\<close>

definition md4_ROUND :: "(uint32 \<Rightarrow> uint32 \<Rightarrow> uint32 \<Rightarrow> uint32) \<Rightarrow> uint32 \<Rightarrow> (nat \<Rightarrow> uint32) \<Rightarrow> regs
    \<Rightarrow> nat \<times> nat \<Rightarrow> regs" where
  "md4_ROUND f t M = (\<lambda>(a, b, c, d) (k, s). (d, lshift ((a + f b c d + M k + t) AND 0xffffffff) s, b, c))"

definition md4_round1 :: "(nat \<times> nat) list" where
  "md4_round1 = [(0, 3), (1, 7), (2, 11), (3, 19), (4, 3), (5, 7), (6, 11), (7, 19),
     (8, 3), (9, 7), (10, 11), (11, 19), (12, 3), (13, 7), (14, 11), (15, 19)]"

definition md4_round2 :: "(nat \<times> nat) list" where
  "md4_round2 = [(0, 3), (4, 5), (8, 9), (12, 13), (1, 3), (5, 5), (9, 9), (13, 13),
     (2, 3), (6, 5), (10, 9), (14, 13), (3, 3), (7, 5), (11, 9), (15, 13)]"

definition md4_round3 :: "(nat \<times> nat) list" where
  "md4_round3 = [(0, 3), (8, 9), (4, 11), (12, 15), (2, 3), (10, 9), (6, 11), (14, 15),
     (1, 3), (9, 9), (5, 11), (13, 15), (3, 3), (11, 9), (7, 11), (15, 15)]"

definition mdfour64 :: "regs \<Rightarrow> (nat \<Rightarrow> uint32) \<Rightarrow> regs" where
  "mdfour64 r M =
     (let r1 = foldl (md4_ROUND md4_F 0 M) r md4_round1;
          r2 = foldl (md4_ROUND md4_G 0x5A827999 M) r1 md4_round2;
          r3 = foldl (md4_ROUND md4_H 0x6ED9EBA1 M) r2 md4_round3
      in regs_add r3 r)"

definition copy64 :: "byte list \<Rightarrow> nat \<Rightarrow> uint32" where
  "copy64 b i = push_bit 24 (ucast (b ! (i * 4 + 3))) OR push_bit 16 (ucast (b ! (i * 4 + 2)))
     OR push_bit 8 (ucast (b ! (i * 4 + 1))) OR push_bit 0 (ucast (b ! (i * 4 + 0)))"

definition copy4 :: "uint32 \<Rightarrow> byte list" where
  "copy4 x = [ucast (x AND 0xFF), ucast (drop_bit 8 x AND 0xFF), ucast (drop_bit 16 x AND 0xFF),
     ucast (drop_bit 24 x AND 0xFF)]"

definition md4_block :: "regs \<Rightarrow> byte list \<Rightarrow> regs" where
  "md4_block r b = mdfour64 r (copy64 b)"

subsection \<open>mdfour_begin, mdfour_tail, mdfour_update, mdfour_result\<close>

definition mdfour_begin :: "md_context \<Rightarrow> md_context" where
  "mdfour_begin md = md\<lparr>md_regs := (0x67452301, 0xefcdab89, 0x98badcfe, 0x10325476),
     totalN := 0, totalN2 := 0\<rparr>"

definition mdfour_tail :: "int \<Rightarrow> md_context \<Rightarrow> byte list \<Rightarrow> md_context" where
  "mdfour_tail protocol_version m inp =
     (let len = word_of_nat (length inp) :: uint32;
          n = totalN m + push_bit 3 len;
          n2 = (if n < push_bit 3 len then totalN2 m + 1 else totalN2 m) + drop_bit 29 len;
          m = m\<lparr>totalN := n, totalN2 := n2\<rparr>;
          buf = inp @ [0x80] @ replicate (128 - length inp - 1) 0
      in if length inp \<le> 55 then
           let buf = overwrite buf 56 (copy4 n);
               buf = (if protocol_version \<ge> 27 then overwrite buf 60 (copy4 n2) else buf)
           in m\<lparr>md_regs := md4_block (md_regs m) (take 64 buf)\<rparr>
         else
           let buf = overwrite buf 120 (copy4 n);
               buf = (if protocol_version \<ge> 27 then overwrite buf 124 (copy4 n2) else buf)
           in m\<lparr>md_regs := md4_block (md4_block (md_regs m) (take 64 buf)) (drop 64 buf)\<rparr>)"

function mdfour_chunks :: "md_context \<Rightarrow> byte list \<Rightarrow> md_context \<times> byte list" where
  "mdfour_chunks m inp =
     (if 64 \<le> length inp then
        let n = totalN m + 512
        in mdfour_chunks (m\<lparr>md_regs := md4_block (md_regs m) (take 64 inp), totalN := n,
             totalN2 := (if n < 512 then totalN2 m + 1 else totalN2 m)\<rparr>) (drop 64 inp)
      else (m, inp))"
  by pat_completeness auto
termination
  by (relation "measure (\<lambda>(m, inp). length inp)") auto

declare mdfour_chunks.simps [simp del]

definition mdfour_update :: "int \<Rightarrow> md_context \<Rightarrow> byte list \<Rightarrow> md_context" where
  "mdfour_update protocol_version m inp =
     (let m = (if inp = [] then mdfour_tail protocol_version m inp else m);
          (m, inp) = mdfour_chunks m inp
      in if inp \<noteq> [] then mdfour_tail protocol_version m inp else m)"

definition mdfour_result :: "md_context \<Rightarrow> byte list" where
  "mdfour_result md = (case md_regs md of (a, b, c, d) \<Rightarrow> copy4 a @ copy4 b @ copy4 c @ copy4 d)"

definition mdfour :: "int \<Rightarrow> byte list \<Rightarrow> byte list" where
  "mdfour protocol_version inp =
     mdfour_result (mdfour_update protocol_version (mdfour_begin \<lparr>md_regs = md_init, totalN = 0,
       totalN2 = 0, md_buffer = replicate 64 0\<rparr>) inp)"

subsection \<open>Specification\<close>

definition md4_pad :: "int \<Rightarrow> byte list \<Rightarrow> byte list" where
  "md4_pad protocol_version msg =
     (let last = length msg mod 64; bits = SIVAL64 (word_of_nat (8 * length msg))
      in 0x80 # replicate ((if last < 56 then 56 else 120) - last - 1) 0
         @ (if protocol_version \<ge> 27 then bits else take 4 bits @ [0, 0, 0, 0]))"

definition md4 :: "int \<Rightarrow> byte list \<Rightarrow> byte list" where
  "md4 protocol_version msg = regs_bytes (blocks md4_block md_init (msg @ md4_pad protocol_version msg))"

lemma copy4_SIVAL: "copy4 x = SIVAL x"
proof -
  have e: "(0xFF :: uint32) = mask 8" by (simp add: mask_eq_exp_minus_1)
  have "(ucast (w AND 0xFF) :: byte) = ucast w" for w :: uint32
    unfolding e by (rule bit_word_eqI) (auto simp: bit_simps)
  then show ?thesis by (simp add: copy4_def SIVAL_def)
qed

lemma mdfour_result_bytes: "mdfour_result m = regs_bytes (md_regs m)"
  by (simp add: mdfour_result_def regs_bytes_def copy4_SIVAL split: prod.splits)

text \<open>The whole blocks of a message so far, with their bits counted.\<close>

definition md4_inv :: "md_context \<Rightarrow> byte list \<Rightarrow> bool" where
  "md4_inv m msg \<longleftrightarrow> md_regs m = blocks md4_block md_init msg \<and> 64 dvd length msg
     \<and> totalN m = word_of_nat (8 * length msg) \<and> totalN2 m = word_of_nat (8 * length msg div 2 ^ 32)"

lemma mdfour_begin_inv: "md4_inv (mdfour_begin m) []"
  by (simp add: md4_inv_def mdfour_begin_def blocks_short CSUM_CHUNK_def md_init_def)

lemma bits_carry:
  assumes "l < 2 ^ 32"
  shows "(word_of_nat n + word_of_nat l :: uint32) = word_of_nat (n + l)"
    and "(if (word_of_nat n + word_of_nat l :: uint32) < word_of_nat l then word_of_nat (n div 2 ^ 32) + 1
          else word_of_nat (n div 2 ^ 32)) = (word_of_nat ((n + l) div 2 ^ 32) :: uint32)"
  using count_carry(2) [OF assms, of n] by (simp_all del: of_nat_add flip: of_nat_add)

lemma whole_block:
  assumes "length x = CSUM_CHUNK"
  shows "whole (x @ y) = x @ whole y" and "tail (x @ y) = tail y"
proof -
  have d: "CSUM_CHUNK dvd length (x @ whole y)" using assms whole_tail(2) [of y] by simp
  have "x @ y = (x @ whole y) @ tail y" using whole_tail(1) [of y] by simp
  then show "whole (x @ y) = x @ whole y" "tail (x @ y) = tail y"
    using whole_tail_append [OF d whole_tail(4) [of y]] by simp_all
qed

lemma md4_inv_block:
  assumes inv: "md4_inv m msg" and x: "length x = 64"
  shows "md4_inv (m\<lparr>md_regs := md4_block (md_regs m) x, totalN := totalN m + 512,
    totalN2 := (if totalN m + 512 < 512 then totalN2 m + 1 else totalN2 m)\<rparr>) (msg @ x)"
proof -
  define N where "N = 8 * length msg"
  have n: "totalN m = word_of_nat N" "totalN2 m = word_of_nat (N div 2 ^ 32)"
    "64 dvd length msg" "md_regs m = blocks md4_block md_init msg"
    using inv unfolding md4_inv_def N_def by blast+
  have N': "8 * length (msg @ x) = N + 512" using x by (simp add: N_def)
  have "(512 :: uint32) = word_of_nat 512" by simp
  note c = bits_carry [of 512 N, folded this]
  have r: "blocks md4_block md_init (msg @ x) = md4_block (blocks md4_block md_init msg) x"
    using n(3) x blocks_append [of msg md4_block md_init x] blocks_block [of x md4_block _ "[]"]
    by (simp add: CSUM_CHUNK_def blocks_short)
  have "64 dvd length (msg @ x)" using n(3) x by simp
  with r c show ?thesis
    unfolding md4_inv_def N' by (simp only: md_context.simps n if_P if_not_P simp_thms) simp
qed

lemma mdfour_chunks_inv:
  assumes "md4_inv m msg"
  shows "\<exists>m'. mdfour_chunks m inp = (m', tail inp) \<and> md4_inv m' (msg @ whole inp) \<and> md_buffer m' = md_buffer m"
  using assms
proof (induction m inp arbitrary: msg rule: mdfour_chunks.induct)
  case (1 m inp)
  show ?case
  proof (cases "64 \<le> length inp")
    case False
    then show ?thesis using "1.prems" whole_tail_append [of "[]" inp]
      by (subst mdfour_chunks.simps) (simp add: CSUM_CHUNK_def)
  next
    case True
    define x y where "x = take 64 inp" and "y = drop 64 inp"
    have xy: "inp = x @ y" "length x = 64" using True by (simp_all add: x_def y_def)
    define m1 where "m1 = m\<lparr>md_regs := md4_block (md_regs m) x, totalN := totalN m + 512,
      totalN2 := (if totalN m + 512 < 512 then totalN2 m + 1 else totalN2 m)\<rparr>"
    have "md4_inv m1 (msg @ x)" unfolding m1_def by (rule md4_inv_block [OF "1.prems" xy(2)])
    note IH = "1.IH" [OF True refl, folded x_def y_def, folded m1_def, OF this]
    have wt: "whole inp = x @ whole y" "tail inp = tail y"
      using whole_block [of x y] xy by (simp_all add: CSUM_CHUNK_def)
    obtain m' where "mdfour_chunks m1 y = (m', tail y)" "md4_inv m' ((msg @ x) @ whole y)"
        "md_buffer m' = md_buffer m1"
      using IH by blast
    then show ?thesis
      using True wt by (subst mdfour_chunks.simps) (simp add: Let_def m1_def flip: x_def y_def)
  qed
qed

subsection \<open>The tail\<close>

lemma SIVAL64_halves: "SIVAL64 (word_of_nat n) = SIVAL (word_of_nat n) @ SIVAL (word_of_nat (n div 2 ^ 32))"
proof -
  have "n div 2 ^ 32 = drop_bit 32 n" by (simp add: drop_bit_eq_div)
  moreover have "ucast (word_of_nat n :: uint64) = (word_of_nat n :: uint32)"
    by (rule bit_word_eqI) (auto simp: bit_word_of_nat bit_simps)
  moreover have "ucast (drop_bit 32 (word_of_nat n :: uint64)) = (word_of_nat (drop_bit 32 n) :: uint32)"
    by (rule bit_word_eqI) (auto simp: bit_word_of_nat bit_simps)
  ultimately show ?thesis by (simp only: SIVAL64_def)
qed

lemma tail_counts:
  assumes "md4_inv m a" and "length t < 64"
  shows "totalN m + push_bit 3 (word_of_nat (length t)) = word_of_nat (8 * length (a @ t))"
    and "(if totalN m + push_bit 3 (word_of_nat (length t)) < push_bit 3 (word_of_nat (length t))
          then totalN2 m + 1 else totalN2 m) + drop_bit 29 (word_of_nat (length t))
        = word_of_nat (8 * length (a @ t) div 2 ^ 32)"
proof -
  obtain N where N: "N = 8 * length a" by simp
  have n: "totalN m = word_of_nat N" "totalN2 m = word_of_nat (N div 2 ^ 32)"
    using assms(1) unfolding md4_inv_def N by blast+
  have l: "8 * length t < 2 ^ 32" using assms(2) by simp
  have p: "push_bit 3 (word_of_nat (length t)) = (word_of_nat (8 * length t) :: uint32)"
    by (simp add: push_bit_eq_mult)
  have d: "drop_bit 29 (word_of_nat (length t) :: uint32) = 0"
  proof (rule bit_word_eqI)
    fix k assume "k < LENGTH(32)"
    have "\<not> bit (length t) (29 + k)"
    proof
      assume b: "bit (length t) (29 + k)"
      then have "2 ^ (29 + k) \<le> length t" by (metis bit_iff_odd div_less even_zero not_less)
      moreover have "(2 :: nat) ^ 29 \<le> 2 ^ (29 + k)" by (intro power_increasing) auto
      ultimately show False using assms(2) by simp
    qed
    then show "bit (drop_bit 29 (word_of_nat (length t) :: uint32)) k = bit 0 k"
      by (simp add: bit_word_of_nat bit_simps)
  qed
  have s: "8 * length (a @ t) = N + 8 * length t" by (simp add: N)
  note c = bits_carry [OF l, of N]
  show "totalN m + push_bit 3 (word_of_nat (length t)) = word_of_nat (8 * length (a @ t))"
    unfolding s p n by (rule c(1))
  show "(if totalN m + push_bit 3 (word_of_nat (length t)) < push_bit 3 (word_of_nat (length t))
          then totalN2 m + 1 else totalN2 m) + drop_bit 29 (word_of_nat (length t))
        = word_of_nat (8 * length (a @ t) div 2 ^ 32)"
    unfolding s p n d using c(2) by (simp only: add_0_right)
qed

lemma take_length_append: "length a = n \<Longrightarrow> take n (a @ b) = a"
  by simp

lemma blocks_one: "length b = 64 \<Longrightarrow> blocks p r b = p r b"
  using blocks_block [of b p r "[]"] by (simp add: CSUM_CHUNK_def blocks_short)

lemma blocks_two: "length b = 128 \<Longrightarrow> blocks p r b = p (p r (take 64 b)) (drop 64 b)"
  using blocks_block [of "take 64 b" p r "drop 64 b"] blocks_one [of "drop 64 b" p "p r (take 64 b)"]
  by (simp add: CSUM_CHUNK_def)

theorem mdfour_tail_spec:
  assumes inv: "md4_inv m a" and t: "length t < 64"
  shows "mdfour_result (mdfour_tail pv m t) = md4 pv (a @ t)"
proof -
  define n :: uint32 where "n = word_of_nat (8 * length (a @ t))"
  define n2 :: uint32 where "n2 = word_of_nat (8 * length (a @ t) div 2 ^ 32)"
  note tc = tail_counts [OF inv t, folded n_def n2_def]
  note tc = tc(1) tc(2) [unfolded tc(1)]
  let ?z = "(if length t < 56 then 56 else 120) :: nat"
  define hi where "hi = (if pv \<ge> 27 then SIVAL n2 else [0, 0, 0, 0])"
  have inv': "md_regs m = blocks md4_block md_init a" "64 dvd length a"
    using inv by (simp_all add: md4_inv_def)
  have last: "length (a @ t) mod 64 = length t" using inv'(2) t by (auto elim!: dvdE)
  have pad: "md4_pad pv (a @ t) = 0x80 # replicate (?z - length t - 1) 0 @ SIVAL n @ hi"
    by (simp only: md4_pad_def Let_def last SIVAL64_halves flip: n_def n2_def) (simp add: hi_def)
  have lh: "length hi = 4" by (simp add: hi_def)
  have zeros: "replicate 4 (0::byte) = [0, 0, 0, 0]" by (simp add: numeral_eq_Suc)
  let ?buf = "t @ [0x80] @ replicate (128 - length t - 1) 0"
  have ow: "(if pv \<ge> 27 then overwrite (overwrite ?buf z (copy4 n)) z' (copy4 n2) else overwrite ?buf z (copy4 n))
      = t @ 0x80 # replicate (z - length t - 1) 0 @ SIVAL n @ hi @ replicate (128 - (z + 8)) 0"
    if "length t < z" "z \<le> 120" "z' = z + 4" for z z'
  proof -
    have b: "?buf = (t @ 0x80 # replicate (z - length t - 1) 0) @ replicate 4 0 @ replicate 4 0 @ replicate (128 - (z + 8)) 0"
      using that by (simp flip: replicate_add)
    have l: "length (t @ 0x80 # replicate (z - length t - 1) (0::byte)) = z" using that by simp
    have e: "overwrite (p @ q @ r) (length p) c = p @ c @ r" if "length q = length c" for p q r c :: "byte list"
      using that by (simp add: overwrite_def)
    let ?t = "t @ 0x80 # replicate (z - length t - 1) 0"
    have "overwrite ?buf z (copy4 n) = ?t @ SIVAL n @ replicate 4 0 @ replicate (128 - (z + 8)) 0"
      unfolding b using e [of "replicate 4 0" "SIVAL n" ?t] unfolding l by (simp add: copy4_SIVAL)
    moreover have "overwrite (?t @ SIVAL n @ replicate 4 0 @ replicate (128 - (z + 8)) 0) (z + 4) (SIVAL n2)
      = ?t @ SIVAL n @ SIVAL n2 @ replicate (128 - (z + 8)) 0"
    proof -
      have "length (?t @ SIVAL n) = z + 4" using l by simp
      with e [of "replicate 4 0" "SIVAL n2" "?t @ SIVAL n" "replicate (128 - (z + 8)) 0"]
      show ?thesis by (simp only: length_replicate length_SIVAL append_assoc simp_thms)
    qed
    ultimately show ?thesis unfolding that(3) by (simp add: hi_def copy4_SIVAL zeros)
  qed
  let ?p = "t @ 0x80 # replicate (?z - length t - 1) 0 @ SIVAL n @ hi"
  have lp: "length ?p = ?z + 8" using t lh by auto
  have "md_regs (mdfour_tail pv m t) = blocks md4_block (md_regs m) ?p"
  proof (cases "length t \<le> 55")
    case True
    then have z: "?z = 56" by simp
    have l: "length ?p = 64" using lp z by simp
    then have "blocks md4_block (md_regs m) ?p = md4_block (md_regs m) ?p" by (rule blocks_one)
    moreover have "md_regs (mdfour_tail pv m t) = md4_block (md_regs m) (take 64 (?p @ replicate 64 0))"
    proof -
      have o: "(if pv \<ge> 27 then overwrite (overwrite ?buf 56 (copy4 n)) 60 (copy4 n2) else overwrite ?buf 56 (copy4 n))
          = ?p @ replicate 64 0" using ow [of 56 60] True z by simp
      show ?thesis unfolding mdfour_tail_def Let_def tc if_P [OF True] o by simp
    qed
    moreover have "take 64 (?p @ replicate 64 0) = ?p"
      by (rule take_length_append [OF l])
    ultimately show ?thesis by (simp only:)
  next
    case False
    then have z: "?z = 120" by simp
    have l: "length ?p = 128" using lp z by simp
    have "md_regs (mdfour_tail pv m t) = md4_block (md4_block (md_regs m) (take 64 ?p)) (drop 64 ?p)"
    proof -
      have o: "(if pv \<ge> 27 then overwrite (overwrite ?buf 120 (copy4 n)) 124 (copy4 n2) else overwrite ?buf 120 (copy4 n))
          = ?p" using ow [of 120 124] t z by simp
      show ?thesis unfolding mdfour_tail_def Let_def tc if_not_P [OF False] o by simp
    qed
    also have "\<dots> = blocks md4_block (md_regs m) ?p" by (rule blocks_two [OF l, symmetric])
    finally show ?thesis .
  qed
  then show ?thesis
    using blocks_append [of a md4_block md_init ?p] inv' pad
    by (simp add: mdfour_result_bytes md4_def CSUM_CHUNK_def)
qed

subsection \<open>Updates\<close>

theorem mdfour_update_whole:
  assumes "md4_inv m msg" and "64 dvd length inp" and "inp \<noteq> []"
  shows "md4_inv (mdfour_update pv m inp) (msg @ inp) \<and> md_buffer (mdfour_update pv m inp) = md_buffer m"
proof -
  have w: "whole inp = inp" "tail inp = []"
    using assms(2) whole_tail_append [of inp "[]"] by (simp_all add: CSUM_CHUNK_def)
  from mdfour_chunks_inv [OF assms(1), of inp] w show ?thesis
    using assms(3) by (auto simp: mdfour_update_def)
qed

theorem mdfour_update_last:
  assumes "md4_inv m msg" and "length inp < 64"
  shows "mdfour_result (mdfour_update pv m inp) = md4 pv (msg @ inp)"
proof (cases "inp = []")
  case True
  then have "mdfour_update pv m inp = mdfour_tail pv m inp"
    by (simp add: mdfour_update_def mdfour_chunks.simps)
  with mdfour_tail_spec [OF assms] show ?thesis by simp
next
  case False
  with assms(2) have "mdfour_update pv m inp = mdfour_tail pv m inp"
    by (simp add: mdfour_update_def mdfour_chunks.simps)
  with mdfour_tail_spec [OF assms] show ?thesis by simp
qed

lemma md4_buffer [simp]: "md4_inv (m\<lparr>md_buffer := b\<rparr>) msg = md4_inv m msg"
  by (simp add: md4_inv_def)

end
