(* ===== verification/Digest.thy ===== *)
theory Digest
  imports Md4 Sums FileStore
begin

text \<open>
  The choice of a checksum and its uses (checksum.c): the strong checksum of a block, the
  checksum of a whole file, and the accumulator behind \<open>sum_init\<close>, \<open>sum_update\<close> and
  \<open>sum_end\<close>. The accumulator's result depends on the data alone, not on the pieces it came in.
\<close>

subsection \<open>Checksum types\<close>

definition CSUM_NONE :: int where "CSUM_NONE = 0"
definition CSUM_MD4_ARCHAIC :: int where "CSUM_MD4_ARCHAIC = 1"
definition CSUM_MD4_BUSTED :: int where "CSUM_MD4_BUSTED = 2"
definition CSUM_MD4_OLD :: int where "CSUM_MD4_OLD = 3"
definition CSUM_MD4 :: int where "CSUM_MD4 = 4"
definition CSUM_MD5 :: int where "CSUM_MD5 = 5"

lemmas csum_types = CSUM_NONE_def CSUM_MD4_ARCHAIC_def CSUM_MD4_BUSTED_def CSUM_MD4_OLD_def
  CSUM_MD4_def CSUM_MD5_def

definition ascii_lower :: "char \<Rightarrow> char" where
  "ascii_lower c = (if 65 \<le> (of_char c :: nat) \<and> (of_char c :: nat) \<le> 90
     then char_of ((of_char c :: nat) + 32) else c)"

text \<open>\<open>strncasecmp(name, word, n) == 0\<close>.\<close>

definition strncaseeq :: "string \<Rightarrow> string \<Rightarrow> nat \<Rightarrow> bool" where
  "strncaseeq a b n \<longleftrightarrow> map ascii_lower (take n a) = map ascii_lower (take n b)"

definition parse_csum_name :: "int \<Rightarrow> string option \<Rightarrow> int \<Rightarrow> exit_code + int" where
  "parse_csum_name protocol_version name len =
     (let len = (case name of Some s \<Rightarrow> if len < 0 then int (length s) else len | None \<Rightarrow> len);
          is = (\<lambda>n w. case name of None \<Rightarrow> False | Some s \<Rightarrow> len = n \<and> strncaseeq s w (nat n))
      in if name = None \<or> is 4 ''auto'' then
           Inr (if protocol_version \<ge> 30 then CSUM_MD5
                else if protocol_version \<ge> 27 then CSUM_MD4_OLD
                else if protocol_version \<ge> 21 then CSUM_MD4_BUSTED
                else CSUM_MD4_ARCHAIC)
         else if is 3 ''md4'' then Inr CSUM_MD4
         else if is 3 ''md5'' then Inr CSUM_MD5
         else if is 4 ''none'' then Inr CSUM_NONE
         else Inl RERR_UNSUPPORTED)"

text \<open>The result: whether \<open>--whole-file\<close> must be on, \<open>xfersum_type\<close>, \<open>checksum_type\<close>.\<close>

definition parse_checksum_choice :: "int \<Rightarrow> string option \<Rightarrow> exit_code + (bool \<times> int \<times> int)" where
  "parse_checksum_choice protocol_version choice =
     (case choice of
        None \<Rightarrow> map_sum id (\<lambda>t. (t = CSUM_NONE, t, t)) (parse_csum_name protocol_version None (- 1))
      | Some s \<Rightarrow>
          (case strchr (CHR '','') s of
             None \<Rightarrow> map_sum id (\<lambda>t. (t = CSUM_NONE, t, t)) (parse_csum_name protocol_version (Some s) (- 1))
           | Some r \<Rightarrow>
               (case parse_csum_name protocol_version (Some s) (int (length s - length r)) of
                  Inl e \<Rightarrow> Inl e
                | Inr x \<Rightarrow> map_sum id (\<lambda>t. (x = CSUM_NONE, x, t))
                    (parse_csum_name protocol_version (Some (tl r)) (- 1)))))"

definition csum_len_for_type :: "int \<Rightarrow> bool \<Rightarrow> exit_code + int" where
  "csum_len_for_type cst flist_csum =
     (if cst = CSUM_NONE then Inr 1
      else if cst = CSUM_MD4_ARCHAIC then Inr (if flist_csum then 2 else 16)
      else if cst = CSUM_MD4 \<or> cst = CSUM_MD4_OLD \<or> cst = CSUM_MD4_BUSTED then Inr 16
      else if cst = CSUM_MD5 then Inr 16
      else Inl RERR_UNSUPPORTED)"

definition canonical_checksum :: "int \<Rightarrow> int" where
  "canonical_checksum csum_type = (if csum_type \<ge> CSUM_MD4 then 1 else 0)"

definition is_md4 :: "int \<Rightarrow> bool" where
  "is_md4 cst \<longleftrightarrow> cst \<in> {CSUM_MD4, CSUM_MD4_OLD, CSUM_MD4_BUSTED, CSUM_MD4_ARCHAIC}"

subsection \<open>get_checksum2\<close>

text \<open>The loop over the chunks, and what is left.\<close>

function mdfour_feed :: "int \<Rightarrow> md_context \<Rightarrow> byte list \<Rightarrow> md_context \<times> byte list" where
  "mdfour_feed pv m b =
     (if CSUM_CHUNK \<le> length b
      then mdfour_feed pv (mdfour_update pv m (take CSUM_CHUNK b)) (drop CSUM_CHUNK b)
      else (m, b))"
  by pat_completeness auto
termination
  by (relation "measure (\<lambda>(pv, m, b). length b)") (auto simp: CSUM_CHUNK_def)

declare mdfour_feed.simps [simp del]

definition get_checksum2 :: "int \<Rightarrow> int \<Rightarrow> bool \<Rightarrow> int \<Rightarrow> md_context \<Rightarrow> byte list \<Rightarrow> exit_code + byte list" where
  "get_checksum2 protocol_version xfersum_type proper_seed_order checksum_seed m buf =
     (let seedbuf = (if checksum_seed \<noteq> 0 then SIVAL (word_of_int checksum_seed) else [])
      in if xfersum_type = CSUM_MD5 then
           Inr (md5_result
             (if proper_seed_order then md5_update (md5_update (md5_begin m) seedbuf) buf
              else md5_update (md5_update (md5_begin m) buf) seedbuf))
         else if is_md4 xfersum_type then
           (let (m, rest) = mdfour_feed protocol_version (mdfour_begin m) (buf @ seedbuf)
            in Inr (mdfour_result (if rest \<noteq> [] \<or> xfersum_type > CSUM_MD4_BUSTED
                    then mdfour_update protocol_version m rest else m)))
         else Inl RERR_UNSUPPORTED)"

subsection \<open>file_checksum\<close>

text \<open>The loop over the window, with the update of the digest in use.\<close>

function sum_window :: "os \<Rightarrow> byte list \<Rightarrow> (md_context \<Rightarrow> byte list \<Rightarrow> md_context) \<Rightarrow> int \<Rightarrow> int
    \<Rightarrow> md_context \<Rightarrow> map_struct \<Rightarrow> exit_code + (md_context \<times> map_struct \<times> int)" where
  "sum_window w f upd len i m buf =
     (if i + int CSUM_CHUNK \<le> len then
        (case map_ptr w f buf i (int CSUM_CHUNK) of
           Inl e \<Rightarrow> Inl e
         | Inr (d, buf) \<Rightarrow> sum_window w f upd len (i + int CSUM_CHUNK) (upd m (opt_bytes d)) buf)
      else Inr (m, buf, i))"
  by pat_completeness auto
termination
  by (relation "measure (\<lambda>(w, f, upd, len, i, m, buf). nat (len - i))") (auto simp: CSUM_CHUNK_def)

declare sum_window.simps [simp del]

definition file_checksum :: "os \<Rightarrow> int \<Rightarrow> int \<Rightarrow> md_context \<Rightarrow> byte list option \<Rightarrow> exit_code + byte list" where
  "file_checksum w protocol_version checksum_type m file =
     (case file of
        None \<Rightarrow> Inr (replicate 16 0)
      | Some f \<Rightarrow>
          let len = int (length f); buf = map_file len MAX_MAP_SIZE (int CSUM_CHUNK)
          in if checksum_type = CSUM_MD5 then
               (case sum_window w f md5_update len 0 (md5_begin m) buf of
                  Inl e \<Rightarrow> Inl e
                | Inr (m, buf, i) \<Rightarrow>
                    let remainder = len - i
                    in if remainder > 0
                       then map_sum id (\<lambda>(d, buf). md5_result (md5_update m (opt_bytes d))) (map_ptr w f buf i remainder)
                       else Inr (md5_result m))
             else if is_md4 checksum_type then
               (case sum_window w f (mdfour_update protocol_version) len 0 (mdfour_begin m) buf of
                  Inl e \<Rightarrow> Inl e
                | Inr (m, buf, i) \<Rightarrow>
                    let remainder = len - i
                    in if remainder > 0 \<or> checksum_type > CSUM_MD4_BUSTED
                       then map_sum id (\<lambda>(d, buf). mdfour_result (mdfour_update protocol_version m (opt_bytes d)))
                              (map_ptr w f buf i remainder)
                       else Inr (mdfour_result m))
             else Inl RERR_UNSUPPORTED)"

subsection \<open>sum_init, sum_update, sum_end\<close>

record sum_acc =
  cursum_type :: int
  sumresidue :: nat
  sum_md :: md_context

definition sum_update :: "int \<Rightarrow> sum_acc \<Rightarrow> byte list \<Rightarrow> exit_code + sum_acc" where
  "sum_update protocol_version a p =
     (let md = sum_md a; r = sumresidue a in
      if cursum_type a = CSUM_MD5 then Inr (a\<lparr>sum_md := md5_update md p\<rparr>)
      else if is_md4 (cursum_type a) then
        if length p + r < CSUM_CHUNK then
          Inr (a\<lparr>sum_md := md\<lparr>md_buffer := overwrite (md_buffer md) r p\<rparr>, sumresidue := r + length p\<rparr>)
        else
          let (md, p) =
                (if r \<noteq> 0 then
                   let i = CSUM_CHUNK - r;
                       md = md\<lparr>md_buffer := overwrite (md_buffer md) r (take i p)\<rparr>
                   in (mdfour_update protocol_version md (md_buffer md), drop i p)
                 else (md, p));
              (md, p) = mdfour_feed protocol_version md p;
              md = (if p \<noteq> [] then md\<lparr>md_buffer := overwrite (md_buffer md) 0 p\<rparr> else md)
          in Inr (a\<lparr>sum_md := md, sumresidue := length p\<rparr>)
      else if cursum_type a = CSUM_NONE then Inr a
      else Inl RERR_UNSUPPORTED)"

definition sum_init :: "int \<Rightarrow> sum_acc \<Rightarrow> int \<Rightarrow> int \<Rightarrow> exit_code + sum_acc" where
  "sum_init protocol_version a csum_type seed =
     (case (if csum_type < 0 then parse_csum_name protocol_version None 0 else Inr csum_type) of
        Inl e \<Rightarrow> Inl e
      | Inr t \<Rightarrow>
          let a = a\<lparr>cursum_type := t\<rparr> in
          if t = CSUM_MD5 then Inr (a\<lparr>sum_md := md5_begin (sum_md a)\<rparr>)
          else if t = CSUM_MD4 then Inr (a\<lparr>sum_md := mdfour_begin (sum_md a), sumresidue := 0\<rparr>)
          else if is_md4 t then
            sum_update protocol_version (a\<lparr>sum_md := mdfour_begin (sum_md a), sumresidue := 0\<rparr>)
              (SIVAL (word_of_int seed))
          else if t = CSUM_NONE then Inr a
          else Inl RERR_UNSUPPORTED)"

text \<open>The bytes of the checksum that count: as many as \<open>csum_len_for_type\<close> says.\<close>

definition sum_end :: "int \<Rightarrow> sum_acc \<Rightarrow> exit_code + byte list" where
  "sum_end protocol_version a =
     (let md = sum_md a; rest = take (sumresidue a) (md_buffer md) in
      if cursum_type a = CSUM_MD5 then Inr (md5_result md)
      else if cursum_type a = CSUM_MD4 \<or> cursum_type a = CSUM_MD4_OLD then
        Inr (mdfour_result (mdfour_update protocol_version md rest))
      else if cursum_type a = CSUM_MD4_BUSTED \<or> cursum_type a = CSUM_MD4_ARCHAIC then
        Inr (mdfour_result (if sumresidue a \<noteq> 0 then mdfour_update protocol_version md rest else md))
      else if cursum_type a = CSUM_NONE then Inr [0]
      else Inl RERR_UNSUPPORTED)"

subsection \<open>Digests of whole messages\<close>

text \<open>Up to protocol 26 a message of whole blocks is not padded.\<close>

definition md4_busted :: "int \<Rightarrow> byte list \<Rightarrow> byte list" where
  "md4_busted protocol_version msg =
     (if 64 dvd length msg then regs_bytes (blocks md4_block md_init msg) else md4 protocol_version msg)"

definition strong_digest :: "int \<Rightarrow> int \<Rightarrow> byte list \<Rightarrow> byte list" where
  "strong_digest protocol_version cst msg =
     (if cst = CSUM_MD5 then md5 msg
      else if cst > CSUM_MD4_BUSTED then md4 protocol_version msg
      else md4_busted protocol_version msg)"

lemma length_regs_bytes [simp]: "length (regs_bytes r) = 16"
  by (auto simp: regs_bytes_def split: prod.splits)

lemma length_strong_digest [simp]: "length (strong_digest pv cst msg) = 16"
  by (simp add: strong_digest_def md5_def md4_def md4_busted_def)

lemma is_md4_not_md5: "is_md4 cst \<Longrightarrow> cst \<noteq> CSUM_MD5"
  by (auto simp: is_md4_def csum_types)

lemma mdfour_feed_inv:
  assumes "md4_inv m msg"
  shows "\<exists>m'. mdfour_feed pv m b = (m', tail b) \<and> md4_inv m' (msg @ whole b) \<and> md_buffer m' = md_buffer m"
  using assms
proof (induction pv m b arbitrary: msg rule: mdfour_feed.induct)
  case (1 pv m b)
  show ?case
  proof (cases "CSUM_CHUNK \<le> length b")
    case False
    then show ?thesis using "1.prems" whole_tail_append [of "[]" b]
      by (subst mdfour_feed.simps) simp
  next
    case True
    define x y where "x = take CSUM_CHUNK b" and "y = drop CSUM_CHUNK b"
    have xy: "b = x @ y" "length x = CSUM_CHUNK" using True by (simp_all add: x_def y_def)
    have "64 dvd length x" "x \<noteq> []" using xy(2) by (auto simp: CSUM_CHUNK_def)
    from mdfour_update_whole [OF "1.prems" this, of pv]
    have u: "md4_inv (mdfour_update pv m x) (msg @ x)" "md_buffer (mdfour_update pv m x) = md_buffer m" by auto
    have "mdfour_feed pv m b = mdfour_feed pv (mdfour_update pv m x) y"
      using True by (subst mdfour_feed.simps) (simp flip: x_def y_def)
    moreover have "whole b = x @ whole y" "tail b = tail y" using whole_block [OF xy(2), of y] xy(1) by simp_all
    ultimately show ?thesis using "1.IH" [OF True, folded x_def y_def, OF u(1)] u(2) by auto
  qed
qed

text \<open>The end of a message: the chunks have gone in, the rest goes in unless the busted forms skip it.\<close>

lemma mdfour_finish:
  assumes "is_md4 cst" and "md4_inv m (whole msg)"
  shows "mdfour_result (if tail msg \<noteq> [] \<or> cst > CSUM_MD4_BUSTED then mdfour_update pv m (tail msg) else m)
    = strong_digest pv cst msg"
proof (cases "tail msg \<noteq> [] \<or> cst > CSUM_MD4_BUSTED")
  case True
  have "mdfour_result (mdfour_update pv m (tail msg)) = md4 pv (whole msg @ tail msg)"
    using mdfour_update_last [OF assms(2)] whole_tail(4) [of msg] by (simp add: CSUM_CHUNK_def)
  moreover have "tail msg \<noteq> [] \<Longrightarrow> \<not> 64 dvd length msg"
    using whole_tail(3) [of msg] by (metis CSUM_CHUNK_def dvd_imp_mod_0 length_0_conv)
  ultimately show ?thesis
    using True is_md4_not_md5 [OF assms(1)] by (auto simp: strong_digest_def md4_busted_def simp flip: whole_tail(1))
next
  case False
  then have "whole msg = msg" "64 dvd length msg"
    using whole_tail(1,2) [of msg] by (simp_all add: CSUM_CHUNK_def)
  with False assms show ?thesis
    using is_md4_not_md5 [OF assms(1)]
    by (simp add: strong_digest_def md4_busted_def mdfour_result_bytes md4_inv_def)
qed

theorem get_checksum2_digest:
  assumes "cst = CSUM_MD5 \<or> is_md4 cst" and "length (md_buffer m) = CSUM_CHUNK" and "length buf < 2 ^ 32"
  shows "get_checksum2 pv cst proper seed m buf = Inr (strong_digest pv cst
    (let s = (if seed \<noteq> 0 then SIVAL (word_of_int seed) else [])
     in if cst = CSUM_MD5 \<and> proper then s @ buf else buf @ s))"
proof -
  define s where "s = (if seed \<noteq> 0 then SIVAL (word_of_int seed) else [])"
  have ls: "length s < 2 ^ 32" by (simp add: s_def)
  show ?thesis
  proof (cases "cst = CSUM_MD5")
    case True
    note beg = md5_begin_inv [OF assms(2)]
    have "md5_inv (md5_update (md5_update (md5_begin m) s) buf) (([] @ s) @ buf)"
      by (intro md5_update_inv beg ls assms(3))
    moreover have "md5_inv (md5_update (md5_update (md5_begin m) buf) s) (([] @ buf) @ s)"
      by (intro md5_update_inv beg ls assms(3))
    ultimately show ?thesis
      using True md5_result_spec by (simp add: get_checksum2_def strong_digest_def Let_def flip: s_def)
  next
    case False
    with assms(1) have c: "is_md4 cst" by simp
    obtain m' where "mdfour_feed pv (mdfour_begin m) (buf @ s) = (m', tail (buf @ s))"
      "md4_inv m' (whole (buf @ s))"
      using mdfour_feed_inv [OF mdfour_begin_inv, of pv m "buf @ s"] by auto
    with mdfour_finish [OF c, of m' "buf @ s" pv] False c show ?thesis
      by (simp add: get_checksum2_def Let_def flip: s_def)
  qed
qed

subsection \<open>Accumulators\<close>

text \<open>
  What the users of a digest rely on: an update adds its bytes to the message the state stands
  for.
\<close>

locale accumulator =
  fixes upd :: "'s \<Rightarrow> byte list \<Rightarrow> 's" and inv :: "'s \<Rightarrow> byte list \<Rightarrow> bool"
    and ok :: "byte list \<Rightarrow> bool"
  assumes upd_inv: "inv st msg \<Longrightarrow> ok d \<Longrightarrow> inv (upd st d) (msg @ d)"
begin

lemma fold_inv: "inv st msg \<Longrightarrow> \<forall>d\<in>set ds. ok d \<Longrightarrow> inv (foldl upd st ds) (msg @ concat ds)"
proof (induction ds arbitrary: st msg)
  case (Cons d ds)
  from Cons.IH [OF upd_inv [OF Cons.prems(1)]] Cons.prems(2) show ?case by simp
qed simp

end

text \<open>A digest that takes whole chunks can be fed from the read window.\<close>

locale chunk_accumulator = accumulator upd inv ok
  for upd :: "md_context \<Rightarrow> byte list \<Rightarrow> md_context" and inv and ok +
  assumes ok_chunk: "length d = CSUM_CHUNK \<Longrightarrow> ok d"
begin

lemma sum_window_inv:
  assumes "os_ok w" and "map_inv f buf" and "inv m (fslice f 0 i)" and "0 \<le> i" and "i \<le> len"
    and "int CSUM_CHUNK dvd i"
  shows "\<exists>m' buf' j. sum_window w f upd len i m buf = Inr (m', buf', j) \<and> inv m' (fslice f 0 j)
    \<and> map_inv f buf' \<and> int CSUM_CHUNK dvd j \<and> 0 \<le> j \<and> j \<le> len \<and> len < j + int CSUM_CHUNK"
  using assms(2-)
proof (induction "nat (len - i)" arbitrary: i m buf rule: less_induct)
  case less
  show ?case
  proof (cases "i + int CSUM_CHUNK \<le> len")
    case False
    with less.prems show ?thesis by (subst sum_window.simps) auto
  next
    case True
    obtain buf1 where mp: "map_ptr w f buf i (int CSUM_CHUNK) = Inr (Some (fslice f i (int CSUM_CHUNK)), buf1)"
      "map_inv f buf1"
      using map_ptr_window [OF assms(1) less.prems(1,3), of "int CSUM_CHUNK"] by (auto simp: CSUM_CHUNK_def)
    have "inv (upd m (fslice f i (int CSUM_CHUNK))) (fslice f 0 i @ fslice f i (int CSUM_CHUNK))"
      by (rule upd_inv [OF less.prems(2) ok_chunk]) simp
    then have "inv (upd m (fslice f i (int CSUM_CHUNK))) (fslice f 0 (i + int CSUM_CHUNK))"
      using fslice_append [of i "int CSUM_CHUNK" f 0] less.prems(3) by simp
    moreover have "nat (len - (i + int CSUM_CHUNK)) < nat (len - i)" using True by (simp add: CSUM_CHUNK_def)
    moreover have "int CSUM_CHUNK dvd i + int CSUM_CHUNK" using less.prems(5) by simp
    ultimately show ?thesis
      using less.hyps [of "i + int CSUM_CHUNK" buf1 "upd m (fslice f i (int CSUM_CHUNK))"] mp True less.prems(3)
      by (subst sum_window.simps) (simp add: opt_bytes_def)
  qed
qed

end

interpretation md5_acc: chunk_accumulator md5_update md5_inv "\<lambda>d. length d < 2 ^ 32"
  by unfold_locales (auto intro: md5_update_inv simp: CSUM_CHUNK_def)

interpretation md4_acc: chunk_accumulator "mdfour_update pv" md4_inv "\<lambda>d. d \<noteq> [] \<and> 64 dvd length d" for pv
  by unfold_locales (auto dest: mdfour_update_whole simp: CSUM_CHUNK_def)

text \<open>The digest of a file read through the window is the digest of its bytes.\<close>

lemma whole_fslice:
  assumes "int CSUM_CHUNK dvd j" and "0 \<le> j" and "j \<le> int (length f)" and "int (length f) < j + int CSUM_CHUNK"
  shows "fslice f 0 j = whole f" and "fslice f j (int (length f) - j) = tail f"
proof -
  have f: "f = fslice f 0 j @ fslice f j (int (length f) - j)"
    using fslice_append [of j "int (length f) - j" f 0] assms(2,3) by (simp add: fslice_all)
  have "CSUM_CHUNK dvd length (fslice f 0 j)" using assms(1,2) by (metis int_dvd_int_iff length_fslice nat_0_le)
  moreover have "length (fslice f j (int (length f) - j)) < CSUM_CHUNK" using assms(4) by (simp add: CSUM_CHUNK_def)
  ultimately show "fslice f 0 j = whole f" "fslice f j (int (length f) - j) = tail f"
    using whole_tail_append [of "fslice f 0 j" "fslice f j (int (length f) - j)"] f by simp_all
qed

theorem file_checksum_digest:
  assumes "os_ok w" and "cst = CSUM_MD5 \<or> is_md4 cst" and "length (md_buffer m) = CSUM_CHUNK"
  shows "file_checksum w pv cst m (Some f) = Inr (strong_digest pv cst f)"
proof -
  let ?n = "int (length f)" and ?buf = "map_file (int (length f)) MAX_MAP_SIZE (int CSUM_CHUNK)"
  have last: "\<exists>buf'. map_ptr w f buf j (?n - j) = Inr (if ?n - j > 0 then Some (fslice f j (?n - j)) else None, buf')"
    if "map_inv f buf" "0 \<le> j" "j \<le> ?n" for buf j
  proof (cases "j = ?n")
    case True
    then show ?thesis by (simp add: map_ptr_def)
  next
    case False
    with map_ptr_window [OF assms(1) that(1,2), of "?n - j"] that(3) show ?thesis by auto
  qed
  show ?thesis
  proof (cases "cst = CSUM_MD5")
    case True
    have "md5_inv (md5_begin m) (fslice f 0 0)" using md5_begin_inv [OF assms(3)] by simp
    from md5_acc.sum_window_inv [OF assms(1) map_inv_map_file this order_refl, of ?n]
    obtain m' buf' j where sw: "sum_window w f md5_update ?n 0 (md5_begin m) ?buf = Inr (m', buf', j)"
      "md5_inv m' (fslice f 0 j)" "map_inv f buf'" and j: "int CSUM_CHUNK dvd j" "0 \<le> j" "j \<le> ?n" "?n < j + int CSUM_CHUNK"
      by fastforce
    note wf = whole_fslice [OF j]
    obtain buf'' where mp: "map_ptr w f buf' j (?n - j) = Inr (if ?n - j > 0 then Some (tail f) else None, buf'')"
      using last [OF sw(3) j(2,3)] wf by auto
    have "md5_inv (md5_update m' (tail f)) (whole f @ tail f)"
      using sw(2) wf(1) whole_tail(4) [of f] by (intro md5_update_inv) (auto simp: CSUM_CHUNK_def)
    then have r: "md5_result (md5_update m' (tail f)) = md5 f"
      using md5_result_spec whole_tail(1) [of f] by simp
    have "?n - j \<le> 0 \<Longrightarrow> tail f = []" using wf(2) by (metis fslice_0)
    then have "?n - j \<le> 0 \<Longrightarrow> md5_result m' = md5 f" using r by (simp add: md5_update_def)
    with True sw(1) mp r show ?thesis
      by (simp add: file_checksum_def Let_def strong_digest_def opt_bytes_def)
  next
    case False
    with assms(2) have c: "is_md4 cst" by simp
    have "md4_inv (mdfour_begin m) (fslice f 0 0)" using mdfour_begin_inv by simp
    from md4_acc.sum_window_inv [OF assms(1) map_inv_map_file this order_refl, of ?n]
    obtain m' buf' j where sw: "sum_window w f (mdfour_update pv) ?n 0 (mdfour_begin m) ?buf = Inr (m', buf', j)"
      "md4_inv m' (fslice f 0 j)" "map_inv f buf'" and j: "int CSUM_CHUNK dvd j" "0 \<le> j" "j \<le> ?n" "?n < j + int CSUM_CHUNK"
      by fastforce
    note wf = whole_fslice [OF j]
    obtain buf'' where mp: "map_ptr w f buf' j (?n - j) = Inr (if ?n - j > 0 then Some (tail f) else None, buf'')"
      using last [OF sw(3) j(2,3)] wf by auto
    have t: "tail f \<noteq> [] \<longleftrightarrow> ?n - j > 0"
      using arg_cong [OF wf(2), of length] j(3) by (auto simp: nat_eq_iff)
    have "opt_bytes (if ?n - j > 0 then Some (tail f) else None) = tail f" using t by (auto simp: opt_bytes_def)
    moreover have "md4_inv m' (whole f)" using sw(2) wf(1) by simp
    ultimately show ?thesis
      using False c sw(1) mp mdfour_finish [OF c, of m' f pv] t
      by (auto simp: file_checksum_def Let_def split: if_splits)
  qed
qed

subsection \<open>The accumulator\<close>

definition csum_type_ok :: "int \<Rightarrow> bool" where
  "csum_type_ok cst \<longleftrightarrow> cst = CSUM_NONE \<or> cst = CSUM_MD5 \<or> is_md4 cst"

definition sum_prefix :: "int \<Rightarrow> int \<Rightarrow> byte list" where
  "sum_prefix cst seed = (if is_md4 cst \<and> cst \<noteq> CSUM_MD4 then SIVAL (word_of_int seed) else [])"

definition sum_digest :: "int \<Rightarrow> int \<Rightarrow> int \<Rightarrow> byte list \<Rightarrow> byte list" where
  "sum_digest protocol_version cst seed data =
     (if cst = CSUM_NONE then [0] else strong_digest protocol_version cst (sum_prefix cst seed @ data))"

definition sum_inv :: "int \<Rightarrow> byte list \<Rightarrow> sum_acc \<Rightarrow> bool" where
  "sum_inv cst msg a \<longleftrightarrow> cursum_type a = cst \<and> length (md_buffer (sum_md a)) = CSUM_CHUNK
     \<and> (cst = CSUM_MD5 \<longrightarrow> md5_inv (sum_md a) msg)
     \<and> (is_md4 cst \<longrightarrow> md4_inv (sum_md a) (whole msg) \<and> sumresidue a = length (tail msg)
          \<and> take (sumresidue a) (md_buffer (sum_md a)) = tail msg)"

lemma whole_append: "CSUM_CHUNK dvd length a \<Longrightarrow> whole (a @ y) = a @ whole y"
  using whole_tail_append(1) [of "a @ whole y" "tail y"] whole_tail [of y] by simp

lemma sum_update_md4:
  assumes "is_md4 (cursum_type a)" and len: "length (md_buffer (sum_md a)) = CSUM_CHUNK"
    and i: "md4_inv (sum_md a) (whole msg)" "sumresidue a = length (tail msg)"
      "take (length (tail msg)) (md_buffer (sum_md a)) = tail msg"
  shows "\<exists>a'. sum_update pv a p = Inr a' \<and> sum_inv (cursum_type a) (msg @ p) a'"
proof -
  define t where "t = tail msg"
  note wt = whole_tail [of msg, folded t_def]
  note i = i [folded t_def]
  note n5 = is_md4_not_md5 [OF assms(1)]
  show ?thesis
  proof (cases "length p + length t < CSUM_CHUNK")
    case True
    have m: "msg @ p = whole msg @ (t @ p)" using wt(1) by (metis append_assoc)
    have "whole (msg @ p) = whole msg" "tail (msg @ p) = t @ p"
      unfolding m using whole_tail_append [OF wt(2), of "t @ p"] True by simp_all
    then show ?thesis
      using assms(1) n5 True i len
      by (auto simp: sum_update_def sum_inv_def overwrite_def Let_def)
  next
    case False
    define k where "k = (if length t \<noteq> 0 then CSUM_CHUNK - length t else 0)"
    define x y where "x = take k p" and "y = drop k p"
    define md1 where "md1 = (if length t \<noteq> 0
      then mdfour_update pv ((sum_md a)\<lparr>md_buffer := t @ x\<rparr>) (t @ x) else sum_md a)"
    define A where "A = whole msg @ (if length t \<noteq> 0 then t @ x else [])"
    have p: "p = x @ y" by (simp add: x_def y_def)
    have lx: "length t \<noteq> 0 \<Longrightarrow> length (t @ x) = CSUM_CHUNK"
      using False wt(4) by (simp add: x_def k_def)
    have ow: "length t \<noteq> 0 \<Longrightarrow> overwrite (md_buffer (sum_md a)) (length t) x = t @ x"
      using lx i(3) len by (simp add: overwrite_def)
    have md1: "md4_inv md1 A \<and> length (md_buffer md1) = CSUM_CHUNK"
    proof (cases "length t = 0")
      case True
      then show ?thesis using i(1) len by (simp add: md1_def A_def)
    next
      case ne: False
      have "64 dvd length (t @ x)" "t @ x \<noteq> []" using lx ne by (auto simp: CSUM_CHUNK_def)
      with mdfour_update_whole [of "(sum_md a)\<lparr>md_buffer := t @ x\<rparr>" "whole msg" "t @ x" pv] i(1) ne lx
      show ?thesis by (simp add: md1_def A_def)
    qed
    have dA: "CSUM_CHUNK dvd length A" using wt(2) lx by (auto simp: A_def)
    obtain md2 where feed: "mdfour_feed pv md1 y = (md2, tail y)" "md4_inv md2 (A @ whole y)"
        "md_buffer md2 = md_buffer md1"
      using mdfour_feed_inv [of md1 A pv y] md1 by blast
    have msg: "msg @ p = A @ y"
      using wt(1) p by (cases "length t = 0") (auto simp: A_def x_def k_def)
    have "whole (msg @ p) = A @ whole y" "tail (msg @ p) = tail y"
      unfolding msg using whole_append [OF dA] tail_append [OF dA] by simp_all
    moreover have "sum_update pv a p = Inr (a\<lparr>sum_md := (if tail y \<noteq> []
        then md2\<lparr>md_buffer := overwrite (md_buffer md2) 0 (tail y)\<rparr> else md2), sumresidue := length (tail y)\<rparr>)"
    proof (cases "length t = 0")
      case True
      then have "y = p" by (simp add: y_def k_def)
      then show ?thesis
        using True assms(1) n5 False i feed by (simp add: sum_update_def md1_def)
    next
      case ne: False
      have "take (CSUM_CHUNK - length t) p = x" "drop (CSUM_CHUNK - length t) p = y"
        using ne by (simp_all add: x_def y_def k_def)
      then show ?thesis
        using ne assms(1) n5 False i feed ow by (simp add: sum_update_def md1_def)
    qed
    moreover have "length (tail y) < CSUM_CHUNK" by (rule whole_tail(4))
    ultimately show ?thesis
      using feed md1 n5 by (auto simp: sum_inv_def overwrite_def)
  qed
qed

theorem sum_update_inv:
  assumes "sum_inv cst msg a" and "csum_type_ok cst" and "length p < 2 ^ 32"
  shows "\<exists>a'. sum_update pv a p = Inr a' \<and> sum_inv cst (msg @ p) a'"
proof -
  note i = assms(1) [unfolded sum_inv_def]
  show ?thesis
  proof (cases "is_md4 cst")
    case True
    with sum_update_md4 [of a msg pv p] i show ?thesis by auto
  next
    case False
    have "md5_inv (md5_update (sum_md a) p) (msg @ p)" if "cst = CSUM_MD5"
      using i that assms(3) by (intro md5_update_inv) auto
    then show ?thesis
      using False assms(2) i by (auto simp: sum_update_def csum_type_ok_def sum_inv_def Let_def md5_inv_def)
  qed
qed

theorem sum_init_inv:
  assumes "csum_type_ok cst" and "length (md_buffer (sum_md a)) = CSUM_CHUNK"
  shows "\<exists>a'. sum_init pv a cst seed = Inr a' \<and> sum_inv cst (sum_prefix cst seed) a'"
proof -
  have pos: "\<not> cst < 0" using assms(1) by (auto simp: csum_type_ok_def is_md4_def csum_types)
  let ?a = "a\<lparr>cursum_type := cst, sum_md := mdfour_begin (sum_md a), sumresidue := 0\<rparr>"
  have start: "sum_inv cst [] ?a" if "is_md4 cst"
    using that assms(2) mdfour_begin_inv [of "sum_md a"] is_md4_not_md5 [OF that]
    by (simp add: sum_inv_def whole_def tail_def mdfour_begin_def)
  consider "cst = CSUM_NONE" | "cst = CSUM_MD5" | "cst = CSUM_MD4" | "is_md4 cst" "cst \<noteq> CSUM_MD4"
    using assms(1) by (auto simp: csum_type_ok_def)
  then show ?thesis
  proof cases
    case 1
    then show ?thesis using assms(2) pos
      by (simp add: sum_init_def sum_inv_def is_md4_def csum_types Let_def)
  next
    case 2
    then show ?thesis using assms(2) pos md5_begin_inv [OF assms(2)]
      by (simp add: sum_init_def sum_inv_def sum_prefix_def is_md4_def csum_types Let_def md5_begin_def)
  next
    case 3
    then have m: "is_md4 cst" by (simp add: is_md4_def)
    from 3 start [OF m] pos show ?thesis
      by (simp add: sum_init_def sum_prefix_def Let_def is_md4_not_md5 [OF m]) (simp add: csum_types)
  next
    case 4
    have "sum_init pv a cst seed = sum_update pv ?a (SIVAL (word_of_int seed))"
      using 4 pos is_md4_not_md5 [OF 4(1)] by (simp add: sum_init_def Let_def)
    with sum_update_inv [OF start [OF 4(1)] assms(1), of "SIVAL (word_of_int seed)" pv] 4
    show ?thesis by (simp add: sum_prefix_def)
  qed
qed

theorem sum_end_digest:
  assumes "sum_inv cst (sum_prefix cst seed @ data) a" and "csum_type_ok cst"
  shows "sum_end pv a = Inr (sum_digest pv cst seed data)"
proof -
  note i = assms(1) [unfolded sum_inv_def]
  show ?thesis
  proof (cases "is_md4 cst")
    case True
    let ?m = "sum_prefix cst seed @ data"
    have c: "cst \<noteq> CSUM_NONE" using True by (auto simp: is_md4_def csum_types)
    from mdfour_finish [OF True, of "sum_md a" ?m pv] i True
    have "mdfour_result (if tail ?m \<noteq> [] \<or> cst > CSUM_MD4_BUSTED then mdfour_update pv (sum_md a) (tail ?m) else sum_md a)
        = sum_digest pv cst seed data"
      using c by (simp add: sum_digest_def)
    moreover have "take (sumresidue a) (md_buffer (sum_md a)) = tail ?m" "sumresidue a = length (tail ?m)"
      "cursum_type a = cst" using i True by auto
    moreover have "(cst = CSUM_MD4 \<or> cst = CSUM_MD4_OLD) = (cst > CSUM_MD4_BUSTED)"
      "(cst = CSUM_MD4_BUSTED \<or> cst = CSUM_MD4_ARCHAIC) = (\<not> cst > CSUM_MD4_BUSTED)"
      using True by (auto simp: is_md4_def csum_types)
    ultimately show ?thesis
      using is_md4_not_md5 [OF True] by (simp add: sum_end_def Let_def) (auto split: if_splits)
  next
    case False
    then show ?thesis
      using i assms(2) md5_result_spec [of "sum_md a" data]
      by (auto simp: sum_end_def Let_def csum_type_ok_def sum_digest_def strong_digest_def sum_prefix_def
          csum_types is_md4_def)
  qed
qed

subsection \<open>A run of the accumulator, and the checksum of a block\<close>

fun sum_pieces :: "int \<Rightarrow> sum_acc \<Rightarrow> byte list list \<Rightarrow> exit_code + sum_acc" where
  "sum_pieces pv a [] = Inr a"
| "sum_pieces pv a (d # ds) =
     (case sum_update pv a d of Inl e \<Rightarrow> Inl e | Inr a \<Rightarrow> sum_pieces pv a ds)"

lemma sum_pieces_inv:
  assumes "sum_inv cst msg a" and "csum_type_ok cst" and "\<forall>d\<in>set ds. length d < 2 ^ 32"
  shows "\<exists>a'. sum_pieces pv a ds = Inr a' \<and> sum_inv cst (msg @ concat ds) a'"
  using assms(1,3)
proof (induction ds arbitrary: a msg)
  case (Cons d ds)
  then obtain a1 where "sum_update pv a d = Inr a1" "sum_inv cst (msg @ d) a1"
    using sum_update_inv [OF Cons.prems(1) assms(2), of d pv] by auto
  with Cons.IH [of "msg @ d" a1] Cons.prems(2) show ?case by simp
qed auto

theorem sum_stream_digest:
  assumes "csum_type_ok cst" and "length (md_buffer (sum_md a)) = CSUM_CHUNK"
    and "\<forall>d\<in>set ds. length d < 2 ^ 32"
  shows "\<exists>a1 a2. sum_init pv a cst seed = Inr a1 \<and> sum_pieces pv a1 ds = Inr a2
    \<and> sum_end pv a2 = Inr (sum_digest pv cst seed (concat ds))"
proof -
  obtain a1 where a1: "sum_init pv a cst seed = Inr a1" "sum_inv cst (sum_prefix cst seed) a1"
    using sum_init_inv [OF assms(1,2)] by blast
  obtain a2 where a2: "sum_pieces pv a1 ds = Inr a2" "sum_inv cst (sum_prefix cst seed @ concat ds) a2"
    using sum_pieces_inv [OF a1(2) assms(1,3)] by blast
  with a1(1) sum_end_digest [OF a2(2) assms(1)] show ?thesis by blast
qed

definition block_sum2 :: "int \<Rightarrow> int \<Rightarrow> bool \<Rightarrow> int \<Rightarrow> md_context \<Rightarrow> byte list \<Rightarrow> byte list" where
  "block_sum2 pv cst proper seed m b =
     (case get_checksum2 pv cst proper seed m b of Inr s \<Rightarrow> s | Inl e \<Rightarrow> [])"

lemma length_sum_digest: "length (sum_digest pv cst seed x) = length (sum_digest pv cst seed y)"
  by (simp add: sum_digest_def)

lemma length_block_sum2: "cst = CSUM_MD5 \<or> is_md4 cst \<Longrightarrow> length (block_sum2 pv cst proper seed m b) = 16"
  by (auto simp: block_sum2_def get_checksum2_def md5_result_def mdfour_result_bytes Let_def
      split: prod.splits)

end
