(* ===== verification/Examples.thy ===== *)
theory Examples
  imports DiffSeries FileWrite Digest
begin

text \<open>
  Concrete systems, settings and histories: at them the hypotheses of the properties hold.
\<close>

subsection \<open>Systems without read errors\<close>

text \<open>A kernel whose reads are as long as asked for, and one that hands out single bytes.\<close>

definition plain_os :: os where
  "plain_os = \<lparr>os_read = \<lambda>p n. max 0 n, os_lseek = \<lambda>p. p, os_errno = 0\<rparr>"

definition short_os :: os where
  "short_os = \<lparr>os_read = \<lambda>p n. 1, os_lseek = \<lambda>p. p, os_errno = 0\<rparr>"

lemma short_os_ok: "os_ok short_os"
  by (simp add: os_ok_def short_os_def)
lemma plain_os_ok: "os_ok plain_os"
  by (simp add: os_ok_def plain_os_def)

subsection \<open>Settings and checksums\<close>

definition example_cfg :: rx_cfg where
  "example_cfg = \<lparr>x_whole_file = False, x_append_mode = 0, x_protocol = 31, x_csum_length = 2,
     x_fd = True, x_delta = True, x_stack_blength = 0\<rparr>"

lemma example_cfg_fields [simp]:
  "x_whole_file example_cfg = False" "x_append_mode example_cfg = 0" "x_protocol example_cfg = 31"
  "x_csum_length example_cfg = 2" "x_fd example_cfg = True" "x_delta example_cfg = True"
  by (simp_all add: example_cfg_def)

definition example_ctx :: md_context where
  "example_ctx = \<lparr>md_regs = md_init, totalN = 0, totalN2 = 0, md_buffer = replicate 64 0\<rparr>"

lemma example_ctx_buffer [simp]: "md_buffer example_ctx = replicate 64 0"
  by (simp add: example_ctx_def)

abbreviation example_sum2 :: "byte list \<Rightarrow> byte list" where
  "example_sum2 \<equiv> block_sum2 31 CSUM_MD5 True 7 example_ctx"

abbreviation example_digest :: "byte list \<Rightarrow> byte list" where
  "example_digest \<equiv> sum_digest 31 CSUM_MD5 7"

lemma example_delta_cfg: "delta_cfg example_cfg 0"
  by (simp add: delta_cfg_def max_blength_def MAX_BLOCK_SIZE_def SUM_LENGTH_def)

subsection \<open>Three versions of a file of one byte\<close>

definition example_history :: history where
  "example_history = [(''1'', [1]), (''2'', [2]), (''3'', [3])]"

lemma example_history_ok:
  "hist_ok example_history" "example_history \<noteq> []" "\<forall>c\<in>set (map snd example_history). length c < 2 ^ 63"
  by (simp_all add: hist_ok_def example_history_def ts_ok_def no_nul_def)

lemma example_head:
  "sum_sizes_sqroot 31 2 0 1 = Some \<lparr>s_count = 1, s_blength = 700, s_s2length = 2, s_remainder = 1\<rparr>"
  by code_simp

lemma one_byte_window:
  assumes "0 \<le> off" and "0 < l" and "off + l \<le> 1"
  shows "fslice [b] off l = [b]"
proof -
  have "off = 0" "l = 1" using assms by auto
  then show ?thesis by (simp add: fslice_def byte_at_def)
qed

lemma one_byte_safe:
  assumes "a = b \<or> get_checksum1 [a] \<noteq> get_checksum1 [b]"
  shows "delta_safe example_cfg 0 c2 [a] [b]"
proof -
  let ?h = "\<lparr>s_count = 1, s_blength = 700, s_s2length = 2, s_remainder = 1\<rparr>"
  have "block_of [a] ?h 0 = [a]"
    by (simp add: block_of_def head_block_len_def one_byte_window)
  then have "no_collision c2 [b] [a] ?h"
    unfolding no_collision_def
  proof (intro allI impI)
    fix i off l :: int
    assume a: "0 \<le> i" "i < s_count ?h" "0 \<le> off" "0 < l" "off + l \<le> int (length [b])"
      "get_checksum1 (fslice [b] off l) = get_checksum1 (block_of [a] ?h i)"
    then have "i = 0" "fslice [b] off l = [b]" by (simp_all add: one_byte_window)
    with a(6) \<open>block_of [a] ?h 0 = [a]\<close> assms show "fslice [b] off l = block_of [a] ?h i" by auto
  qed
  then show ?thesis by (simp add: delta_safe_def safe_at_def example_head)
qed

lemma example_checksums:
  "get_checksum1 [1] \<noteq> get_checksum1 [2]" "get_checksum1 [2] \<noteq> get_checksum1 [3]" "get_checksum1 [1] \<noteq> get_checksum1 [3]"
  by code_simp+

lemma example_safe:
  "deltas_safe example_cfg 0 c2 (snd (hd example_history)) (tl example_history)"
  using example_checksums by (simp add: one_byte_safe example_history_def)

lemma example_diffs_safe:
  "diffs_safe example_cfg 0 c2 (snd (hd example_history)) (snd (hd example_history)) (tl example_history)"
  using example_checksums one_byte_safe [of 1 _ c2, unfolded delta_safe_def] by (simp add: example_history_def)

lemma empty_fresh: "fresh [] ''a''" and empty_no_file: "file_content [] p = None"
  by (simp_all add: fresh_def split_path_file can_write_def dir_ok_def fs_ok_def parent_dirs_def file_content_def)

subsection \<open>A store with one full backup and two deltas\<close>

text \<open>
  Each delta holds the new byte as literal data, so it reproduces its version from any basis;
  the same layout serves both kinds of backup.
\<close>

definition example_meta :: delta_meta where
  "example_meta = \<lparr>d_file_size = 1, d_content_size = 1, d_block_length = 700, d_block_count = 1, d_remainder = 1\<rparr>"

definition example_delta :: "byte \<Rightarrow> byte list" where
  "example_delta b = delta_bytes example_meta [OpData [b] 0]"

lemma example_delta_reproduces: "reproduces c (example_delta b) [b]"
proof -
  have "meta_ok example_meta" "\<forall>p\<in>set [OpData [b] 0]. op_ok example_meta p"
    by (simp_all add: meta_ok_def example_meta_def int64_def UNMATCH_SIZE_def)
  from apply_delta_delta_bytes [OF _ this] show ?thesis
    by (simp add: reproduces_def example_delta_def delta_meaning_def)
qed

definition example_store :: "string \<Rightarrow> fs" where
  "example_store kind =
     [(''./a.backup'', Dir), (''./a.backup/'' @ kind, Dir),
      (''./a.backup/'' @ kind @ ''/full'', Dir), (''./a.backup/'' @ kind @ ''/delta'', Dir),
      (full_name ''.'' ''a'' kind ''1'', File [1]),
      (delta_name ''.'' ''a'' kind ''2'', File (example_delta 2)),
      (delta_name ''.'' ''a'' kind ''3'', File (example_delta 3)),
      (''a'', File [3])]"

lemma example_store_names:
  assumes "kind = ''incremental'' \<or> kind = ''differential''"
  shows "fs_ok (example_store kind)"
    and "store_lists (example_store kind) ''.'' ''a'' kind [''1''] [''2'', ''3'']"
    and "can_write (example_store kind) (recovery_file ''.'' ''a'' ''recovery'')"
    and "can_write (example_store kind) (recovery_file ''.'' ''a'' ''recovery.tmp'')"
proof -
  have "fs_ok (example_store ''incremental'')" "fs_ok (example_store ''differential'')" by code_simp+
  with assms show "fs_ok (example_store kind)" by blast
  have "store_lists (example_store ''incremental'') ''.'' ''a'' ''incremental'' [''1''] [''2'', ''3'']"
    "store_lists (example_store ''differential'') ''.'' ''a'' ''differential'' [''1''] [''2'', ''3'']"
    by code_simp+
  with assms show "store_lists (example_store kind) ''.'' ''a'' kind [''1''] [''2'', ''3'']" by blast
  have "can_write (example_store ''incremental'') (recovery_file ''.'' ''a'' ''recovery'')"
    "can_write (example_store ''differential'') (recovery_file ''.'' ''a'' ''recovery'')" by code_simp+
  with assms show "can_write (example_store kind) (recovery_file ''.'' ''a'' ''recovery'')" by blast
  have "can_write (example_store ''incremental'') (recovery_file ''.'' ''a'' ''recovery.tmp'')"
    "can_write (example_store ''differential'') (recovery_file ''.'' ''a'' ''recovery.tmp'')" by code_simp+
  with assms show "can_write (example_store kind) (recovery_file ''.'' ''a'' ''recovery.tmp'')" by blast
qed

lemma example_store_files:
  assumes "kind = ''incremental'' \<or> kind = ''differential''"
  shows "file_content (example_store kind) (full_name ''.'' ''a'' kind ''1'') = Some [1]"
    and "file_content (example_store kind) (delta_name ''.'' ''a'' kind ''2'') = Some (example_delta 2)"
    and "file_content (example_store kind) (delta_name ''.'' ''a'' kind ''3'') = Some (example_delta 3)"
  using assms
  by (auto simp: file_content_def example_store_def full_name_def delta_name_def backup_dir_def)

lemma example_incr_store:
  "incr_store (example_store ''incremental'') ''.'' ''a'' example_history [''1''] [''2'', ''3'']"
proof -
  note st = example_store_names [of "''incremental''"] example_store_files [of "''incremental''"]
  have "\<exists>delta. file_content (example_store ''incremental'') (delta_name ''.'' ''a'' ''incremental'' (fst (example_history ! Suc i))) = Some delta
      \<and> reproduces (snd (example_history ! i)) delta (snd (example_history ! Suc i))"
    if "Suc i < length example_history" for i
  proof -
    have "i = 0 \<or> i = 1" using that by (auto simp: example_history_def)
    then show ?thesis using st example_delta_reproduces by (auto simp: example_history_def)
  qed
  then show ?thesis
    using st example_history_ok(1) by (auto simp: incr_store_def example_history_def)
qed

lemma example_diff_store:
  "diff_store (example_store ''differential'') ''.'' ''a'' example_history [''1''] [''2'', ''3'']"
proof -
  note st = example_store_names [of "''differential''"] example_store_files [of "''differential''"]
  show ?thesis
    using st example_history_ok(1) example_delta_reproduces
    by (auto simp: diff_store_def example_history_def ts_ok_def no_nul_def)
qed

end
