(* ===== verification/PathNames.thy ===== *)
theory PathNames
  imports Prelude
begin

text \<open>
  The path helpers of util.c: \<open>count_dir_elements\<close>, \<open>clean_fname\<close> and
  \<open>sanitize_path\<close>. The C functions move one pointer over the name and a second one over the
  result, which never overtakes it: the models read the rest of the name and build the result as
  a string of its own. The reference definitions work on the list of the name's components.
\<close>

subsection \<open>Components\<close>

fun split_slash :: "string \<Rightarrow> string list" where
  "split_slash [] = [[]]"
| "split_slash (c # s) =
     (if c = CHR ''/'' then [] # split_slash s
      else case split_slash s of [] \<Rightarrow> [[c]] | p # ps \<Rightarrow> (c # p) # ps)"

definition components :: "string \<Rightarrow> string list" where
  "components s = filter (\<lambda>p. p \<noteq> []) (split_slash s)"

lemma split_slash_not_Nil [simp]: "split_slash s \<noteq> []"
  by (induction s) (auto split: list.splits)

lemma split_slash_single: "CHR ''/'' \<notin> set x \<Longrightarrow> split_slash x = [x]"
  by (induction x) auto

lemma split_slash_join: "split_slash (a @ CHR ''/'' # b) = split_slash a @ split_slash b"
proof (induction a)
  case (Cons c a)
  then show ?case by (cases "split_slash a") auto
qed simp

lemma components_Nil [simp]: "components [] = []"
  by (simp add: components_def)

lemma components_slash [simp]: "components (CHR ''/'' # s) = components s"
  by (simp add: components_def)

lemma components_join: "components (a @ CHR ''/'' # b) = components a @ components b"
  by (simp add: components_def split_slash_join)

lemma components_single: "CHR ''/'' \<notin> set x \<Longrightarrow> x \<noteq> [] \<Longrightarrow> components x = [x]"
  by (simp add: components_def split_slash_single)

lemma components_name_join:
  "CHR ''/'' \<notin> set x \<Longrightarrow> x \<noteq> [] \<Longrightarrow> components (x @ CHR ''/'' # b) = x # components b"
  by (simp add: components_join components_single)

lemma components_no_slash: "x \<in> set (components s) \<Longrightarrow> x \<noteq> [] \<and> CHR ''/'' \<notin> set x"
proof -
  have "x \<in> set (split_slash s) \<Longrightarrow> CHR ''/'' \<notin> set x" for x
  proof (induction s arbitrary: x)
    case (Cons c s)
    then show ?case by (cases "split_slash s") (auto split: if_splits)
  qed simp
  then show "x \<in> set (components s) \<Longrightarrow> x \<noteq> [] \<and> CHR ''/'' \<notin> set x"
    by (auto simp: components_def)
qed

text \<open>The copy of one component through the next slash: \<open>while (*f && (*t++ = *f++) != '/')\<close>.\<close>

definition component_of :: "string \<Rightarrow> string" where
  "component_of f = takeWhile (\<lambda>c. c \<noteq> CHR ''/'') f"

definition copied :: "string \<Rightarrow> string" where
  "copied f = take (length (component_of f) + 1) f"

definition after_component :: "string \<Rightarrow> string" where
  "after_component f = drop (length (component_of f) + 1) f"

lemma component_cases:
  obtains "f = component_of f" "copied f = component_of f" "after_component f = []"
  | r where "f = component_of f @ CHR ''/'' # r" "copied f = component_of f @ ''/''" "after_component f = r"
proof (cases "dropWhile (\<lambda>c. c \<noteq> CHR ''/'') f")
  case Nil
  then have "component_of f = f" by (metis append_Nil2 component_of_def takeWhile_dropWhile_id)
  then show ?thesis using that(1) by (simp add: copied_def after_component_def)
next
  case (Cons c r)
  then have c: "c = CHR ''/''" using hd_dropWhile [of "\<lambda>c. c \<noteq> CHR ''/''" f] by simp
  have f: "f = component_of f @ CHR ''/'' # r"
    using takeWhile_dropWhile_id [of "\<lambda>c. c \<noteq> CHR ''/''" f] Cons c by (simp add: component_of_def)
  let ?k = "length (component_of f) + 1"
  have "take ?k (component_of f @ CHR ''/'' # r) = component_of f @ ''/''"
    "drop ?k (component_of f @ CHR ''/'' # r) = r" by simp_all
  then have "copied f = component_of f @ ''/''" "after_component f = r"
    using f by (simp_all only: copied_def after_component_def flip: f)
  with f that(2) show ?thesis by blast
qed

lemma component_of_no_slash [simp]: "CHR ''/'' \<notin> set (component_of f)"
  by (auto simp: component_of_def dest: set_takeWhileD)

lemma component_of_Nil [simp]: "component_of [] = []"
  by (simp add: component_of_def)

lemma component_of_Cons [simp]: "component_of (c # f) = (if c = CHR ''/'' then [] else c # component_of f)"
  by (simp add: component_of_def)

lemma length_after_component: "f \<noteq> [] \<Longrightarrow> length (after_component f) < length f"
  by (cases f) (simp_all add: after_component_def)

subsection \<open>count_dir_elements\<close>

fun count_elements :: "bool \<Rightarrow> string \<Rightarrow> nat" where
  "count_elements new [] = 0"
| "count_elements new (c # p) =
     (if c = CHR ''/'' then
        count_elements (case p of [] \<Rightarrow> True | d # q \<Rightarrow> d \<noteq> CHR ''.'' \<or> (q \<noteq> [] \<and> hd q \<noteq> CHR ''/'')) p
      else if new then Suc (count_elements False p) else count_elements new p)"

definition count_dir_elements :: "string \<Rightarrow> nat" where
  "count_dir_elements p = count_elements True p"

text \<open>A \<open>.\<close> counts only as the first component of a relative name.\<close>

lemma count_elements_inside:
  "CHR ''/'' \<notin> set x \<Longrightarrow> count_elements False (x @ r) = count_elements False r"
  by (induction x) auto

subsection \<open>clean_fname\<close>

record cfn_flags =
  keep_dot_dirs :: bool
  keep_trailing_slash :: bool
  drop_trailing_dot_dir :: bool
  collapse_dot_dot_dirs :: bool
  refuse_dot_dot_dirs :: bool

definition dot_dot_dir :: "string \<Rightarrow> bool" where
  "dot_dot_dir f = (take 2 f = ''..'' \<and> (length f = 2 \<or> f ! 2 = CHR ''/''))"

text \<open>
  The pointer \<open>s\<close> goes back over the last component of the result: \<open>while (s > limit &&
  *--s != '/')\<close>. At \<open>-1\<close> the code reads the byte before the name; the loop ends there
  whatever it holds.
\<close>

function back_up :: "string \<Rightarrow> int \<Rightarrow> int \<Rightarrow> int" where
  "back_up out limit s =
     (if s > limit then
        (if s - 1 < 0 \<or> out ! nat (s - 1) = CHR ''/'' then s - 1 else back_up out limit (s - 1))
      else s)"
  by pat_completeness auto
termination by (relation "measure (\<lambda>(out, limit, s). nat (s - limit))") auto

declare back_up.simps [simp del]

text \<open>The loop over the rest of the name; \<open>None\<close> is the return value \<open>-1\<close>.\<close>

function clean_loop :: "cfn_flags \<Rightarrow> bool \<Rightarrow> string \<Rightarrow> string \<Rightarrow> int \<Rightarrow> string option" where
  "clean_loop fl anchored f out limit =
     (if f = [] then Some out
      else if hd f = CHR ''/'' then clean_loop fl anchored (tl f) out limit
      else if take 2 f = ''./'' \<and> \<not> keep_dot_dirs fl then clean_loop fl anchored (drop 2 f) out limit
      else if f = ''.'' \<and> drop_trailing_dot_dir fl then Some out
      else if (collapse_dot_dot_dirs fl \<or> refuse_dot_dot_dirs fl) \<and> dot_dot_dir f then
        (if refuse_dot_dot_dirs fl then None
         else
           let s = int (length out) - 1 in
           if s = 0 \<and> anchored then clean_loop fl anchored (drop 2 f) out limit
           else
             let s' = back_up out limit s in
             if s' \<noteq> s \<and> (s' < 0 \<or> out ! nat s' = CHR ''/'')
             then clean_loop fl anchored (drop 2 f) (take (nat (s' + 1)) out) limit
             else clean_loop fl anchored (after_component f) (out @ copied f) (int (length out) + 2))
      else clean_loop fl anchored (after_component f) (out @ copied f) limit)"
  by pat_completeness auto
termination
  by (relation "measure (\<lambda>(fl, anchored, f, out, limit). length f)")
    (auto simp: length_after_component dot_dot_dir_def)

declare clean_loop.simps [simp del]

definition clean_fname :: "cfn_flags \<Rightarrow> string \<Rightarrow> string option" where
  "clean_fname fl name =
     (let anchored = (take 1 name = ''/'');
          start = (if anchored then Some (''/'', tl name)
                   else if keep_dot_dirs fl \<and> take 2 name = ''./'' then Some (''./'', drop 2 name)
                   else if refuse_dot_dot_dirs fl \<and> dot_dot_dir name then None
                   else Some ([], name))
      in case start of
           None \<Rightarrow> None
         | Some (t, f) \<Rightarrow>
             (case clean_loop fl anchored f t (- 1) of
                None \<Rightarrow> None
              | Some out \<Rightarrow>
                  let out = (if length out > (if anchored then 1 else 0) \<and> last out = CHR ''/''
                                \<and> \<not> keep_trailing_slash fl then butlast out else out)
                  in Some (if out = [] then ''.'' else out)))"

subsection \<open>Normalisation of components\<close>

text \<open>
  The components that count: empty ones and \<open>.\<close> are left out, except for a \<open>.\<close> at
  the end of the name.
\<close>

definition proper_components :: "bool \<Rightarrow> string \<Rightarrow> string list" where
  "proper_components drop_last s =
     (let ps = split_slash s
      in filter (\<lambda>p. p \<noteq> [] \<and> p \<noteq> ''.'') (butlast ps)
         @ (if last ps = [] \<or> (last ps = ''.'' \<and> drop_last) then [] else [last ps]))"

text \<open>A \<open>..\<close> removes the component before it; the stack has the last component first.\<close>

fun collapse :: "bool \<Rightarrow> string list \<Rightarrow> string list \<Rightarrow> string list" where
  "collapse anchored st [] = rev st"
| "collapse anchored st (c # cs) =
     (if c = ''..'' then
        (case st of
           [] \<Rightarrow> if anchored then collapse anchored [] cs else collapse anchored [c] cs
         | p # st' \<Rightarrow> if p = ''..'' then collapse anchored (c # st) cs else collapse anchored st' cs)
      else collapse anchored (c # st) cs)"

definition join_path :: "bool \<Rightarrow> string list \<Rightarrow> string" where
  "join_path anchored cs =
     (let s = (if anchored then ''/'' else []) @ butlast (concat (map (\<lambda>c. c @ ''/'') cs))
      in if s = [] then ''.'' else s)"

definition clean_components :: "cfn_flags \<Rightarrow> bool \<Rightarrow> string list \<Rightarrow> string list" where
  "clean_components fl anchored cs = (if collapse_dot_dot_dirs fl then collapse anchored [] cs else cs)"

text \<open>The result while the name is read: the root and the components, each with its slash.\<close>

definition rendered :: "bool \<Rightarrow> string list \<Rightarrow> string" where
  "rendered anchored st = (if anchored then ''/'' else []) @ concat (map (\<lambda>c. c @ ''/'') (rev st))"

lemma rendered_Cons: "rendered anchored (c # st) = rendered anchored st @ c @ ''/''"
  by (simp add: rendered_def)

lemma proper_components_steps:
  "proper_components d [] = []"
  "proper_components d (CHR ''/'' # f) = proper_components d f"
  "proper_components d (''./'' @ f) = proper_components d f"
  by (simp_all add: proper_components_def Let_def)

lemma proper_components_name:
  assumes "CHR ''/'' \<notin> set x" "x \<noteq> []" "x \<noteq> ''.''"
  shows "proper_components d (x @ CHR ''/'' # r) = x # proper_components d r"
    and "proper_components d x = [x]"
  using assms by (simp_all add: proper_components_def split_slash_join split_slash_single butlast_append Let_def)

lemma dot_dot_dir_iff: "dot_dot_dir f \<longleftrightarrow> component_of f = ''..''"
proof (cases f)
  case (Cons c f1)
  then show ?thesis
  proof (cases f1)
    case (Cons d f2)
    with \<open>f = c # f1\<close> show ?thesis by (cases f2) (auto simp: dot_dot_dir_def)
  qed (auto simp: dot_dot_dir_def)
qed (simp add: dot_dot_dir_def component_of_def)

lemma dot_slash_iff: "take 2 f = ''./'' \<longleftrightarrow> (\<exists>r. f = ''./'' @ r)"
  by (metis append_take_drop_id append_eq_conv_conj length_Cons list.size(3) numeral_2_eq_2)

text \<open>Stepping back over the last component.\<close>

lemma back_up_component:
  assumes "CHR ''/'' \<notin> set x" and "pre = [] \<or> last pre = CHR ''/''" and "limit < int (length pre)"
    and "- 1 \<le> limit" and "k \<le> length x"
  shows "back_up (pre @ x @ y) limit (int (length pre + k)) = int (length pre) - 1"
  using assms(5)
proof (induction k)
  case 0
  show ?case
  proof (cases "pre = []")
    case True
    then show ?thesis using assms(3,4) by (subst back_up.simps) simp
  next
    case False
    then have "(pre @ x @ y) ! (length pre - 1) = CHR ''/''" using assms(2) by (simp add: nth_append last_conv_nth)
    moreover have "nat (int (length pre) - 1) = length pre - 1" by simp
    ultimately show ?thesis using False assms(3) by (subst back_up.simps) simp
  qed
next
  case (Suc k)
  have "x ! k \<in> set x" using Suc.prems by simp
  then have "x ! k \<noteq> CHR ''/''" using assms(1) by metis
  then have "(pre @ x @ y) ! (length pre + k) \<noteq> CHR ''/''" using Suc.prems by (simp add: nth_append)
  moreover have "nat (int (length pre + Suc k) - 1) = length pre + k" by simp
  ultimately show ?case
    using Suc assms(3) by (subst back_up.simps) (simp add: algebra_simps)
qed

lemma last_rendered: "rendered anchored st = [] \<or> last (rendered anchored st) = CHR ''/''"
  by (cases st) (simp_all add: rendered_def)

lemma rendered_empty: "rendered False [] = []" "rendered True [] = ''/''"
  by (simp_all add: rendered_def)

text \<open>
  The invariant of the loop: the result is the stack; when \<open>..\<close> is collapsed, those that are
  kept are at its bottom, and \<open>limit\<close> is the slash behind them.
\<close>

definition clean_inv :: "bool \<Rightarrow> string list \<Rightarrow> string \<Rightarrow> int \<Rightarrow> bool" where
  "clean_inv anchored st out limit \<longleftrightarrow> out = rendered anchored st
     \<and> (\<exists>ns dd. st = ns @ replicate dd ''..'' \<and> ''..'' \<notin> set ns \<and> (anchored \<longrightarrow> dd = 0)
          \<and> (\<forall>c\<in>set ns. CHR ''/'' \<notin> set c)
          \<and> limit = (if dd = 0 then - 1 else int (length (rendered anchored (replicate dd ''..''))) - 1))"

lemma length_rendered_append: "length (rendered anchored st) \<le> length (rendered anchored (ns @ st))"
  by (simp add: rendered_def)

lemma clean_inv_pop:
  assumes inv: "clean_inv anchored (x # st) out limit" and "x \<noteq> ''..''"
  shows "back_up out limit (int (length out) - 1) = int (length (rendered anchored st)) - 1"
    and "clean_inv anchored st (rendered anchored st) limit"
    and "take (length (rendered anchored st)) out = rendered anchored st" and "length (rendered anchored st) + 2 \<le> length out + (if x = [] then 1 else 0)"
    and "rendered anchored st = [] \<or> out ! (length (rendered anchored st) - 1) = CHR ''/''"
proof -
  obtain ns dd where st: "x # st = ns @ replicate dd ''..''" "''..'' \<notin> set ns" "anchored \<longrightarrow> dd = 0"
    "\<forall>c\<in>set ns. CHR ''/'' \<notin> set c"
    "limit = (if dd = 0 then - 1 else int (length (rendered anchored (replicate dd ''..''))) - 1)"
    and out: "out = rendered anchored st @ x @ ''/''"
    using inv by (auto simp: clean_inv_def rendered_Cons)
  obtain ns' where ns: "ns = x # ns'" using st(1) assms(2) by (cases ns; cases dd) auto
  let ?pre = "rendered anchored st"
  have l: "limit < int (length ?pre)" "- 1 \<le> limit"
    using st(1,5) ns length_rendered_append [of anchored "replicate dd ''..''" ns'] by auto
  have "back_up (?pre @ x @ ''/'') limit (int (length ?pre + length x)) = int (length ?pre) - 1"
    by (rule back_up_component) (use st(4) ns l last_rendered in auto)
  then show "back_up out limit (int (length out) - 1) = int (length ?pre) - 1" by (simp add: out)
  show "clean_inv anchored st ?pre limit"
    unfolding clean_inv_def using st ns by (intro conjI exI [of _ ns'] exI [of _ dd]) auto
  show "take (length ?pre) out = ?pre" by (simp add: out)
  show "length ?pre + 2 \<le> length out + (if x = [] then 1 else 0)" by (cases x) (simp_all add: out)
  show "?pre = [] \<or> out ! (length ?pre - 1) = CHR ''/''"
    using last_rendered [of anchored st] by (cases "?pre = []") (simp_all add: out nth_append last_conv_nth)
qed

lemma clean_inv_keep:
  assumes "clean_inv anchored st out limit" and "st = [] \<or> hd st = ''..''" and "\<not> (anchored \<and> st = [])"
  shows "\<not> anchored" and "back_up out limit (int (length out) - 1) = int (length out) - 1"
    and "clean_inv anchored (''..'' # st) (out @ ''../'') (int (length out) + 2)"
proof -
  obtain ns dd where st: "st = ns @ replicate dd ''..''" "''..'' \<notin> set ns" "anchored \<longrightarrow> dd = 0"
    "limit = (if dd = 0 then - 1 else int (length (rendered anchored (replicate dd ''..''))) - 1)"
    and out: "out = rendered anchored st"
    using assms(1) by (auto simp: clean_inv_def)
  have ns: "ns = []" using st(1,2) assms(2) by (cases ns) auto
  show na: "\<not> anchored" using st(1,3) ns assms(3) by auto
  show "back_up out limit (int (length out) - 1) = int (length out) - 1"
    using st na ns by (subst back_up.simps) (auto simp: out rendered_empty)
  have "''..'' # st = [] @ replicate (Suc dd) ''..''" using st(1) ns by simp
  then show "clean_inv anchored (''..'' # st) (out @ ''../'') (int (length out) + 2)"
    unfolding clean_inv_def
    by (intro conjI exI [of _ "[]"] exI [of _ "Suc dd"]) (use na st(1) ns in \<open>auto simp: out rendered_Cons\<close>)
qed

lemma clean_inv_push:
  assumes "clean_inv anchored st out limit" and "x \<noteq> ''..''" and "CHR ''/'' \<notin> set x"
  shows "clean_inv anchored (x # st) (out @ x @ ''/'') limit"
proof -
  obtain ns dd where "st = ns @ replicate dd ''..''" "''..'' \<notin> set ns" "anchored \<longrightarrow> dd = 0"
    "\<forall>c\<in>set ns. CHR ''/'' \<notin> set c"
    "limit = (if dd = 0 then - 1 else int (length (rendered anchored (replicate dd ''..''))) - 1)"
    "out = rendered anchored st"
    using assms(1) by (auto simp: clean_inv_def)
  then show ?thesis
    unfolding clean_inv_def using assms(2,3)
    by (intro conjI exI [of _ "x # ns"] exI [of _ dd]) (auto simp: rendered_Cons)
qed

lemma proper_components_copy:
  assumes "f \<noteq> []" and "hd f \<noteq> CHR ''/''" and "take 2 f \<noteq> ''./''" and "\<not> (f = ''.'' \<and> d)"
  shows "proper_components d f = component_of f # proper_components d (after_component f)"
    and "copied f = component_of f @ ''/'' \<or> after_component f = [] \<and> copied f = component_of f"
    and "component_of f \<noteq> []"
proof -
  show ne: "component_of f \<noteq> []" using assms(1,2) by (cases f) auto
  show "copied f = component_of f @ ''/'' \<or> after_component f = [] \<and> copied f = component_of f"
    by (cases f rule: component_cases) auto
  show "proper_components d f = component_of f # proper_components d (after_component f)"
  proof (cases f rule: component_cases)
    case 1
    then show ?thesis
      using ne assms(4) split_slash_single [OF component_of_no_slash, of f]
      by (auto simp: proper_components_def Let_def proper_components_steps)
  next
    case (2 r)
    have "component_of f \<noteq> ''.''" using 2(1) assms(3) by auto
    with proper_components_name(1) [OF component_of_no_slash ne, of d r] 2 show ?thesis by metis
  qed
qed

text \<open>
  What the loop returns for the components \<open>cs\<close> it reads when they normalise to \<open>full\<close>: the last
  component has its slash or not.
\<close>

definition cleaned :: "cfn_flags \<Rightarrow> bool \<Rightarrow> string list \<Rightarrow> string list \<Rightarrow> string list" where
  "cleaned fl anchored st cs = (if collapse_dot_dot_dirs fl then collapse anchored st cs else rev st @ cs)"

definition loop_result :: "cfn_flags \<Rightarrow> bool \<Rightarrow> string list \<Rightarrow> string list \<Rightarrow> string option \<Rightarrow> bool" where
  "loop_result fl anchored cs full r =
     (let refused = refuse_dot_dot_dirs fl \<and> ''..'' \<in> set cs in
      case r of None \<Rightarrow> refused
      | Some out \<Rightarrow> \<not> refused \<and>
          (out = rendered anchored (rev full)
           \<or> full \<noteq> [] \<and> last full \<noteq> [] \<and> CHR ''/'' \<notin> set (last full) \<and> out = butlast (rendered anchored (rev full))))"

lemma loop_result_Cons:
  "\<not> (refuse_dot_dot_dirs fl \<and> c = ''..'') \<Longrightarrow> loop_result fl anchored (c # cs) full r = loop_result fl anchored cs full r"
  by (auto simp: loop_result_def Let_def split: option.splits)

lemma cleaned_Nil [simp]: "cleaned fl anchored st [] = rev st"
  by (simp add: cleaned_def)

lemma cleaned_copy:
  assumes "collapse_dot_dot_dirs fl \<and> c = ''..'' \<Longrightarrow> (st = [] \<or> hd st = ''..'') \<and> \<not> (anchored \<and> st = [])"
  shows "cleaned fl anchored st (c # cs) = cleaned fl anchored (c # st) cs"
  using assms by (cases st) (auto simp: cleaned_def)

lemma clean_loop_spec:
  assumes "\<not> keep_dot_dirs fl" and "collapse_dot_dot_dirs fl \<Longrightarrow> clean_inv anchored st out limit"
    and "out = rendered anchored st"
  shows "loop_result fl anchored (proper_components (drop_trailing_dot_dir fl) f)
           (cleaned fl anchored st (proper_components (drop_trailing_dot_dir fl) f))
           (clean_loop fl anchored f out limit)"
  (is "?goal f out limit st")
  using assms(2,3)
proof (induction "length f" arbitrary: f out limit st rule: less_induct)
  case less
  note inv = less.prems
  let ?d = "drop_trailing_dot_dir fl"
  have copy: "?goal f out limit st"
    if cl: "clean_loop fl anchored f out limit = clean_loop fl anchored (after_component f) (out @ copied f) lim'"
      and f: "f \<noteq> []" "hd f \<noteq> CHR ''/''" "take 2 f \<noteq> ''./''" "\<not> (f = ''.'' \<and> ?d)"
      and inv': "collapse_dot_dot_dirs fl \<Longrightarrow> clean_inv anchored (component_of f # st) (out @ component_of f @ ''/'') lim'"
      and step: "collapse_dot_dot_dirs fl \<and> component_of f = ''..'' \<Longrightarrow> (st = [] \<or> hd st = ''..'') \<and> \<not> (anchored \<and> st = [])"
      and ref: "\<not> (refuse_dot_dot_dirs fl \<and> component_of f = ''..'')" for lim'
  proof -
    note pc = proper_components_copy [OF f]
    note st = cleaned_copy [where fl = fl and c = "component_of f" and st = st and anchored = anchored, OF step]
    show ?thesis
    proof (cases "copied f = component_of f @ ''/''")
      case True
      have "?goal (after_component f) (out @ copied f) lim' (component_of f # st)"
        using less.hyps [OF length_after_component [OF f(1)], of "component_of f # st" "out @ copied f" lim']
          inv' inv(2) True by (simp add: rendered_Cons)
      then show ?thesis by (simp only: cl pc(1) st loop_result_Cons [OF ref])
    next
      case False
      then have a: "after_component f = []" "copied f = component_of f" using pc(2) by auto
      have c: "clean_loop fl anchored f out limit = Some (out @ component_of f)"
        unfolding cl a by (subst clean_loop.simps) simp
      have "loop_result fl anchored [] (rev st @ [component_of f]) (Some (out @ component_of f))"
        using inv(2) pc(3) by (simp add: loop_result_def rendered_Cons butlast_append)
      then show ?thesis
        by (simp only: c pc(1) st loop_result_Cons [OF ref] a(1) proper_components_steps cleaned_Nil rev.simps)
    qed
  qed
  show ?case
  proof (cases "f = [] \<or> hd f = CHR ''/'' \<or> take 2 f = ''./'' \<or> (f = ''.'' \<and> ?d)")
    case True
    consider "f = []" | r where "f = CHR ''/'' # r" | r where "f = ''./'' @ r" | "f = ''.''" "?d"
      using True dot_slash_iff [of f] by (cases f) auto
    then show ?thesis
    proof cases
      case 1
      then show ?thesis using inv(2) by (subst clean_loop.simps) (simp add: proper_components_steps loop_result_def)
    next
      case (2 r)
      have "length r < length f" using 2 by simp
      from less.hyps [OF this inv] show ?thesis
        using 2 by (subst clean_loop.simps) (simp add: proper_components_steps)
    next
      case (3 r)
      have "length r < length f" using 3 by simp
      from less.hyps [OF this inv] show ?thesis
        using 3 assms(1) proper_components_steps(3) [of ?d r] by (subst clean_loop.simps) simp
    next
      case 4
      then show ?thesis
        using inv(2) by (subst clean_loop.simps) (simp add: proper_components_def loop_result_def)
    qed
  next
    case False
    then have f: "f \<noteq> []" "hd f \<noteq> CHR ''/''" "take 2 f \<noteq> ''./''" "\<not> (f = ''.'' \<and> ?d)" by auto
    show ?thesis
    proof (cases "(collapse_dot_dot_dirs fl \<or> refuse_dot_dot_dirs fl) \<and> dot_dot_dir f")
      case False
      have cl: "clean_loop fl anchored f out limit = clean_loop fl anchored (after_component f) (out @ copied f) limit"
        using f False by (subst clean_loop.simps) auto
      have n: "collapse_dot_dot_dirs fl \<Longrightarrow> component_of f \<noteq> ''..''"
        "\<not> (refuse_dot_dot_dirs fl \<and> component_of f = ''..'')" using False by (auto simp: dot_dot_dir_iff)
      show ?thesis
        by (rule copy [OF cl f clean_inv_push [OF inv(1)]]) (use n in simp_all)
    next
      case True
      then have dd: "component_of f = ''..''" by (simp add: dot_dot_dir_iff)
      show ?thesis
      proof (cases "refuse_dot_dot_dirs fl")
        case ref: True
        then have "clean_loop fl anchored f out limit = None" using f True by (subst clean_loop.simps) simp
        then show ?thesis using ref dd proper_components_copy(1) [OF f] by (simp add: loop_result_def)
      next
        case noref: False
        then have c: "collapse_dot_dot_dirs fl" using True by blast
        have drop2: "proper_components ?d (drop 2 f) = proper_components ?d (after_component f)"
          "length (drop 2 f) < length f"
        proof -
          show "length (drop 2 f) < length f" using f(1) by simp
          show "proper_components ?d (drop 2 f) = proper_components ?d (after_component f)"
          proof (cases f rule: component_cases)
            case 1
            then have "f = ''..''" using dd by simp
            then show ?thesis using 1 by simp
          next
            case (2 r)
            then have "drop 2 f = CHR ''/'' # r" using dd by (metis append_Cons append_Nil drop_0 drop_Suc_Cons numeral_2_eq_2)
            then show ?thesis using 2 by (simp add: proper_components_steps)
          qed
        qed
        note pc = proper_components_copy(1) [OF f, unfolded dd]
        note I = inv(1) [OF c]
        have ref: "\<not> (refuse_dot_dot_dirs fl \<and> ''..'' = ''..'')" using noref by simp
        note lr = pc drop2(1) loop_result_Cons [OF ref]
        consider "st = []" "anchored" | x st' where "st = x # st'" "x \<noteq> ''..''"
          | "st = [] \<or> hd st = ''..''" "\<not> (anchored \<and> st = [])"
          by (cases st) auto
        then show ?thesis
        proof cases
          case 1
          have "clean_loop fl anchored f out limit = clean_loop fl anchored (drop 2 f) out limit"
            using f True noref 1 inv(2) by (subst clean_loop.simps) (auto simp: rendered_empty Let_def)
          moreover have "cleaned fl anchored st (''..'' # cs) = cleaned fl anchored st cs" for cs
            using c 1 by (simp add: cleaned_def)
          ultimately show ?thesis using less.hyps [OF drop2(2) inv] by (simp only: lr)
        next
          case (2 x st')
          note pop = clean_inv_pop [OF I [unfolded 2(1)] 2(2)]
          let ?out = "rendered anchored st'"
          have "x \<noteq> [] \<or> x = []" by blast
          have l: "length out > length ?out" using inv(2) 2(1) by (simp add: rendered_Cons)
          have r: "nat (int (length ?out) - 1) = length ?out - 1" by simp
          have "\<not> (int (length out) - 1 = 0 \<and> anchored)"
            using l by (cases anchored) (auto simp: rendered_def)
          then have "clean_loop fl anchored f out limit = clean_loop fl anchored (drop 2 f) ?out limit"
            using f True noref pop(1,3,5) l r by (subst clean_loop.simps) (auto simp: Let_def)
          moreover have "cleaned fl anchored st (''..'' # cs) = cleaned fl anchored st' cs" for cs
            using c 2 by (simp add: cleaned_def)
          ultimately show ?thesis using less.hyps [OF drop2(2) pop(2) refl] by (simp only: lr)
        next
          case 3
          note keep = clean_inv_keep [OF I 3]
          have cl: "clean_loop fl anchored f out limit = clean_loop fl anchored (after_component f) (out @ copied f) (int (length out) + 2)"
            using f True noref keep(1,2) by (subst clean_loop.simps) (auto simp: Let_def)
          show ?thesis
            by (rule copy [OF cl f]) (use dd 3 keep(3) noref in simp_all)
        qed
      qed
    qed
  qed
qed

lemma concat_components_empty: "concat (map (\<lambda>c. c @ ''/'') cs) = [] \<longleftrightarrow> cs = []"
  by (cases cs) auto

lemma butlast_components:
  "butlast (concat (map (\<lambda>c. c @ ''/'') (cs @ [c]))) = concat (map (\<lambda>c. c @ ''/'') cs) @ c"
  by (simp add: butlast_append)

lemma join_path_rendered:
  "join_path anchored full = (let s = (if full = [] then rendered anchored [] else butlast (rendered anchored (rev full)))
                              in if s = [] then ''.'' else s)"
  by (cases full rule: rev_cases) (auto simp: join_path_def rendered_def butlast_append Let_def)

lemma rendered_end:
  assumes "full \<noteq> []"
  shows "length (rendered anchored (rev full)) > (if anchored then 1 else 0)" "last (rendered anchored (rev full)) = CHR ''/''"
proof -
  obtain cs c where "full = cs @ [c]" using assms by (cases full rule: rev_cases) auto
  then show "length (rendered anchored (rev full)) > (if anchored then 1 else 0)" "last (rendered anchored (rev full)) = CHR ''/''"
    by (auto simp: rendered_def)
qed

lemma clean_fname_normal:
  assumes "\<not> keep_dot_dirs fl" and "\<not> keep_trailing_slash fl"
  shows "clean_fname fl name =
     (let anchored = (take 1 name = ''/''); cs = proper_components (drop_trailing_dot_dir fl) name
      in if refuse_dot_dot_dirs fl \<and> ''..'' \<in> set cs then None
         else Some (join_path anchored (clean_components fl anchored cs)))"
proof -
  define a where "a = (take 1 name = ''/'')"
  let ?a = "a" and ?d = "drop_trailing_dot_dir fl"
  let ?f = "if ?a then tl name else name"
  let ?cs = "proper_components ?d name"
  let ?full = "clean_components fl ?a ?cs"
  have cs: "proper_components ?d ?f = ?cs"
    by (cases name) (auto simp: proper_components_steps a_def)
  have inv: "clean_inv ?a [] (rendered ?a []) (- 1)"
    by (auto simp: clean_inv_def)
  have full: "cleaned fl ?a [] ?cs = ?full" by (simp add: cleaned_def clean_components_def)
  have spec: "loop_result fl ?a ?cs ?full (clean_loop fl ?a ?f (rendered ?a []) (- 1))"
    using clean_loop_spec [OF assms(1) inv refl, of ?f] unfolding cs full .
  show ?thesis
  proof (cases "\<not> ?a \<and> refuse_dot_dot_dirs fl \<and> dot_dot_dir name")
    case True
    then have d: "component_of name = ''..''" by (simp add: dot_dot_dir_iff)
    then have "name \<noteq> []" "hd name \<noteq> CHR ''/''" "take 2 name \<noteq> ''./''" "name \<noteq> ''.''"
      by (auto simp: dot_slash_iff hd_conv_nth split: if_splits) (cases name; auto)
    then have "''..'' \<in> set ?cs" using proper_components_copy(1) [of name ?d] d by simp
    then show ?thesis using True assms by (simp add: clean_fname_def a_def)
  next
    case False
    let ?fin = "\<lambda>out. let out = (if length out > (if ?a then 1 else 0) \<and> last out = CHR ''/'' then butlast out else out)
                   in if out = [] then ''.'' else out"
    have run: "clean_fname fl name = map_option ?fin (clean_loop fl ?a ?f (rendered ?a []) (- 1))"
      using False assms by (auto simp: clean_fname_def a_def Let_def rendered_def split: option.splits)
    have fin: "?fin out = join_path ?a ?full"
      if "out = rendered ?a (rev ?full) \<or> ?full \<noteq> [] \<and> last ?full \<noteq> [] \<and> CHR ''/'' \<notin> set (last ?full)
            \<and> out = butlast (rendered ?a (rev ?full))" for out
      using that
    proof
      assume out: "out = rendered ?a (rev ?full)"
      show ?thesis
        using rendered_end [of ?full ?a] by (cases "?full = []") (auto simp: out join_path_rendered rendered_def Let_def)
    next
      assume l: "?full \<noteq> [] \<and> last ?full \<noteq> [] \<and> CHR ''/'' \<notin> set (last ?full) \<and> out = butlast (rendered ?a (rev ?full))"
      then obtain cs c where c: "?full = cs @ [c]" "c \<noteq> []" "CHR ''/'' \<notin> set c" by (cases ?full rule: rev_cases) auto
      then have out: "out = rendered ?a (rev cs) @ c" using l by (simp add: rendered_def butlast_append)
      have "last out \<noteq> CHR ''/''" using out c(2,3) last_in_set [of c] by (metis last_appendR)
      moreover have "butlast (rendered ?a (rev ?full)) = out" using l by blast
      ultimately show ?thesis using c by (simp add: join_path_rendered Let_def)
    qed
    show ?thesis
    proof (cases "clean_loop fl ?a ?f (rendered ?a []) (- 1)")
      case None
      then show ?thesis using spec run by (simp add: loop_result_def a_def)
    next
      case (Some out)
      then have "\<not> (refuse_dot_dot_dirs fl \<and> ''..'' \<in> set ?cs)" "?fin out = join_path ?a ?full"
        using spec fin [of out] by (simp_all add: loop_result_def)
      moreover have "clean_fname fl name = Some (?fin out)" using run Some by simp
      ultimately show ?thesis by (simp only: Let_def if_False flip: a_def)
    qed
  qed
qed

subsection \<open>sanitize_path\<close>

text \<open>
  \<open>out\<close> is the whole destination, its first \<open>rlen\<close> characters the root; \<open>start\<close> and
  \<open>sanp = length out\<close> are positions in it.
\<close>

datatype san_dest = In_place | Buffer | Allocate

text \<open>The value of Linux's headers; rsync.h has its own only for systems without one.\<close>

definition MAXPATHLEN :: nat where
  "MAXPATHLEN = 4096"

function san_back :: "string \<Rightarrow> nat \<Rightarrow> nat \<Rightarrow> nat" where
  "san_back out start sanp =
     (if sanp > start \<and> out ! (sanp - 1) \<noteq> CHR ''/'' then san_back out start (sanp - 1) else sanp)"
  by pat_completeness auto
termination by (relation "measure (\<lambda>(out, start, sanp). sanp)") auto

declare san_back.simps [simp del]

function sanitize_loop :: "bool \<Rightarrow> string \<Rightarrow> string \<Rightarrow> nat \<Rightarrow> int \<Rightarrow> string" where
  "sanitize_loop drop_dots p out start depth =
     (if p = [] then out
      else if hd p = CHR ''/'' then sanitize_loop drop_dots (tl p) out start depth
      else if drop_dots \<and> component_of p = ''.'' then sanitize_loop drop_dots (tl p) out start depth
      else if dot_dot_dir p then
        (if depth \<le> 0 \<or> length out \<noteq> start then
           sanitize_loop drop_dots (drop 2 p)
             (if length out \<noteq> start then take (san_back out start (length out - 1)) out else out) start depth
         else sanitize_loop drop_dots (after_component p) (out @ copied p) (length out + 3) (depth - 1))
      else sanitize_loop drop_dots (after_component p) (out @ copied p) start depth)"
  by pat_completeness auto
termination
  by (relation "measure (\<lambda>(d, p, out, start, depth). length p)")
    (auto simp: length_after_component dot_dot_dir_def)

declare sanitize_loop.simps [simp del]

fun skip_dot_slash :: "string \<Rightarrow> string" where
  "skip_dot_slash (c # d # p) = (if c = CHR ''.'' \<and> d = CHR ''/'' then skip_dot_slash p else c # d # p)"
| "skip_dot_slash p = p"

text \<open>
  \<open>rootdir = None\<close> is the null pointer, for which the module's directory is taken. The result
  \<open>None\<close> is the null pointer returned when the destination's buffer is too small.
\<close>

definition sanitize_path :: "string \<Rightarrow> bool \<Rightarrow> san_dest \<Rightarrow> string \<Rightarrow> string option \<Rightarrow> int \<Rightarrow> bool \<Rightarrow> string option" where
  "sanitize_path module_dir relative_paths dest p rootdir depth sp_keep_dot_dirs =
     (let drop_dots = (\<not> relative_paths \<or> \<not> sp_keep_dot_dirs);
          plen = length p;
          absolute = (dest \<noteq> In_place \<and> take 1 p = ''/'');
          root = (if absolute then (case rootdir of None \<Rightarrow> module_dir | Some r \<Rightarrow> r) else []);
          depth = (if absolute then 0 else depth);
          p = (if absolute then tl p else p)
      in if dest = Buffer \<and> length root + plen + 1 \<ge> MAXPATHLEN then None
         else
           let out = (if length root > 1 then root @ ''/'' else root);
               p = (if drop_dots then skip_dot_slash p else p);
               out = sanitize_loop drop_dots p out (length out) depth
           in Some (if out = [] then ''.'' else out))"

subsection \<open>What sanitize_path leaves\<close>

fun sanitized :: "nat \<Rightarrow> string list \<Rightarrow> string list \<Rightarrow> string list" where
  "sanitized depth st [] = rev st"
| "sanitized depth st (c # cs) =
     (if c = ''..'' then
        (if st = [] \<or> hd st = ''..'' then
           (case depth of 0 \<Rightarrow> sanitized 0 st cs | Suc d \<Rightarrow> sanitized d (c # st) cs)
         else sanitized depth (tl st) cs)
      else sanitized depth (c # st) cs)"

definition kept_components :: "bool \<Rightarrow> string \<Rightarrow> string list" where
  "kept_components drop_dots s = filter (\<lambda>c. \<not> (drop_dots \<and> c = ''.'')) (components s)"

lemma sanitized_shape:
  "(\<exists>ns dd. st = ns @ replicate dd ''..'' \<and> ''..'' \<notin> set ns \<and> dd + depth \<le> n) \<Longrightarrow>
   \<exists>ns dd. sanitized depth st cs = replicate dd ''..'' @ ns \<and> ''..'' \<notin> set ns \<and> dd \<le> n"
proof (induction depth st cs rule: sanitized.induct)
  case (1 depth st)
  then obtain ns dd where "st = ns @ replicate dd ''..''" "''..'' \<notin> set ns" "dd + depth \<le> n" by blast
  then show ?case by (intro exI [of _ "rev ns"] exI [of _ dd]) simp
next
  case (2 depth st c cs)
  then obtain ns dd where st: "st = ns @ replicate dd ''..''" "''..'' \<notin> set ns" "dd + depth \<le> n" by blast
  consider (up0) "c = ''..''" "ns = []" "depth = 0" | (up) d where "c = ''..''" "ns = []" "depth = Suc d"
    | (pop) x ns' where "c = ''..''" "ns = x # ns'" | (push) "c \<noteq> ''..''"
    by (cases ns; cases depth) auto
  then show ?case
  proof cases
    case up0
    have h: "st = [] \<or> hd st = ''..''" using st(1) up0(2) by (cases dd) auto
    have "\<exists>ns dd. st = ns @ replicate dd ''..'' \<and> ''..'' \<notin> set ns \<and> dd + 0 \<le> n"
      using st up0 by (intro exI [of _ "[]"] exI [of _ dd]) simp
    from 2(1) [OF up0(1) h up0(3) this] show ?thesis using up0 h by simp
  next
    case (up d)
    have h: "st = [] \<or> hd st = ''..''" using st(1) up(2) by (cases dd) auto
    have "\<exists>ns dd. c # st = ns @ replicate dd ''..'' \<and> ''..'' \<notin> set ns \<and> dd + d \<le> n"
      using st up by (intro exI [of _ "[]"] exI [of _ "Suc dd"]) simp
    from 2(2) [OF up(1) h up(3) this] show ?thesis using up h by simp
  next
    case (pop x ns')
    have h: "\<not> (st = [] \<or> hd st = ''..'')" using st pop by auto
    have "\<exists>ns dd. tl st = ns @ replicate dd ''..'' \<and> ''..'' \<notin> set ns \<and> dd + depth \<le> n"
      using st pop by (intro exI [of _ ns'] exI [of _ dd]) simp
    from 2(3) [OF pop(1) h this] show ?thesis using pop h by simp
  next
    case push
    have "\<exists>ns dd. c # st = ns @ replicate dd ''..'' \<and> ''..'' \<notin> set ns \<and> dd + depth \<le> n"
      using st push by (intro exI [of _ "c # ns"] exI [of _ dd]) simp
    from 2(4) [OF push this] show ?thesis using push by simp
  qed
qed

definition san_inv :: "string \<Rightarrow> string list \<Rightarrow> string \<Rightarrow> nat \<Rightarrow> bool" where
  "san_inv root st out start \<longleftrightarrow> out = root @ rendered False st
     \<and> (\<exists>ns dd. st = ns @ replicate dd ''..'' \<and> ''..'' \<notin> set ns
          \<and> (\<forall>c\<in>set ns. c \<noteq> [] \<and> CHR ''/'' \<notin> set c)
          \<and> start = length root + length (rendered False (replicate dd ''..'')))"

lemma san_back_component:
  assumes "CHR ''/'' \<notin> set x" and "pre = [] \<or> last pre = CHR ''/''" and "start \<le> length root + length pre"
    and "start > length root \<or> pre \<noteq> [] \<or> start = length root" and "k \<le> length x" and "length root \<le> start"
  shows "san_back (root @ pre @ x @ y) start (length root + length pre + k) = length root + length pre"
  using assms(5)
proof (induction k)
  case 0
  show ?case
  proof (cases "pre = []")
    case True
    then show ?thesis using assms(3,6) by (subst san_back.simps) simp
  next
    case False
    then have "(root @ pre @ x @ y) ! (length root + length pre - 1) = CHR ''/''"
      using assms(2) by (cases pre rule: rev_cases) (simp_all add: nth_append)
    then show ?thesis by (subst san_back.simps) simp
  qed
next
  case (Suc k)
  have "x ! k \<in> set x" using Suc.prems by simp
  then have "x ! k \<noteq> CHR ''/''" using assms(1) by metis
  then have "(root @ pre @ x @ y) ! (length root + length pre + k) \<noteq> CHR ''/''" using Suc.prems by (simp add: nth_append)
  then show ?case using Suc assms(3) by (subst san_back.simps) simp
qed

lemma san_inv_pop:
  assumes inv: "san_inv root (x # st) out start" and "x \<noteq> ''..''"
  shows "length out \<noteq> start" and "san_inv root st (take (san_back out start (length out - 1)) out) start"
proof -
  obtain ns dd where st: "x # st = ns @ replicate dd ''..''" "''..'' \<notin> set ns"
    "\<forall>c\<in>set ns. c \<noteq> [] \<and> CHR ''/'' \<notin> set c"
    "start = length root + length (rendered False (replicate dd ''..''))"
    and out: "out = root @ rendered False st @ x @ ''/''"
    using inv by (auto simp: san_inv_def rendered_Cons)
  obtain ns' where ns: "ns = x # ns'" using st(1) assms(2) by (cases ns; cases dd) auto
  let ?pre = "rendered False st"
  have l: "start \<le> length root + length ?pre" using st(1,4) ns length_rendered_append [of False "replicate dd ''..''" ns'] by auto
  then show "length out \<noteq> start" by (simp add: out)
  have "san_back (root @ ?pre @ x @ ''/'') start (length root + length ?pre + length x) = length root + length ?pre"
    by (rule san_back_component) (use st(3,4) ns l last_rendered in auto)
  then have b: "take (san_back out start (length out - 1)) out = root @ ?pre" by (simp add: out ac_simps)
  show "san_inv root st (take (san_back out start (length out - 1)) out) start"
    unfolding san_inv_def b using st ns by (intro conjI exI [of _ ns'] exI [of _ dd]) auto
qed

lemma san_inv_up:
  assumes "san_inv root st out start" and "st = [] \<or> hd st = ''..''"
  shows "length out = start" and "san_inv root (''..'' # st) (out @ ''../'') (length out + 3)"
proof -
  obtain ns dd where st: "st = ns @ replicate dd ''..''" "''..'' \<notin> set ns"
    "start = length root + length (rendered False (replicate dd ''..''))" and out: "out = root @ rendered False st"
    using assms(1) by (auto simp: san_inv_def)
  have ns: "ns = []" using st(1,2) assms(2) by (cases ns) auto
  show l: "length out = start" using st ns by (simp add: out)
  have "''..'' # st = [] @ replicate (Suc dd) ''..''" using st(1) ns by simp
  then show "san_inv root (''..'' # st) (out @ ''../'') (length out + 3)"
    unfolding san_inv_def
    by (intro conjI exI [of _ "[]"] exI [of _ "Suc dd"]) (use st(1) ns in \<open>auto simp: out rendered_Cons\<close>)
qed

lemma san_inv_push:
  assumes "san_inv root st out start" and "x \<noteq> ''..''" and "x \<noteq> []" and "CHR ''/'' \<notin> set x"
  shows "san_inv root (x # st) (out @ x @ ''/'') start"
proof -
  obtain ns dd where "st = ns @ replicate dd ''..''" "''..'' \<notin> set ns"
    "\<forall>c\<in>set ns. c \<noteq> [] \<and> CHR ''/'' \<notin> set c"
    "start = length root + length (rendered False (replicate dd ''..''))" "out = root @ rendered False st"
    using assms(1) by (auto simp: san_inv_def)
  then show ?thesis
    unfolding san_inv_def using assms(2-)
    by (intro conjI exI [of _ "x # ns"] exI [of _ dd]) (auto simp: rendered_Cons)
qed

lemma components_rendered:
  "(\<forall>c\<in>set st. c \<noteq> [] \<and> CHR ''/'' \<notin> set c) \<Longrightarrow> components (rendered False st @ s) = rev st @ components s"
  by (induction st arbitrary: s) (simp_all add: rendered_Cons rendered_empty components_name_join)

lemma san_inv_names: "san_inv root st out start \<Longrightarrow> \<forall>c\<in>set st. c \<noteq> [] \<and> CHR ''/'' \<notin> set c"
  by (auto simp: san_inv_def)

lemma components_copy:
  assumes "p \<noteq> []" and "hd p \<noteq> CHR ''/''"
  shows "components p = component_of p # components (after_component p)" and "component_of p \<noteq> []"
proof -
  show ne: "component_of p \<noteq> []" using assms by (cases p) auto
  show "components p = component_of p # components (after_component p)"
  proof (cases p rule: component_cases)
    case 1
    then show ?thesis using components_single [OF component_of_no_slash ne] by simp
  next
    case (2 r)
    then show ?thesis using components_name_join [OF component_of_no_slash ne, of r] by simp
  qed
qed

lemma components_after_dots:
  assumes "component_of p = replicate n (CHR ''.'')" and "p \<noteq> []"
  shows "components (drop n p) = components (after_component p)"
proof (cases p rule: component_cases)
  case 1
  then have "p = replicate n (CHR ''.'')" using assms(1) by simp
  then show ?thesis using 1(3) by simp
next
  case (2 r)
  have "drop n (replicate n (CHR ''.'') @ CHR ''/'' # r) = CHR ''/'' # r" by simp
  then have "drop n p = CHR ''/'' # r" using 2(1) assms(1) by metis
  then show ?thesis using 2(3) by simp
qed

lemma sanitize_loop_spec:
  assumes "san_inv root st out start"
  shows "\<exists>s. sanitize_loop d p out start depth = root @ s \<and> components s = sanitized (nat depth) st (kept_components d p)"
  (is "?goal p out start depth st")
  using assms
proof (induction "length p" arbitrary: p out start depth st rule: less_induct)
  case less
  note inv = less.prems
  have out: "out = root @ rendered False st" using inv by (simp add: san_inv_def)
  have copy: "?goal p out start depth st"
    if cl: "sanitize_loop d p out start depth = sanitize_loop d (after_component p) (out @ copied p) start' depth'"
      and f: "p \<noteq> []" "hd p \<noteq> CHR ''/''" "\<not> (d \<and> component_of p = ''.'')"
      and inv': "san_inv root (component_of p # st) (out @ component_of p @ ''/'') start'"
      and step: "\<And>cs. sanitized (nat depth) st (component_of p # cs) = sanitized (nat depth') (component_of p # st) cs"
      for start' depth'
  proof -
    note pc = components_copy [OF f(1,2)]
    have k: "kept_components d p = component_of p # kept_components d (after_component p)"
      using pc(1) f(3) by (simp add: kept_components_def)
    show ?thesis
    proof (cases p rule: component_cases)
      case 1
      have "sanitize_loop d p out start depth = root @ (rendered False st @ component_of p)"
        unfolding cl 1(3) by (subst sanitize_loop.simps) (simp add: out 1(2))
      moreover have "components (rendered False st @ component_of p) = rev st @ [component_of p]"
        using components_rendered [OF san_inv_names [OF inv]] components_single [OF component_of_no_slash pc(2)] by simp
      ultimately show ?thesis using step [of "[]"] k 1(3) by (simp add: kept_components_def)
    next
      case (2 r)
      from less.hyps [OF length_after_component [OF f(1)], of "component_of p # st" "out @ copied p" start' depth'] inv' 2(2)
      show ?thesis unfolding cl k step by simp
    qed
  qed
  show ?case
  proof (cases "p = []")
    case True
    then show ?thesis
      using components_rendered [OF san_inv_names [OF inv], of "[]"]
      by (subst sanitize_loop.simps) (simp add: out kept_components_def)
  next
    case ne: False
    show ?thesis
    proof (cases "hd p = CHR ''/''")
      case True
      then obtain r where p: "p = CHR ''/'' # r" using ne by (cases p) auto
      from less.hyps [of r, OF _ inv] show ?thesis
        unfolding p by (subst sanitize_loop.simps) (simp add: kept_components_def)
    next
      case hd: False
      note pc = components_copy(1) [OF ne hd]
      consider (dot) "d" "component_of p = ''.''" | (up) "component_of p = ''..''"
        | (name) "\<not> (d \<and> component_of p = ''.'')" "component_of p \<noteq> ''..''" by blast
      then show ?thesis
      proof cases
        case dot
        have "kept_components d (tl p) = kept_components d p"
          using dot pc components_after_dots [of p 1] ne by (simp add: kept_components_def drop_Suc)
        moreover have "sanitize_loop d p out start depth = sanitize_loop d (tl p) out start depth"
          using ne hd dot by (subst sanitize_loop.simps) simp
        ultimately show ?thesis using less.hyps [of "tl p", OF _ inv] ne by simp
      next
        case name
        have "sanitize_loop d p out start depth = sanitize_loop d (after_component p) (out @ copied p) start depth"
          using ne hd name by (subst sanitize_loop.simps) (auto simp: dot_dot_dir_iff)
        then show ?thesis
          using copy [OF _ ne hd name(1) san_inv_push [OF inv name(2) components_copy(2) [OF ne hd] component_of_no_slash]]
            name(2) by simp
      next
        case up
        have k: "kept_components d p = ''..'' # kept_components d (drop 2 p)"
          using up pc components_after_dots [of p 2] ne by (simp add: kept_components_def numeral_2_eq_2)
        have l: "length (drop 2 p) < length p" using ne by simp
        have loop: "sanitize_loop d p out start depth =
            (if depth \<le> 0 \<or> length out \<noteq> start then
               sanitize_loop d (drop 2 p) (if length out \<noteq> start then take (san_back out start (length out - 1)) out else out) start depth
             else sanitize_loop d (after_component p) (out @ copied p) (length out + 3) (depth - 1))"
          using ne hd up by (subst sanitize_loop.simps) (simp add: dot_dot_dir_iff)
        consider (none) "st = [] \<or> hd st = ''..''" "depth \<le> 0" | (deep) "st = [] \<or> hd st = ''..''" "depth > 0"
          | (pop) x st' where "st = x # st'" "x \<noteq> ''..''" by (cases st; cases "depth \<le> 0") auto
        then show ?thesis
        proof cases
          case none
          then show ?thesis
            using less.hyps [OF l inv, of depth] loop san_inv_up(1) [OF inv none(1)] k by simp
        next
          case deep
          then have "nat depth = Suc (nat (depth - 1))" by simp
          moreover have "sanitize_loop d p out start depth = sanitize_loop d (after_component p) (out @ copied p) (length out + 3) (depth - 1)"
            using loop deep(2) san_inv_up(1) [OF inv deep(1)] by simp
          ultimately show ?thesis
            using copy [OF _ ne hd] san_inv_up(2) [OF inv deep(1)] up deep(1) by simp
        next
          case (pop x st')
          then show ?thesis
            using less.hyps [OF l san_inv_pop(2) [OF inv [unfolded pop(1)] pop(2)], of depth] loop
              san_inv_pop(1) [OF inv [unfolded pop(1)] pop(2)] k by simp
        qed
      qed
    qed
  qed
qed

lemma kept_skip: "drop_dots \<Longrightarrow> kept_components drop_dots (skip_dot_slash p) = kept_components drop_dots p"
proof (induction p rule: skip_dot_slash.induct)
  case (1 c d p)
  then show ?case using components_name_join [of "''.''" p] by (auto simp: kept_components_def)
qed simp_all

lemma sanitize_path_components:
  fixes p :: string
  defines "absolute \<equiv> (\<lambda>dest. dest \<noteq> In_place \<and> take 1 p = ''/'')"
  assumes "sanitize_path module_dir relative_paths dest p rootdir depth keep = Some out"
  shows "\<exists>s. components s = sanitized (if absolute dest then 0 else nat depth) [] (kept_components (\<not> relative_paths \<or> \<not> keep) p)
      \<and> (let root = (if absolute dest then (case rootdir of None \<Rightarrow> module_dir | Some r \<Rightarrow> r) else []);
             res = (if length root > 1 then root @ ''/'' else root) @ s
         in out = (if res = [] then ''.'' else res))"
proof -
  let ?d = "\<not> relative_paths \<or> \<not> keep" and ?a = "absolute dest"
  let ?root = "if ?a then (case rootdir of None \<Rightarrow> module_dir | Some r \<Rightarrow> r) else []"
  let ?out = "if length ?root > 1 then ?root @ ''/'' else ?root"
  let ?p = "if ?a then tl p else p"
  have kp: "kept_components ?d ?p = kept_components ?d p"
    by (cases p) (auto simp: kept_components_def absolute_def)
  have "san_inv ?out [] ?out (length ?out)" by (simp add: san_inv_def rendered_empty)
  from sanitize_loop_spec [OF this, of ?d "if ?d then skip_dot_slash ?p else ?p" "if ?a then 0 else depth"]
  obtain s where s: "sanitize_loop ?d (if ?d then skip_dot_slash ?p else ?p) ?out (length ?out) (if ?a then 0 else depth) = ?out @ s"
    and "components s = sanitized (nat (if ?a then 0 else depth)) [] (kept_components ?d (if ?d then skip_dot_slash ?p else ?p))"
    by blast
  then have c: "components s = sanitized (if ?a then 0 else nat depth) [] (kept_components ?d p)"
    using kept_skip [of ?d ?p] kp by (cases ?d; cases ?a) simp_all
  have "out = (if ?out @ s = [] then ''.'' else ?out @ s)"
    using assms(2) s unfolding sanitize_path_def Let_def absolute_def by (auto split: if_split_asm)
  with c show ?thesis unfolding Let_def by blast
qed

subsection \<open>Consequences\<close>

lemma components_concat:
  assumes "\<forall>c\<in>set cs. c \<noteq> [] \<and> CHR ''/'' \<notin> set c" and "c \<noteq> []" and "CHR ''/'' \<notin> set c"
  shows "components (concat (map (\<lambda>c. c @ ''/'') cs) @ c) = cs @ [c]"
  using assms by (induction cs) (simp_all add: components_single components_name_join)

lemma components_join_path:
  assumes "\<forall>c\<in>set cs. c \<noteq> [] \<and> CHR ''/'' \<notin> set c"
  shows "components (join_path anchored cs) = (if cs = [] \<and> \<not> anchored then [''.''] else cs)"
proof (cases cs rule: rev_cases)
  case Nil
  then show ?thesis using components_single [of "''.''"] by (simp add: join_path_def)
next
  case (snoc xs x)
  have "join_path anchored cs = (if anchored then ''/'' else []) @ concat (map (\<lambda>c. c @ ''/'') xs) @ x"
    using assms by (auto simp: join_path_def snoc butlast_append Let_def)
  then show ?thesis using components_concat [of xs x] assms snoc by simp
qed

lemma proper_components_names: "c \<in> set (proper_components d s) \<Longrightarrow> c \<in> set (components s)"
  by (auto simp: proper_components_def components_def Let_def dest: in_set_butlastD split: if_splits)

lemma clean_fname_refused:
  fixes fl :: cfn_flags
  assumes "\<not> keep_dot_dirs fl" and "\<not> keep_trailing_slash fl" and "refuse_dot_dot_dirs fl"
    and "\<not> collapse_dot_dot_dirs fl" and "clean_fname fl name = Some out"
  shows "''..'' \<notin> set (components out)" and "take 1 out = ''/'' \<longleftrightarrow> take 1 name = ''/''"
proof -
  let ?cs = "proper_components (drop_trailing_dot_dir fl) name"
  have n: "\<forall>c\<in>set ?cs. c \<noteq> [] \<and> CHR ''/'' \<notin> set c"
    using proper_components_names components_no_slash by blast
  have u: "''..'' \<notin> set ?cs" and out: "out = join_path (take 1 name = ''/'') ?cs"
    using assms by (auto simp: clean_fname_normal [OF assms(1,2)] clean_components_def Let_def split: if_splits)
  show "''..'' \<notin> set (components out)"
    using u components_join_path [OF n, of "take 1 name = ''/''"] by (simp add: out split: if_splits)
  show "take 1 out = ''/'' \<longleftrightarrow> take 1 name = ''/''"
    unfolding out
  proof (cases ?cs)
    case (Cons c cs)
    then have "c \<noteq> []" "hd c \<noteq> CHR ''/''" using n by (cases c; auto)+
    then show "take 1 (join_path (take 1 name = ''/'') ?cs) = ''/'' \<longleftrightarrow> take 1 name = ''/''"
      by (cases c) (auto simp: join_path_def Cons Let_def)
  qed (simp add: join_path_def)
qed

lemma sanitize_path_result:
  fixes p :: string
  defines "absolute \<equiv> (\<lambda>dest. dest \<noteq> In_place \<and> take 1 p = ''/'')"
  assumes "sanitize_path module_dir relative_paths dest p rootdir depth keep = Some out"
  shows "\<exists>s dd ns. components s = replicate dd ''..'' @ ns \<and> ''..'' \<notin> set ns \<and> dd \<le> (if absolute dest then 0 else nat depth)
      \<and> (let root = (if absolute dest then (case rootdir of None \<Rightarrow> module_dir | Some r \<Rightarrow> r) else []);
             res = (if length root > 1 then root @ ''/'' else root) @ s
         in out = (if res = [] then ''.'' else res))"
proof -
  let ?n = "if absolute dest then 0 else nat depth" and ?k = "kept_components (\<not> relative_paths \<or> \<not> keep) p"
  have "\<exists>ns dd. ([] :: string list) = ns @ replicate dd ''..'' \<and> ''..'' \<notin> set ns \<and> dd + ?n \<le> ?n"
    by (intro exI [of _ "[]"] exI [of _ 0]) simp
  from sanitized_shape [OF this, of ?k] obtain ns dd
    where r: "sanitized ?n [] ?k = replicate dd ''..'' @ ns" "''..'' \<notin> set ns" "dd \<le> ?n" by blast
  from sanitize_path_components [OF assms(2)] r show ?thesis
    unfolding absolute_def by metis
qed

end
