(* ===== verification/FileList.thy ===== *)
theory FileList
  imports PathNames
begin

text \<open>
  The entries of a file list (rsync.h) and their order (\<open>f_name_cmp\<close> and its callers in flist.c).
  The order is shown to be the lexicographic one on a code of the name: the type of each position,
  then its character.
\<close>

subsection \<open>Entries\<close>

text \<open>
  A directory name is shared between entries: the comparison looks at its address first, so a
  \<open>dirname\<close> is an address with the characters found there. The optional fields in front of the
  structure (\<open>OPT_EXTRA\<close>, \<open>REQ_EXTRA\<close>) are fields of the record. An entry with an empty
  \<open>basename\<close> is not active.
\<close>

record file_struct =
  dirname :: "(nat \<times> string) option"
  basename :: string
  modtime :: uint64
  len32 :: uint32
  mode :: "16 word"
  flags :: "16 word"
  f_depth :: int
  len_high :: uint32
  nsec :: uint32
  f_owner :: uint32
  f_group :: uint32
  f_rdev :: "uint32 \<times> uint32"
  f_symlink :: string
  f_sum :: "byte list"
  f_gnum :: int

definition f_is_active :: "file_struct \<Rightarrow> bool" where
  "f_is_active f = (basename f \<noteq> [])"

definition FLAG_TOP_DIR :: "16 word" where "FLAG_TOP_DIR = 0x0001"
definition FLAG_CONTENT_DIR :: "16 word" where "FLAG_CONTENT_DIR = 0x0004"
definition FLAG_DUPLICATE :: "16 word" where "FLAG_DUPLICATE = 0x0010"
definition FLAG_HLINKED :: "16 word" where "FLAG_HLINKED = 0x0020"
definition FLAG_IMPLIED_DIR :: "16 word" where "FLAG_IMPLIED_DIR = 0x0040"
definition FLAG_LENGTH64 :: "16 word" where "FLAG_LENGTH64 = 0x0200"
definition FLAG_SKIP_GROUP :: "16 word" where "FLAG_SKIP_GROUP = 0x0400"
definition FLAG_MOD_NSEC :: "16 word" where "FLAG_MOD_NSEC = 0x1000"

definition F_LENGTH :: "file_struct \<Rightarrow> uint64" where
  "F_LENGTH f = ucast (len32 f) + (if flags f AND FLAG_LENGTH64 \<noteq> 0 then push_bit 32 (ucast (len_high f)) else 0)"

definition F_MOD_NSEC :: "file_struct \<Rightarrow> uint32" where
  "F_MOD_NSEC f = (if flags f AND FLAG_MOD_NSEC \<noteq> 0 then nsec f else 0)"

text \<open>File types, with Linux's values of the \<open>S_IF\<close> bits.\<close>

definition S_IFMT :: "16 word" where "S_IFMT = 0xF000"
definition S_IFREG :: "16 word" where "S_IFREG = 0x8000"
definition S_IFDIR :: "16 word" where "S_IFDIR = 0x4000"
definition S_IFLNK :: "16 word" where "S_IFLNK = 0xA000"

definition S_ISREG :: "16 word \<Rightarrow> bool" where "S_ISREG m = (m AND S_IFMT = S_IFREG)"
definition S_ISDIR :: "16 word \<Rightarrow> bool" where "S_ISDIR m = (m AND S_IFMT = S_IFDIR)"
definition S_ISLNK :: "16 word \<Rightarrow> bool" where "S_ISLNK m = (m AND S_IFMT = S_IFLNK)"

definition IS_SPECIAL :: "16 word \<Rightarrow> bool" where
  "IS_SPECIAL m = (m AND S_IFMT = 0xC000 \<or> m AND S_IFMT = 0x1000)"

definition IS_DEVICE :: "16 word \<Rightarrow> bool" where
  "IS_DEVICE m = (m AND S_IFMT = 0x2000 \<or> m AND S_IFMT = 0x6000)"

text \<open>\<open>f_name\<close>: the whole name of an active entry.\<close>

definition f_name :: "file_struct \<Rightarrow> string option" where
  "f_name f = (if \<not> f_is_active f then None
               else Some (case dirname f of None \<Rightarrow> basename f | Some (_, d) \<Rightarrow> d @ ''/'' @ basename f))"

subsection \<open>f_name_cmp\<close>

datatype fnc_state = s_DIR | s_SLASH | s_BASE | s_TRAILING

datatype fnc_type = t_PATH | t_ITEM

definition t_path :: "int \<Rightarrow> fnc_type" where
  "t_path pv = (if pv \<ge> 29 then t_PATH else t_ITEM)"

text \<open>
  One side of the comparison: its state, its type and the characters the pointer \<open>c1\<close> or \<open>c2\<close>
  still has before it.
\<close>

type_synonym side = "fnc_state \<times> fnc_type \<times> string"

definition base_side :: "int \<Rightarrow> file_struct \<Rightarrow> side" where
  "base_side pv f =
     (let ty = (if S_ISDIR (mode f) then t_path pv else t_ITEM)
      in if ty = t_PATH \<and> basename f = ''.'' then (s_TRAILING, t_ITEM, []) else (s_BASE, ty, basename f))"

definition first_side :: "int \<Rightarrow> file_struct \<Rightarrow> bool \<Rightarrow> side" where
  "first_side pv f shared =
     (case dirname f of None \<Rightarrow> base_side pv f
      | Some (_, d) \<Rightarrow> if shared then base_side pv f else (s_DIR, t_path pv, d))"

fun next_side :: "int \<Rightarrow> file_struct \<Rightarrow> side \<Rightarrow> side" where
  "next_side pv f (s_DIR, ty, c) = (s_SLASH, ty, ''/'')"
| "next_side pv f (s_SLASH, ty, c) = base_side pv f"
| "next_side pv f (s_BASE, ty, c) = (if ty = t_PATH then (s_TRAILING, ty, ''/'') else (s_TRAILING, t_ITEM, c))"
| "next_side pv f (s_TRAILING, ty, c) = (s_TRAILING, t_ITEM, c)"

text \<open>The branch of the second side that sets \<open>found_prefix\<close>.\<close>

definition side_ends :: "fnc_state \<Rightarrow> fnc_type \<Rightarrow> bool" where
  "side_ends st ty = (st = s_TRAILING \<or> (st = s_BASE \<and> ty \<noteq> t_PATH))"

definition type_order :: "fnc_type \<Rightarrow> int" where
  "type_order ty = (if ty = t_PATH then 1 else - 1)"

fun first_char :: "string \<Rightarrow> int" where
  "first_char [] = 0"
| "first_char (c # _) = of_char c"

text \<open>What is still to come on a side, which bounds the loop.\<close>

fun side_left :: "file_struct \<Rightarrow> side \<Rightarrow> nat" where
  "side_left f (s_DIR, ty, c) = length c + length (basename f) + 2"
| "side_left f (s_SLASH, ty, c) = length c + length (basename f) + 1"
| "side_left f (s_BASE, ty, c) = length c + 1"
| "side_left f (s_TRAILING, ty, c) = length c"

lemma base_side_left: "side_left f (base_side pv f) \<le> length (basename f) + 1"
  by (simp add: base_side_def Let_def)

lemma next_side_left: "c = [] \<Longrightarrow> next_side pv f (st, ty, c) = s \<Longrightarrow> side_left f s \<le> side_left f (st, ty, c)"
  using base_side_left [of f pv] by (cases st) auto

definition advance :: "int \<Rightarrow> file_struct \<Rightarrow> side \<Rightarrow> side" where
  "advance pv f s = (if snd (snd s) = [] then next_side pv f s else s)"

lemma advance_left:
  assumes "(st', ty', c') = advance pv f (st, ty, c)" and "c' \<noteq> []"
  shows "side_left f (st', ty', tl c') < side_left f (st, ty, c)"
proof -
  have "side_left f (st', ty', tl c') < side_left f (st', ty', c')" using assms(2) by (cases st') simp_all
  also have "\<dots> \<le> side_left f (st, ty, c)"
    using assms(1) next_side_left [of c pv f st ty] by (auto simp: advance_def split: if_splits)
  finally show ?thesis .
qed

text \<open>
  The loop; the result is the value returned and \<open>found_prefix\<close>. The value \<open>None\<close> is the case in
  which both pointers stand on a final 0 byte without a return: they are moved past it, and the
  comparison goes on with the memory behind the strings.
\<close>

function cmp_loop :: "int \<Rightarrow> file_struct \<Rightarrow> file_struct \<Rightarrow> side \<Rightarrow> side \<Rightarrow> bool \<Rightarrow> int option \<times> bool" where
  "cmp_loop pv f1 f2 (st1, ty1, c1) (st2, ty2, c2) found =
     (let (st1', ty1', c1') = advance pv f1 (st1, ty1, c1)
      in if c1 = [] \<and> c2 \<noteq> [] \<and> ty1' \<noteq> ty2 then (Some (type_order ty1'), found)
         else
           let (st2', ty2', c2') = advance pv f2 (st2, ty2, c2);
               ended = (c2 = [] \<and> side_ends st2 ty2);
               found' = (found \<or> ended)
           in if ended \<and> c1' = [] then (Some 0, found')
              else if c2 = [] \<and> ty1' \<noteq> ty2' then (Some (type_order ty1'), found')
              else if first_char c1' - first_char c2' \<noteq> 0 then (Some (first_char c1' - first_char c2'), found')
              else if c1' = [] then (None, found')
              else cmp_loop pv f1 f2 (st1', ty1', tl c1') (st2', ty2', tl c2') found')"
  by pat_completeness auto
termination
  by (relation "measure (\<lambda>(pv, f1, f2, s1, s2, found). side_left f1 s1)") (auto intro!: advance_left)

declare cmp_loop.simps [simp del]

definition f_name_cmp_found :: "int \<Rightarrow> file_struct option \<Rightarrow> file_struct option \<Rightarrow> int option \<times> bool" where
  "f_name_cmp_found pv f1 f2 =
     (case (f1, f2) of
        (Some f, Some g) \<Rightarrow>
          if \<not> f_is_active f then (if \<not> f_is_active g then (Some 0, False) else (Some (- 1), False))
          else if \<not> f_is_active g then (Some 1, False)
          else
            let shared = (map_option fst (dirname f) = map_option fst (dirname g));
                s1 = first_side pv f shared; s2 = first_side pv g shared
            in if fst (snd s1) \<noteq> fst (snd s2) then (Some (type_order (fst (snd s1))), False)
               else cmp_loop pv f g s1 s2 False
      | (Some f, None) \<Rightarrow> (Some (if f_is_active f then 1 else 0), False)
      | (None, Some g) \<Rightarrow> (Some (if f_is_active g then - 1 else 0), False)
      | (None, None) \<Rightarrow> (Some 0, False))"

definition f_name_cmp :: "int \<Rightarrow> file_struct \<Rightarrow> file_struct \<Rightarrow> int option" where
  "f_name_cmp pv f g = fst (f_name_cmp_found pv (Some f) (Some g))"

definition f_name_has_prefix :: "int \<Rightarrow> file_struct \<Rightarrow> file_struct \<Rightarrow> bool" where
  "f_name_has_prefix pv f g = snd (f_name_cmp_found pv (Some f) (Some g))"

subsection \<open>The order of names\<close>

text \<open>
  The code of a name: each character with its type, \<open>t_PATH\<close> above \<open>t_ITEM\<close>; a directory's name
  ends with a slash and \<open>.\<close> has none (from protocol 29 on).
\<close>

definition tcode :: "fnc_type \<Rightarrow> char \<Rightarrow> nat" where
  "tcode ty c = (if ty = t_PATH then 256 else 0) + of_char c"

definition base_code :: "int \<Rightarrow> file_struct \<Rightarrow> nat list" where
  "base_code pv f =
     (if S_ISDIR (mode f) \<and> 29 \<le> pv then (if basename f = ''.'' then [] else map (tcode t_PATH) (basename f @ ''/''))
      else map (tcode t_ITEM) (basename f))"

definition name_code :: "int \<Rightarrow> file_struct \<Rightarrow> nat list" where
  "name_code pv f =
     (case dirname f of None \<Rightarrow> [] | Some (_, d) \<Rightarrow> map (tcode (t_path pv)) (d @ ''/'')) @ base_code pv f"

fun side_code :: "int \<Rightarrow> file_struct \<Rightarrow> side \<Rightarrow> nat list" where
  "side_code pv f (st, ty, c) = map (tcode ty) c @
     (case st of s_DIR \<Rightarrow> tcode ty (CHR ''/'') # base_code pv f
      | s_SLASH \<Rightarrow> base_code pv f
      | s_BASE \<Rightarrow> (if ty = t_PATH then [tcode t_PATH (CHR ''/'')] else [])
      | s_TRAILING \<Rightarrow> [])"

definition name_ok :: "file_struct \<Rightarrow> bool" where
  "name_ok f \<longleftrightarrow> no_nul (basename f) \<and> basename f \<noteq> [] \<and> (\<forall>p. dirname f = Some p \<longrightarrow> no_nul (snd p))"

text \<open>The entry \<open>.\<close> of a named directory, at which the comparison may leave the strings.\<close>

definition inner_dot :: "int \<Rightarrow> file_struct \<Rightarrow> bool" where
  "inner_dot pv f \<longleftrightarrow> 29 \<le> pv \<and> S_ISDIR (mode f) \<and> basename f = ''.'' \<and> dirname f \<noteq> None"

fun side_ok :: "file_struct \<Rightarrow> side \<Rightarrow> bool" where
  "side_ok f (st, ty, c) \<longleftrightarrow> no_nul c \<and> (st \<in> {s_DIR, s_SLASH} \<longrightarrow> dirname f \<noteq> None)"

lemma of_char_lt_256 [simp]: "(of_char c :: nat) < 256"
  by simp

lemma base_side_code: "side_code pv f (base_side pv f) = base_code pv f"
  by (auto simp: base_side_def base_code_def t_path_def Let_def)

lemma base_side_ok: "name_ok f \<Longrightarrow> side_ok f (base_side pv f)"
  by (auto simp: base_side_def name_ok_def Let_def)

lemma advance_code: "side_code pv f (advance pv f s) = side_code pv f s"
proof (cases s)
  case (fields st ty c)
  then show ?thesis using base_side_code [of pv f] by (cases st) (auto simp: advance_def)
qed

lemma advance_ok: "name_ok f \<Longrightarrow> side_ok f s \<Longrightarrow> side_ok f (advance pv f s)"
proof -
  assume n: "name_ok f" and s: "side_ok f s"
  obtain st ty c where "s = (st, ty, c)" by (cases s) auto
  then show ?thesis using base_side_ok [OF n, of pv] s by (cases st) (auto simp: advance_def)
qed

text \<open>After an advance without a character left the side is at its end.\<close>

lemma advance_end:
  assumes "name_ok f" and "advance pv f (st, ty, c) = (st', ty', [])"
  shows "st' = s_TRAILING" and "ty' = t_ITEM" and "c = []"
    and "\<not> side_ends st ty \<Longrightarrow> side_ok f (st, ty, c) \<Longrightarrow> inner_dot pv f"
proof -
  show c: "c = []" using assms(2) by (auto simp: advance_def split: if_splits)
  have n: "next_side pv f (st, ty, []) = (st', ty', [])" using assms(2) c by (simp add: advance_def)
  show "st' = s_TRAILING" "ty' = t_ITEM"
    using n assms(1) by (cases st; auto simp: base_side_def name_ok_def Let_def split: if_splits)+
  show "inner_dot pv f" if "\<not> side_ends st ty" "side_ok f (st, ty, c)"
    using n that assms(1)
    by (cases st) (auto simp: base_side_def side_ends_def name_ok_def inner_dot_def t_path_def Let_def split: if_splits)
qed

definition order_ok :: "int \<Rightarrow> nat list \<Rightarrow> nat list \<Rightarrow> bool" where
  "order_ok d k l \<longleftrightarrow> (d < 0 \<longleftrightarrow> k < l) \<and> (d = 0 \<longleftrightarrow> k = l)"

lemma side_code_end: "side_code pv f (s_TRAILING, ty, []) = []"
  by simp

lemma side_code_char: "c \<noteq> [] \<Longrightarrow> side_code pv f (st, ty, c) = tcode ty (hd c) # side_code pv f (st, ty, tl c)"
  by (cases c) auto

lemma tcode_less: "ty \<noteq> ty' \<Longrightarrow> tcode ty c < tcode ty' c' \<longleftrightarrow> ty' = t_PATH" "ty \<noteq> ty' \<Longrightarrow> tcode ty c \<noteq> tcode ty' c'"
  using of_char_lt_256 [of c] of_char_lt_256 [of c'] by (cases ty; cases ty'; simp add: tcode_def del: of_char_lt_256)+

lemma first_char_pos: "no_nul c \<Longrightarrow> c \<noteq> [] \<Longrightarrow> first_char c > 0"
  by (cases c) (auto intro: of_char_pos)

lemma order_types:
  assumes "name_ok f" "name_ok g" and "advance pv f s1 = (st1, ty1, c1)" "advance pv g s2 = (st2, ty2, c2)" and "ty1 \<noteq> ty2"
  shows "order_ok (type_order ty1) (side_code pv f (st1, ty1, c1)) (side_code pv g (st2, ty2, c2))"
proof -
  obtain a b c where s1: "s1 = (a, b, c)" by (cases s1) auto
  obtain a' b' c' where s2: "s2 = (a', b', c')" by (cases s2) auto
  have e1: "c1 = [] \<Longrightarrow> st1 = s_TRAILING \<and> ty1 = t_ITEM" using advance_end [OF assms(1), of pv a b c] assms(3) s1 by auto
  have e2: "c2 = [] \<Longrightarrow> st2 = s_TRAILING \<and> ty2 = t_ITEM" using advance_end [OF assms(2), of pv a' b' c'] assms(4) s2 by auto
  show ?thesis
  proof (cases "c1 = [] \<or> c2 = []")
    case True
    then consider "c1 = []" "c2 \<noteq> []" | "c1 \<noteq> []" "c2 = []" using e1 e2 assms(5) by blast
    then show ?thesis
    proof cases
      case 1
      then have "ty2 = t_PATH" using e1 assms(5) by (cases ty2) auto
      then show ?thesis using 1 e1 assms(5) side_code_char [OF 1(2)]
        by (simp add: order_ok_def type_order_def del: side_code.simps) (simp add: side_code_end)
    next
      case 2
      then have "ty1 = t_PATH" using e2 assms(5) by (cases ty1) auto
      then show ?thesis using 2 e2 side_code_char [OF 2(1)]
        by (simp add: order_ok_def type_order_def del: side_code.simps) (simp add: side_code_end)
    qed
  next
    case False
    then show ?thesis
      using side_code_char [of c1 pv f st1 ty1] side_code_char [of c2 pv g st2 ty2] tcode_less [OF assms(5), of "hd c1" "hd c2"] assms(5)
      by (cases ty1; cases ty2) (auto simp: order_ok_def type_order_def simp del: side_code.simps)
  qed
qed

lemma order_chars:
  assumes "no_nul c1" "no_nul c2" and "c1 \<noteq> [] \<or> c2 \<noteq> []" and "first_char c1 \<noteq> first_char c2"
    and "c1 = [] \<Longrightarrow> side_code pv f (st1, ty, c1) = []" "c2 = [] \<Longrightarrow> side_code pv g (st2, ty, c2) = []"
  shows "order_ok (first_char c1 - first_char c2) (side_code pv f (st1, ty, c1)) (side_code pv g (st2, ty, c2))"
proof (cases "c1 = [] \<or> c2 = []")
  case True
  then show ?thesis
    using assms first_char_pos [OF assms(1)] first_char_pos [OF assms(2)]
      side_code_char [of c1 pv f st1 ty] side_code_char [of c2 pv g st2 ty]
    by (cases "c1 = []"; cases "c2 = []") (auto simp: order_ok_def simp del: side_code.simps)
next
  case False
  then obtain x xs y ys where c: "c1 = x # xs" "c2 = y # ys" by (auto simp: neq_Nil_conv)
  have eq: "tcode ty x < tcode ty y \<longleftrightarrow> x < y" "tcode ty x = tcode ty y \<longleftrightarrow> x = y"
    by (auto simp: tcode_def less_char_def)
  have "(of_char x :: int) = of_char y \<longleftrightarrow> x = y" by simp
  then show ?thesis
    using assms(4) eq of_char_less_int [of x y] unfolding c
    by (simp add: order_ok_def side_code_char [of "x # xs"] side_code_char [of "y # ys"] del: side_code.simps)
qed

lemma cmp_loop_spec:
  assumes "name_ok f" "name_ok g"
  shows "side_ok f (st1, ty1, c1) \<Longrightarrow> side_ok g (st2, ty2, c2) \<Longrightarrow> ty1 = ty2 \<Longrightarrow>
    (case fst (cmp_loop pv f g (st1, ty1, c1) (st2, ty2, c2) found) of
       None \<Rightarrow> inner_dot pv g
     | Some d \<Rightarrow> order_ok d (side_code pv f (st1, ty1, c1)) (side_code pv g (st2, ty2, c2)))"
proof (induction "side_left f (st1, ty1, c1)" arbitrary: st1 ty1 c1 st2 ty2 c2 found rule: less_induct)
  case less
  obtain st1' ty1' c1' where a1: "advance pv f (st1, ty1, c1) = (st1', ty1', c1')" by (cases "advance pv f (st1, ty1, c1)") auto
  obtain st2' ty2' c2' where a2: "advance pv g (st2, ty2, c2) = (st2', ty2', c2')" by (cases "advance pv g (st2, ty2, c2)") auto
  let ?k1 = "side_code pv f (st1', ty1', c1')" and ?k2 = "side_code pv g (st2', ty2', c2')"
  have k: "side_code pv f (st1, ty1, c1) = ?k1" "side_code pv g (st2, ty2, c2) = ?k2"
    using advance_code [of pv f "(st1, ty1, c1)"] advance_code [of pv g "(st2, ty2, c2)"] a1 a2 by simp_all
  have ok: "side_ok f (st1', ty1', c1')" "side_ok g (st2', ty2', c2')"
    using advance_ok [OF assms(1) less.prems(1), of pv] advance_ok [OF assms(2) less.prems(2), of pv] a1 a2 by simp_all
  note e1 = advance_end [OF assms(1), of pv st1 ty1 c1, unfolded a1]
  note e2 = advance_end [OF assms(2), of pv st2 ty2 c2, unfolded a2]
  have n1: "c1' = [] \<Longrightarrow> ?k1 = []" and n2: "c2' = [] \<Longrightarrow> ?k2 = []" using e1(1) e2(1) by auto
  have same: "c1 \<noteq> [] \<Longrightarrow> ty1' = ty1" "c2 \<noteq> [] \<Longrightarrow> ty2' = ty2" using a1 a2 by (simp_all add: advance_def)
  let ?ended = "c2 = [] \<and> side_ends st2 ty2"
  have ended: "c2' = []" if "?ended"
    using that a2 by (cases st2) (auto simp: advance_def side_ends_def split: if_splits)
  note run = cmp_loop.simps [of pv f g st1 ty1 c1 st2 ty2 c2 found, unfolded a1 a2, simplified Let_def prod.case]
  consider (types) "ty1' \<noteq> ty2'" | (equal) "ty1' = ty2'" "?ended" "c1' = []"
    | (differ) "ty1' = ty2'" "\<not> (?ended \<and> c1' = [])" "first_char c1' \<noteq> first_char c2'"
    | (lost) "ty1' = ty2'" "\<not> ?ended" "c1' = []" "first_char c1' = first_char c2'"
    | (next_char) "ty1' = ty2'" "first_char c1' = first_char c2'" "c1' \<noteq> []" by blast
  then show ?case
  proof cases
    case types
    have "order_ok (type_order ty1') ?k1 ?k2" by (rule order_types [OF assms a1 a2 types])
    moreover have "\<not> (?ended \<and> c1' = [])" using types ended e1(2) e2(2) by auto
    moreover have "c1 = [] \<or> c2 = []" using types same less.prems(3) by auto
    ultimately show ?thesis unfolding k run using types same by (cases "c2 = []") auto
  next
    case equal
    then have "?k1 = []" "?k2 = []" using n1 n2 ended by blast+
    then show ?thesis unfolding k run using equal by (simp add: order_ok_def del: side_code.simps)
  next
    case differ
    then have "c1' \<noteq> [] \<or> c2' \<noteq> []" by auto
    then have "order_ok (first_char c1' - first_char c2') ?k1 ?k2"
      using order_chars [of c1' c2' pv f st1' ty1' g st2'] ok n1 n2 differ(1,3) by (simp del: side_code.simps)
    then show ?thesis unfolding k run using differ same by (auto simp del: side_code.simps)
  next
    case lost
    then have "c2' = []" using first_char_pos [of c2'] ok by (cases "c2' = []") auto
    then have "inner_dot pv g" using e2(3,4) lost(2) less.prems(2) by simp
    then show ?thesis unfolding k run using lost same by (auto simp del: side_code.simps)
  next
    case next_char
    then have "c2' \<noteq> []" using first_char_pos [of c1'] ok by (cases c2') auto
    then have c: "c1' = hd c1' # tl c1'" "c2' = hd c2' # tl c2'" "hd c1' = hd c2'"
      using next_char(2,3) by (cases c1'; cases c2'; simp)+
    have l: "side_left f (st1', ty1', tl c1') < side_left f (st1, ty1, c1)"
      using advance_left [OF a1 [symmetric] next_char(3)] .
    have ok': "side_ok f (st1', ty1', tl c1')" "side_ok g (st2', ty2', tl c2')"
      using ok c by (simp_all, (metis list.sel(3) no_nul_Cons)+)
    note IH = less.hyps [OF l ok' next_char(1)]
    have "order_ok d ?k1 ?k2 \<longleftrightarrow> order_ok d (side_code pv f (st1', ty1', tl c1')) (side_code pv g (st2', ty2', tl c2'))" for d
      using side_code_char [OF next_char(3), of pv f st1' ty1'] side_code_char [OF \<open>c2' \<noteq> []\<close>, of pv g st2' ty2'] c(3) next_char(1)
      by (simp add: order_ok_def del: side_code.simps)
    moreover have conds: "(c1 = [] \<and> c2 \<noteq> [] \<and> ty1' \<noteq> ty2) = False" "(c2 = [] \<and> ty1' \<noteq> ty2') = False"
      "(?ended \<and> c1' = []) = False" "(first_char c1' - first_char c2' \<noteq> 0) = False" "(c1' = []) = False"
      using next_char same by auto
    have "cmp_loop pv f g (st1, ty1, c1) (st2, ty2, c2) found
        = cmp_loop pv f g (st1', ty1', tl c1') (st2', ty2', tl c2') (found \<or> ?ended)"
      unfolding run conds by simp
    ultimately show ?thesis
      unfolding k using IH [of "found \<or> ?ended"] by (simp del: side_code.simps split: option.splits)
  qed
qed

lemma order_ok_append: "order_ok d (p @ k) (p @ l) \<longleftrightarrow> order_ok d k l"
  by (induction p) (auto simp: order_ok_def)

lemma first_side_code:
  "name_code pv f = (if shared then (case dirname f of None \<Rightarrow> [] | Some p \<Rightarrow> map (tcode (t_path pv)) (snd p @ ''/'')) else [])
     @ side_code pv f (first_side pv f shared)"
  using base_side_code [of pv f] by (auto simp: name_code_def first_side_def split: option.splits)

lemma first_side_ok: "name_ok f \<Longrightarrow> side_ok f (first_side pv f shared)"
  using base_side_ok [of f pv] by (auto simp: first_side_def name_ok_def split: option.splits)

lemma first_side_type: "name_ok f \<Longrightarrow> fst (snd (advance pv f (first_side pv f shared))) = fst (snd (first_side pv f shared))"
  by (auto simp: first_side_def advance_def base_side_def name_ok_def Let_def split: option.splits)

lemma f_name_cmp_spec:
  assumes "name_ok f" "name_ok g"
    and ptr: "\<And>a d d'. dirname f = Some (a, d) \<Longrightarrow> dirname g = Some (a, d') \<Longrightarrow> d = d'"
  shows "case f_name_cmp pv f g of None \<Rightarrow> inner_dot pv g | Some d \<Rightarrow> order_ok d (name_code pv f) (name_code pv g)"
proof -
  define shared where "shared = (map_option fst (dirname f) = map_option fst (dirname g))"
  let ?s1 = "first_side pv f shared" and ?s2 = "first_side pv g shared"
  obtain st1 ty1 c1 where s1: "?s1 = (st1, ty1, c1)" by (cases ?s1) auto
  obtain st2 ty2 c2 where s2: "?s2 = (st2, ty2, c2)" by (cases ?s2) auto
  have run: "f_name_cmp pv f g = (if ty1 \<noteq> ty2 then Some (type_order ty1) else fst (cmp_loop pv f g ?s1 ?s2 False))"
    using assms(1,2) s1 s2
    by (simp add: f_name_cmp_def f_name_cmp_found_def f_is_active_def name_ok_def Let_def flip: shared_def)
  let ?pre = "if shared then (case dirname f of None \<Rightarrow> [] | Some p \<Rightarrow> map (tcode (t_path pv)) (snd p @ ''/'')) else []"
  have pre: "?pre = (if shared then (case dirname g of None \<Rightarrow> [] | Some p \<Rightarrow> map (tcode (t_path pv)) (snd p @ ''/'')) else [])"
    using ptr by (auto simp: shared_def split: option.splits)
  have codes: "name_code pv f = ?pre @ side_code pv f ?s1" "name_code pv g = ?pre @ side_code pv g ?s2"
    using first_side_code [of pv f shared] first_side_code [of pv g shared] unfolding pre by simp_all
  show ?thesis
  proof (cases "ty1 = ty2")
    case True
    then show ?thesis
      using cmp_loop_spec [OF assms(1,2), of st1 ty1 c1 st2 ty2 c2 pv False] first_side_ok [OF assms(1), of pv shared]
        first_side_ok [OF assms(2), of pv shared]
      unfolding run codes order_ok_append s1 s2 by (simp del: side_code.simps)
  next
    case False
    obtain a1 b1 d1 where a1: "advance pv f ?s1 = (a1, b1, d1)" by (cases "advance pv f ?s1") auto
    obtain a2 b2 d2 where a2: "advance pv g ?s2 = (a2, b2, d2)" by (cases "advance pv g ?s2") auto
    have t: "b1 = ty1" "b2 = ty2"
      using first_side_type [OF assms(1), of pv shared] first_side_type [OF assms(2), of pv shared] a1 a2 s1 s2 by simp_all
    have "order_ok (type_order ty1) (side_code pv f (a1, b1, d1)) (side_code pv g (a2, b2, d2))"
      using order_types [OF assms(1,2) a1 a2] t False by simp
    then have "order_ok (type_order ty1) (side_code pv f ?s1) (side_code pv g ?s2)"
      using advance_code [of pv f ?s1] advance_code [of pv g ?s2] a1 a2 by simp
    then show ?thesis unfolding run codes order_ok_append using False by simp
  qed
qed

end
