(* ===== verification/NameOrder.thy ===== *)
theory NameOrder
  imports FileList Wire "HOL-Library.Multiset"
begin

text \<open>
  Sorting and searching a file list: \<open>fsort\<close>, \<open>flist_find\<close> and its callers, and \<open>clear_file\<close> of
  flist.c. The sort is the merge sort; \<open>qsort\<close>, which \<open>--qsort\<close> takes instead, is not modelled. What the sort and the search need of the comparison is the
  locale \<open>comparison\<close>; \<open>f_name_cmp\<close> provides it.
\<close>

subsection \<open>fsort\<close>

text \<open>
  The merge of \<open>fsort_tmp\<close>: entries of the first half that are in place are passed over, the rest of
  it moves to the temporary array and is merged back. \<open>None\<close> is an undefined comparison.
\<close>

fun merge_rest :: "('a \<Rightarrow> 'a \<Rightarrow> int option) \<Rightarrow> 'a list \<Rightarrow> 'a list \<Rightarrow> 'a list option" where
  "merge_rest cmp (x # t) (y # f2) =
     (case cmp x y of None \<Rightarrow> None
      | Some d \<Rightarrow> if d \<le> 0 then map_option ((#) x) (merge_rest cmp t (y # f2))
                  else map_option ((#) y) (merge_rest cmp (x # t) f2))"
| "merge_rest cmp t f2 = Some (t @ f2)"

fun merge_skip :: "('a \<Rightarrow> 'a \<Rightarrow> int option) \<Rightarrow> 'a list \<Rightarrow> 'a list \<Rightarrow> 'a list option" where
  "merge_skip cmp (x # f1) (y # f2) =
     (case cmp x y of None \<Rightarrow> None
      | Some d \<Rightarrow>
          if d \<le> 0 then
            (if f1 = [] then Some (x # y # f2) else map_option ((#) x) (merge_skip cmp f1 (y # f2)))
          else map_option ((#) y) (merge_rest cmp (x # f1) f2))"
| "merge_skip cmp f1 f2 = None"

function fsort_tmp :: "('a \<Rightarrow> 'a \<Rightarrow> int option) \<Rightarrow> 'a list \<Rightarrow> 'a list option" where
  "fsort_tmp cmp fp =
     (let n1 = length fp div 2; n2 = length fp - n1
      in if length fp < 2 then None
         else case (if n1 > 1 then fsort_tmp cmp (take n1 fp) else Some (take n1 fp)) of
           None \<Rightarrow> None
         | Some f1 \<Rightarrow>
             (case (if n2 > 1 then fsort_tmp cmp (drop n1 fp) else Some (drop n1 fp)) of
                None \<Rightarrow> None
              | Some f2 \<Rightarrow> merge_skip cmp f1 f2))"
  by pat_completeness auto
termination by (relation "measure (\<lambda>(cmp, fp). length fp)") auto

declare fsort_tmp.simps [simp del]

definition fsort :: "('a \<Rightarrow> 'a \<Rightarrow> int option) \<Rightarrow> 'a list \<Rightarrow> 'a list option" where
  "fsort cmp fp = (if length fp \<le> 1 then Some fp else fsort_tmp cmp fp)"

lemma merge_skip_rest: "merge_skip cmp (x # f1) (y # f2) = merge_rest cmp (x # f1) (y # f2)"
proof (induction f1 arbitrary: x)
  case (Cons z f1)
  then show ?case by (auto split: option.splits)
qed (auto split: option.splits)

locale comparison =
  fixes cmp :: "'a \<Rightarrow> 'a \<Rightarrow> int option" and key :: "'a \<Rightarrow> 'k :: linorder" and good :: "'a \<Rightarrow> bool"
  assumes cmp_key: "good x \<Longrightarrow> good y \<Longrightarrow> \<exists>d. cmp x y = Some d \<and> (d < 0 \<longleftrightarrow> key x < key y) \<and> (d = 0 \<longleftrightarrow> key x = key y)"
begin

lemma cmp_cases:
  assumes "good x" and "good y"
  obtains d where "cmp x y = Some d" "d < 0" "key x < key y" | d where "cmp x y = Some d" "d = 0" "key x = key y"
  | d where "cmp x y = Some d" "d > 0" "key y < key x"
proof -
  obtain d where "cmp x y = Some d" "d < 0 \<longleftrightarrow> key x < key y" "d = 0 \<longleftrightarrow> key x = key y" using cmp_key [OF assms] by blast
  then show ?thesis using that by (metis linorder_less_linear)
qed

definition stable :: "'a list \<Rightarrow> 'a list \<Rightarrow> bool" where
  "stable xs ys \<longleftrightarrow> mset ys = mset xs \<and> sorted (map key ys) \<and> (\<forall>k. filter (\<lambda>x. key x = k) ys = filter (\<lambda>x. key x = k) xs)"

lemma stable_Cons:
  assumes "stable xs zs" and "\<forall>y\<in>set xs. key x \<le> key y"
  shows "stable (x # xs) (x # zs)"
  using assms by (auto simp: stable_def dest: mset_eq_setD)

lemma stable_move:
  assumes "stable (xs @ ys) zs" and "\<forall>x\<in>set xs. key y < key x" and "\<forall>x\<in>set ys. key y \<le> key x"
  shows "stable (xs @ y # ys) (y # zs)"
proof -
  have "filter (\<lambda>x. key x = key y) xs = []" using assms(2) by (auto simp: filter_empty_conv)
  moreover have "\<forall>x\<in>set zs. key y \<le> key x"
  proof -
    have "set zs = set xs \<union> set ys" using assms(1) mset_eq_setD [of zs "xs @ ys"] by (simp add: stable_def)
    then show ?thesis using assms(2,3) by (auto intro: less_imp_le)
  qed
  ultimately show ?thesis using assms(1) by (auto simp: stable_def)
qed

lemma merge_rest_stable:
  assumes "\<forall>x\<in>set xs. good x" "\<forall>y\<in>set ys. good y" and "sorted (map key xs)" "sorted (map key ys)"
  shows "\<exists>zs. merge_rest cmp xs ys = Some zs \<and> stable (xs @ ys) zs"
  using assms
proof (induction "length xs + length ys" arbitrary: xs ys rule: less_induct)
  case less
  show ?case
  proof (cases "xs = [] \<or> ys = []")
    case True
    then show ?thesis using less.prems by (cases xs; cases ys) (auto simp: stable_def)
  next
    case False
    then obtain x t y f2 where xy: "xs = x # t" "ys = y # f2" by (auto simp: neq_Nil_conv)
    have g: "good x" "good y" using less.prems xy by simp_all
    show ?thesis
    proof (cases "key x \<le> key y")
      case True
      then obtain d where d: "cmp x y = Some d" "d \<le> 0" by (cases rule: cmp_cases [OF g]) auto
      obtain zs where z: "merge_rest cmp t ys = Some zs" "stable (t @ ys) zs"
        using less.hyps [of t ys] less.prems xy by auto
      have "\<forall>z\<in>set (t @ ys). key x \<le> key z" using less.prems(3,4) True xy by auto
      from stable_Cons [OF z(2) this] show ?thesis using d z(1) xy by simp
    next
      case False
      then obtain d where d: "cmp x y = Some d" "\<not> d \<le> 0" by (cases rule: cmp_cases [OF g]) auto
      obtain zs where z: "merge_rest cmp xs f2 = Some zs" "stable (xs @ f2) zs"
        using less.hyps [of xs f2] less.prems xy by auto
      have "\<forall>z\<in>set xs. key y < key z" "\<forall>z\<in>set f2. key y \<le> key z" using less.prems(3,4) False xy by auto
      from stable_move [OF z(2) this] show ?thesis using d z(1) xy by simp
    qed
  qed
qed

lemma stable_append: "stable xs xs' \<Longrightarrow> stable ys ys' \<Longrightarrow> stable (xs' @ ys') zs \<Longrightarrow> stable (xs @ ys) zs"
  by (simp add: stable_def)

lemma stable_good: "stable xs ys \<Longrightarrow> \<forall>x\<in>set xs. good x \<Longrightarrow> \<forall>x\<in>set ys. good x"
  by (auto simp: stable_def dest: mset_eq_setD)

lemma stable_refl: "sorted (map key xs) \<Longrightarrow> stable xs xs"
  by (simp add: stable_def)

lemma stable_length: "stable xs ys \<Longrightarrow> length ys = length xs"
  by (auto simp: stable_def dest: mset_eq_length)

lemma fsort_tmp_stable:
  "\<forall>x\<in>set xs. good x \<Longrightarrow> 2 \<le> length xs \<Longrightarrow> \<exists>ys. fsort_tmp cmp xs = Some ys \<and> stable xs ys"
proof (induction "length xs" arbitrary: xs rule: less_induct)
  case less
  let ?n1 = "length xs div 2"
  let ?f1 = "take ?n1 xs" and ?f2 = "drop ?n1 xs"
  have half: "\<exists>h. (if length f > 1 then fsort_tmp cmp f else Some f) = Some h \<and> stable f h"
    if "length f < length xs" "set f \<subseteq> set xs" for f
  proof (cases "length f > 1")
    case True
    then show ?thesis using less.hyps [OF that(1)] that(2) less.prems(1) by (simp add: subset_iff)
  next
    case False
    then show ?thesis using stable_refl [of f] by (cases f) auto
  qed
  obtain h1 where h1: "(if length ?f1 > 1 then fsort_tmp cmp ?f1 else Some ?f1) = Some h1" "stable ?f1 h1"
    using half [of ?f1] less.prems(2) set_take_subset [of ?n1 xs] by fastforce
  obtain h2 where h2: "(if length ?f2 > 1 then fsort_tmp cmp ?f2 else Some ?f2) = Some h2" "stable ?f2 h2"
    using half [of ?f2] less.prems(2) set_drop_subset [of ?n1 xs] by fastforce
  have "\<forall>x\<in>set ?f1. good x" "\<forall>x\<in>set ?f2. good x" using less.prems(1) by (auto dest: in_set_takeD in_set_dropD)
  then have "\<forall>x\<in>set h1. good x" "\<forall>x\<in>set h2. good x" "sorted (map key h1)" "sorted (map key h2)"
    using stable_good h1(2) h2(2) by (auto simp: stable_def)
  from merge_rest_stable [OF this] obtain zs where zs: "merge_rest cmp h1 h2 = Some zs" "stable (h1 @ h2) zs" by blast
  have "stable xs zs" using stable_append [OF h1(2) h2(2) zs(2)] by simp
  moreover have "fsort_tmp cmp xs = Some zs"
  proof -
    have "h1 \<noteq> []" "h2 \<noteq> []" using stable_length [OF h1(2)] stable_length [OF h2(2)] less.prems(2) by auto
    then obtain x f y g where "h1 = x # f" "h2 = y # g" by (auto simp: neq_Nil_conv)
    then have m: "merge_skip cmp h1 h2 = Some zs" using zs(1) by (simp only: merge_skip_rest)
    have l: "length ?f1 = ?n1" "length ?f2 = length xs - ?n1" by simp_all
    have n: "(length xs < 2) = False" using less.prems(2) by simp
    note h = h1(1)[unfolded l(1)] h2(1)[unfolded l(2)]
    show ?thesis
      by (subst fsort_tmp.simps) (simp only: Let_def h option.case n if_False m)
  qed
  ultimately show ?case by blast
qed

lemma fsort_stable: "\<forall>x\<in>set xs. good x \<Longrightarrow> \<exists>ys. fsort cmp xs = Some ys \<and> stable xs ys"
  using fsort_tmp_stable [of xs] stable_refl [of xs]
  by (cases "length xs \<le> 1") (auto simp: fsort_def le_Suc_eq length_Suc_conv)

end

subsection \<open>The order of a file list\<close>

text \<open>
  \<open>heap\<close> gives the characters at an address. A file is regular when it is removed, or has a proper
  name, a directory name that is the one at its address, and is not the \<open>.\<close> of a named directory.
\<close>

definition regular :: "int \<Rightarrow> (nat \<Rightarrow> string) \<Rightarrow> file_struct \<Rightarrow> bool" where
  "regular pv heap f \<longleftrightarrow>
     (f_is_active f \<longrightarrow> name_ok f \<and> \<not> inner_dot pv f \<and> (\<forall>a d. dirname f = Some (a, d) \<longrightarrow> d = heap a))"

text \<open>A removed entry is before every other one.\<close>

definition file_key :: "int \<Rightarrow> file_struct \<Rightarrow> nat list" where
  "file_key pv f = (if f_is_active f then 0 # name_code pv f else [])"

lemma f_name_cmp_key:
  assumes "regular pv heap f" "regular pv heap g"
  shows "\<exists>d. f_name_cmp pv f g = Some d \<and> order_ok d (file_key pv f) (file_key pv g)"
proof (cases "f_is_active f \<and> f_is_active g")
  case True
  then have "name_ok f" "name_ok g" "\<not> inner_dot pv g" using assms by (simp_all add: regular_def)
  moreover have "d = d'" if "dirname f = Some (a, d)" "dirname g = Some (a, d')" for a d d'
    using that assms True by (simp add: regular_def)
  ultimately show ?thesis
    using f_name_cmp_spec [of f g pv] True by (auto simp: file_key_def order_ok_def split: option.splits)
next
  case False
  then show ?thesis by (auto simp: f_name_cmp_def f_name_cmp_found_def file_key_def order_ok_def)
qed

interpretation names: comparison "f_name_cmp pv" "file_key pv" "regular pv heap" for pv heap
  by unfold_locales (use f_name_cmp_key in \<open>auto simp: order_ok_def\<close>)

subsection \<open>flist_find\<close>

text \<open>
  In a removed entry \<open>F_DEPTH\<close> is a distance to the next entry that is not removed, and \<open>len32\<close> one
  to the last before it. The search follows the distances and writes back what it found. \<open>None\<close> is
  an access outside the array; a search of \<open>n\<close> entries needs at most \<open>n + 1\<close> rounds of each loop.
\<close>

record file_list =
  fl_sorted :: "file_struct list"
  fl_low :: int
  fl_high :: int

definition entry :: "file_struct list \<Rightarrow> int \<Rightarrow> file_struct option" where
  "entry fs i = (if 0 \<le> i \<and> i < int (length fs) then Some (fs ! nat i) else None)"

fun skip_up :: "nat \<Rightarrow> file_struct list \<Rightarrow> int \<Rightarrow> int option" where
  "skip_up 0 fs i = None"
| "skip_up (Suc n) fs i =
     (case entry fs i of None \<Rightarrow> None
      | Some f \<Rightarrow> if f_is_active f then Some i else skip_up n fs (i + f_depth f))"

fun skip_down :: "nat \<Rightarrow> file_struct list \<Rightarrow> int \<Rightarrow> int option" where
  "skip_down 0 fs i = None"
| "skip_down (Suc n) fs i =
     (case entry fs i of None \<Rightarrow> None
      | Some f \<Rightarrow> if f_is_active f then Some i else skip_down n fs (i - sint (len32 f)))"

fun find_loop :: "nat \<Rightarrow> int \<Rightarrow> file_struct \<Rightarrow> file_struct list \<Rightarrow> int \<Rightarrow> int \<Rightarrow> (int \<times> file_struct list) option" where
  "find_loop 0 pv f fs low high = None"
| "find_loop (Suc n) pv f fs low high =
     (if \<not> low \<le> high then Some (- 1, fs)
      else
        let mid = (low + high) div 2 in
        case entry fs mid of None \<Rightarrow> None
        | Some m \<Rightarrow>
            (case (if f_is_active m then Some mid else skip_up (length fs + 1) fs (mid + f_depth m)) of
               None \<Rightarrow> None
             | Some mid_up \<Rightarrow>
                 let fs1 = (if f_is_active m then fs else fs [nat mid := m \<lparr>f_depth := mid_up - mid\<rparr>]) in
                 if mid_up > high then
                   (case skip_down (length fs + 1) fs1 (mid - sint (len32 m)) of
                      None \<Rightarrow> None
                    | Some high' \<Rightarrow>
                        find_loop n pv f
                          (fs1 [nat mid := (fs1 ! nat mid) \<lparr>len32 := word_of_int (mid - high')\<rparr>]) low high')
                 else
                   (case entry fs1 mid_up of None \<Rightarrow> None
                    | Some e \<Rightarrow>
                        (case f_name_cmp pv e f of None \<Rightarrow> None
                         | Some diff \<Rightarrow>
                             if diff = 0 then
                               (if pv < 29 \<and> S_ISDIR (mode e) \<noteq> S_ISDIR (mode f) then Some (- 1, fs1)
                                else Some (mid_up, fs1))
                             else if diff < 0 then find_loop n pv f fs1 (mid_up + 1) high
                             else find_loop n pv f fs1 low (mid - 1)))))"

definition flist_find :: "int \<Rightarrow> file_list \<Rightarrow> file_struct \<Rightarrow> (int \<times> file_list) option" where
  "flist_find pv fl f =
     map_option (\<lambda>(i, fs). (i, fl \<lparr>fl_sorted := fs\<rparr>))
       (find_loop (nat (fl_high fl - fl_low fl) + 2) pv f (fl_sorted fl) (fl_low fl) (fl_high fl))"

definition flip_mode :: "file_struct \<Rightarrow> file_struct" where
  "flip_mode f = f \<lparr>mode := (if S_ISDIR (mode f) then S_IFREG else S_IFDIR)\<rparr>"

definition flist_find_ignore_dirness :: "int \<Rightarrow> file_list \<Rightarrow> file_struct \<Rightarrow> (int \<times> file_list) option" where
  "flist_find_ignore_dirness pv fl f =
     (case flist_find pv fl f of None \<Rightarrow> None
      | Some (ndx, fl) \<Rightarrow> if ndx \<ge> 0 then Some (ndx, fl) else flist_find pv fl (flip_mode f))"

text \<open>
  \<open>clear_file\<close>; the name buffer \<open>name_space\<close> of \<open>flist_find_name\<close> is at the address \<open>buf\<close>, which no
  entry of the list uses.
\<close>

definition empty_file :: file_struct where
  "empty_file = \<lparr>dirname = None, basename = [], modtime = 0, len32 = 0, mode = 0, flags = 0, f_depth = 0, len_high = 0,
     nsec = 0, f_owner = 0, f_group = 0, f_rdev = (0, 0), f_symlink = [], f_sum = [], f_gnum = 0\<rparr>"

definition clear_file :: "file_struct \<Rightarrow> file_struct" where
  "clear_file f = f \<lparr>dirname := None, basename := [], modtime := 0, mode := 0, flags := 0, f_depth := 1, len32 := 1\<rparr>"

definition name_file :: "nat \<Rightarrow> string \<Rightarrow> int \<Rightarrow> file_struct" where
  "name_file buf fname want_dir_match =
     (let parts = rev (split_slash fname)
      in empty_file \<lparr>basename := hd parts,
           dirname := (if tl parts = [] then None
                       else Some (buf, take (length fname - length (hd parts) - 1) fname)),
           mode := (if want_dir_match > 0 then S_IFDIR else S_IFREG)\<rparr>)"

definition flist_find_name :: "int \<Rightarrow> nat \<Rightarrow> file_list \<Rightarrow> string \<Rightarrow> int \<Rightarrow> (int \<times> file_list) option" where
  "flist_find_name pv buf fl fname want_dir_match =
     (let f = name_file buf fname want_dir_match
      in if want_dir_match < 0 then flist_find_ignore_dirness pv fl f else flist_find pv fl f)"

subsection \<open>The search finds the name\<close>

abbreviation live :: "file_struct list \<Rightarrow> int \<Rightarrow> bool" where
  "live fs i \<equiv> f_is_active (fs ! nat i)"

text \<open>The distances of the removed entries between \<open>lo\<close> and \<open>hi\<close> pass over removed entries only.\<close>

definition skips_ok :: "file_struct list \<Rightarrow> int \<Rightarrow> int \<Rightarrow> bool" where
  "skips_ok fs lo hi \<longleftrightarrow> 0 \<le> lo \<and> hi < int (length fs) \<and>
     (\<forall>i. lo \<le> i \<and> i \<le> hi \<and> \<not> live fs i \<longrightarrow>
        1 \<le> f_depth (fs ! nat i) \<and> (\<forall>k. i \<le> k \<and> k < i + f_depth (fs ! nat i) \<and> k \<le> hi \<longrightarrow> \<not> live fs k)
        \<and> 1 \<le> sint (len32 (fs ! nat i)) \<and> (\<forall>k. i - sint (len32 (fs ! nat i)) < k \<and> k \<le> i \<and> lo \<le> k \<longrightarrow> \<not> live fs k))"

lemma skips_okD:
  assumes "skips_ok fs lo hi"
  shows "0 \<le> lo" and "hi < int (length fs)"
    and "lo \<le> i \<Longrightarrow> i \<le> hi \<Longrightarrow> \<not> live fs i \<Longrightarrow> 1 \<le> f_depth (fs ! nat i)"
    and "lo \<le> i \<Longrightarrow> i \<le> hi \<Longrightarrow> \<not> live fs i \<Longrightarrow> i \<le> k \<Longrightarrow> k < i + f_depth (fs ! nat i) \<Longrightarrow> k \<le> hi \<Longrightarrow> \<not> live fs k"
    and "lo \<le> i \<Longrightarrow> i \<le> hi \<Longrightarrow> \<not> live fs i \<Longrightarrow> 1 \<le> sint (len32 (fs ! nat i))"
    and "lo \<le> i \<Longrightarrow> i \<le> hi \<Longrightarrow> \<not> live fs i \<Longrightarrow> i - sint (len32 (fs ! nat i)) < k \<Longrightarrow> k \<le> i \<Longrightarrow> lo \<le> k \<Longrightarrow> \<not> live fs k"
  using assms unfolding skips_ok_def by blast+

definition same_files :: "file_struct list \<Rightarrow> file_struct list \<Rightarrow> bool" where
  "same_files fs fs' \<longleftrightarrow> length fs' = length fs \<and>
     (\<forall>i<length fs. (f_is_active (fs' ! i) = f_is_active (fs ! i)) \<and> (f_is_active (fs ! i) \<longrightarrow> fs' ! i = fs ! i))"

lemma same_files_refl [simp]: "same_files fs fs"
  by (simp add: same_files_def)

lemma same_files_trans: "same_files a b \<Longrightarrow> same_files b c \<Longrightarrow> same_files a c"
  by (simp add: same_files_def)

lemma same_files_live: "same_files fs fs' \<Longrightarrow> 0 \<le> i \<Longrightarrow> i < int (length fs) \<Longrightarrow> live fs' i = live fs i"
  by (simp add: same_files_def)

lemma same_files_at: "same_files fs fs' \<Longrightarrow> 0 \<le> i \<Longrightarrow> i < int (length fs) \<Longrightarrow> live fs i \<Longrightarrow> fs' ! nat i = fs ! nat i"
  by (simp add: same_files_def)

lemma same_files_regular:
  assumes s: "same_files fs fs'" and reg: "\<forall>x\<in>set fs. regular pv heap x"
  shows "\<forall>x\<in>set fs'. regular pv heap x"
proof
  fix x assume "x \<in> set fs'"
  then obtain i where i: "i < length fs'" "x = fs' ! i" unfolding in_set_conv_nth by blast
  then have l: "i < length fs" using s by (simp add: same_files_def)
  show "regular pv heap x"
  proof (cases "f_is_active x")
    case True
    then have "x = fs ! i" using s i l by (simp add: same_files_def)
    then show ?thesis using reg l by simp
  qed (simp add: regular_def)
qed

lemma entry_inside: "0 \<le> i \<Longrightarrow> i < int (length fs) \<Longrightarrow> entry fs i = Some (fs ! nat i)"
  by (simp add: entry_def)

lemma skip_up_spec:
  assumes "skips_ok fs lo hi" and "live fs hi" and "lo \<le> i" "i \<le> hi" and "hi - i < int n"
  shows "\<exists>j. skip_up n fs i = Some j \<and> i \<le> j \<and> j \<le> hi \<and> live fs j \<and> (\<forall>k. i \<le> k \<and> k < j \<longrightarrow> \<not> live fs k)"
  using assms(3-5)
proof (induction n arbitrary: i)
  case (Suc n)
  have i: "0 \<le> i" "i < int (length fs)" using assms(1) Suc.prems by (auto simp: skips_ok_def)
  show ?case
  proof (cases "live fs i")
    case True
    then show ?thesis using Suc.prems i by (auto simp: entry_inside)
  next
    case False
    let ?d = "f_depth (fs ! nat i)"
    have d: "1 \<le> ?d" "\<And>k. i \<le> k \<Longrightarrow> k < i + ?d \<Longrightarrow> k \<le> hi \<Longrightarrow> \<not> live fs k"
      using assms(1) False Suc.prems unfolding skips_ok_def by blast+
    have "i + ?d \<le> hi" using d(2) [of hi] assms(2) Suc.prems(2) by linarith
    then obtain j where j: "skip_up n fs (i + ?d) = Some j" "i + ?d \<le> j" "j \<le> hi" "live fs j"
      "\<forall>k. i + ?d \<le> k \<and> k < j \<longrightarrow> \<not> live fs k"
      using Suc.IH [of "i + ?d"] Suc.prems d(1) by auto
    have "\<not> live fs k" if "i \<le> k" "k < j" for k
      using d(2) [of k] j(3,5) that by (cases "k < i + ?d") auto
    then show ?thesis using j d(1) False i by (auto simp: entry_inside)
  qed
qed simp

lemma skip_down_spec:
  assumes "skips_ok fs lo hi" and "live fs lo" and "lo \<le> i" "i \<le> hi" and "i - lo < int n"
  shows "\<exists>j. skip_down n fs i = Some j \<and> lo \<le> j \<and> j \<le> i \<and> live fs j \<and> (\<forall>k. j < k \<and> k \<le> i \<longrightarrow> \<not> live fs k)"
  using assms(3-5)
proof (induction n arbitrary: i)
  case (Suc n)
  have i: "0 \<le> i" "i < int (length fs)" using assms(1) Suc.prems by (auto simp: skips_ok_def)
  show ?case
  proof (cases "live fs i")
    case True
    then show ?thesis using Suc.prems i by (auto simp: entry_inside)
  next
    case False
    let ?d = "sint (len32 (fs ! nat i))"
    have d: "1 \<le> ?d" "\<And>k. i - ?d < k \<Longrightarrow> k \<le> i \<Longrightarrow> lo \<le> k \<Longrightarrow> \<not> live fs k"
      using assms(1) False Suc.prems unfolding skips_ok_def by blast+
    have "lo \<le> i - ?d" using d(2) [of lo] assms(2) Suc.prems(1) by linarith
    then obtain j where j: "skip_down n fs (i - ?d) = Some j" "j \<le> i - ?d" "lo \<le> j" "live fs j"
      "\<forall>k. j < k \<and> k \<le> i - ?d \<longrightarrow> \<not> live fs k"
      using Suc.IH [of "i - ?d"] Suc.prems d(1) by auto
    have "\<not> live fs k" if "j < k" "k \<le> i" for k
      using d(2) [of k] j(3,5) that by (cases "i - ?d < k") auto
    then show ?thesis using j d(1) False i by (auto simp: entry_inside)
  qed
qed simp

text \<open>Writing back a distance.\<close>

lemma live_update: "basename x = basename (fs ! n) \<Longrightarrow> f_is_active (fs [n := x] ! i) = f_is_active (fs ! i)"
  by (cases "n < length fs"; cases "i = n") (simp_all add: f_is_active_def list_update_beyond)

lemma same_files_update:
  assumes "basename x = basename (fs ! n)" and "\<not> f_is_active (fs ! n)"
  shows "same_files fs (fs [n := x])"
proof -
  have "f_is_active (fs ! i) \<Longrightarrow> fs [n := x] ! i = fs ! i" for i using assms(2) by (cases "i = n") simp_all
  then show ?thesis using live_update [OF assms(1)] by (simp add: same_files_def)
qed

lemma skips_depth:
  assumes ok: "skips_ok fs lo hi" and m: "lo \<le> m" "m < j" "\<not> live fs m" and gap: "\<forall>k. m \<le> k \<and> k < j \<longrightarrow> \<not> live fs k"
    and l: "m \<le> hi"
  shows "skips_ok (fs [nat m := (fs ! nat m) \<lparr>f_depth := j - m\<rparr>]) lo hi"
    and "same_files fs (fs [nat m := (fs ! nat m) \<lparr>f_depth := j - m\<rparr>])"
proof -
  let ?fs = "fs [nat m := (fs ! nat m) \<lparr>f_depth := j - m\<rparr>]"
  note D = skips_okD [OF ok]
  have b: "nat m < length fs" "0 \<le> m" using D(1,2) m l by linarith+
  show same: "same_files fs ?fs"
    using m(3) by (intro same_files_update) simp_all
  have live: "live ?fs k = live fs k" for k
    by (rule live_update) simp
  have at: "i \<noteq> m \<Longrightarrow> lo \<le> i \<Longrightarrow> ?fs ! nat i = fs ! nat i" for i
    using b D(1) by (subst nth_list_update_neq) (auto simp: nat_eq_iff)
  have at_m: "?fs ! nat m = (fs ! nat m) \<lparr>f_depth := j - m\<rparr>" using b by simp
  have "1 \<le> f_depth (?fs ! nat i) \<and> (\<forall>k. i \<le> k \<and> k < i + f_depth (?fs ! nat i) \<and> k \<le> hi \<longrightarrow> \<not> live fs k)
        \<and> 1 \<le> sint (len32 (?fs ! nat i)) \<and> (\<forall>k. i - sint (len32 (?fs ! nat i)) < k \<and> k \<le> i \<and> lo \<le> k \<longrightarrow> \<not> live fs k)"
    if i: "lo \<le> i" "i \<le> hi" "\<not> live fs i" for i
  proof (cases "i = m")
    case True
    then show ?thesis using D(5,6) [OF i] gap m(2) unfolding at_m True by simp
  next
    case False
    then show ?thesis using D(3-6) [OF i] unfolding at [OF False i(1)] by blast
  qed
  then show "skips_ok ?fs lo hi" using D(1,2) unfolding skips_ok_def live length_list_update by blast
qed

lemma skips_len32:
  assumes ok: "skips_ok fs lo hi" and m: "m \<le> hi" "j < m" "lo \<le> j" "\<not> live fs m" and gap: "\<forall>k. j < k \<and> k \<le> m \<longrightarrow> \<not> live fs k"
    and small: "hi < 2 ^ 31"
  shows "skips_ok (fs [nat m := (fs ! nat m) \<lparr>len32 := word_of_int (m - j)\<rparr>]) lo hi"
    and "same_files fs (fs [nat m := (fs ! nat m) \<lparr>len32 := word_of_int (m - j)\<rparr>])"
proof -
  let ?fs = "fs [nat m := (fs ! nat m) \<lparr>len32 := word_of_int (m - j)\<rparr>]"
  note D = skips_okD [OF ok]
  have b: "nat m < length fs" "0 \<le> m" using D(1,2) m by linarith+
  have "is_int32 (m - j)" using D(1) m small by (simp add: is_int32_def)
  then have s: "sint (word_of_int (m - j) :: uint32) = m - j" by (rule sint_word_of_int)
  show same: "same_files fs ?fs"
    using m(4) by (intro same_files_update) simp_all
  have live: "live ?fs k = live fs k" for k
    by (rule live_update) simp
  have at: "i \<noteq> m \<Longrightarrow> lo \<le> i \<Longrightarrow> ?fs ! nat i = fs ! nat i" for i
    using b D(1) by (subst nth_list_update_neq) (auto simp: nat_eq_iff)
  have at_m: "?fs ! nat m = (fs ! nat m) \<lparr>len32 := word_of_int (m - j)\<rparr>" using b by simp
  have "1 \<le> f_depth (?fs ! nat i) \<and> (\<forall>k. i \<le> k \<and> k < i + f_depth (?fs ! nat i) \<and> k \<le> hi \<longrightarrow> \<not> live fs k)
        \<and> 1 \<le> sint (len32 (?fs ! nat i)) \<and> (\<forall>k. i - sint (len32 (?fs ! nat i)) < k \<and> k \<le> i \<and> lo \<le> k \<longrightarrow> \<not> live fs k)"
    if i: "lo \<le> i" "i \<le> hi" "\<not> live fs i" for i
  proof (cases "i = m")
    case True
    then show ?thesis using D(3,4) [OF i] gap m(2) s unfolding at_m True by simp
  next
    case False
    then show ?thesis using D(3-6) [OF i] unfolding at [OF False i(1)] by blast
  qed
  then show "skips_ok ?fs lo hi" using D(1,2) unfolding skips_ok_def live length_list_update by blast
qed

definition list_sorted :: "int \<Rightarrow> file_struct list \<Rightarrow> int \<Rightarrow> int \<Rightarrow> bool" where
  "list_sorted pv fs lo hi \<longleftrightarrow>
     (\<forall>i j. lo \<le> i \<and> i \<le> j \<and> j \<le> hi \<and> live fs i \<and> live fs j \<longrightarrow> file_key pv (fs ! nat i) \<le> file_key pv (fs ! nat j))"

lemma list_sorted_same:
  assumes "same_files fs fs'" and "0 \<le> lo" "hi < int (length fs)" and "list_sorted pv fs lo hi"
  shows "list_sorted pv fs' lo hi"
  unfolding list_sorted_def
proof (intro allI impI)
  fix i j assume ij: "lo \<le> i \<and> i \<le> j \<and> j \<le> hi \<and> live fs' i \<and> live fs' j"
  then have b: "0 \<le> i" "i < int (length fs)" "0 \<le> j" "j < int (length fs)" using assms(2,3) by auto
  then have "live fs i" "live fs j" "fs' ! nat i = fs ! nat i" "fs' ! nat j = fs ! nat j"
    using ij same_files_live [OF assms(1)] same_files_at [OF assms(1)] by auto
  then show "file_key pv (fs' ! nat i) \<le> file_key pv (fs' ! nat j)" using assms(4) ij unfolding list_sorted_def by simp
qed

text \<open>The answer of the search between \<open>lo\<close> and \<open>hi\<close>.\<close>

definition found_ok :: "int \<Rightarrow> file_struct \<Rightarrow> file_struct list \<Rightarrow> int \<Rightarrow> int \<Rightarrow> int \<Rightarrow> bool" where
  "found_ok pv f fs lo hi i \<longleftrightarrow>
     (if i = - 1 then \<forall>k. lo \<le> k \<and> k \<le> hi \<and> live fs k \<longrightarrow> file_key pv (fs ! nat k) \<noteq> file_key pv f
      else lo \<le> i \<and> i \<le> hi \<and> live fs i \<and> file_key pv (fs ! nat i) = file_key pv f)"

lemma found_ok_same:
  assumes "same_files fs fs'" and "0 \<le> lo" "hi < int (length fs)" and "found_ok pv f fs' lo hi i"
  shows "found_ok pv f fs lo hi i"
proof -
  have "live fs' k = live fs k" "live fs k \<Longrightarrow> fs' ! nat k = fs ! nat k" if "lo \<le> k" "k \<le> hi" for k
    using same_files_live [OF assms(1), of k] same_files_at [OF assms(1), of k] that assms(2,3) by auto
  then show ?thesis using assms(4) unfolding found_ok_def by (auto split: if_splits)
qed

lemma find_loop_spec:
  assumes "29 \<le> pv" and f: "regular pv heap f"
  shows "skips_ok fs lo hi \<Longrightarrow> live fs lo \<Longrightarrow> live fs hi \<Longrightarrow> hi < 2 ^ 31 \<Longrightarrow> \<forall>x\<in>set fs. regular pv heap x
    \<Longrightarrow> list_sorted pv fs lo hi \<Longrightarrow> lo \<le> low \<Longrightarrow> high \<le> hi \<Longrightarrow> 0 < n \<and> high - low + 1 < int n
    \<Longrightarrow> (\<forall>k. lo \<le> k \<and> k \<le> hi \<and> live fs k \<and> file_key pv (fs ! nat k) = file_key pv f \<longrightarrow> low \<le> k \<and> k \<le> high)
    \<Longrightarrow> \<exists>i fs'. find_loop n pv f fs low high = Some (i, fs') \<and> same_files fs fs' \<and> skips_ok fs' lo hi
          \<and> (\<forall>k. \<not> (lo \<le> int k \<and> int k \<le> hi) \<longrightarrow> fs' ! k = fs ! k) \<and> found_ok pv f fs lo hi i"
proof (induction n arbitrary: fs low high)
  case (Suc n)
  note ok = Suc.prems(1) and ends = Suc.prems(2,3) and small = Suc.prems(4) and reg = Suc.prems(5) and srt = Suc.prems(6)
    and rng = Suc.prems(7,8) and fuel = Suc.prems(9) and inside = Suc.prems(10)
  note D = skips_okD [OF ok]
  show ?case
  proof (cases "low \<le> high")
    case False
    then show ?thesis using ok inside by (auto simp: found_ok_def)
  next
    case True
    define mid where "mid = (low + high) div 2"
    have mid: "low \<le> mid" "mid \<le> high" using True by (simp_all add: mid_def)
    have mb: "0 \<le> mid" "mid < int (length fs)" "lo \<le> mid" "mid \<le> hi" using mid rng D(1,2) by linarith+
    let ?m = "fs ! nat mid"
    obtain up where up: "(if live fs mid then Some mid else skip_up (length fs + 1) fs (mid + f_depth ?m)) = Some up"
      "mid \<le> up" "up \<le> hi" "live fs up" "\<forall>k. mid \<le> k \<and> k < up \<longrightarrow> \<not> live fs k" "\<not> live fs mid \<Longrightarrow> mid < up"
    proof (cases "live fs mid")
      case True
      then show thesis by (intro that [of mid]) (use mb(4) in auto)
    next
      case False
      have d: "1 \<le> f_depth ?m" using D(3) mb False by blast
      have "mid + f_depth ?m \<le> hi" using D(4) [OF mb(3,4) False, of hi] ends(2) mb(4) by linarith
      from skip_up_spec [OF ok ends(2) _ this, of "length fs + 1"] d mb D(1,2)
      obtain j where j: "skip_up (length fs + 1) fs (mid + f_depth ?m) = Some j" "mid + f_depth ?m \<le> j" "j \<le> hi" "live fs j"
        "\<forall>k. mid + f_depth ?m \<le> k \<and> k < j \<longrightarrow> \<not> live fs k" by auto
      have "\<not> live fs k" if "mid \<le> k" "k < j" for k
        using D(4) [OF mb(3,4) False, of k] j(3,5) that by (cases "k < mid + f_depth ?m") auto
      then show thesis using that [of j] j d False by auto
    qed
    define fs1 where "fs1 = (if live fs mid then fs else fs [nat mid := ?m \<lparr>f_depth := up - mid\<rparr>])"
    have fs1: "same_files fs fs1" "skips_ok fs1 lo hi" "length fs1 = length fs"
      using skips_depth [OF ok mb(3) up(6) _ up(5) mb(4)] ok by (auto simp: fs1_def)
    have live1: "live fs1 k = live fs k" if "lo \<le> k" "k \<le> hi" for k
      using same_files_live [OF fs1(1), of k] that D(1,2) by auto
    have at1: "fs1 ! nat k = fs ! nat k" if "lo \<le> k" "k \<le> hi" "live fs k" for k
      using same_files_at [OF fs1(1), of k] that D(1,2) by auto
    have run: "find_loop (Suc n) pv f fs low high =
       (if up > high then
          (case skip_down (length fs + 1) fs1 (mid - sint (len32 ?m)) of None \<Rightarrow> None
           | Some h \<Rightarrow> find_loop n pv f (fs1 [nat mid := (fs1 ! nat mid) \<lparr>len32 := word_of_int (mid - h)\<rparr>]) low h)
        else
          (case f_name_cmp pv (fs ! nat up) f of None \<Rightarrow> None
           | Some diff \<Rightarrow>
               if diff = 0 then Some (up, fs1)
               else if diff < 0 then find_loop n pv f fs1 (up + 1) high else find_loop n pv f fs1 low (mid - 1)))"
    proof -
      have "entry fs1 up = Some (fs ! nat up)"
        using up(2-4) at1 [of up] mb fs1(3) D(1,2) by (simp add: entry_def)
      then show ?thesis
        using True assms(1) by (simp add: entry_inside [OF mb(1,2)] up(1) Let_def flip: mid_def fs1_def)
    qed
    have out1: "\<forall>k. \<not> (lo \<le> int k \<and> int k \<le> hi) \<longrightarrow> fs1 ! k = fs ! k"
      using mb by (auto simp: fs1_def nth_list_update_neq)
    have keep: "\<exists>i fs''. find_loop n pv f fs' l h = Some (i, fs'') \<and> same_files fs fs'' \<and> skips_ok fs'' lo hi
          \<and> (\<forall>k. \<not> (lo \<le> int k \<and> int k \<le> hi) \<longrightarrow> fs'' ! k = fs ! k) \<and> found_ok pv f fs lo hi i"
      if s: "same_files fs fs'" "skips_ok fs' lo hi" and o: "\<forall>k. \<not> (lo \<le> int k \<and> int k \<le> hi) \<longrightarrow> fs' ! k = fs ! k" and r: "lo \<le> l" "h \<le> hi" "h - l < high - low"
        and m: "\<And>k. lo \<le> k \<Longrightarrow> k \<le> hi \<Longrightarrow> live fs k \<Longrightarrow> file_key pv (fs ! nat k) = file_key pv f \<Longrightarrow> l \<le> k \<and> k \<le> h" for fs' l h
    proof -
      have lv: "live fs' k = live fs k" "live fs k \<Longrightarrow> fs' ! nat k = fs ! nat k" if "lo \<le> k" "k \<le> hi" for k
        using same_files_live [OF s(1), of k] same_files_at [OF s(1), of k] that D(1,2) by auto
      have "lo \<le> hi" using mb by linarith
      then have e: "live fs' lo" "live fs' hi" using lv ends by auto
      have "0 < n \<and> h - l + 1 < int n" using r(3) fuel True by linarith
      moreover have "\<forall>k. lo \<le> k \<and> k \<le> hi \<and> live fs' k \<and> file_key pv (fs' ! nat k) = file_key pv f \<longrightarrow> l \<le> k \<and> k \<le> h"
        using m lv by metis
      ultimately obtain i fs'' where "find_loop n pv f fs' l h = Some (i, fs'')" "same_files fs' fs''" "skips_ok fs'' lo hi"
        "\<forall>k. \<not> (lo \<le> int k \<and> int k \<le> hi) \<longrightarrow> fs'' ! k = fs' ! k" "found_ok pv f fs' lo hi i"
        using Suc.IH [OF s(2) e small same_files_regular [OF s(1) reg] list_sorted_same [OF s(1) D(1,2) srt] r(1,2)] by blast
      then show ?thesis
        using same_files_trans [OF s(1)] found_ok_same [OF s(1) D(1,2)] o by metis
    qed
    show ?thesis
    proof (cases "up > high")
      case up_high: True
      have dead: "\<not> live fs mid" using up(1) up_high mid(2) by auto
      let ?i = "mid - sint (len32 ?m)"
      have i: "1 \<le> sint (len32 ?m)" "lo \<le> ?i"
        using D(5) [OF mb(3,4) dead] D(6) [OF mb(3,4) dead, of lo] ends(1) mb(3) by linarith+
      have "live fs1 lo" using live1 [of lo] ends(1) mb(3,4) by simp
      from skip_down_spec [OF fs1(2) this i(2)] obtain h
        where h: "skip_down (length fs + 1) fs1 ?i = Some h" "lo \<le> h" "h \<le> ?i" "live fs1 h" "\<forall>k. h < k \<and> k \<le> ?i \<longrightarrow> \<not> live fs1 k"
      proof -
        have "?i \<le> hi" "?i - lo < int (length fs + 1)" using i(1) mb D(1,2) by linarith+
        then show thesis
          using skip_down_spec [OF fs1(2) \<open>live fs1 lo\<close> i(2), of "length fs + 1"] that by blast
      qed
      have gap: "\<not> live fs k" if "h < k" "k < up" for k
      proof -
        consider "k \<le> ?i" | "?i < k" "k \<le> mid" | "mid < k" by linarith
        then show ?thesis
        proof cases
          case 1
          then show ?thesis using h(2,5) that(1) live1 [of k] i(1) mb by auto
        next
          case 2
          then show ?thesis using D(6) [OF mb(3,4) dead, of k] that(1) h(2) by linarith
        next
          case 3
          then show ?thesis using up(5) that by auto
        qed
      qed
      have g1: "\<forall>k. h < k \<and> k \<le> mid \<longrightarrow> \<not> live fs1 k"
      proof (intro allI impI)
        fix k assume k: "h < k \<and> k \<le> mid"
        then have "\<not> live fs k" using gap [of k] up(6) [OF dead] by linarith
        then show "\<not> live fs1 k" using live1 [of k] k h(2) mb by simp
      qed
      have "h < mid" using h(3) i(1) by linarith
      let ?fs2 = "fs1 [nat mid := (fs1 ! nat mid) \<lparr>len32 := word_of_int (mid - h)\<rparr>]"
      have fs2: "skips_ok ?fs2 lo hi" "same_files fs1 ?fs2"
        using skips_len32 [OF fs1(2) mb(4) \<open>h < mid\<close> h(2) _ g1 small] live1 [OF mb(3,4)] dead by auto
      have "\<exists>i fs''. find_loop n pv f ?fs2 low h = Some (i, fs'') \<and> same_files fs fs'' \<and> skips_ok fs'' lo hi
          \<and> (\<forall>k. \<not> (lo \<le> int k \<and> int k \<le> hi) \<longrightarrow> fs'' ! k = fs ! k) \<and> found_ok pv f fs lo hi i"
      proof (rule keep [OF same_files_trans [OF fs1(1) fs2(2)] fs2(1)])
        show "\<forall>k. \<not> (lo \<le> int k \<and> int k \<le> hi) \<longrightarrow> ?fs2 ! k = fs ! k"
          using out1 mb by (auto simp: nth_list_update_neq)
        show "h - low < high - low" "h \<le> hi" using \<open>h < mid\<close> mid mb by linarith+
        show "low \<le> k \<and> k \<le> h" if k: "lo \<le> k" "k \<le> hi" "live fs k" "file_key pv (fs ! nat k) = file_key pv f" for k
        proof -
          have "low \<le> k" "k \<le> high" using inside k by blast+
          moreover have "k \<le> h" using gap [of k] k(3) up_high \<open>k \<le> high\<close> by linarith
          ultimately show ?thesis by simp
        qed
      qed (use rng in simp)
      then show ?thesis unfolding run using up_high h(1) by simp
    next
      case False
      have "fs ! nat up \<in> set fs" using up(2,3) mb D(2) by (intro nth_mem) linarith
      then have "regular pv heap (fs ! nat up)" using reg by blast
      from f_name_cmp_key [OF this f] obtain d where d: "f_name_cmp pv (fs ! nat up) f = Some d"
        "d < 0 \<longleftrightarrow> file_key pv (fs ! nat up) < file_key pv f" "d = 0 \<longleftrightarrow> file_key pv (fs ! nat up) = file_key pv f"
        by (auto simp: order_ok_def)
      have le: "file_key pv (fs ! nat i) \<le> file_key pv (fs ! nat j)" if "lo \<le> i" "i \<le> j" "j \<le> hi" "live fs i" "live fs j" for i j
        using srt that unfolding list_sorted_def by blast
      have lo_up: "lo \<le> up" using mb(3) up(2) by linarith
      consider (eq) "d = 0" | (less) "d < 0" | (greater) "d > 0" by linarith
      then show ?thesis
      proof cases
        case eq
        have "up \<noteq> - 1" using lo_up D(1) by linarith
        then have "found_ok pv f fs lo hi up" using eq d(3) up(3,4) lo_up by (simp add: found_ok_def)
        then show ?thesis unfolding run using False d(1) eq fs1 out1 by simp
      next
        case less
        have "\<exists>i fs''. find_loop n pv f fs1 (up + 1) high = Some (i, fs'') \<and> same_files fs fs'' \<and> skips_ok fs'' lo hi
          \<and> (\<forall>k. \<not> (lo \<le> int k \<and> int k \<le> hi) \<longrightarrow> fs'' ! k = fs ! k) \<and> found_ok pv f fs lo hi i"
        proof (rule keep [OF fs1(1,2) out1])
          show "high - (up + 1) < high - low" "lo \<le> up + 1" using up(2) mid lo_up by linarith+
          show "up + 1 \<le> k \<and> k \<le> high" if k: "lo \<le> k" "k \<le> hi" "live fs k" "file_key pv (fs ! nat k) = file_key pv f" for k
          proof -
            have "\<not> k \<le> up" using le [OF k(1) _ up(3) k(3) up(4)] k(4) less d(2) by (metis leD)
            then show ?thesis using inside k by auto
          qed
        qed (use rng in simp)
        then show ?thesis unfolding run using False d(1) less by simp
      next
        case greater
        then have g: "file_key pv f < file_key pv (fs ! nat up)" using d(2,3) by (metis linorder_neqE not_less_iff_gr_or_eq)
        have "\<exists>i fs''. find_loop n pv f fs1 low (mid - 1) = Some (i, fs'') \<and> same_files fs fs'' \<and> skips_ok fs'' lo hi
          \<and> (\<forall>k. \<not> (lo \<le> int k \<and> int k \<le> hi) \<longrightarrow> fs'' ! k = fs ! k) \<and> found_ok pv f fs lo hi i"
        proof (rule keep [OF fs1(1,2) out1])
          show "mid - 1 - low < high - low" "mid - 1 \<le> hi" using mid mb by linarith+
          show "low \<le> k \<and> k \<le> mid - 1" if k: "lo \<le> k" "k \<le> hi" "live fs k" "file_key pv (fs ! nat k) = file_key pv f" for k
          proof -
            have "\<not> up \<le> k" using le [OF lo_up _ k(2) up(4) k(3)] k(4) g by (metis leD)
            then have "k < mid" using up(5) k(3) by (meson linorder_not_le)
            then show ?thesis using inside k by auto
          qed
        qed (use rng in simp)
        then show ?thesis unfolding run using False d(1) greater by simp
      qed
    qed
  qed
qed simp

text \<open>A list that may be searched: its ends are not removed, it is in order, and the distances hold.\<close>

definition searchable :: "int \<Rightarrow> (nat \<Rightarrow> string) \<Rightarrow> file_list \<Rightarrow> bool" where
  "searchable pv heap fl \<longleftrightarrow>
     (\<forall>x\<in>set (fl_sorted fl). regular pv heap x) \<and> fl_high fl < 2 ^ 31
     \<and> skips_ok (fl_sorted fl) (fl_low fl) (fl_high fl) \<and> list_sorted pv (fl_sorted fl) (fl_low fl) (fl_high fl)
     \<and> (fl_low fl \<le> fl_high fl \<longrightarrow> live (fl_sorted fl) (fl_low fl) \<and> live (fl_sorted fl) (fl_high fl))"

lemma flist_find_correct:
  assumes "29 \<le> pv" and "searchable pv heap fl" and "regular pv heap f"
  shows "\<exists>i fl'. flist_find pv fl f = Some (i, fl') \<and> same_files (fl_sorted fl) (fl_sorted fl')
    \<and> fl_low fl' = fl_low fl \<and> fl_high fl' = fl_high fl \<and> searchable pv heap fl'
    \<and> (\<forall>k. \<not> (fl_low fl \<le> int k \<and> int k \<le> fl_high fl) \<longrightarrow> fl_sorted fl' ! k = fl_sorted fl ! k)
    \<and> found_ok pv f (fl_sorted fl) (fl_low fl) (fl_high fl) i"
proof (cases "fl_low fl \<le> fl_high fl")
  case True
  note s = assms(2) [unfolded searchable_def]
  let ?fs = "fl_sorted fl" and ?lo = "fl_low fl" and ?hi = "fl_high fl"
  have e: "live ?fs ?lo" "live ?fs ?hi" and ok: "skips_ok ?fs ?lo ?hi" and small: "?hi < 2 ^ 31"
    and reg: "\<forall>x\<in>set ?fs. regular pv heap x" and srt: "list_sorted pv ?fs ?lo ?hi" using s True by auto
  note D = skips_okD(1,2) [OF ok]
  obtain i fs' where r: "find_loop (nat (?hi - ?lo) + 2) pv f ?fs ?lo ?hi = Some (i, fs')" "same_files ?fs fs'" "skips_ok fs' ?lo ?hi"
    "\<forall>k. \<not> (?lo \<le> int k \<and> int k \<le> ?hi) \<longrightarrow> fs' ! k = ?fs ! k" "found_ok pv f ?fs ?lo ?hi i"
    using find_loop_spec [OF assms(1,3) ok e small reg srt order_refl order_refl, of "nat (?hi - ?lo) + 2"] True by auto
  have "\<forall>x\<in>set fs'. regular pv heap x" by (rule same_files_regular [OF r(2) reg])
  moreover have "live fs' ?lo" "live fs' ?hi"
    using same_files_live [OF r(2), of ?lo] same_files_live [OF r(2), of ?hi] e D True by auto
  ultimately have "searchable pv heap (fl \<lparr>fl_sorted := fs'\<rparr>)"
    using r(3) small list_sorted_same [OF r(2) D srt] by (simp add: searchable_def)
  then show ?thesis using r by (simp add: flist_find_def)
next
  case False
  then show ?thesis using assms(2) by (auto simp: flist_find_def found_ok_def)
qed

end
