(* ===== verification/Wildmatch.thy ===== *)
theory Wildmatch
  imports Prelude
begin

text \<open>
  The shell patterns of lib/wildmatch.c: \<open>dowild\<close>, \<open>doliteral\<close>, \<open>trailing_N_elements\<close> and their
  callers. A text is a string and the array \<open>a\<close> of strings that follow it; the character-class tests
  are those of the C locale. The reference is the language of the compiled pattern; the theorems
  show that the two abort codes, which prune the search, never lose a match.
\<close>

subsection \<open>Characters\<close>

definition between :: "char \<Rightarrow> char \<Rightarrow> char \<Rightarrow> bool" where
  "between lo hi c = (lo \<le> c \<and> c \<le> hi)"

definition ISUPPER :: "char \<Rightarrow> bool" where "ISUPPER = between (CHR ''A'') (CHR ''Z'')"
definition ISLOWER :: "char \<Rightarrow> bool" where "ISLOWER = between (CHR ''a'') (CHR ''z'')"
definition ISDIGIT :: "char \<Rightarrow> bool" where "ISDIGIT = between (CHR ''0'') (CHR ''9'')"

definition tolower :: "char \<Rightarrow> char" where
  "tolower c = (if ISUPPER c then char_of (of_char c + 32 :: nat) else c)"

definition ISSPACE :: "char \<Rightarrow> bool" where
  "ISSPACE c = (c = CHR '' '' \<or> between (CHR 0x09) (CHR 0x0D) c)"

definition ISPRINT :: "char \<Rightarrow> bool" where "ISPRINT = between (CHR '' '') (CHR ''~'')"

text \<open>The named classes; \<open>None\<close> is a name the code does not know.\<close>

definition char_class :: "string \<Rightarrow> (char \<Rightarrow> bool) option" where
  "char_class s =
     (if s = ''alnum'' then Some (\<lambda>c. ISUPPER c \<or> ISLOWER c \<or> ISDIGIT c)
      else if s = ''alpha'' then Some (\<lambda>c. ISUPPER c \<or> ISLOWER c)
      else if s = ''blank'' then Some (\<lambda>c. c = CHR '' '' \<or> c = CHR 0x09)
      else if s = ''cntrl'' then Some (\<lambda>c. c < CHR '' '' \<or> c = CHR 0x7F)
      else if s = ''digit'' then Some ISDIGIT
      else if s = ''graph'' then Some (\<lambda>c. ISPRINT c \<and> \<not> ISSPACE c)
      else if s = ''lower'' then Some ISLOWER
      else if s = ''print'' then Some ISPRINT
      else if s = ''punct'' then Some (\<lambda>c. ISPRINT c \<and> \<not> ISSPACE c \<and> \<not> (ISUPPER c \<or> ISLOWER c \<or> ISDIGIT c))
      else if s = ''space'' then Some ISSPACE
      else if s = ''upper'' then Some ISUPPER
      else if s = ''xdigit'' then Some (\<lambda>c. ISDIGIT c \<or> between (CHR ''a'') (CHR ''f'') c \<or> between (CHR ''A'') (CHR ''F'') c)
      else None)"

subsection \<open>Bracket expressions\<close>

text \<open>
  One pass of the loop over a class, at the character \<open>p_ch\<close> that starts \<open>p\<close>: whether the
  character of the text matches, the pointer at the end of the pass, and \<open>p_ch\<close>, which becomes
  \<open>prev_ch\<close>. \<open>None\<close> is the return of \<open>ABORT_ALL\<close>.
\<close>

definition class_step :: "char \<Rightarrow> char \<Rightarrow> string \<Rightarrow> (bool \<times> string \<times> char) option" where
  "class_step t_ch prev_ch p =
     (case p of [] \<Rightarrow> None
      | p_ch # r \<Rightarrow>
          if p_ch = CHR 0x5C then
            (case r of [] \<Rightarrow> None | d # _ \<Rightarrow> Some (t_ch = d, r, d))
          else if p_ch = CHR ''-'' \<and> prev_ch \<noteq> CHR 0x00 \<and> r \<noteq> [] \<and> hd r \<noteq> CHR '']'' then
            (if hd r = CHR 0x5C then
               (case tl r of [] \<Rightarrow> None
                | d # _ \<Rightarrow> Some (t_ch \<le> d \<and> t_ch \<ge> prev_ch, tl r, CHR 0x00))
             else Some (t_ch \<le> hd r \<and> t_ch \<ge> prev_ch, r, CHR 0x00))
          else if p_ch = CHR ''['' \<and> r \<noteq> [] \<and> hd r = CHR '':'' then
            (let body = takeWhile (\<lambda>c. c \<noteq> CHR '']'') (tl r);
                 after = dropWhile (\<lambda>c. c \<noteq> CHR '']'') (tl r)
             in if after = [] then None
                else if body = [] \<or> last body \<noteq> CHR '':'' then Some (t_ch = CHR ''['', p, CHR ''['')
                else (case char_class (butlast body) of None \<Rightarrow> None
                      | Some f \<Rightarrow> Some (f t_ch, after, CHR 0x00)))
          else Some (t_ch = p_ch, p, p_ch))"

lemma class_step_length: "class_step t prev p = Some (hit, p', prev') \<Longrightarrow> p' \<noteq> [] \<and> length p' \<le> length p"
  by (cases p) (auto simp: class_step_def Let_def le_Suc_eq split: if_splits list.splits option.splits
      dest: sym [of "_ # _" "tl _"] intro: le_trans [OF length_dropWhile_le])

lemma class_step_next:
  "class_step t prev p = Some (hit, p', prev') \<Longrightarrow> tl p' = c # r \<Longrightarrow> length (c # r) < length p"
  using class_step_length [of t prev p hit p' prev'] by (cases p') auto

function class_loop :: "char \<Rightarrow> char \<Rightarrow> bool \<Rightarrow> string \<Rightarrow> (bool \<times> string) option" where
  "class_loop t_ch prev_ch matched p =
     (case class_step t_ch prev_ch p of None \<Rightarrow> None
      | Some (hit, p', prev') \<Rightarrow>
          (case tl p' of [] \<Rightarrow> None
           | c # r \<Rightarrow> if c = CHR '']'' then Some (matched \<or> hit, r)
                     else class_loop t_ch prev' (matched \<or> hit) (tl p')))"
  by pat_completeness auto
termination
  by (relation "measure (\<lambda>(t, prev, m, p). length p)") (use class_step_next in fastforce)+

declare class_loop.simps [simp del]

text \<open>From the character after \<open>[\<close>: whether the class matches, whether it is inverted, the rest.\<close>

definition class_match :: "char \<Rightarrow> string \<Rightarrow> (bool \<times> bool \<times> string) option" where
  "class_match t_ch p =
     (let special = (p \<noteq> [] \<and> (hd p = CHR ''^'' \<or> hd p = CHR ''!''))
      in map_option (\<lambda>(matched, r). (matched, special, r))
           (class_loop t_ch (CHR 0x00) False (if special then tl p else p)))"

lemma class_loop_length: "class_loop t prev m p = Some (m', r) \<Longrightarrow> length r < length p"
proof (induction t prev m p rule: class_loop.induct)
  case (1 t prev m p)
  from 1(2) obtain hit p' prev' c r' where s: "class_step t prev p = Some (hit, p', prev')" "tl p' = c # r'"
    by (subst (asm) class_loop.simps) (auto split: option.splits list.splits)
  then have l: "length (c # r') < length p" using class_step_length [OF s(1)] by (cases p') auto
  show ?case
  proof (cases "c = CHR '']''")
    case True
    then show ?thesis using 1(2) s l by (subst (asm) class_loop.simps) simp
  next
    case False
    then show ?thesis using 1 s l by (subst (asm) (2) class_loop.simps) fastforce
  qed
qed

lemma class_match_length: "class_match t p = Some (m, s, r) \<Longrightarrow> length r < length p"
  by (cases p) (auto simp: class_match_def Let_def dest: class_loop_length split: if_splits)

subsection \<open>dowild\<close>

text \<open>
  \<open>FALSE\<close> and the two abort codes all mean that there is no match. \<open>next_text\<close> is the loop
  \<open>while (*text == 0)\<close> that goes on to the next string of the array; the end of the array is
  the null pointer, at which \<open>t_ch\<close> stays 0. \<open>low\<close> is the global \<open>force_lower_case\<close>.
\<close>

datatype wild_result = TRUE | FALSE | ABORT_ALL | ABORT_TO_STARSTAR

fun next_text :: "string \<Rightarrow> string list \<Rightarrow> string \<times> string list" where
  "next_text [] (b # a) = next_text b a"
| "next_text tx a = (tx, a)"

definition text_size :: "string \<Rightarrow> string list \<Rightarrow> nat" where
  "text_size tx a = length tx + length a + length (concat a)"

lemma next_text_flat: "next_text tx a = (tx', a') \<Longrightarrow> tx' @ concat a' = tx @ concat a \<and> text_size tx' a' \<le> text_size tx a"
  by (induction tx a rule: next_text.induct) (auto simp: text_size_def)

lemma next_text_Nil: "next_text tx a = ([], a') \<Longrightarrow> a' = [] \<and> tx @ concat a = []"
  by (induction tx a rule: next_text.induct) auto

definition lowered :: "bool \<Rightarrow> char \<Rightarrow> char" where
  "lowered low c = (if low \<and> ISUPPER c then tolower c else c)"

function dowild :: "bool \<Rightarrow> string \<Rightarrow> string \<Rightarrow> string list \<Rightarrow> wild_result"
  and star_loop :: "bool \<Rightarrow> bool \<Rightarrow> string \<Rightarrow> string \<Rightarrow> string list \<Rightarrow> wild_result" where
  "dowild low p tx a =
     (case p of
        [] \<Rightarrow> if list_all (\<lambda>b. b = []) (tx # a) then TRUE else FALSE
      | p_ch # q \<Rightarrow>
          (case next_text tx a of
             ([], a') \<Rightarrow>
               if p_ch \<noteq> CHR ''*'' then ABORT_ALL
               else let special = (q \<noteq> [] \<and> hd q = CHR ''*''); q' = dropWhile (\<lambda>c. c = CHR ''*'') q
                    in if q' = [] then TRUE else star_loop low special q' [] a'
           | (x # xs, a') \<Rightarrow>
               let t_ch = lowered low x in
               if p_ch = CHR ''?'' then (if t_ch = CHR ''/'' then FALSE else dowild low q xs a')
               else if p_ch = CHR ''*'' then
                 (let special = (q \<noteq> [] \<and> hd q = CHR ''*''); q' = dropWhile (\<lambda>c. c = CHR ''*'') q
                  in if q' = [] then
                       (if \<not> special \<and> list_ex (\<lambda>b. CHR ''/'' \<in> set b) ((x # xs) # a') then FALSE else TRUE)
                     else star_loop low special q' (x # xs) a')
               else if p_ch = CHR ''['' then
                 (case class_match t_ch q of None \<Rightarrow> ABORT_ALL
                  | Some (matched, special, r) \<Rightarrow>
                      if matched = special \<or> t_ch = CHR ''/'' then FALSE else dowild low r xs a')
               else if p_ch = CHR 0x5C then
                 (case q of [] \<Rightarrow> FALSE | d # q' \<Rightarrow> if t_ch \<noteq> d then FALSE else dowild low q' xs a')
               else if t_ch \<noteq> p_ch then FALSE else dowild low q xs a'))"
| "star_loop low special p tx a =
     (case tx of
        [] \<Rightarrow> (case a of [] \<Rightarrow> ABORT_ALL | b # a' \<Rightarrow> star_loop low special p b a')
      | x # xs \<Rightarrow>
          let matched = dowild low p tx a in
          if matched \<noteq> FALSE then
            (if \<not> special \<or> matched \<noteq> ABORT_TO_STARSTAR then matched else star_loop low special p xs a)
          else if \<not> special \<and> x = CHR ''/'' then ABORT_TO_STARSTAR
          else star_loop low special p xs a)"
  by pat_completeness auto
termination
proof (relation "measures [\<lambda>x. case x of Inl (low, p, tx, a) \<Rightarrow> length p | Inr (low, s, p, tx, a) \<Rightarrow> length p,
                           \<lambda>x. case x of Inl (low, p, tx, a) \<Rightarrow> text_size tx a | Inr (low, s, p, tx, a) \<Rightarrow> text_size tx a,
                           \<lambda>x. case x of Inl _ \<Rightarrow> 0 | Inr _ \<Rightarrow> 1]", goal_cases)
qed (auto simp: text_size_def le_imp_less_Suc length_dropWhile_le dest: class_match_length)

declare dowild.simps [simp del] star_loop.simps [simp del]

text \<open>\<open>wildmatch\<close> and \<open>iwildmatch\<close>.\<close>

definition wildmatch :: "string \<Rightarrow> string \<Rightarrow> bool" where
  "wildmatch pattern tx = (dowild False pattern tx [] = TRUE)"

definition iwildmatch :: "string \<Rightarrow> string \<Rightarrow> bool" where
  "iwildmatch pattern tx = (dowild True pattern tx [] = TRUE)"

subsection \<open>The language of a pattern\<close>

datatype class_item = One char | Range char char | Named string

datatype token = Lit char | AnyChar | Star | StarStar | Bracket bool "class_item list"

fun item_has :: "char \<Rightarrow> class_item \<Rightarrow> bool" where
  "item_has c (One d) = (c = d)"
| "item_has c (Range lo hi) = (lo \<le> c \<and> c \<le> hi)"
| "item_has c (Named n) = (case char_class n of None \<Rightarrow> False | Some f \<Rightarrow> f c)"

text \<open>An item, what is left of the pattern, and the character a range may start from.\<close>

definition parse_item :: "char option \<Rightarrow> string \<Rightarrow> (class_item \<times> string \<times> char option) option" where
  "parse_item lo p =
     (case p of [] \<Rightarrow> None
      | c # r \<Rightarrow>
          if c = CHR 0x5C then (case r of [] \<Rightarrow> None | d # r' \<Rightarrow> Some (One d, r', Some d))
          else if c = CHR ''-'' \<and> lo \<noteq> None \<and> r \<noteq> [] \<and> hd r \<noteq> CHR '']'' then
            (case (if hd r = CHR 0x5C then tl r else r) of [] \<Rightarrow> None
             | d # r' \<Rightarrow> Some (Range (the lo) d, r', None))
          else if take 1 r = '':'' \<and> c = CHR ''['' then
            (let body = takeWhile (\<lambda>c. c \<noteq> CHR '']'') (tl r); after = dropWhile (\<lambda>c. c \<noteq> CHR '']'') (tl r)
             in if after = [] then None
                else if body \<noteq> [] \<and> last body = CHR '':'' then
                  (if char_class (butlast body) = None then None else Some (Named (butlast body), tl after, None))
                else Some (One c, r, Some c))
          else Some (One c, r, Some c))"

lemma parse_item_length: "parse_item lo p = Some (i, r, f) \<Longrightarrow> length r < length p"
proof (cases p)
  case (Cons c r)
  have "length (tl (dropWhile (\<lambda>c. c \<noteq> CHR '']'') (tl r))) \<le> length r"
    using length_dropWhile_le [of "\<lambda>c. c \<noteq> CHR '']''" "tl r"] by simp
  moreover have "tl r = d # r' \<Longrightarrow> length r' \<le> length r" for d r' by (cases r) auto
  ultimately show "parse_item lo p = Some (i, r', f) \<Longrightarrow> length r' < length p" for r'
    by (auto simp: parse_item_def Cons Let_def less_Suc_eq_le simp del: dropWhile_eq_Nil_conv split: if_split_asm list.split_asm)
qed (simp add: parse_item_def)

text \<open>A class ends at the first \<open>]\<close> behind an item.\<close>

function parse_items :: "char option \<Rightarrow> string \<Rightarrow> (class_item list \<times> string) option" where
  "parse_items lo p =
     (case parse_item lo p of None \<Rightarrow> None
      | Some (i, r, f) \<Rightarrow>
          if take 1 r = '']'' then Some ([i], tl r)
          else map_option (\<lambda>(is, r'). (i # is, r')) (parse_items f r))"
  by pat_completeness auto
termination by (relation "measure (\<lambda>(f, p). length p)") (auto dest: parse_item_length)

declare parse_items.simps [simp del]

definition parse_class :: "string \<Rightarrow> (bool \<times> class_item list \<times> string) option" where
  "parse_class p =
     (let neg = (take 1 p = ''^'' \<or> take 1 p = ''!'')
      in map_option (\<lambda>(is, r). (neg, is, r)) (parse_items None (if neg then tl p else p)))"

definition item_agrees :: "char \<Rightarrow> (class_item \<times> string \<times> char option) option \<Rightarrow> (bool \<times> string \<times> char) option \<Rightarrow> bool" where
  "item_agrees t item step =
     (case item of None \<Rightarrow> step = None
      | Some (i, r, f) \<Rightarrow> no_nul r \<and> (\<exists>p' prev'. step = Some (item_has t i, p', prev') \<and> tl p' = r
           \<and> f = (if prev' = CHR 0x00 then None else Some prev')))"

lemma no_nul_dropWhile: "no_nul s \<Longrightarrow> no_nul (dropWhile P s)"
  by (induction s) auto

lemma class_step_item:
  assumes "lo = (if prev = CHR 0x00 then None else Some prev)" and "no_nul p"
  shows "item_agrees t (parse_item lo p) (class_step t prev p)"
proof (cases p)
  case Nil
  then show ?thesis by (simp add: item_agrees_def parse_item_def class_step_def)
next
  case p: (Cons c r)
  note d = item_agrees_def parse_item_def class_step_def p list.case
  have n: "no_nul r" "c \<noteq> CHR 0x00" using assms(2) p by simp_all
  consider (esc) "c = CHR 0x5C" | (range) "c = CHR ''-''" "prev \<noteq> CHR 0x00" "r \<noteq> []" "hd r \<noteq> CHR '']''"
    | (named) "c = CHR ''[''" "r \<noteq> []" "hd r = CHR '':''"
    | (one) "c \<noteq> CHR 0x5C" "\<not> (c = CHR ''-'' \<and> prev \<noteq> CHR 0x00 \<and> r \<noteq> [] \<and> hd r \<noteq> CHR '']'')"
        "\<not> (c = CHR ''['' \<and> r \<noteq> [] \<and> hd r = CHR '':'')" by blast
  then show ?thesis
  proof cases
    case esc
    show ?thesis using n by (cases r) (simp_all add: d esc)
  next
    case range
    obtain e r' where r: "r = e # r'" using range(3) by (cases r) auto
    show ?thesis
      using range n assms(1) by (cases r') (simp_all add: d r conj_commute)
  next
    case named
    obtain r' where r: "r = CHR '':'' # r'" using named(2,3) by (cases r) auto
    define body where "body = takeWhile (\<lambda>c. c \<noteq> CHR '']'') r'"
    define after where "after = dropWhile (\<lambda>c. c \<noteq> CHR '']'') r'"
    have "no_nul after" using n(1) r by (simp add: after_def no_nul_dropWhile)
    then have t: "no_nul (tl after)" by (cases after) auto
    note b = body_def [symmetric] after_def [symmetric]
    have step: "class_step t prev p =
        (if after = [] then None
         else if body = [] \<or> last body \<noteq> CHR '':'' then Some (t = CHR ''['', p, CHR ''['')
         else (case char_class (butlast body) of None \<Rightarrow> None | Some f \<Rightarrow> Some (f t, after, CHR 0x00)))"
      by (simp add: class_step_def p r named(1) b Let_def del: dropWhile_eq_Nil_conv)
    have item: "parse_item lo p =
        (if after = [] then None
         else if body \<noteq> [] \<and> last body = CHR '':'' then
           (if char_class (butlast body) = None then None else Some (Named (butlast body), tl after, None))
         else Some (One c, r, Some c))"
      by (simp add: parse_item_def p r named(1) b Let_def del: dropWhile_eq_Nil_conv)
    consider "after = []" | "after \<noteq> []" "body = [] \<or> last body \<noteq> CHR '':''"
      | "after \<noteq> []" "body \<noteq> []" "last body = CHR '':''" "char_class (butlast body) = None"
      | f where "after \<noteq> []" "body \<noteq> []" "last body = CHR '':''" "char_class (butlast body) = Some f" by fastforce
    then show ?thesis
      unfolding step item by cases (use n t named(1) p in \<open>auto simp: item_agrees_def\<close>)
  next
    case one
    then have "\<not> (take 1 r = '':'' \<and> c = CHR ''['')" by (cases r) auto
    moreover have "\<not> (c = CHR ''-'' \<and> lo \<noteq> None \<and> r \<noteq> [] \<and> hd r \<noteq> CHR '']'')" using one(2) assms(1) by auto
    ultimately show ?thesis using one n by (simp only: d if_False) simp
  qed
qed

lemma class_loop_items:
  "lo = (if prev = CHR 0x00 then None else Some prev) \<Longrightarrow> no_nul p \<Longrightarrow>
   class_loop t prev m p = map_option (\<lambda>(is, r). (m \<or> list_ex (item_has t) is, r)) (parse_items lo p)
   \<and> (\<forall>is r. parse_items lo p = Some (is, r) \<longrightarrow> no_nul r \<and> length r < length p)"
proof (induction lo p arbitrary: prev m rule: parse_items.induct)
  case (1 lo p)
  note agrees = class_step_item [OF 1(2,3), of t]
  show ?case
  proof (cases "parse_item lo p")
    case None
    then show ?thesis using agrees
      by (subst class_loop.simps, subst (1 2) parse_items.simps) (simp add: item_agrees_def)
  next
    case (Some x)
    then obtain i r f where x: "parse_item lo p = Some (i, r, f)" by (cases x) auto
    obtain p' prev' where s: "no_nul r" "class_step t prev p = Some (item_has t i, p', prev')" "tl p' = r"
      "f = (if prev' = CHR 0x00 then None else Some prev')"
      using agrees x by (auto simp: item_agrees_def)
    show ?thesis
    proof (cases "take 1 r = '']''")
      case True
      then obtain r' where r: "r = CHR '']'' # r'" by (cases r) auto
      have "no_nul r'" "length r' < length p" using s(1) r parse_item_length [OF x] by simp_all
      then show ?thesis using s x r
        by (subst class_loop.simps, subst (1 2) parse_items.simps) auto
    next
      case False
      have IH: "class_loop t prev' (m \<or> item_has t i) r =
            map_option (\<lambda>(is, r). ((m \<or> item_has t i) \<or> list_ex (item_has t) is, r)) (parse_items f r)"
        "\<forall>is r'. parse_items f r = Some (is, r') \<longrightarrow> no_nul r' \<and> length r' < length r"
        using 1(1) [OF x refl refl False s(4) s(1), of "m \<or> item_has t i"] by auto
      have items: "parse_items lo p = map_option (\<lambda>(is, r'). (i # is, r')) (parse_items f r)"
        using x False by (subst parse_items.simps) simp
      have "class_loop t prev m p = class_loop t prev' (m \<or> item_has t i) r"
      proof (cases r)
        case Nil
        then have "class_loop t prev' (m \<or> item_has t i) r = None"
          by (subst class_loop.simps) (simp add: class_step_def)
        then show ?thesis using s Nil by (subst class_loop.simps) simp
      next
        case (Cons c r')
        then show ?thesis using s False by (subst class_loop.simps) simp
      qed
      then show ?thesis
        using IH parse_item_length [OF x] unfolding items by (cases "parse_items f r") auto
    qed
  qed
qed

lemma class_match_parse:
  assumes "no_nul p"
  shows "class_match t p = map_option (\<lambda>(neg, is, r). (list_ex (item_has t) is, neg, r)) (parse_class p)"
    and "parse_class p = Some (neg, is, r) \<Longrightarrow> no_nul r \<and> length r < length p"
proof -
  let ?n = "take 1 p = ''^'' \<or> take 1 p = ''!''"
  have n: "p \<noteq> [] \<and> (hd p = CHR ''^'' \<or> hd p = CHR ''!'') \<longleftrightarrow> ?n" by (cases p) auto
  have "no_nul (if ?n then tl p else p)" using assms by (cases p) auto
  note items = class_loop_items [OF _ this, of None "CHR 0x00" t False]
  show "class_match t p = map_option (\<lambda>(neg, is, r). (list_ex (item_has t) is, neg, r)) (parse_class p)"
    using items unfolding class_match_def parse_class_def Let_def n
    by (cases "parse_items None (if ?n then tl p else p)") auto
  have "length (if ?n then tl p else p) \<le> length p" by simp
  then show "parse_class p = Some (neg, is, r) \<Longrightarrow> no_nul r \<and> length r < length p"
    using items unfolding parse_class_def Let_def by fastforce
qed

function compile :: "string \<Rightarrow> token list option" where
  "compile p =
     (case p of [] \<Rightarrow> Some []
      | c # q \<Rightarrow>
          if c = CHR ''?'' then map_option ((#) AnyChar) (compile q)
          else if c = CHR ''*'' then
            map_option ((#) (if q \<noteq> [] \<and> hd q = CHR ''*'' then StarStar else Star))
              (compile (dropWhile (\<lambda>c. c = CHR ''*'') q))
          else if c = CHR ''['' then
            (case parse_class q of None \<Rightarrow> None
             | Some (neg, is, r) \<Rightarrow> if length r < length p then map_option ((#) (Bracket neg is)) (compile r) else None)
          else if c = CHR 0x5C then
            (case q of [] \<Rightarrow> None | d # q' \<Rightarrow> map_option ((#) (Lit d)) (compile q'))
          else map_option ((#) (Lit c)) (compile q))"
  by pat_completeness auto
termination by (relation "measure length") (auto simp: le_imp_less_Suc length_dropWhile_le)

declare compile.simps [simp del]

text \<open>The texts a compiled pattern matches; only \<open>**\<close> and a literal slash match a slash.\<close>

fun fits :: "token \<Rightarrow> char \<Rightarrow> bool" where
  "fits (Lit d) c = (c = d)"
| "fits AnyChar c = (c \<noteq> CHR ''/'')"
| "fits (Bracket neg is) c = (c \<noteq> CHR ''/'' \<and> list_ex (item_has c) is \<noteq> neg)"
| "fits Star c = False"
| "fits StarStar c = False"

fun matches :: "token list \<Rightarrow> string \<Rightarrow> bool" where
  "matches [] s = (s = [])"
| "matches (Star # ts) s = list_ex (\<lambda>n. CHR ''/'' \<notin> set (take n s) \<and> matches ts (drop n s)) [0..<Suc (length s)]"
| "matches (StarStar # ts) s = list_ex (\<lambda>n. matches ts (drop n s)) [0..<Suc (length s)]"
| "matches (k # ts) s = (s \<noteq> [] \<and> fits k (hd s) \<and> matches ts (tl s))"

definition pattern_matches :: "string \<Rightarrow> string \<Rightarrow> bool" where
  "pattern_matches p s = (case compile p of None \<Rightarrow> False | Some ts \<Rightarrow> matches ts s)"

lemma compile_Nil: "compile [] = Some []"
  by (subst compile.simps) (rule list.case(1))

lemma compile_Cons:
  "compile (c # q) =
     (if c = CHR ''?'' then map_option ((#) AnyChar) (compile q)
      else if c = CHR ''*'' then
        map_option ((#) (if q \<noteq> [] \<and> hd q = CHR ''*'' then StarStar else Star))
          (compile (dropWhile (\<lambda>c. c = CHR ''*'') q))
      else if c = CHR ''['' then
        (case parse_class q of None \<Rightarrow> None
         | Some (neg, is, r) \<Rightarrow> if length r < length (c # q) then map_option ((#) (Bracket neg is)) (compile r) else None)
      else if c = CHR 0x5C then
        (case q of [] \<Rightarrow> None | d # q' \<Rightarrow> map_option ((#) (Lit d)) (compile q'))
      else map_option ((#) (Lit c)) (compile q))"
  by (subst compile.simps) (rule list.case(2))

lemma pattern_matches_Nil: "pattern_matches [] s \<longleftrightarrow> s = []"
  unfolding pattern_matches_def compile_Nil by simp

lemma matches_single_iff:
  "k \<noteq> Star \<Longrightarrow> k \<noteq> StarStar \<Longrightarrow> matches (k # ts) s \<longleftrightarrow> (s \<noteq> [] \<and> fits k (hd s) \<and> matches ts (tl s))"
  by (cases k) (simp_all only: matches.simps token.distinct simp_thms)

text \<open>What each result says about the pattern \<open>p\<close> at the text \<open>s\<close> and at the places behind it.\<close>

definition result_ok :: "string \<Rightarrow> string \<Rightarrow> wild_result \<Rightarrow> bool" where
  "result_ok p s r =
     (case r of TRUE \<Rightarrow> pattern_matches p s
      | FALSE \<Rightarrow> \<not> pattern_matches p s
      | ABORT_ALL \<Rightarrow> (\<forall>n\<le>length s. \<not> pattern_matches p (drop n s))
      | ABORT_TO_STARSTAR \<Rightarrow> (\<forall>n\<le>length s. CHR ''/'' \<notin> set (take n s) \<longrightarrow> \<not> pattern_matches p (drop n s)))"

lemma result_ok_no_match: "r \<noteq> TRUE \<Longrightarrow> result_ok p s r \<Longrightarrow> \<not> pattern_matches p s"
  by (cases r) (force simp: result_ok_def)+

lemma result_ok_step:
  assumes c: "compile p = map_option ((#) k) (compile q)" and k: "k \<noteq> Star" "k \<noteq> StarStar" and x: "fits k x"
    and q: "result_ok q s r"
  shows "result_ok p (x # s) r"
proof -
  have iff: "pattern_matches p t \<longleftrightarrow> (t \<noteq> [] \<and> fits k (hd t) \<and> pattern_matches q (tl t))" for t
    using k c by (cases "compile q") (simp_all add: pattern_matches_def matches_single_iff)
  show ?thesis
  proof (cases r)
    case ABORT_ALL
    have "\<not> pattern_matches p (drop n (x # s))" if n: "n \<le> length (x # s)" for n
    proof (cases "n = length (x # s)")
      case False
      then have "\<not> pattern_matches q (drop n s)" using q n ABORT_ALL by (simp add: result_ok_def)
      moreover have "tl (drop n (x # s)) = drop n s" by (simp add: tl_drop)
      ultimately show ?thesis by (simp add: iff)
    qed (simp add: iff)
    then show ?thesis by (simp add: result_ok_def ABORT_ALL)
  next
    case ABORT_TO_STARSTAR
    have "\<not> pattern_matches p (drop n (x # s))" if n: "n \<le> length (x # s)" "CHR ''/'' \<notin> set (take n (x # s))" for n
    proof
      assume m: "pattern_matches p (drop n (x # s))"
      then have l: "n < length (x # s)" and f: "fits k ((x # s) ! n)" "pattern_matches q (drop n s)"
        using n(1) unfolding iff by (auto simp: hd_drop_conv_nth tl_drop)
      have "(x # s) ! n \<noteq> CHR ''/''"
      proof
        assume sl: "(x # s) ! n = CHR ''/''"
        then have "x = CHR ''/''" using f(1) x by (cases k) auto
        with n(2) have "n = 0" by (cases n) auto
        with sl x k f show False using n by (cases k) (use q ABORT_TO_STARSTAR in \<open>auto simp: result_ok_def\<close>)
      qed
      then have "CHR ''/'' \<notin> set (take (Suc n) (x # s))"
        using n(2) l by (subst take_Suc_conv_app_nth) auto
      then have "CHR ''/'' \<notin> set (take n s)" by simp
      then show False using q f(2) l by (simp add: result_ok_def ABORT_TO_STARSTAR)
    qed
    then show ?thesis by (simp add: result_ok_def ABORT_TO_STARSTAR)
  qed (use q x in \<open>simp_all add: result_ok_def iff\<close>)
qed

lemma result_ok_mismatch:
  assumes "compile p = map_option ((#) k) (compile q)" and "k \<noteq> Star" "k \<noteq> StarStar" and "\<not> fits k x"
  shows "result_ok p (x # s) FALSE"
  using assms by (cases "compile q") (simp_all add: result_ok_def pattern_matches_def matches_single_iff)

lemma result_ok_end:
  assumes "compile p = map_option ((#) k) (compile q)" and "k \<noteq> Star" "k \<noteq> StarStar"
  shows "result_ok p [] ABORT_ALL"
  using assms by (cases "compile q") (simp_all add: result_ok_def pattern_matches_def matches_single_iff)

lemma result_ok_malformed: "compile p = None \<Longrightarrow> r \<noteq> TRUE \<Longrightarrow> result_ok p s r"
  by (cases r) (simp_all add: result_ok_def pattern_matches_def)

subsection \<open>The search finds every match\<close>

definition star_ok :: "bool \<Rightarrow> string \<Rightarrow> string \<Rightarrow> wild_result \<Rightarrow> bool" where
  "star_ok special p s r =
     (case r of TRUE \<Rightarrow> (\<exists>n\<le>length s. (special \<or> CHR ''/'' \<notin> set (take n s)) \<and> pattern_matches p (drop n s))
      | FALSE \<Rightarrow> False
      | ABORT_ALL \<Rightarrow> (\<forall>n\<le>length s. \<not> pattern_matches p (drop n s))
      | ABORT_TO_STARSTAR \<Rightarrow> \<not> special
          \<and> (\<forall>n\<le>length s. CHR ''/'' \<notin> set (take n s) \<longrightarrow> \<not> pattern_matches p (drop n s)))"

lemma star_ok_continue:
  assumes r: "star_ok special p s r" and no: "\<not> pattern_matches p (x # s)" and x: "special \<or> x \<noteq> CHR ''/''"
  shows "star_ok special p (x # s) r"
proof (cases r)
  case TRUE
  then obtain n where "n \<le> length s" "special \<or> CHR ''/'' \<notin> set (take n s)" "pattern_matches p (drop n s)"
    using r by (auto simp: star_ok_def)
  then have "Suc n \<le> length (x # s) \<and> (special \<or> CHR ''/'' \<notin> set (take (Suc n) (x # s))) \<and> pattern_matches p (drop (Suc n) (x # s))"
    using x by auto
  then show ?thesis unfolding star_ok_def TRUE wild_result.case by blast
next
  case ABORT_ALL
  have "\<not> pattern_matches p (drop n (x # s))" if "n \<le> length (x # s)" for n
    using that r no by (cases n) (simp_all add: star_ok_def ABORT_ALL)
  then show ?thesis by (simp add: star_ok_def ABORT_ALL)
next
  case ABORT_TO_STARSTAR
  have "\<not> pattern_matches p (drop n (x # s))" if "n \<le> length (x # s)" "CHR ''/'' \<notin> set (take n (x # s))" for n
    using that r no by (cases n) (simp_all add: star_ok_def ABORT_TO_STARSTAR)
  then show ?thesis using r by (simp add: star_ok_def ABORT_TO_STARSTAR)
qed (use r in \<open>simp add: star_ok_def\<close>)

lemma star_ok_result:
  assumes r: "result_ok p s r" and f: "r \<noteq> FALSE" and s: "special \<longrightarrow> r \<noteq> ABORT_TO_STARSTAR"
  shows "star_ok special p s r"
proof (cases r)
  case TRUE
  then have "0 \<le> length s \<and> (special \<or> CHR ''/'' \<notin> set (take 0 s)) \<and> pattern_matches p (drop 0 s)"
    using r by (simp add: result_ok_def)
  then show ?thesis unfolding star_ok_def TRUE wild_result.case by blast
qed (use r f s in \<open>simp_all add: star_ok_def result_ok_def\<close>)

text \<open>A slash behind which a single star cannot go on.\<close>

lemma star_ok_slash:
  assumes "\<not> pattern_matches p (CHR ''/'' # s)"
  shows "star_ok False p (CHR ''/'' # s) ABORT_TO_STARSTAR"
proof -
  have "\<not> pattern_matches p (drop n (CHR ''/'' # s))" if "CHR ''/'' \<notin> set (take n (CHR ''/'' # s))" for n
    using that assms by (cases n) auto
  then show ?thesis by (simp add: star_ok_def)
qed

lemma star_result_ok:
  assumes c: "compile p = map_option ((#) (if special then StarStar else Star)) (compile q)" and r: "star_ok special q s r"
  shows "result_ok p s r"
proof -
  have iff: "pattern_matches p t \<longleftrightarrow> (\<exists>n\<le>length t. (special \<or> CHR ''/'' \<notin> set (take n t)) \<and> pattern_matches q (drop n t))" for t
    using c by (cases "compile q"; cases special) (simp_all add: pattern_matches_def list_ex_iff less_Suc_eq_le Bex_def del: upt_Suc)
  have "\<not> pattern_matches p (drop n s)"
    if a: "\<And>m. m \<le> length s \<Longrightarrow> CHR ''/'' \<notin> set (take m s) \<or> special \<Longrightarrow> \<not> pattern_matches q (drop m s)"
      and n: "n \<le> length s" "CHR ''/'' \<notin> set (take n s) \<or> special" for n
  proof
    assume "pattern_matches p (drop n s)"
    then obtain m where m: "m \<le> length s - n" "special \<or> CHR ''/'' \<notin> set (take m (drop n s))" "pattern_matches q (drop (n + m) s)"
      unfolding iff by (auto simp: add.commute)
    have "take (n + m) s = take n s @ take m (drop n s)" by (rule take_add)
    moreover have "n + m \<le> length s" using m(1) n(1) by simp
    ultimately show False using a [of "n + m"] m(2,3) n(2) by auto
  qed
  note none = this
  show ?thesis
  proof (cases r)
    case TRUE
    then show ?thesis using r by (simp add: result_ok_def star_ok_def iff)
  next
    case FALSE
    then show ?thesis using r by (simp add: star_ok_def)
  next
    case ABORT_ALL
    then have a: "\<And>m. m \<le> length s \<Longrightarrow> \<not> pattern_matches q (drop m s)" using r by (simp add: star_ok_def)
    have "\<not> pattern_matches p (drop n s)" if "n \<le> length s" for n
    proof
      assume "pattern_matches p (drop n s)"
      then obtain m where m: "m \<le> length s - n" "pattern_matches q (drop (n + m) s)"
        unfolding iff by (auto simp: add.commute)
      then show False using a [of "n + m"] that by simp
    qed
    then show ?thesis by (simp add: result_ok_def ABORT_ALL)
  next
    case ABORT_TO_STARSTAR
    then show ?thesis using r none by (simp add: result_ok_def star_ok_def)
  qed
qed

lemma lowered_slash [simp]: "lowered low c = CHR ''/'' \<longleftrightarrow> c = CHR ''/''"
proof -
  have "tolower c \<noteq> CHR ''/''" if "ISUPPER c"
  proof
    assume t: "tolower c = CHR ''/''"
    have c: "65 \<le> (of_char c :: nat)" "(of_char c :: nat) \<le> 90"
      using that by (simp_all add: ISUPPER_def between_def less_eq_char_def)
    have "of_char (tolower c) = (of_char c + 32 :: nat)"
      using that c by (simp add: tolower_def)
    then show False using t c by simp
  qed
  then show ?thesis by (auto simp: lowered_def) (auto simp: ISUPPER_def between_def less_eq_char_def)
qed

lemma lowered_slash_eq [simp]: "lowered low (CHR ''/'') = CHR ''/''"
  using lowered_slash by blast

lemma slash_in_lowered: "CHR ''/'' \<in> set (map (lowered low) s) \<longleftrightarrow> CHR ''/'' \<in> set s"
  by (induction s) (auto simp: eq_commute [of "CHR ''/''"])

lemma star_loop_spec:
  assumes p: "\<And>tx a. result_ok p (map (lowered low) (tx @ concat a)) (dowild low p tx a)"
    and ne: "\<not> pattern_matches p []"
  shows "star_ok special p (map (lowered low) (tx @ concat a)) (star_loop low special p tx a)"
proof (induction "text_size tx a" arbitrary: tx a rule: less_induct)
  case less
  show ?case
  proof (cases tx)
    case Nil
    show ?thesis
    proof (cases a)
      case Nil
      then show ?thesis using \<open>tx = []\<close> ne by (subst star_loop.simps) (simp add: star_ok_def)
    next
      case (Cons b a')
      then have "text_size b a' < text_size tx a" using \<open>tx = []\<close> by (simp add: text_size_def)
      from less [OF this] show ?thesis using \<open>tx = []\<close> Cons by (subst star_loop.simps) simp
    qed
  next
    case (Cons x xs)
    let ?s = "map (lowered low) (xs @ concat a)" and ?r = "dowild low p tx a"
    have "text_size xs a < text_size tx a" using Cons by (simp add: text_size_def)
    note IH = less [OF this]
    have R: "result_ok p (lowered low x # ?s) ?r" using p [of tx a] Cons by simp
    have loop: "star_loop low special p tx a =
        (if ?r \<noteq> FALSE then (if \<not> special \<or> ?r \<noteq> ABORT_TO_STARSTAR then ?r else star_loop low special p xs a)
         else if \<not> special \<and> x = CHR ''/'' then ABORT_TO_STARSTAR else star_loop low special p xs a)"
      using Cons by (subst star_loop.simps) (simp add: Let_def)
    consider (found) "?r \<noteq> FALSE" "special \<longrightarrow> ?r \<noteq> ABORT_TO_STARSTAR"
      | (slash) "?r = FALSE" "\<not> special" "x = CHR ''/''"
      | (continue) "?r \<noteq> TRUE" "special \<or> x \<noteq> CHR ''/''" "star_loop low special p tx a = star_loop low special p xs a"
      unfolding loop by (cases ?r; cases special; cases "x = CHR ''/''") simp_all
    then have "star_ok special p (lowered low x # ?s) (star_loop low special p tx a)"
    proof cases
      case found
      then show ?thesis using star_ok_result [OF R] loop by simp
    next
      case slash
      then show ?thesis using star_ok_slash [of p] result_ok_no_match [OF _ R] loop by simp
    next
      case continue
      then show ?thesis
        using star_ok_continue [OF IH result_ok_no_match [OF continue(1) R]] by simp
    qed
    then show ?thesis using Cons by simp
  qed
qed

lemma dowild_Nil: "dowild low [] tx a = (if list_all (\<lambda>b. b = []) (tx # a) then TRUE else FALSE)"
  by (subst dowild.simps) (rule list.case(1))

lemma dowild_Cons:
  "dowild low (p_ch # q) tx a =
     (case next_text tx a of
        ([], a') \<Rightarrow>
          if p_ch \<noteq> CHR ''*'' then ABORT_ALL
          else let special = (q \<noteq> [] \<and> hd q = CHR ''*''); q' = dropWhile (\<lambda>c. c = CHR ''*'') q
               in if q' = [] then TRUE else star_loop low special q' [] a'
      | (x # xs, a') \<Rightarrow>
          let t_ch = lowered low x in
          if p_ch = CHR ''?'' then (if t_ch = CHR ''/'' then FALSE else dowild low q xs a')
          else if p_ch = CHR ''*'' then
            (let special = (q \<noteq> [] \<and> hd q = CHR ''*''); q' = dropWhile (\<lambda>c. c = CHR ''*'') q
             in if q' = [] then
                  (if \<not> special \<and> list_ex (\<lambda>b. CHR ''/'' \<in> set b) ((x # xs) # a') then FALSE else TRUE)
                else star_loop low special q' (x # xs) a')
          else if p_ch = CHR ''['' then
            (case class_match t_ch q of None \<Rightarrow> ABORT_ALL
             | Some (matched, special, r) \<Rightarrow>
                 if matched = special \<or> t_ch = CHR ''/'' then FALSE else dowild low r xs a')
          else if p_ch = CHR 0x5C then
            (case q of [] \<Rightarrow> FALSE | d # q' \<Rightarrow> if t_ch \<noteq> d then FALSE else dowild low q' xs a')
          else if t_ch \<noteq> p_ch then FALSE else dowild low q xs a')"
  by (subst dowild.simps) (rule list.case(2))

lemma compile_non_star:
  assumes "c \<noteq> CHR ''*''"
  shows "compile (c # q) = None \<or> (\<exists>k q'. k \<noteq> Star \<and> k \<noteq> StarStar \<and> compile (c # q) = map_option ((#) k) (compile q'))"
  using assms unfolding compile_Cons
  by (auto split: option.splits list.splits)

lemma pattern_non_star_end: "c \<noteq> CHR ''*'' \<Longrightarrow> result_ok (c # q) [] ABORT_ALL"
  using compile_non_star [of c q] result_ok_end result_ok_malformed by blast

lemma pattern_non_star_empty: "c \<noteq> CHR ''*'' \<Longrightarrow> \<not> pattern_matches (c # q) []"
  using pattern_non_star_end [of c q] by (simp add: result_ok_def)

lemma trailing_star:
  "pattern_matches (CHR ''*'' # q) s \<longleftrightarrow> (q \<noteq> [] \<and> hd q = CHR ''*'' \<or> CHR ''/'' \<notin> set s)"
  if "dropWhile (\<lambda>c. c = CHR ''*'') q = []"
proof -
  let ?sp = "q \<noteq> [] \<and> hd q = CHR ''*''"
  have c: "compile (CHR ''*'' # q) = Some [if ?sp then StarStar else Star]"
    unfolding compile_Cons that compile_Nil by simp
  have "matches [Star] s \<longleftrightarrow> CHR ''/'' \<notin> set s"
    by (auto simp: list_ex_iff simp del: upt_Suc intro!: bexI [of _ "length s"])
  moreover have "matches [StarStar] s"
    by (auto simp: list_ex_iff simp del: upt_Suc intro!: bexI [of _ "length s"])
  ultimately show ?thesis unfolding pattern_matches_def c by (auto simp del: matches.simps)
qed

theorem dowild_spec:
  "no_nul p \<Longrightarrow> result_ok p (map (lowered low) (tx @ concat a)) (dowild low p tx a)"
proof (induction "length p" arbitrary: p tx a rule: less_induct)
  case less
  let ?low = "map (lowered low)"
  show ?case
  proof (cases p)
    case Nil
    then show ?thesis
      by (auto simp: dowild_Nil result_ok_def pattern_matches_Nil list_all_iff)
  next
    case p: (Cons c q)
    obtain tx' a' where nt: "next_text tx a = (tx', a')" by fastforce
    have flat: "?low (tx @ concat a) = ?low (tx' @ concat a')" using next_text_flat [OF nt] by simp
    have q: "no_nul q" "c \<noteq> CHR 0x00" "length q < length p" using less.prems p by simp_all
    let ?sp = "q \<noteq> [] \<and> hd q = CHR ''*''" and ?q = "dropWhile (\<lambda>c. c = CHR ''*'') q"
    have q': "no_nul ?q" "length ?q < length p"
      using q length_dropWhile_le [of "\<lambda>c. c = CHR ''*''" q] by (simp_all add: no_nul_dropWhile del: length_dropWhile_le)
    have stars: "result_ok (CHR ''*'' # q) (?low (tx2 @ concat a2)) (star_loop low ?sp ?q tx2 a2)" if ne: "?q \<noteq> []" for tx2 a2
    proof -
      obtain d r where d: "?q = d # r" "d \<noteq> CHR ''*''"
        using ne hd_dropWhile [OF ne] by (cases ?q) auto
      have "star_ok ?sp ?q (?low (tx2 @ concat a2)) (star_loop low ?sp ?q tx2 a2)"
        by (rule star_loop_spec) (use less.hyps [OF q'(2,1)] pattern_non_star_empty [OF d(2)] d(1) in simp_all)
      moreover have "compile (CHR ''*'' # q) = map_option ((#) (if ?sp then StarStar else Star)) (compile ?q)"
        by (simp add: compile_Cons)
      ultimately show ?thesis by (rule star_result_ok [rotated])
    qed
    show ?thesis
    proof (cases tx')
      case Nil
      then have a': "a' = []" using next_text_Nil nt by blast
      have run: "dowild low p tx a = (if c \<noteq> CHR ''*'' then ABORT_ALL else if ?q = [] then TRUE else star_loop low ?sp ?q [] [])"
        unfolding p dowild_Cons nt Nil a' by (simp add: Let_def)
      have "result_ok (c # q) [] (dowild low p tx a)"
        using pattern_non_star_end [of c q] stars [of "[]" "[]"] trailing_star [of q "[]"]
        unfolding run by (cases "?q = []") (auto simp: result_ok_def)
      then show ?thesis unfolding flat by (simp add: p Nil a')
    next
      case (Cons x xs)
      let ?t = "lowered low x" and ?s = "?low (xs @ concat a')"
      have s: "?low (tx @ concat a) = ?t # ?s" unfolding flat Cons by simp
      note run = dowild_Cons [of low c q tx a, folded p, unfolded nt Cons prod.case list.case Let_def]
      note cp = compile_Cons [of c q, folded p]
      have single: "result_ok p (?t # ?s) (if fits k ?t then dowild low r xs a' else FALSE)"
        if "compile p = map_option ((#) k) (compile r)" "k \<noteq> Star" "k \<noteq> StarStar" "no_nul r" "length r < length p" for k r
        using result_ok_step [OF that(1-3) _ less.hyps [OF that(5,4)], of ?t xs a'] result_ok_mismatch [OF that(1-3)] by simp
      consider (any) "c = CHR ''?''" | (star) "c = CHR ''*''" | (bracket) "c = CHR ''[''"
        | (esc) "c = CHR 0x5C" | (lit) "c \<noteq> CHR ''?''" "c \<noteq> CHR ''*''" "c \<noteq> CHR ''[''" "c \<noteq> CHR 0x5C" by blast
      then have "result_ok p (?t # ?s) (dowild low p tx a)"
      proof cases
        case any
        then show ?thesis using single [of AnyChar q] q by (simp add: run cp split: if_splits)
      next
        case lit
        then show ?thesis using single [of "Lit c" q] q by (auto simp: run cp split: if_splits)
      next
        case esc
        then show ?thesis
        proof (cases q)
          case Nil
          then show ?thesis using esc by (simp add: run cp result_ok_malformed)
        next
          case (Cons d r)
          then show ?thesis using single [of "Lit d" r] q esc by (auto simp: run cp split: if_splits)
        qed
      next
        case bracket
        note parse = class_match_parse [OF q(1)]
        show ?thesis
        proof (cases "parse_class q")
          case None
          then show ?thesis using bracket parse(1) [of ?t] by (simp add: run cp result_ok_malformed)
        next
          case (Some y)
          then obtain neg "is" r where y: "parse_class q = Some (neg, is, r)" by (cases y) auto
          note r = parse(2) [OF y]
          have "compile p = map_option ((#) (Bracket neg is)) (compile r)"
            using y r bracket q(3) by (simp add: cp)
          moreover have "dowild low p tx a = (if fits (Bracket neg is) ?t then dowild low r xs a' else FALSE)"
            using bracket parse(1) [of ?t] y by (auto simp: run)
          ultimately show ?thesis using single [of "Bracket neg is" r] r p by simp
        qed
      next
        case star
        show ?thesis
        proof (cases "?q = []")
          case True
          define text_slash where "text_slash = list_ex (\<lambda>b. CHR ''/'' \<in> set b) ((x # xs) # a')"
          have sl: "text_slash \<longleftrightarrow> CHR ''/'' \<in> set (?t # ?s)"
            using slash_in_lowered [of low "(x # xs) @ concat a'"] unfolding text_slash_def by (auto simp: list_ex_iff)
          have "dowild low p tx a = (if \<not> ?sp \<and> text_slash then FALSE else TRUE)"
            unfolding run star True text_slash_def by simp
          moreover have "pattern_matches p (?t # ?s) \<longleftrightarrow> (?sp \<or> \<not> text_slash)"
            unfolding p star sl by (rule trailing_star [OF True])
          ultimately show ?thesis unfolding result_ok_def by (cases "\<not> ?sp \<and> text_slash") simp_all
        next
          case False
          then have "dowild low p tx a = star_loop low ?sp ?q (x # xs) a'" unfolding run star using False by (simp del: dropWhile_eq_Nil_conv)
          then show ?thesis using stars [OF False, of "x # xs" a'] by (simp add: p star)
        qed
      qed
      then show ?thesis unfolding s .
    qed
  qed
qed

lemma dowild_TRUE: "no_nul p \<Longrightarrow> dowild low p tx a = TRUE \<longleftrightarrow> pattern_matches p (map (lowered low) (tx @ concat a))"
  using dowild_spec [of p low tx a] result_ok_no_match by (auto simp: result_ok_def)

lemma lowered_False [simp]: "map (lowered False) s = s"
  by (induction s) (simp_all add: lowered_def)

subsection \<open>Texts in pieces\<close>

function doliteral :: "string \<Rightarrow> string \<Rightarrow> string list \<Rightarrow> bool" where
  "doliteral s tx a =
     (case s of [] \<Rightarrow> list_all (\<lambda>b. b = []) (tx # a)
      | c # s' \<Rightarrow>
          (case next_text tx a of
             ([], a') \<Rightarrow> False
           | (x # xs, a') \<Rightarrow> if x \<noteq> c then False else doliteral s' xs a'))"
  by pat_completeness auto
termination by (relation "measure (\<lambda>(s, tx, a). length s)") auto

declare doliteral.simps [simp del]

text \<open>
  The last \<open>count\<close> elements of the joined text: the string that starts them and the strings after
  it. \<open>last_slash\<close> is the inner loop that goes back through one string; its result is the place
  of the slash that brings \<open>count\<close> to 0, or the count that is left.
\<close>

fun last_slash :: "string \<Rightarrow> nat \<Rightarrow> int \<Rightarrow> int + nat" where
  "last_slash s 0 count = Inl count"
| "last_slash s (Suc k) count =
     (if s ! k = CHR ''/'' then (if count - 1 = 0 then Inr k else last_slash s k (count - 1))
      else last_slash s k count)"

fun trailing_loop :: "string list \<Rightarrow> nat \<Rightarrow> int \<Rightarrow> (string \<times> string list) option" where
  "trailing_loop a 0 count =
     (if count = 1 then (case a of [] \<Rightarrow> None | t # ts \<Rightarrow> Some (t, ts)) else None)"
| "trailing_loop a (Suc k) count =
     (case last_slash (a ! k) (length (a ! k)) count of
        Inr i \<Rightarrow> Some (drop (i + 1) (a ! k), drop (Suc k) a)
      | Inl count' \<Rightarrow> trailing_loop a k count')"

definition trailing_N_elements :: "string list \<Rightarrow> int \<Rightarrow> (string \<times> string list) option" where
  "trailing_N_elements a count = trailing_loop a (length a) count"

text \<open>The search behind every slash, for \<open>where < 0\<close>; the array ends with a null pointer.\<close>

function after_slashes :: "string \<Rightarrow> string \<Rightarrow> string list \<Rightarrow> bool" where
  "after_slashes p tx a =
     (case tx of
        [] \<Rightarrow> (case a of [] \<Rightarrow> False | b # a' \<Rightarrow> after_slashes p b a')
      | x # xs \<Rightarrow>
          if x = CHR ''/'' \<and> dowild False p xs a \<noteq> FALSE \<and> dowild False p xs a \<noteq> ABORT_TO_STARSTAR
          then dowild False p xs a = TRUE
          else after_slashes p xs a)"
  by pat_completeness auto
termination by (relation "measure (\<lambda>(p, tx, a). text_size tx a)") (auto simp: text_size_def)

declare after_slashes.simps [simp del]

definition first_text :: "string list \<Rightarrow> int \<Rightarrow> (string \<times> string list) option" where
  "first_text texts count =
     (if count > 0 then trailing_N_elements texts count
      else case texts of [] \<Rightarrow> None | t # ts \<Rightarrow> Some (t, ts))"

definition wildmatch_array :: "string \<Rightarrow> string list \<Rightarrow> int \<Rightarrow> bool" where
  "wildmatch_array pattern texts count =
     (case first_text texts count of None \<Rightarrow> False
      | Some (tx, a) \<Rightarrow>
          let matched = dowild False pattern tx a in
          if matched \<noteq> TRUE \<and> count < 0 \<and> matched \<noteq> ABORT_ALL then after_slashes pattern tx a
          else matched = TRUE)"

definition litmatch_array :: "string \<Rightarrow> string list \<Rightarrow> int \<Rightarrow> bool" where
  "litmatch_array s texts count =
     (case first_text texts count of None \<Rightarrow> False | Some (tx, a) \<Rightarrow> doliteral s tx a)"

lemma doliteral_spec: "doliteral s tx a \<longleftrightarrow> s = tx @ concat a"
proof (induction s tx a rule: doliteral.induct)
  case (1 s tx a)
  show ?case
  proof (cases s)
    case Nil
    then show ?thesis by (subst doliteral.simps) (auto simp: list_all_iff)
  next
    case (Cons c s')
    obtain tx' a' where nt: "next_text tx a = (tx', a')" by fastforce
    note flat = next_text_flat [OF nt]
    show ?thesis
    proof (cases tx')
      case Nil
      then have e: "tx @ concat a = []" using next_text_Nil nt by blast
      show ?thesis unfolding e using Cons nt Nil by (subst doliteral.simps) simp
    next
      case (Cons x xs)
      then have "doliteral s tx a \<longleftrightarrow> x = c \<and> s' = xs @ concat a'"
        using \<open>s = c # s'\<close> nt 1 [OF \<open>s = c # s'\<close> nt [symmetric] Cons] by (subst doliteral.simps) simp
      moreover have "tx @ concat a = x # xs @ concat a'" using flat Cons by simp
      ultimately show ?thesis using \<open>s = c # s'\<close> by auto
    qed
  qed
qed

lemma after_slashes_spec:
  assumes p: "no_nul p"
  shows "after_slashes p tx a \<longleftrightarrow> (\<exists>u v. tx @ concat a = u @ CHR ''/'' # v \<and> pattern_matches p v)"
proof (induction "text_size tx a" arbitrary: tx a rule: less_induct)
  case less
  show ?case
  proof (cases tx)
    case Nil
    show ?thesis
    proof (cases a)
      case (Cons b a')
      then have "text_size b a' < text_size tx a" using \<open>tx = []\<close> by (simp add: text_size_def)
      from less [OF this] show ?thesis using \<open>tx = []\<close> Cons by (subst after_slashes.simps) simp
    qed (use \<open>tx = []\<close> in \<open>subst after_slashes.simps, simp\<close>)
  next
    case (Cons x xs)
    then have "text_size xs a < text_size tx a" by (simp add: text_size_def)
    note IH = less [OF this]
    let ?r = "dowild False p xs a" and ?s = "xs @ concat a"
    have R: "result_ok p ?s ?r" using dowild_spec [OF p, of False xs a] by simp
    have run: "after_slashes p tx a =
        (if x = CHR ''/'' \<and> ?r \<noteq> FALSE \<and> ?r \<noteq> ABORT_TO_STARSTAR then ?r = TRUE else after_slashes p xs a)"
      using Cons by (subst after_slashes.simps) simp
    have split: "(\<exists>u v. tx @ concat a = u @ CHR ''/'' # v \<and> pattern_matches p v)
        \<longleftrightarrow> (x = CHR ''/'' \<and> pattern_matches p ?s) \<or> (\<exists>u v. ?s = u @ CHR ''/'' # v \<and> pattern_matches p v)"
      using Cons by (auto simp: Cons_eq_append_conv)
    consider (match) "x = CHR ''/''" "?r = TRUE" | (abort) "x = CHR ''/''" "?r = ABORT_ALL"
      | (on) "after_slashes p tx a = after_slashes p xs a" "x \<noteq> CHR ''/'' \<or> ?r = FALSE \<or> ?r = ABORT_TO_STARSTAR"
      unfolding run by (cases ?r; cases "x = CHR ''/''") simp_all
    then show ?thesis
    proof cases
      case match
      then show ?thesis using R run split by (simp add: result_ok_def)
    next
      case abort
      have "\<not> pattern_matches p v" if "?s = u @ CHR ''/'' # v" for u v
      proof -
        have "drop (Suc (length u)) ?s = v" "Suc (length u) \<le> length ?s" unfolding that by simp_all
        then show ?thesis using R abort(2) by (auto simp: result_ok_def)
      qed
      moreover have "\<not> pattern_matches p ?s" using result_ok_no_match [OF _ R] abort by simp
      ultimately show ?thesis using abort run split by auto
    next
      case on
      then have "\<not> (x = CHR ''/'' \<and> pattern_matches p ?s)" using result_ok_no_match [OF _ R] by auto
      then show ?thesis unfolding on(1) IH split by blast
    qed
  qed
qed

text \<open>\<open>slashes\<close> counts the slashes of a text: the last \<open>n\<close> elements have \<open>n - 1\<close> of them.\<close>

abbreviation slashes :: "string \<Rightarrow> int" where
  "slashes s \<equiv> int (count_list s (CHR ''/''))"

lemma last_slash_spec:
  assumes "k \<le> length s" and "1 \<le> c"
  shows "case last_slash s k c of
      Inl c' \<Rightarrow> 1 \<le> c' \<and> c' = c - slashes (take k s)
    | Inr i \<Rightarrow> i < k \<and> s ! i = CHR ''/'' \<and> slashes (drop (Suc i) (take k s)) = c - 1"
  using assms
proof (induction k arbitrary: c)
  case (Suc k)
  then have t: "take (Suc k) s = take k s @ [s ! k]" by (simp add: take_Suc_conv_app_nth)
  show ?case
  proof (cases "s ! k = CHR ''/'' \<and> c = 1")
    case True
    then show ?thesis using Suc.prems by (simp add: t)
  next
    case False
    let ?c = "if s ! k = CHR ''/'' then c - 1 else c"
    have run: "last_slash s (Suc k) c = last_slash s k ?c" using False by auto
    have "1 \<le> ?c" using False Suc.prems by auto
    from Suc.IH [OF _ this] Suc.prems show ?thesis
      unfolding run by (auto simp: t split: sum.splits)
  qed
qed simp

lemma trailing_loop_spec:
  assumes "k \<le> length a" and "1 \<le> c"
  shows "case trailing_loop a k c of
      None \<Rightarrow> a = [] \<or> slashes (concat (take k a)) < c - 1
    | Some (t, ts) \<Rightarrow> \<exists>pre w. concat (take k a) = pre @ w \<and> t @ concat ts = w @ concat (drop k a)
        \<and> slashes w = c - 1 \<and> (pre = [] \<or> last pre = CHR ''/'')"
  using assms
proof (induction k arbitrary: c)
  case 0
  then show ?case by (cases a) auto
next
  case (Suc k)
  let ?s = "a ! k"
  have t: "take (Suc k) a = take k a @ [?s]" "drop k a = ?s # drop (Suc k) a"
    using Suc.prems by (simp_all add: take_Suc_conv_app_nth Cons_nth_drop_Suc)
  note ls = last_slash_spec [of "length ?s" ?s c, OF _ Suc.prems(2)]
  show ?case
  proof (cases "last_slash ?s (length ?s) c")
    case (Inl c')
    then have c': "1 \<le> c'" "c' = c - slashes ?s" using ls by simp_all
    show ?thesis
    proof (cases "trailing_loop a k c'")
      case None
      then show ?thesis using Suc.IH [OF _ c'(1)] Suc.prems Inl c'(2) by (auto simp: t)
    next
      case (Some r)
      then obtain x ts where r: "trailing_loop a k c' = Some (x, ts)" by (cases r) auto
      then obtain pre w where "concat (take k a) = pre @ w" "x @ concat ts = w @ concat (drop k a)"
        "slashes w = c' - 1" "pre = [] \<or> last pre = CHR ''/''" using Suc.IH [OF _ c'(1)] Suc.prems by auto
      then show ?thesis using r Inl c'(2)
        by (auto simp: t intro!: exI [of _ pre] exI [of _ "w @ ?s"])
    qed
  next
    case (Inr i)
    then have i: "i < length ?s" "?s ! i = CHR ''/''" "slashes (drop (Suc i) ?s) = c - 1" using ls by simp_all
    let ?pre = "concat (take k a) @ take (Suc i) ?s" and ?w = "drop (Suc i) ?s"
    have "last ?pre = CHR ''/''" using i by (simp add: take_Suc_conv_app_nth)
    moreover have "concat (take (Suc k) a) = ?pre @ ?w" by (simp add: t)
    ultimately have "\<exists>pre w. concat (take (Suc k) a) = pre @ w \<and> ?w @ concat (drop (Suc k) a) = w @ concat (drop (Suc k) a)
        \<and> slashes w = c - 1 \<and> (pre = [] \<or> last pre = CHR ''/'')" using i(3) by metis
    moreover have "trailing_loop a (Suc k) c = Some (?w, drop (Suc k) a)" using Inr by simp
    ultimately show ?thesis by (simp only: option.case prod.case)
  qed
qed

text \<open>What \<open>wildmatch_array\<close> decides, on the joined text.\<close>

definition array_matches :: "(string \<Rightarrow> bool) \<Rightarrow> string \<Rightarrow> int \<Rightarrow> bool" where
  "array_matches m s count =
     (if count = 0 then m s
      else if count < 0 then m s \<or> (\<exists>u v. s = u @ CHR ''/'' # v \<and> m v)
      else (\<exists>u v. s = u @ v \<and> slashes v = count - 1 \<and> (u = [] \<or> last u = CHR ''/'') \<and> m v))"

lemma trailing_unique:
  fixes u v u' v' :: string
  assumes "u @ v = u' @ v'" and "u = [] \<or> last u = CHR ''/''" and "u' = [] \<or> last u' = CHR ''/''" and "slashes v = slashes v'"
  shows "v = v'"
proof -
  have aux: "v = v'"
    if e: "u @ v = u' @ v'" and n: "slashes v = slashes v'" and l: "length u \<le> length u'" and u': "u' = [] \<or> last u' = CHR ''/''"
    for u u' v v' :: string
  proof -
    obtain w where w: "u' = u @ w" "v = w @ v'" using e l by (auto simp: append_eq_append_conv2)
    then have "CHR ''/'' \<notin> set w" using n by (simp add: count_list_0_iff)
    then have "w = []" using u' w by (cases w rule: rev_cases) auto
    then show ?thesis using w by simp
  qed
  from this [of u v u' v'] this [of u' v' u v] assms show ?thesis by (cases "length u \<le> length u'") auto
qed

lemma first_text_trailing:
  assumes "texts \<noteq> []" and "count > 0"
  shows "case first_text texts count of None \<Rightarrow> \<not> array_matches m (concat texts) count
         | Some (t, ts) \<Rightarrow> array_matches m (concat texts) count \<longleftrightarrow> m (t @ concat ts)"
proof (cases "trailing_loop texts (length texts) count")
  case None
  then have l: "slashes (concat texts) < count - 1" using trailing_loop_spec [of "length texts" texts count] assms by simp
  have "\<not> array_matches m (concat texts) count"
  proof
    assume "array_matches m (concat texts) count"
    then obtain u v where "concat texts = u @ v" "slashes v = count - 1" using assms(2) by (auto simp: array_matches_def)
    then show False using l by simp
  qed
  then show ?thesis using None assms by (simp add: first_text_def trailing_N_elements_def)
next
  case (Some r)
  then obtain t ts pre where r: "trailing_loop texts (length texts) count = Some (t, ts)"
    and w: "concat texts = pre @ (t @ concat ts)" "slashes (t @ concat ts) = count - 1" "pre = [] \<or> last pre = CHR ''/''"
    using trailing_loop_spec [of "length texts" texts count] assms by (cases r) auto
  have "array_matches m (concat texts) count \<longleftrightarrow> m (t @ concat ts)"
  proof
    assume "array_matches m (concat texts) count"
    then obtain u v where "concat texts = u @ v" "slashes v = count - 1" "u = [] \<or> last u = CHR ''/''" "m v"
      using assms(2) by (auto simp: array_matches_def)
    moreover from this have "v = t @ concat ts" using trailing_unique [of u v pre "t @ concat ts"] w by simp
    ultimately show "m (t @ concat ts)" by simp
  next
    assume "m (t @ concat ts)"
    then have "concat texts = pre @ (t @ concat ts) \<and> slashes (t @ concat ts) = count - 1
        \<and> (pre = [] \<or> last pre = CHR ''/'') \<and> m (t @ concat ts)" using w by blast
    moreover have "array_matches m (concat texts) count \<longleftrightarrow>
        (\<exists>u v. concat texts = u @ v \<and> slashes v = count - 1 \<and> (u = [] \<or> last u = CHR ''/'') \<and> m v)"
      using assms(2) by (simp add: array_matches_def)
    ultimately show "array_matches m (concat texts) count" by blast
  qed
  then show ?thesis using r assms by (simp add: first_text_def trailing_N_elements_def)
qed

lemma wildmatch_array_correct:
  assumes "no_nul p" and "texts \<noteq> []"
  shows "wildmatch_array p texts count \<longleftrightarrow> array_matches (pattern_matches p) (concat texts) count"
proof (cases "count > 0")
  case True
  then show ?thesis
    using first_text_trailing [OF assms(2) True, of "pattern_matches p"] dowild_TRUE [OF assms(1), of False]
    by (auto simp: wildmatch_array_def Let_def split: option.splits)
next
  case False
  obtain t ts where t: "texts = t # ts" using assms(2) by (cases texts) auto
  let ?r = "dowild False p t ts"
  have R: "result_ok p (concat texts) ?r" using dowild_spec [OF assms(1), of False t ts] t by simp
  have M: "?r = TRUE \<longleftrightarrow> pattern_matches p (concat texts)" using dowild_TRUE [OF assms(1), of False t ts] t by simp
  have A: "\<not> (\<exists>u v. concat texts = u @ CHR ''/'' # v \<and> pattern_matches p v)" if "?r = ABORT_ALL"
  proof (clarify)
    fix u v assume v: "concat texts = u @ CHR ''/'' # v" "pattern_matches p v"
    have "drop (Suc (length u)) (concat texts) = v" "Suc (length u) \<le> length (concat texts)" unfolding v(1) by simp_all
    then show False using R that v(2) by (auto simp: result_ok_def)
  qed
  show ?thesis
    using False t M A after_slashes_spec [OF assms(1), of t ts]
    by (cases "count = 0") (auto simp: wildmatch_array_def first_text_def array_matches_def Let_def)
qed

lemma litmatch_array_correct:
  assumes "texts \<noteq> []" and "0 \<le> count"
  shows "litmatch_array s texts count \<longleftrightarrow> array_matches (\<lambda>v. v = s) (concat texts) count"
proof (cases "count = 0")
  case True
  then show ?thesis using assms(1) doliteral_spec
    by (cases texts) (auto simp: litmatch_array_def first_text_def array_matches_def)
next
  case False
  then show ?thesis
    using first_text_trailing [OF assms(1), of count "\<lambda>v. v = s"] assms(2) doliteral_spec
    by (auto simp: litmatch_array_def split: option.splits)
qed

end
