(* ===== verification/FileClean.thy ===== *)
theory FileClean
  imports NameOrder Wildmatch
begin

text \<open>
  \<open>flist_sort_and_clean\<close> of flist.c: the list is sorted, and of two entries with one name the
  directory or the first one is kept. The pruning of empty directories (\<open>prune_empty_dirs\<close>, which
  asks the filters) is not modelled.
\<close>

subsection \<open>The model\<close>

text \<open>
  The mode of the entry is set to \<open>S_IFREG\<close> while a non-directory of its name is searched; the
  search does not reach the entry itself, so the array is not changed for it here.
\<close>

definition dup_index :: "int \<Rightarrow> file_list \<Rightarrow> int \<Rightarrow> int \<Rightarrow> (int \<times> file_list) option" where
  "dup_index pv fl prev_i i =
     (let f = fl_sorted fl ! nat i
      in case f_name_cmp pv f (fl_sorted fl ! nat prev_i) of None \<Rightarrow> None
         | Some d \<Rightarrow>
             if d = 0 then Some (prev_i, fl)
             else if 29 \<le> pv \<and> S_ISDIR (mode f) then flist_find pv (fl \<lparr>fl_high := prev_i\<rparr>) (f \<lparr>mode := S_IFREG\<rparr>)
             else Some (- 1, fl))"

definition merge_dir_flags :: "file_struct \<Rightarrow> file_struct \<Rightarrow> file_struct" where
  "merge_dir_flags f fp =
     fp \<lparr>flags := (flags fp OR (flags f AND (FLAG_TOP_DIR OR FLAG_CONTENT_DIR))) AND (flags f OR NOT FLAG_IMPLIED_DIR)\<rparr>"

function scan_live :: "file_struct list \<Rightarrow> int \<Rightarrow> int \<Rightarrow> int" where
  "scan_live fs j i = (if j < i \<and> \<not> f_is_active (fs ! nat j) then scan_live fs (j + 1) i else j)"
  by pat_completeness auto
termination by (relation "measure (\<lambda>(fs, j, i). nat (i - j))") auto

declare scan_live.simps [simp del]

text \<open>The entry \<open>i\<close> and the earlier entry \<open>j\<close> have one name; the result is the list and \<open>prev_i\<close>.\<close>

definition drop_duplicate :: "bool \<Rightarrow> file_list \<Rightarrow> int \<Rightarrow> int \<Rightarrow> int \<Rightarrow> file_list \<times> int" where
  "drop_duplicate am_sender fl prev_i i j =
     (let fs = fl_sorted fl; f = fs ! nat i; fp = fs ! nat j;
          (keep, dropped, fs1) =
            (if S_ISDIR (mode f) then
               (if \<not> S_ISDIR (mode fp) then (i, j, fs)
                else (j, i, if am_sender then fs [nat i := f \<lparr>flags := flags f OR FLAG_DUPLICATE\<rparr>]
                            else fs [nat j := merge_dir_flags f fp]))
             else (j, i, fs));
          fs2 = (if am_sender then fs1 else fs1 [nat dropped := clear_file (fs1 ! nat dropped)])
      in if keep = i then
           (fl \<lparr>fl_sorted := fs2, fl_low := (if fl_low fl = dropped then scan_live fs2 (dropped + 1) i else fl_low fl)\<rparr>, i)
         else (fl \<lparr>fl_sorted := fs2\<rparr>, prev_i))"

text \<open>\<open>n\<close> entries are left behind \<open>i\<close>.\<close>

fun dedup_loop :: "nat \<Rightarrow> int \<Rightarrow> bool \<Rightarrow> file_list \<Rightarrow> int \<Rightarrow> int \<Rightarrow> (file_list \<times> int) option" where
  "dedup_loop 0 pv am_sender fl prev_i i = Some (fl, prev_i)"
| "dedup_loop (Suc n) pv am_sender fl prev_i i =
     (if \<not> f_is_active (fl_sorted fl ! nat (i + 1)) then dedup_loop n pv am_sender fl prev_i (i + 1)
      else case dup_index pv fl prev_i (i + 1) of None \<Rightarrow> None
        | Some (j, fl1) \<Rightarrow>
            (let (fl2, prev_i') = (if j \<ge> 0 then drop_duplicate am_sender fl1 prev_i (i + 1) j else (fl1, i + 1))
             in dedup_loop n pv am_sender fl2 prev_i' (i + 1)))"

fun strip_slashes :: "nat \<Rightarrow> string \<Rightarrow> (nat \<times> string) option" where
  "strip_slashes a [] = None"
| "strip_slashes a (c # d) = (if c = CHR ''/'' then strip_slashes (a + 1) d else Some (a, c # d))"

definition strip_root_dir :: "file_struct \<Rightarrow> file_struct" where
  "strip_root_dir f = (case dirname f of None \<Rightarrow> f | Some (a, d) \<Rightarrow> f \<lparr>dirname := strip_slashes a d\<rparr>)"

definition flist_sort_and_clean :: "int \<Rightarrow> bool \<Rightarrow> bool \<Rightarrow> file_list \<Rightarrow> bool \<Rightarrow> file_list option" where
  "flist_sort_and_clean pv am_sender inc_recurse fl strip_root =
     (if fl_sorted fl = [] then Some (fl \<lparr>fl_low := 0, fl_high := - 1\<rparr>)
      else case fsort (f_name_cmp pv) (fl_sorted fl) of None \<Rightarrow> None
        | Some fs \<Rightarrow>
            (let used = length fs;
                 dead = length (takeWhile (\<lambda>f. \<not> f_is_active f) fs);
                 (i, prev_i, low) =
                   (if \<not> am_sender \<or> inc_recurse
                    then (if dead < used then (int dead, int dead, int dead) else (int used, 0, 0))
                    else (int used - 1, int used - 1, 0))
             in case dedup_loop (nat (int used - 1 - i)) pv am_sender (fl \<lparr>fl_sorted := fs, fl_low := low\<rparr>) prev_i i of
                  None \<Rightarrow> None
                | Some (fl1, high) \<Rightarrow>
                    Some (fl1 \<lparr>fl_high := high,
                      fl_sorted := (if strip_root
                        then map (\<lambda>k. if fl_low fl1 \<le> int k \<and> int k \<le> high then strip_root_dir (fl_sorted fl1 ! k) else fl_sorted fl1 ! k)
                               [0..<length (fl_sorted fl1)]
                        else fl_sorted fl1)\<rparr>)))"

subsection \<open>Names and codes\<close>

text \<open>The code of the name alone, without the type of the entry.\<close>

definition plain_code :: "int \<Rightarrow> file_struct \<Rightarrow> nat list" where
  "plain_code pv f = name_code pv (f \<lparr>mode := S_IFREG\<rparr>)"

text \<open>A name as \<open>recv_file_entry\<close> splits it: no slash in the last part, and only a directory is \<open>.\<close>.\<close>

definition split_ok :: "file_struct \<Rightarrow> bool" where
  "split_ok f \<longleftrightarrow> (f_is_active f \<longrightarrow> CHR ''/'' \<notin> set (basename f) \<and> (basename f = ''.'' \<longrightarrow> S_ISDIR (mode f)))"

lemma reg_not_dir: "\<not> S_ISDIR S_IFREG"
  by (simp add: S_ISDIR_def S_IFREG_def S_IFMT_def S_IFDIR_def)

definition dir_code :: "file_struct \<Rightarrow> nat list" where
  "dir_code f = (case dirname f of None \<Rightarrow> [] | Some (_, d) \<Rightarrow> map (tcode t_PATH) (d @ ''/''))"

lemma codes:
  assumes "29 \<le> pv"
  shows "plain_code pv f = dir_code f @ map (tcode t_ITEM) (basename f)"
    and "\<not> S_ISDIR (mode f) \<Longrightarrow> name_code pv f = plain_code pv f"
    and "S_ISDIR (mode f) \<Longrightarrow> name_code pv f = dir_code f @ (if basename f = ''.'' then [] else map (tcode t_PATH) (basename f @ ''/''))"
  using assms reg_not_dir by (auto simp: plain_code_def name_code_def dir_code_def base_code_def t_path_def split: option.splits)

lemma item_path: "tcode t_ITEM c < tcode t_PATH d" "tcode t_PATH d \<noteq> tcode t_ITEM c"
  using tcode_less [of t_ITEM t_PATH c d] by auto

lemma tcode_inj: "tcode ty c = tcode ty d \<longleftrightarrow> c = d"
  by (simp add: tcode_def)

lemma map_tcode_inj: "map (tcode ty) s = map (tcode ty) t \<longleftrightarrow> s = t"
  by (rule inj_map_eq_map) (simp add: inj_def tcode_inj)

lemma paths_items:
  assumes "map (tcode t_PATH) a @ map (tcode t_ITEM) b = map (tcode t_PATH) c @ map (tcode t_ITEM) d"
  shows "a = c \<and> b = d"
  using assms
proof (induction a arbitrary: c)
  case Nil
  then show ?case by (cases c; cases b) (auto simp: map_tcode_inj tcode_inj item_path(2) [symmetric])
next
  case (Cons x a)
  then show ?case by (cases c; cases d) (auto simp: tcode_inj item_path(2))
qed

definition dir_part :: "file_struct \<Rightarrow> string" where
  "dir_part f = (case dirname f of None \<Rightarrow> [] | Some (_, d) \<Rightarrow> d @ ''/'')"

lemma dir_code_part: "dir_code f = map (tcode t_PATH) (dir_part f)"
  by (simp add: dir_code_def dir_part_def split: option.split)

lemma f_name_parts: "f_is_active f \<Longrightarrow> f_name f = Some (dir_part f @ basename f)"
  by (auto simp: f_name_def dir_part_def split: option.splits)

lemma dir_part_end: "dir_part f = [] \<or> last (dir_part f) = CHR ''/''"
  by (auto simp: dir_part_def split: option.splits)

lemma split_unique:
  fixes a b c d :: string
  assumes "a @ b = c @ d" and "a = [] \<or> last a = CHR ''/''" "c = [] \<or> last c = CHR ''/''" and "CHR ''/'' \<notin> set b" "CHR ''/'' \<notin> set d"
  shows "a = c \<and> b = d"
proof -
  have "slashes b = slashes d" using assms(4,5) by (simp add: count_list_0_iff)
  then have "b = d" using trailing_unique [of a b c d] assms by simp
  then show ?thesis using assms(1) by simp
qed

lemma plain_code_name:
  assumes "29 \<le> pv" and "f_is_active f" "f_is_active g" and "split_ok f" "split_ok g"
  shows "plain_code pv f = plain_code pv g \<longleftrightarrow> f_name f = f_name g"
proof -
  have "plain_code pv f = plain_code pv g \<longleftrightarrow> dir_part f = dir_part g \<and> basename f = basename g"
    unfolding codes(1) [OF assms(1)] dir_code_part using paths_items by auto
  also have "\<dots> \<longleftrightarrow> dir_part f @ basename f = dir_part g @ basename g"
    using split_unique [of "dir_part f" "basename f" "dir_part g" "basename g"] dir_part_end assms(2-5)
    by (auto simp: split_ok_def)
  finally show ?thesis using f_name_parts assms(2,3) by simp
qed

lemma same_key_name:
  assumes "29 \<le> pv" and "f_is_active f" "f_is_active g" and "\<not> inner_dot pv f" "\<not> inner_dot pv g"
    and "split_ok f" "split_ok g" and "name_code pv f = name_code pv g"
  shows "plain_code pv f = plain_code pv g \<and> S_ISDIR (mode f) = S_ISDIR (mode g)"
proof -
  have parts: "\<exists>p b. name_code pv h = map (tcode t_PATH) p @ map (tcode t_ITEM) b \<and> (b = [] \<longleftrightarrow> S_ISDIR (mode h))
      \<and> (S_ISDIR (mode h) \<longrightarrow> p = (if basename h = ''.'' then [] else dir_part h @ basename h @ ''/''))
      \<and> (\<not> S_ISDIR (mode h) \<longrightarrow> p = dir_part h \<and> b = basename h)"
    if "f_is_active h" "\<not> inner_dot pv h" for h
  proof (cases "S_ISDIR (mode h)")
    case True
    have "basename h = ''.'' \<Longrightarrow> dir_part h = []" using that(2) True assms(1) by (auto simp: inner_dot_def dir_part_def split: option.splits)
    then show ?thesis
      using True codes(3) [OF assms(1) True] unfolding dir_code_part
      by (intro exI [of _ "if basename h = ''.'' then [] else dir_part h @ basename h @ ''/''"] exI [of _ "[]"]) auto
  next
    case False
    then show ?thesis
      using that(1) codes(1,2) [OF assms(1)] unfolding dir_code_part
      by (intro exI [of _ "dir_part h"] exI [of _ "basename h"]) (simp add: f_is_active_def)
  qed
  obtain p b where f: "name_code pv f = map (tcode t_PATH) p @ map (tcode t_ITEM) b" "b = [] \<longleftrightarrow> S_ISDIR (mode f)"
    "S_ISDIR (mode f) \<Longrightarrow> p = (if basename f = ''.'' then [] else dir_part f @ basename f @ ''/'')"
    "\<not> S_ISDIR (mode f) \<Longrightarrow> p = dir_part f \<and> b = basename f" using parts [OF assms(2,4)] by blast
  obtain q c where g: "name_code pv g = map (tcode t_PATH) q @ map (tcode t_ITEM) c" "c = [] \<longleftrightarrow> S_ISDIR (mode g)"
    "S_ISDIR (mode g) \<Longrightarrow> q = (if basename g = ''.'' then [] else dir_part g @ basename g @ ''/'')"
    "\<not> S_ISDIR (mode g) \<Longrightarrow> q = dir_part g \<and> c = basename g" using parts [OF assms(3,5)] by blast
  have pq: "p = q" "b = c" using paths_items [of p b q c] assms(8) f(1) g(1) by simp_all
  then have d: "S_ISDIR (mode f) = S_ISDIR (mode g)" using f(2) g(2) by simp
  have "f_name f = f_name g"
  proof (cases "S_ISDIR (mode f)")
    case True
    have dot: "basename h = ''.'' \<Longrightarrow> S_ISDIR (mode h) \<Longrightarrow> \<not> inner_dot pv h \<Longrightarrow> dir_part h = []" for h
      using assms(1) by (auto simp: inner_dot_def dir_part_def split: option.splits)
    show ?thesis
      using f(3) [OF True] g(3) True d pq(1) dot [of f] dot [of g] assms(2-5) f_name_parts
      by (cases "basename f = ''.''"; cases "basename g = ''.''") auto
  next
    case False
    then show ?thesis using f(4) g(4) d pq f_name_parts assms(2,3) by simp
  qed
  then show ?thesis using plain_code_name [OF assms(1-3,6,7)] d by simp
qed

lemma same_plain_parts:
  "29 \<le> pv \<Longrightarrow> plain_code pv f = plain_code pv g \<longleftrightarrow> dir_part f = dir_part g \<and> basename f = basename g"
  using paths_items unfolding codes(1) dir_code_part by auto

lemma append_less: "(p @ a :: nat list) < p @ b \<longleftrightarrow> a < b"
  by (induction p) auto

text \<open>Of one name the other entry comes before the directory.\<close>

lemma item_before_dir:
  assumes "29 \<le> pv" and "f_is_active f" and "split_ok f" "\<not> S_ISDIR (mode f)" "S_ISDIR (mode g)"
    and "plain_code pv f = plain_code pv g"
  shows "name_code pv f < name_code pv g"
proof -
  have "dir_part f = dir_part g" "basename f = basename g"
    using assms(6) same_plain_parts [OF assms(1)] by blast+
  moreover have "basename f \<noteq> ''.''" "basename f \<noteq> []" using assms(2-4) by (auto simp: split_ok_def f_is_active_def)
  ultimately show ?thesis
    using codes(1,2) [OF assms(1)] codes(3) [OF assms(1,5)] assms(4) item_path(1)
    unfolding dir_code_part by (cases "basename g") (auto simp: append_less)
qed

lemma same_name_key:
  "29 \<le> pv \<Longrightarrow> plain_code pv f = plain_code pv g \<Longrightarrow> S_ISDIR (mode f) = S_ISDIR (mode g) \<Longrightarrow> name_code pv f = name_code pv g"
  using codes(1-3) [of pv f] codes(1-3) [of pv g] unfolding same_plain_parts dir_code_part
  by (cases "S_ISDIR (mode f)") auto

subsection \<open>The invariant of the clean-up\<close>

definition file_ok :: "int \<Rightarrow> (nat \<Rightarrow> string) \<Rightarrow> file_struct \<Rightarrow> bool" where
  "file_ok pv heap f \<longleftrightarrow> regular pv heap f \<and> split_ok f"

definition unique_names :: "int \<Rightarrow> file_struct list \<Rightarrow> int \<Rightarrow> int \<Rightarrow> bool" where
  "unique_names pv fs lo hi \<longleftrightarrow>
     (\<forall>j k. lo \<le> j \<and> j < k \<and> k \<le> hi \<and> live fs j \<and> live fs k \<longrightarrow> plain_code pv (fs ! nat j) \<noteq> plain_code pv (fs ! nat k))"

text \<open>The entry \<open>f\<close> stands for \<open>x\<close>: it has its name, and is a directory if \<open>x\<close> is one.\<close>

definition stands_for :: "int \<Rightarrow> file_struct \<Rightarrow> file_struct \<Rightarrow> bool" where
  "stands_for pv f x \<longleftrightarrow> plain_code pv f = plain_code pv x \<and> (S_ISDIR (mode x) \<longrightarrow> S_ISDIR (mode f))"

definition covered :: "int \<Rightarrow> file_struct list \<Rightarrow> file_struct list \<Rightarrow> int \<Rightarrow> int \<Rightarrow> bool" where
  "covered pv S fs lo hi \<longleftrightarrow>
     (\<forall>x\<in>set S. f_is_active x \<longrightarrow> (\<exists>k. lo \<le> k \<and> k \<le> hi \<and> live fs k \<and> stands_for pv (fs ! nat k) x))"

text \<open>Every entry left is one of \<open>S\<close>, but for its flags.\<close>

definition origin :: "file_struct list \<Rightarrow> file_struct list \<Rightarrow> bool" where
  "origin S fs \<longleftrightarrow> (\<forall>k. 0 \<le> k \<and> k < int (length fs) \<and> live fs k \<longrightarrow> (\<exists>x\<in>set S. fs ! nat k = x \<lparr>flags := flags (fs ! nat k)\<rparr>))"

definition cleared :: "file_struct list \<Rightarrow> int \<Rightarrow> int \<Rightarrow> bool" where
  "cleared fs prev i \<longleftrightarrow> (\<forall>k. prev < k \<and> k \<le> i \<longrightarrow> \<not> live fs k \<and> f_depth (fs ! nat k) = 1 \<and> len32 (fs ! nat k) = 1)"

definition dedup_inv :: "int \<Rightarrow> (nat \<Rightarrow> string) \<Rightarrow> file_struct list \<Rightarrow> file_list \<Rightarrow> int \<Rightarrow> int \<Rightarrow> bool" where
  "dedup_inv pv heap S fl prev i \<longleftrightarrow>
     (let fs = fl_sorted fl; lo = fl_low fl; n = int (length fs) in
       (\<forall>x\<in>set fs. file_ok pv heap x) \<and> n < 2 ^ 31 \<and> lo \<le> prev \<and> prev \<le> i \<and> i < n
       \<and> live fs lo \<and> live fs prev \<and> cleared fs prev i \<and> (\<forall>k. i < k \<and> k < n \<longrightarrow> live fs k)
       \<and> list_sorted pv fs lo (n - 1) \<and> skips_ok fs lo prev \<and> unique_names pv fs lo prev \<and> covered pv S fs lo (n - 1) \<and> origin S fs)"

lemma dedup_invD:
  assumes "dedup_inv pv heap S fl prev i"
  shows "\<forall>x\<in>set (fl_sorted fl). file_ok pv heap x" and "int (length (fl_sorted fl)) < 2 ^ 31"
    and "0 \<le> fl_low fl" "fl_low fl \<le> prev" "prev \<le> i" "i < int (length (fl_sorted fl))"
    and "live (fl_sorted fl) (fl_low fl)" "live (fl_sorted fl) prev" and "cleared (fl_sorted fl) prev i"
    and "i < k \<Longrightarrow> k < int (length (fl_sorted fl)) \<Longrightarrow> live (fl_sorted fl) k"
    and "list_sorted pv (fl_sorted fl) (fl_low fl) (int (length (fl_sorted fl)) - 1)"
    and "skips_ok (fl_sorted fl) (fl_low fl) prev" "unique_names pv (fl_sorted fl) (fl_low fl) prev"
    and "covered pv S (fl_sorted fl) (fl_low fl) (int (length (fl_sorted fl)) - 1)" "origin S (fl_sorted fl)"
  using assms unfolding dedup_inv_def Let_def skips_ok_def by blast+

lemma sint_one: "sint (1 :: uint32) = 1"
  by simp

lemma list_sortedD:
  "list_sorted pv fs lo hi \<Longrightarrow> lo \<le> i \<Longrightarrow> i \<le> j \<Longrightarrow> j \<le> hi \<Longrightarrow> live fs i \<Longrightarrow> live fs j \<Longrightarrow>
   file_key pv (fs ! nat i) \<le> file_key pv (fs ! nat j)"
  unfolding list_sorted_def by blast

text \<open>The distances of one removed entry.\<close>

definition skip_ok :: "file_struct list \<Rightarrow> int \<Rightarrow> int \<Rightarrow> int \<Rightarrow> bool" where
  "skip_ok fs lo hi m \<longleftrightarrow> 1 \<le> f_depth (fs ! nat m) \<and> (\<forall>k. m \<le> k \<and> k < m + f_depth (fs ! nat m) \<and> k \<le> hi \<longrightarrow> \<not> live fs k)
      \<and> 1 \<le> sint (len32 (fs ! nat m)) \<and> (\<forall>k. m - sint (len32 (fs ! nat m)) < k \<and> k \<le> m \<and> lo \<le> k \<longrightarrow> \<not> live fs k)"

lemma skips_ok_iff:
  "skips_ok fs lo hi \<longleftrightarrow> 0 \<le> lo \<and> hi < int (length fs) \<and> (\<forall>m. lo \<le> m \<and> m \<le> hi \<and> \<not> live fs m \<longrightarrow> skip_ok fs lo hi m)"
  unfolding skips_ok_def skip_ok_def by (rule refl)

lemma skip_ok_one:
  assumes "f_depth (fs ! nat m) = 1" and "len32 (fs ! nat m) = 1" and "\<not> live fs m"
  shows "skip_ok fs lo hi m"
proof -
  have a: "k = m" if "m \<le> k" "k < m + 1" for k using that by linarith
  have b: "k = m" if "m - 1 < k" "k \<le> m" for k using that by linarith
  show ?thesis unfolding skip_ok_def assms(1,2) sint_one using assms(3) a b by blast
qed

lemma skip_ok_extend:
  assumes "skip_ok fs lo hi m" and "m + f_depth (fs ! nat m) \<le> hi + 1"
  shows "skip_ok fs lo hi' m"
proof -
  have "k \<le> hi" if "k < m + f_depth (fs ! nat m)" for k using that assms(2) by linarith
  then show ?thesis using assms(1) unfolding skip_ok_def by blast
qed

text \<open>The distances still hold up to the next entry that stays.\<close>

lemma skips_extend:
  assumes ok: "skips_ok fs lo prev" and live: "live fs prev" "lo \<le> prev" and c: "cleared fs prev i" and i: "i < int (length fs)"
  shows "skips_ok fs lo i"
proof -
  note D = skips_okD [OF ok]
  have "skip_ok fs lo i m" if m: "lo \<le> m" "m \<le> i" "\<not> live fs m" for m
  proof (cases "m \<le> prev")
    case True
    have "m + f_depth (fs ! nat m) \<le> prev + 1" using D(4) [OF m(1) True m(3), of prev] live True by linarith
    moreover have "skip_ok fs lo prev m" using ok m True unfolding skips_ok_iff by blast
    ultimately show ?thesis by (rule skip_ok_extend [rotated])
  next
    case False
    then show ?thesis using c m by (intro skip_ok_one) (simp_all add: cleared_def)
  qed
  then show ?thesis using D(1) i unfolding skips_ok_iff by blast
qed

lemma dedup_skips:
  assumes inv: "dedup_inv pv heap S fl prev i" and i: "i + 1 < int (length (fl_sorted fl))"
  shows "skips_ok (fl_sorted fl) (fl_low fl) (i + 1)"
proof -
  note D = dedup_invD [OF inv]
  let ?fs = "fl_sorted fl" and ?lo = "fl_low fl"
  have l: "live ?fs (i + 1)" using D(10) i by simp
  have "skips_ok ?fs ?lo i" by (rule skips_extend [OF D(12) D(8) D(4) D(9) D(6)])
  have "skip_ok ?fs ?lo (i + 1) m" if m: "?lo \<le> m" "m \<le> i + 1" "\<not> live ?fs m" for m
  proof -
    have mi: "m \<le> i" using m(2,3) l by (cases "m = i + 1") auto
    have "m + f_depth (?fs ! nat m) \<le> i + 1"
    proof (cases "m \<le> prev")
      case True
      then show ?thesis using skips_okD(4) [OF D(12) m(1) True m(3), of prev] D(5,8) by linarith
    next
      case False
      then show ?thesis using D(9) mi by (simp add: cleared_def)
    qed
    moreover have "skip_ok ?fs ?lo i m" using \<open>skips_ok ?fs ?lo i\<close> m mi unfolding skips_ok_iff by blast
    ultimately show ?thesis by (rule skip_ok_extend [rotated])
  qed
  then show ?thesis using D(3) i unfolding skips_ok_iff by blast
qed

lemma dedup_keep:
  assumes inv: "dedup_inv pv heap S fl prev i" and i: "i + 1 < int (length (fl_sorted fl))"
    and new: "\<And>k. fl_low fl \<le> k \<Longrightarrow> k \<le> prev \<Longrightarrow> live (fl_sorted fl) k \<Longrightarrow>
        plain_code pv (fl_sorted fl ! nat k) \<noteq> plain_code pv (fl_sorted fl ! nat (i + 1))"
  shows "dedup_inv pv heap S fl (i + 1) (i + 1)"
proof -
  note D = dedup_invD [OF inv]
  let ?fs = "fl_sorted fl" and ?lo = "fl_low fl"
  have l: "live ?fs (i + 1)" using D(10) i by simp
  have dead: "\<not> live ?fs k" if "prev < k" "k \<le> i" for k using D(9) that by (simp add: cleared_def)
  have "skips_ok ?fs ?lo (i + 1)" by (rule dedup_skips [OF inv i])
  moreover have "unique_names pv ?fs ?lo (i + 1)"
    unfolding unique_names_def
  proof (intro allI impI)
    fix j k assume jk: "?lo \<le> j \<and> j < k \<and> k \<le> i + 1 \<and> live ?fs j \<and> live ?fs k"
    show "plain_code pv (?fs ! nat j) \<noteq> plain_code pv (?fs ! nat k)"
    proof (cases "k = i + 1")
      case True
      then have "j \<le> prev" using jk dead [of j] by linarith
      then show ?thesis using new [of j] jk True by simp
    next
      case False
      then have "k \<le> prev" using jk dead [of k] by linarith
      then show ?thesis using D(13) jk unfolding unique_names_def by blast
    qed
  qed
  moreover have "cleared ?fs (i + 1) (i + 1)" unfolding cleared_def by auto
  moreover have "\<forall>k. i + 1 < k \<and> k < int (length ?fs) \<longrightarrow> live ?fs k" using D(10) by simp
  ultimately show ?thesis using D(1,2,4-7,11,14,15) l i unfolding dedup_inv_def Let_def by simp
qed

subsection \<open>The steps keep the invariant\<close>

text \<open>Entries of \<open>fs\<close> may be gone in \<open>fs'\<close>; those that stay have the same place in the order.\<close>

definition thinned :: "int \<Rightarrow> file_struct list \<Rightarrow> file_struct list \<Rightarrow> bool" where
  "thinned pv fs fs' \<longleftrightarrow> length fs' = length fs \<and>
     (\<forall>k. 0 \<le> k \<and> k < int (length fs) \<and> live fs' k \<longrightarrow> live fs k \<and> fs' ! nat k = (fs ! nat k) \<lparr>flags := flags (fs' ! nat k)\<rparr>)"

lemma same_name_parts:
  assumes "dirname f = dirname g" "basename f = basename g" "mode f = mode g"
  shows "file_key pv f = file_key pv g" and "plain_code pv f = plain_code pv g" and "file_ok pv heap f = file_ok pv heap g"
  using assms by (simp_all add: file_key_def f_is_active_def name_code_def base_code_def plain_code_def file_ok_def regular_def
      split_ok_def name_ok_def inner_dot_def)

lemma same_flags:
  assumes "f = g \<lparr>flags := a\<rparr>"
  shows "dirname f = dirname g" "basename f = basename g" "mode f = mode g"
  using assms by simp_all

lemma thinnedD:
  assumes "thinned pv fs fs'" and "0 \<le> k" "k < int (length fs)" "live fs' k"
  shows "live fs k" and "file_key pv (fs' ! nat k) = file_key pv (fs ! nat k)" and "plain_code pv (fs' ! nat k) = plain_code pv (fs ! nat k)"
    and "file_ok pv heap (fs' ! nat k) = file_ok pv heap (fs ! nat k)"
    and "mode (fs' ! nat k) = mode (fs ! nat k)" and "fs' ! nat k = (fs ! nat k) \<lparr>flags := flags (fs' ! nat k)\<rparr>"
proof -
  have l: "live fs k" "fs' ! nat k = (fs ! nat k) \<lparr>flags := flags (fs' ! nat k)\<rparr>"
    using assms unfolding thinned_def by blast+
  note * = l(1) same_flags [OF l(2)]
  show "fs' ! nat k = (fs ! nat k) \<lparr>flags := flags (fs' ! nat k)\<rparr>" by (rule l(2))
  show "mode (fs' ! nat k) = mode (fs ! nat k)" by (rule *(4))
  show "live fs k" by (rule *(1))
  show "file_key pv (fs' ! nat k) = file_key pv (fs ! nat k)" by (rule same_name_parts(1) [OF *(2-4)])
  show "plain_code pv (fs' ! nat k) = plain_code pv (fs ! nat k)" by (rule same_name_parts(2) [OF *(2-4)])
  show "file_ok pv heap (fs' ! nat k) = file_ok pv heap (fs ! nat k)" by (rule same_name_parts(3) [OF *(2-4)])
qed

lemma thinned_trans: "thinned pv a b \<Longrightarrow> thinned pv b c \<Longrightarrow> thinned pv a c"
  unfolding thinned_def by (metis (no_types, lifting) file_struct.update_convs(6) file_struct.surjective)

lemma thinned_update:
  assumes "f_is_active x \<Longrightarrow> f_is_active (fs ! n) \<and> x = (fs ! n) \<lparr>flags := flags x\<rparr>"
  shows "thinned pv fs (fs [n := x])"
  unfolding thinned_def
proof (intro conjI allI impI)
  fix k assume k: "0 \<le> k \<and> k < int (length fs) \<and> live (fs [n := x]) k"
  show "live fs k" using k assms by (cases "nat k = n") auto
  show "fs [n := x] ! nat k = (fs ! nat k) \<lparr>flags := flags (fs [n := x] ! nat k)\<rparr>" using k assms by (cases "nat k = n") auto
qed simp

lemma thinned_same_files: "same_files fs fs' \<Longrightarrow> thinned pv fs fs'"
  unfolding thinned_def same_files_def by (auto simp: nat_less_iff)

lemma thinned_file_ok:
  assumes t: "thinned pv fs fs'" and ok: "\<forall>x\<in>set fs. file_ok pv heap x"
  shows "\<forall>x\<in>set fs'. file_ok pv heap x"
proof
  fix x assume "x \<in> set fs'"
  then obtain k where k: "k < length fs'" "x = fs' ! k" unfolding in_set_conv_nth by blast
  then have l: "k < length fs" using t by (simp add: thinned_def)
  show "file_ok pv heap x"
  proof (cases "f_is_active x")
    case True
    then show ?thesis using thinnedD(4) [OF t, of "int k" heap] k l ok by simp
  qed (simp add: file_ok_def regular_def split_ok_def)
qed

lemma thinned_sorted:
  assumes t: "thinned pv fs fs'" and r: "0 \<le> lo" "hi < int (length fs)" "lo \<le> lo'" and s: "list_sorted pv fs lo hi"
  shows "list_sorted pv fs' lo' hi"
  unfolding list_sorted_def
proof (intro allI impI)
  fix i j assume ij: "lo' \<le> i \<and> i \<le> j \<and> j \<le> hi \<and> live fs' i \<and> live fs' j"
  then have b: "0 \<le> i" "i < int (length fs)" "0 \<le> j" "j < int (length fs)" using r by linarith+
  show "file_key pv (fs' ! nat i) \<le> file_key pv (fs' ! nat j)"
    using list_sortedD [OF s, of i j] thinnedD(1,2) [OF t b(1,2)] thinnedD(1,2) [OF t b(3,4)] ij r(3) by simp
qed

lemma thinned_unique:
  assumes t: "thinned pv fs fs'" and r: "0 \<le> lo" "hi < int (length fs)" "lo \<le> lo'" and s: "unique_names pv fs lo hi"
  shows "unique_names pv fs' lo' hi"
  unfolding unique_names_def
proof (intro allI impI)
  fix i j assume ij: "lo' \<le> i \<and> i < j \<and> j \<le> hi \<and> live fs' i \<and> live fs' j"
  then have b: "0 \<le> i" "i < int (length fs)" "0 \<le> j" "j < int (length fs)" using r by linarith+
  show "plain_code pv (fs' ! nat i) \<noteq> plain_code pv (fs' ! nat j)"
    using s [unfolded unique_names_def, rule_format, of i j] thinnedD(1,3) [OF t b(1,2)] thinnedD(1,3) [OF t b(3,4)] ij r(3) by simp
qed

lemma covered_by:
  assumes "covered pv S fs lo hi"
    and "\<And>k. lo \<le> k \<Longrightarrow> k \<le> hi \<Longrightarrow> live fs k \<Longrightarrow>
      \<exists>m. lo' \<le> m \<and> m \<le> hi \<and> live fs' m \<and> stands_for pv (fs' ! nat m) (fs ! nat k)"
  shows "covered pv S fs' lo' hi"
  using assms unfolding covered_def stands_for_def by metis

lemma thinned_origin:
  assumes t: "thinned pv fs fs'" and o: "origin S fs"
  shows "origin S fs'"
  unfolding origin_def
proof (intro allI impI)
  fix k assume "0 \<le> k \<and> k < int (length fs') \<and> live fs' k"
  then have k: "0 \<le> k" "k < int (length fs)" "live fs' k" using t by (simp_all add: thinned_def)
  note e = thinnedD(6) [OF t k]
  obtain x where x: "x \<in> set S" "fs ! nat k = x \<lparr>flags := flags (fs ! nat k)\<rparr>"
    using o thinnedD(1) [OF t k] k unfolding origin_def by blast
  have "fs' ! nat k = x \<lparr>flags := flags (fs' ! nat k)\<rparr>" by (subst e, subst x(2)) simp
  then show "\<exists>x\<in>set S. fs' ! nat k = x \<lparr>flags := flags (fs' ! nat k)\<rparr>" using x(1) by blast
qed

lemma same_files_sym: "same_files fs fs' \<Longrightarrow> same_files fs' fs"
  by (simp add: same_files_def)

text \<open>The search writes back distances only.\<close>

lemma dedup_find:
  assumes pv: "29 \<le> pv" and inv: "dedup_inv pv heap S fl prev i" and f: "regular pv heap f"
  shows "\<exists>j fl1. flist_find pv (fl \<lparr>fl_high := prev\<rparr>) f = Some (j, fl1) \<and> dedup_inv pv heap S fl1 prev i
    \<and> fl_low fl1 = fl_low fl \<and> same_files (fl_sorted fl) (fl_sorted fl1) \<and> found_ok pv f (fl_sorted fl1) (fl_low fl1) prev j"
proof -
  note D = dedup_invD [OF inv]
  let ?fs = "fl_sorted fl" and ?lo = "fl_low fl"
  have hi: "prev < int (length ?fs)" using D(5,6) by linarith
  have ls: "list_sorted pv ?fs ?lo prev" using D(11) hi unfolding list_sorted_def by force
  have "\<forall>x\<in>set ?fs. regular pv heap x" using D(1) by (simp add: file_ok_def)
  then have "searchable pv heap (fl \<lparr>fl_high := prev\<rparr>)"
    using D(2,7,8,12) hi ls by (simp add: searchable_def)
  from flist_find_correct [OF pv this f] obtain j fl1 where
    r: "flist_find pv (fl \<lparr>fl_high := prev\<rparr>) f = Some (j, fl1)" and s: "same_files ?fs (fl_sorted fl1)"
    and lo: "fl_low fl1 = ?lo" "fl_high fl1 = prev" and sr: "searchable pv heap fl1"
    and out: "\<forall>k. \<not> (?lo \<le> int k \<and> int k \<le> prev) \<longrightarrow> fl_sorted fl1 ! k = ?fs ! k" and fo: "found_ok pv f ?fs ?lo prev j"
    by auto
  let ?gs = "fl_sorted fl1"
  have len: "length ?gs = length ?fs" using s by (simp add: same_files_def)
  have t: "thinned pv ?fs ?gs" by (rule thinned_same_files [OF s])
  have lv: "live ?gs k = live ?fs k" "live ?fs k \<Longrightarrow> ?gs ! nat k = ?fs ! nat k" if "?lo \<le> k" "k < int (length ?fs)" for k
    using same_files_live [OF s, of k] same_files_at [OF s, of k] that D(3) by auto
  have cl: "cleared ?gs prev i"
    unfolding cleared_def
  proof (intro allI impI)
    fix k assume k: "prev < k \<and> k \<le> i"
    then have "?gs ! nat k = ?fs ! nat k" using out [rule_format, of "nat k"] D(3,4) by simp
    then show "\<not> live ?gs k \<and> f_depth (?gs ! nat k) = 1 \<and> len32 (?gs ! nat k) = 1"
      using D(9) [unfolded cleared_def, rule_format, OF k] by simp
  qed
  have cv: "covered pv S ?gs ?lo (int (length ?fs) - 1)"
  proof (rule covered_by [OF D(14)])
    fix k assume "?lo \<le> k" "k \<le> int (length ?fs) - 1" "live ?fs k"
    then show "\<exists>m. ?lo \<le> m \<and> m \<le> int (length ?fs) - 1 \<and> live ?gs m \<and> stands_for pv (?gs ! nat m) (?fs ! nat k)"
      using lv [of k] by (intro exI [of _ k]) (simp add: stands_for_def)
  qed
  have so: "list_sorted pv ?gs ?lo (int (length ?fs) - 1)" by (rule thinned_sorted [OF t D(3) _ order_refl D(11)]) simp
  have un: "unique_names pv ?gs ?lo prev" by (rule thinned_unique [OF t D(3) hi order_refl D(13)])
  have ok: "\<forall>x\<in>set ?gs. file_ok pv heap x" by (rule thinned_file_ok [OF t D(1)])
  have sk: "skips_ok ?gs ?lo prev" using sr lo by (simp add: searchable_def)
  have l: "live ?gs ?lo" "live ?gs prev" using lv [of ?lo] lv [of prev] D(4,7,8) hi by simp_all
  have rest: "\<forall>k. i < k \<and> k < int (length ?fs) \<longrightarrow> live ?gs k" using lv(1) D(4,5,10) by auto
  have "dedup_inv pv heap S fl1 prev i"
    unfolding dedup_inv_def Let_def len lo(1) using ok D(2,4,5,6) l cl rest so sk un cv thinned_origin [OF t D(15)] by blast
  moreover have "found_ok pv f ?gs ?lo prev j"
    using found_ok_same [OF same_files_sym [OF s] _ _ fo] D(3) hi len by simp
  ultimately show ?thesis using r lo s by auto
qed

lemma skips_thinned:
  assumes ok: "skips_ok fs lo hi" and t: "thinned pv fs fs'" and lo: "lo \<le> lo'"
    and new: "\<And>m. lo' \<le> m \<Longrightarrow> m \<le> hi \<Longrightarrow> \<not> live fs' m \<Longrightarrow>
      \<not> live fs m \<and> f_depth (fs' ! nat m) = f_depth (fs ! nat m) \<and> len32 (fs' ! nat m) = len32 (fs ! nat m)
      \<or> f_depth (fs' ! nat m) = 1 \<and> len32 (fs' ! nat m) = 1"
  shows "skips_ok fs' lo' hi"
proof -
  note D = skips_okD(1,2) [OF ok]
  have dead: "\<not> live fs k \<Longrightarrow> \<not> live fs' k" if "lo \<le> k" "k \<le> hi" for k
    using thinnedD(1) [OF t, of k] that D by linarith
  have "skip_ok fs' lo' hi m" if m: "lo' \<le> m" "m \<le> hi" "\<not> live fs' m" for m
    using new [OF m]
  proof
    assume old: "\<not> live fs m \<and> f_depth (fs' ! nat m) = f_depth (fs ! nat m) \<and> len32 (fs' ! nat m) = len32 (fs ! nat m)"
    have r: "lo \<le> m" using lo m(1) by linarith
    have *: "\<not> live fs' k" if "m \<le> k" "k < m + f_depth (fs' ! nat m)" "k \<le> hi" for k
      using skips_okD(4) [OF ok r m(2), of k] dead [of k] old that r by simp
    have **: "\<not> live fs' k" if "m - sint (len32 (fs' ! nat m)) < k" "k \<le> m" "lo' \<le> k" for k
      using skips_okD(6) [OF ok r m(2), of k] dead [of k] old that lo m(2) by simp
    have "1 \<le> f_depth (fs' ! nat m)" "1 \<le> sint (len32 (fs' ! nat m))"
      using skips_okD(3,5) [OF ok r m(2)] old by simp_all
    then show ?thesis unfolding skip_ok_def using * ** by blast
  next
    assume "f_depth (fs' ! nat m) = 1 \<and> len32 (fs' ! nat m) = 1"
    then show ?thesis using m(3) by (intro skip_ok_one) simp_all
  qed
  moreover have "length fs' = length fs" using t by (simp add: thinned_def)
  ultimately show ?thesis using D lo unfolding skips_ok_iff by auto
qed

lemma clear_file_dead: "\<not> f_is_active (clear_file f)" "f_depth (clear_file f) = 1" "len32 (clear_file f) = 1"
  by (simp_all add: clear_file_def f_is_active_def)

lemma scan_live_spec:
  "j \<le> i \<Longrightarrow> j \<le> scan_live fs j i \<and> scan_live fs j i \<le> i \<and> (scan_live fs j i < i \<longrightarrow> live fs (scan_live fs j i))
     \<and> (\<forall>k. j \<le> k \<and> k < scan_live fs j i \<longrightarrow> \<not> live fs k)"
proof (induction fs j i rule: scan_live.induct)
  case (1 fs j i)
  show ?case
  proof (cases "j < i \<and> \<not> live fs j")
    case True
    then have e: "scan_live fs j i = scan_live fs (j + 1) i" by (simp add: scan_live.simps [of fs j])
    have "\<not> live fs k" if "j \<le> k" "k < scan_live fs (j + 1) i" for k
      using 1(1) [OF True] True that by (cases "k = j") auto
    then show ?thesis using 1(1) [OF True] True unfolding e by auto
  next
    case False
    then have "scan_live fs j i = j" by (subst scan_live.simps) (simp only: if_False)
    then show ?thesis using False 1(2) by auto
  qed
qed

lemma fl_update: "fl_sorted (fl \<lparr>fl_sorted := fs\<rparr>) = fs" "fl_low (fl \<lparr>fl_sorted := fs\<rparr>) = fl_low fl"
  "fl_sorted (fl \<lparr>fl_sorted := fs, fl_low := l\<rparr>) = fs" "fl_low (fl \<lparr>fl_sorted := fs, fl_low := l\<rparr>) = l"
  by simp_all

text \<open>The later entry goes, and the flags of the earlier one change.\<close>

lemma dedup_drop:
  assumes inv: "dedup_inv pv heap S fl prev i" and i: "i + 1 < int (length (fl_sorted fl))"
    and j: "fl_low fl \<le> j" "j \<le> prev" "live (fl_sorted fl) j"
    and same: "plain_code pv (fl_sorted fl ! nat j) = plain_code pv (fl_sorted fl ! nat (i + 1))"
    and dir: "S_ISDIR (mode (fl_sorted fl ! nat (i + 1))) \<Longrightarrow> S_ISDIR (mode (fl_sorted fl ! nat j))"
    and x: "x = (fl_sorted fl ! nat j) \<lparr>flags := flags x\<rparr>"
  shows "dedup_inv pv heap S (fl \<lparr>fl_sorted := (fl_sorted fl) [nat j := x, nat (i + 1) := clear_file y]\<rparr>) prev (i + 1)"
proof -
  note D = dedup_invD [OF inv]
  let ?fs = "fl_sorted fl" and ?lo = "fl_low fl"
  let ?gs = "?fs [nat j := x, nat (i + 1) := clear_file y]"
  have hi: "prev < int (length ?fs)" using D(5,6) by linarith
  have nj: "nat j \<noteq> nat (i + 1)" "nat (i + 1) < length ?fs" "nat j < length ?fs" "0 \<le> j" using D(3-6) i j by linarith+
  have ax: "f_is_active x = live ?fs j" using same_flags(2) [OF x] by (simp add: f_is_active_def)
  have t: "thinned pv ?fs ?gs"
    by (rule thinned_trans [OF thinned_update thinned_update]) (use ax x clear_file_dead(1) in auto)
  have at: "?gs ! nat k = (if nat k = nat (i + 1) then clear_file y else if nat k = nat j then x else ?fs ! nat k)" for k
    using nj by auto
  have eq: "live ?gs k = live ?fs k" if "0 \<le> k" "k \<noteq> i + 1" for k
  proof -
    have "nat k \<noteq> nat (i + 1)" using that D(3-5) by linarith
    then show ?thesis using at [of k] ax by auto
  qed
  have cl: "cleared ?gs prev (i + 1)"
    unfolding cleared_def
  proof (intro allI impI)
    fix k assume k: "prev < k \<and> k \<le> i + 1"
    then have "nat k \<noteq> nat j" using j D(3) by linarith
    moreover have "k \<le> i" if "nat k \<noteq> nat (i + 1)" using that k by (cases "k = i + 1") auto
    ultimately show "\<not> live ?gs k \<and> f_depth (?gs ! nat k) = 1 \<and> len32 (?gs ! nat k) = 1"
      using D(9) [unfolded cleared_def, rule_format, of k] k clear_file_dead unfolding at by auto
  qed
  have cv: "covered pv S ?gs ?lo (int (length ?fs) - 1)"
  proof (rule covered_by [OF D(14)])
    fix k assume k: "?lo \<le> k" "k \<le> int (length ?fs) - 1" "live ?fs k"
    let ?m = "if k = i + 1 then j else k"
    have m: "?lo \<le> ?m" "?m \<le> int (length ?fs) - 1" "live ?gs ?m" "?m < int (length ?fs)" "0 \<le> ?m"
      using k j hi eq [of ?m] D(3-6) by auto
    moreover have "stands_for pv (?gs ! nat ?m) (?fs ! nat k)"
      using thinnedD(3,5) [OF t m(5,4,3)] same dir by (auto simp: stands_for_def)
    ultimately show "\<exists>m. ?lo \<le> m \<and> m \<le> int (length ?fs) - 1 \<and> live ?gs m \<and> stands_for pv (?gs ! nat m) (?fs ! nat k)"
      by blast
  qed
  have so: "list_sorted pv ?gs ?lo (int (length ?fs) - 1)" by (rule thinned_sorted [OF t D(3) _ order_refl D(11)]) simp
  have un: "unique_names pv ?gs ?lo prev" by (rule thinned_unique [OF t D(3) hi order_refl D(13)])
  have ok: "\<forall>x\<in>set ?gs. file_ok pv heap x" by (rule thinned_file_ok [OF t D(1)])
  have sk: "skips_ok ?gs ?lo prev"
  proof (rule skips_thinned [OF D(12) t order_refl])
    fix m assume m: "?lo \<le> m" "m \<le> prev" "\<not> live ?gs m"
    then have "\<not> live ?fs m" "nat m \<noteq> nat (i + 1)" using eq [of m] D(3-5) by auto
    moreover have "nat m \<noteq> nat j" using \<open>\<not> live ?fs m\<close> j(3) by metis
    ultimately show "\<not> live ?fs m \<and> f_depth (?gs ! nat m) = f_depth (?fs ! nat m) \<and> len32 (?gs ! nat m) = len32 (?fs ! nat m)
      \<or> f_depth (?gs ! nat m) = 1 \<and> len32 (?gs ! nat m) = 1" unfolding at by simp
  qed
  have l: "live ?gs ?lo" "live ?gs prev" using eq [of ?lo] eq [of prev] D(3-8) by auto
  have rest: "\<forall>k. i + 1 < k \<and> k < int (length ?fs) \<longrightarrow> live ?gs k" using eq D(3-5,10) by auto
  have "prev \<le> i + 1" using D(5) by linarith
  then show ?thesis
    unfolding dedup_inv_def Let_def fl_update length_list_update using ok D(2,4) i l cl rest so sk un cv thinned_origin [OF t D(15)] by blast
qed

text \<open>A directory stays, and the earlier entry of its name goes.\<close>

lemma dedup_keep_dir:
  assumes inv: "dedup_inv pv heap S fl prev i" and i: "i + 1 < int (length (fl_sorted fl))"
    and j: "fl_low fl \<le> j" "j \<le> prev" "live (fl_sorted fl) j"
    and same: "plain_code pv (fl_sorted fl ! nat j) = plain_code pv (fl_sorted fl ! nat (i + 1))"
    and dir: "\<not> S_ISDIR (mode (fl_sorted fl ! nat j))"
    and gs: "gs = (fl_sorted fl) [nat j := clear_file y]"
    and lo: "lo = (if fl_low fl = j then scan_live gs (j + 1) (i + 1) else fl_low fl)"
  shows "dedup_inv pv heap S (fl \<lparr>fl_sorted := gs, fl_low := lo\<rparr>) (i + 1) (i + 1)"
proof -
  note D = dedup_invD [OF inv]
  let ?fs = "fl_sorted fl" and ?lo = "fl_low fl"
  have hi: "prev < int (length ?fs)" using D(5,6) by linarith
  have nj: "nat j < length ?fs" "0 \<le> j" "j \<le> i" using D(3-6) j by linarith+
  have len: "length gs = length ?fs" by (simp add: gs)
  have t: "thinned pv ?fs gs" unfolding gs by (rule thinned_update) (use clear_file_dead(1) in auto)
  have at: "gs ! nat k = (if nat k = nat j then clear_file y else ?fs ! nat k)" for k
    unfolding gs using nj by auto
  have gone: "\<not> live gs j" using at [of j] clear_file_dead(1) by simp
  have eq: "live gs k = live ?fs k" if "0 \<le> k" "k \<noteq> j" for k
    using at [of k] that nj(2) by (simp add: nat_eq_iff)
  have scan: "j + 1 \<le> scan_live gs (j + 1) (i + 1)" "scan_live gs (j + 1) (i + 1) \<le> i + 1"
    "scan_live gs (j + 1) (i + 1) < i + 1 \<Longrightarrow> live gs (scan_live gs (j + 1) (i + 1))"
    "\<And>k. j + 1 \<le> k \<Longrightarrow> k < scan_live gs (j + 1) (i + 1) \<Longrightarrow> \<not> live gs k"
    using scan_live_spec [of "j + 1" "i + 1" gs] nj(3) by auto
  have l1: "live gs (i + 1)" using eq [of "i + 1"] D(10) [of "i + 1"] i nj by simp
  have lo': "?lo \<le> lo" "lo \<le> i + 1" "live gs lo" "\<And>k. ?lo \<le> k \<Longrightarrow> live gs k \<Longrightarrow> lo \<le> k"
  proof -
    show "?lo \<le> lo" "lo \<le> i + 1" using lo scan(1,2) j D(5) by (auto split: if_splits)
    show "live gs lo"
    proof (cases "?lo = j")
      case True
      then show ?thesis using lo scan(2,3) l1 by (cases "lo = i + 1") auto
    next
      case False
      then show ?thesis using lo eq [of ?lo] D(3,7) by simp
    qed
    show "lo \<le> k" if "?lo \<le> k" "live gs k" for k
    proof (cases "?lo = j")
      case True
      then have "k \<noteq> j" using gone that(2) by metis
      then show ?thesis using scan(4) [of k] True that lo by (metis linorder_not_le order_le_less zless_imp_add1_zle)
    next
      case False
      then show ?thesis using lo that by simp
    qed
  qed
  have cl: "cleared gs (i + 1) (i + 1)" unfolding cleared_def by auto
  have cv: "covered pv S gs lo (int (length ?fs) - 1)"
  proof (rule covered_by [OF D(14)])
    fix k assume k: "?lo \<le> k" "k \<le> int (length ?fs) - 1" "live ?fs k"
    let ?m = "if k = j then i + 1 else k"
    have m: "?lo \<le> ?m" "?m \<le> int (length ?fs) - 1" "live gs ?m" "?m < int (length ?fs)" "0 \<le> ?m"
      using k i eq [of k] l1 D(3-6) by auto
    moreover have "stands_for pv (gs ! nat ?m) (?fs ! nat k)"
      using thinnedD(3,5) [OF t m(5,4,3)] same dir by (auto simp: stands_for_def)
    ultimately show "\<exists>m. lo \<le> m \<and> m \<le> int (length ?fs) - 1 \<and> live gs m \<and> stands_for pv (gs ! nat m) (?fs ! nat k)"
      using lo'(4) by blast
  qed
  have so: "list_sorted pv gs lo (int (length ?fs) - 1)" by (rule thinned_sorted [OF t D(3) _ lo'(1) D(11)]) simp
  have u: "unique_names pv gs lo prev" by (rule thinned_unique [OF t D(3) hi lo'(1) D(13)])
  have un: "unique_names pv gs lo (i + 1)"
    unfolding unique_names_def
  proof (intro allI impI)
    fix m k assume mk: "lo \<le> m \<and> m < k \<and> k \<le> i + 1 \<and> live gs m \<and> live gs k"
    have dead: "\<not> live gs k" if "prev < k" "k \<le> i" for k
      using eq [of k] D(3,4,9) that gone unfolding cleared_def by (cases "k = j") auto
    show "plain_code pv (gs ! nat m) \<noteq> plain_code pv (gs ! nat k)"
    proof (cases "k = i + 1")
      case True
      have m: "m \<le> prev" using dead [of m] mk True by linarith
      have m: "m \<le> prev" "?lo \<le> m" "m \<noteq> j" using m mk lo'(1) gone by auto
      have b: "0 \<le> m" "m < int (length ?fs)" "0 \<le> i + 1" using m hi D(3-5) by linarith+
      have lm: "live ?fs m" using thinnedD(1) [OF t b(1,2)] mk by blast
      have "plain_code pv (?fs ! nat m) \<noteq> plain_code pv (?fs ! nat j)"
        using D(13) [unfolded unique_names_def, rule_format, of m j] D(13) [unfolded unique_names_def, rule_format, of j m] m j lm
        by (cases "m < j") auto
      then show ?thesis
        using thinnedD(3) [OF t b(1,2)] thinnedD(3) [OF t b(3) i l1] mk same True by simp
    next
      case False
      then have "k \<le> prev" using mk dead [of k] by linarith
      then show ?thesis using u mk unfolding unique_names_def by blast
    qed
  qed
  have ok: "\<forall>x\<in>set gs. file_ok pv heap x" by (rule thinned_file_ok [OF t D(1)])
  have sk: "skips_ok gs lo (i + 1)"
  proof (rule skips_thinned [OF dedup_skips [OF inv i] t lo'(1)])
    fix m assume m: "lo \<le> m" "m \<le> i + 1" "\<not> live gs m"
    have "0 \<le> m" using m(1) lo'(1) D(3) by linarith
    then have "m \<noteq> j \<Longrightarrow> \<not> live ?fs m \<and> gs ! nat m = ?fs ! nat m"
      using eq [of m] m(3) at [of m] nj(2) by (simp add: nat_eq_iff)
    moreover have "gs ! nat j = clear_file y" using at [of j] by simp
    ultimately show "\<not> live ?fs m \<and> f_depth (gs ! nat m) = f_depth (?fs ! nat m) \<and> len32 (gs ! nat m) = len32 (?fs ! nat m)
      \<or> f_depth (gs ! nat m) = 1 \<and> len32 (gs ! nat m) = 1"
      using clear_file_dead(2,3) by (cases "m = j") auto
  qed
  have rest: "\<forall>k. i + 1 < k \<and> k < int (length ?fs) \<longrightarrow> live gs k" using eq nj D(10) by auto
  show ?thesis
    unfolding dedup_inv_def Let_def fl_update len using ok D(2) i l1 lo' cl rest so sk un cv thinned_origin [OF t D(15)] by blast
qed

subsection \<open>The entry of the same name\<close>

lemma active_key: "f_is_active f \<Longrightarrow> f_is_active g \<Longrightarrow> file_key pv f = file_key pv g \<longleftrightarrow> name_code pv f = name_code pv g"
  and active_key_less: "f_is_active f \<Longrightarrow> f_is_active g \<Longrightarrow> file_key pv f < file_key pv g \<longleftrightarrow> name_code pv f < name_code pv g"
  by (simp_all add: file_key_def)

lemma as_file:
  assumes "29 \<le> pv" and "regular pv heap f" and "f_is_active f"
  shows "regular pv heap (f \<lparr>mode := S_IFREG\<rparr>)" and "f_is_active (f \<lparr>mode := S_IFREG\<rparr>)"
    and "name_code pv (f \<lparr>mode := S_IFREG\<rparr>) = plain_code pv f"
  using assms reg_not_dir by (simp_all add: regular_def f_is_active_def name_ok_def inner_dot_def plain_code_def)

text \<open>A directory never has the code of a plain name.\<close>

lemma dir_not_plain:
  assumes "29 \<le> pv" and "f_is_active f" and "S_ISDIR (mode g)"
  shows "name_code pv g \<noteq> plain_code pv f"
proof
  assume e: "name_code pv g = plain_code pv f"
  obtain p where "name_code pv g = map (tcode t_PATH) p"
    using codes(3) [OF assms(1,3)] unfolding dir_code_part by (cases "basename g = ''.''") (auto simp flip: map_append)
  then have "map (tcode t_PATH) p @ map (tcode t_ITEM) [] = map (tcode t_PATH) (dir_part f) @ map (tcode t_ITEM) (basename f)"
    using e unfolding codes(1) [OF assms(1)] dir_code_part by simp
  from paths_items [OF this] show False using assms(2) by (simp add: f_is_active_def)
qed

text \<open>Entries in order whose codes differ have different names unless a directory follows the other.\<close>

lemma name_below:
  assumes pv: "29 \<le> pv" and s: "file_key pv f \<le> file_key pv p" "file_key pv p \<le> file_key pv g" "file_key pv p \<noteq> file_key pv g"
    and a: "f_is_active f" "f_is_active g" and ok: "split_ok f" "split_ok g" and same: "plain_code pv f = plain_code pv g"
  shows "S_ISDIR (mode g) \<and> \<not> S_ISDIR (mode f)"
proof -
  have less: "name_code pv f < name_code pv g" using s active_key_less [OF a] by (metis order_le_neq_trans order_le_less_trans)
  have "S_ISDIR (mode f) \<noteq> S_ISDIR (mode g)" using same_name_key [OF pv same] less by (metis less_irrefl)
  moreover have "\<not> (\<not> S_ISDIR (mode g) \<and> S_ISDIR (mode f))"
    using item_before_dir [OF pv a(2) ok(2), of f] same less by (metis less_asym)
  ultimately show ?thesis by blast
qed

text \<open>What \<open>dup_index\<close> finds: an earlier entry of the name, or that there is none.\<close>

lemma dup_index_spec:
  assumes pv: "29 \<le> pv" and inv: "dedup_inv pv heap S fl prev i" and i: "i + 1 < int (length (fl_sorted fl))"
  shows "\<exists>j fl1. dup_index pv fl prev (i + 1) = Some (j, fl1) \<and> dedup_inv pv heap S fl1 prev i
    \<and> length (fl_sorted fl1) = length (fl_sorted fl)
    \<and> (j = - 1 \<and> (\<forall>k. fl_low fl1 \<le> k \<and> k \<le> prev \<and> live (fl_sorted fl1) k
           \<longrightarrow> plain_code pv (fl_sorted fl1 ! nat k) \<noteq> plain_code pv (fl_sorted fl1 ! nat (i + 1)))
      \<or> fl_low fl1 \<le> j \<and> j \<le> prev \<and> live (fl_sorted fl1) j
        \<and> plain_code pv (fl_sorted fl1 ! nat j) = plain_code pv (fl_sorted fl1 ! nat (i + 1))
        \<and> (S_ISDIR (mode (fl_sorted fl1 ! nat (i + 1))) \<or> \<not> S_ISDIR (mode (fl_sorted fl1 ! nat j))))"
proof -
  note D = dedup_invD [OF inv]
  let ?fs = "fl_sorted fl" and ?lo = "fl_low fl"
  let ?f = "?fs ! nat (i + 1)" and ?p = "?fs ! nat prev"
  have hi: "prev < int (length ?fs)" and n0: "0 \<le> prev" "0 \<le> i + 1" using D(3-6) by linarith+
  have at: "file_ok pv heap (?fs ! nat k)" if "0 \<le> k" "k < int (length ?fs)" for k
    using D(1) that by simp
  have f: "regular pv heap ?f" "split_ok ?f" "f_is_active ?f" using at [OF n0(2) i] D(10) [of "i + 1"] i by (simp_all add: file_ok_def)
  have p: "regular pv heap ?p" "split_ok ?p" "f_is_active ?p" using at [OF n0(1) hi] D(8) by (simp_all add: file_ok_def)
  have dot: "\<not> inner_dot pv ?f" "\<not> inner_dot pv ?p" using f p by (simp_all add: regular_def)
  obtain d where d: "f_name_cmp pv ?f ?p = Some d" "d = 0 \<longleftrightarrow> file_key pv ?f = file_key pv ?p"
    using f_name_cmp_key [OF f(1) p(1)] by (auto simp: order_ok_def)
  have below: "S_ISDIR (mode ?f) \<and> \<not> S_ISDIR (mode (?fs ! nat k))"
    if k: "?lo \<le> k" "k \<le> prev" "live ?fs k" and "d \<noteq> 0" "plain_code pv (?fs ! nat k) = plain_code pv ?f" for k
  proof -
    have b: "0 \<le> k" "k < int (length ?fs)" using k D(3) hi by linarith+
    have le: "k \<le> int (length ?fs) - 1" "prev \<le> int (length ?fs) - 1" "prev \<le> i + 1" "i + 1 \<le> int (length ?fs) - 1"
      using hi b i D(5) by linarith+
    have "file_key pv (?fs ! nat k) \<le> file_key pv ?p" "file_key pv ?p \<le> file_key pv ?f"
      using list_sortedD [OF D(11) k(1,2) le(2) k(3) D(8)] list_sortedD [OF D(11) D(4) le(3,4) D(8) f(3)] by simp_all
    moreover have "file_key pv ?p \<noteq> file_key pv ?f" using that(4) d(2) by metis
    ultimately show ?thesis using name_below [OF pv] k(3) f(2,3) at [OF b] that(5) by (auto simp: file_ok_def)
  qed
  consider "d = 0" | "d \<noteq> 0" "S_ISDIR (mode ?f)" | "d \<noteq> 0" "\<not> S_ISDIR (mode ?f)" by blast
  then show ?thesis
  proof cases
    case 1
    then have "name_code pv ?f = name_code pv ?p" using d(2) active_key [OF f(3) p(3)] by blast
    from same_key_name [OF pv f(3) p(3) dot f(2) p(2) this]
    have "plain_code pv ?p = plain_code pv ?f" "S_ISDIR (mode ?f) \<or> \<not> S_ISDIR (mode ?p)" by simp_all
    then show ?thesis using inv D(4,8) d(1) 1 by (intro exI [of _ prev] exI [of _ fl]) (simp add: dup_index_def Let_def)
  next
    case 2
    let ?r = "?f \<lparr>mode := S_IFREG\<rparr>"
    note r = as_file [OF pv f(1,3)]
    obtain j fl1 where find: "flist_find pv (fl \<lparr>fl_high := prev\<rparr>) ?r = Some (j, fl1)" and inv1: "dedup_inv pv heap S fl1 prev i"
      and lo: "fl_low fl1 = ?lo" and s: "same_files ?fs (fl_sorted fl1)" and fo: "found_ok pv ?r (fl_sorted fl1) (fl_low fl1) prev j"
      using dedup_find [OF pv inv r(1)] by blast
    let ?gs = "fl_sorted fl1"
    have lv: "live ?gs k = live ?fs k" "live ?fs k \<Longrightarrow> ?gs ! nat k = ?fs ! nat k" if "0 \<le> k" "k < int (length ?fs)" for k
      using same_files_live [OF s that] same_files_at [OF s that] by auto
    have run: "dup_index pv fl prev (i + 1) = Some (j, fl1)" using d(1) 2 pv find by (simp add: dup_index_def Let_def)
    have gf: "?gs ! nat (i + 1) = ?f" by (rule lv(2) [OF n0(2) i f(3)])
    have key: "file_key pv (?gs ! nat k) = file_key pv ?r \<longleftrightarrow> name_code pv (?gs ! nat k) = plain_code pv ?f" if "live ?gs k" for k
      using active_key [OF that r(2)] r(3) by simp
    have code: "name_code pv (?gs ! nat k) = plain_code pv ?f \<longleftrightarrow> plain_code pv (?gs ! nat k) = plain_code pv ?f \<and> \<not> S_ISDIR (mode (?gs ! nat k))"
      if "\<not> S_ISDIR (mode (?gs ! nat k)) \<or> name_code pv (?gs ! nat k) = plain_code pv ?f" for k
      using that dir_not_plain [OF pv f(3)] codes(2) [OF pv] by metis
    show ?thesis
    proof (cases "j = - 1")
      case True
      have "plain_code pv (?gs ! nat k) \<noteq> plain_code pv (?gs ! nat (i + 1))" if k: "fl_low fl1 \<le> k" "k \<le> prev" "live ?gs k" for k
      proof
        assume e: "plain_code pv (?gs ! nat k) = plain_code pv (?gs ! nat (i + 1))"
        have b: "0 \<le> k" "k < int (length ?fs)" using k lo D(3) hi by linarith+
        have same: "live ?fs k" "?gs ! nat k = ?fs ! nat k" using lv [OF b] k(3) by blast+
        have "\<not> S_ISDIR (mode (?fs ! nat k))" using below [of k] k lo same e gf 2(1) by simp
        then have "name_code pv (?gs ! nat k) = plain_code pv ?f" using codes(2) [OF pv] e gf same by simp
        then show False using fo k key True by (simp add: found_ok_def)
      qed
      then show ?thesis using run inv1 s True by (auto simp: same_files_def)
    next
      case False
      then have j: "fl_low fl1 \<le> j" "j \<le> prev" "live ?gs j" "file_key pv (?gs ! nat j) = file_key pv ?r"
        using fo by (simp_all add: found_ok_def)
      then have "name_code pv (?gs ! nat j) = plain_code pv ?f" using key by blast
      then show ?thesis using run inv1 s j code [of j] 2(2) gf by (auto simp: same_files_def)
    qed
  next
    case 3
    then have "\<forall>k. ?lo \<le> k \<and> k \<le> prev \<and> live ?fs k \<longrightarrow> plain_code pv (?fs ! nat k) \<noteq> plain_code pv ?f" using below by blast
    then show ?thesis using inv d(1) 3 by (intro exI [of _ "- 1"] exI [of _ fl]) (simp add: dup_index_def Let_def)
  qed
qed

subsection \<open>The list after the clean-up\<close>

lemma merge_flags_only: "merge_dir_flags f fp = fp \<lparr>flags := flags (merge_dir_flags f fp)\<rparr>"
  by (simp add: merge_dir_flags_def)

lemma drop_duplicate_keeps:
  assumes inv: "dedup_inv pv heap S fl prev i" and i: "i + 1 < int (length (fl_sorted fl))"
    and j: "fl_low fl \<le> j" "j \<le> prev" "live (fl_sorted fl) j"
    and same: "plain_code pv (fl_sorted fl ! nat j) = plain_code pv (fl_sorted fl ! nat (i + 1))"
    and dir: "S_ISDIR (mode (fl_sorted fl ! nat (i + 1))) \<or> \<not> S_ISDIR (mode (fl_sorted fl ! nat j))"
  shows "\<exists>fl2 prev'. drop_duplicate False fl prev (i + 1) j = (fl2, prev') \<and> dedup_inv pv heap S fl2 prev' (i + 1)
    \<and> length (fl_sorted fl2) = length (fl_sorted fl)"
proof -
  let ?fs = "fl_sorted fl"
  let ?f = "?fs ! nat (i + 1)" and ?fp = "?fs ! nat j"
  have ne: "j \<noteq> i + 1" "nat j \<noteq> nat (i + 1)" using j(1,2) dedup_invD(3,5) [OF inv] by linarith+
  have lj: "nat j < length ?fs" using ne j(2) i dedup_invD(3,5) [OF inv] by linarith
  consider (swap) "S_ISDIR (mode ?f)" "\<not> S_ISDIR (mode ?fp)" | (both) "S_ISDIR (mode ?f)" "S_ISDIR (mode ?fp)"
    | (other) "\<not> S_ISDIR (mode ?f)" by blast
  then show ?thesis
  proof cases
    case swap
    then show ?thesis
      using dedup_keep_dir [OF inv i j same swap(2) refl refl, of "?fp"] by (simp add: drop_duplicate_def Let_def)
  next
    case both
    have "dedup_inv pv heap S (fl \<lparr>fl_sorted := ?fs [nat j := merge_dir_flags ?f ?fp, nat (i + 1) := clear_file ?f]\<rparr>) prev (i + 1)"
      by (rule dedup_drop [OF inv i j same]) (use both merge_flags_only in auto)
    then show ?thesis using both ne by (simp add: drop_duplicate_def Let_def)
  next
    case other
    have "dedup_inv pv heap S (fl \<lparr>fl_sorted := ?fs [nat j := ?fp, nat (i + 1) := clear_file ?f]\<rparr>) prev (i + 1)"
      by (rule dedup_drop [OF inv i j same]) (use other in auto)
    then show ?thesis using other ne by (simp add: drop_duplicate_def Let_def)
  qed
qed

lemma dedup_loop_keeps:
  assumes pv: "29 \<le> pv"
  shows "dedup_inv pv heap S fl prev i \<Longrightarrow> int n = int (length (fl_sorted fl)) - 1 - i \<Longrightarrow>
    \<exists>fl' high. dedup_loop n pv False fl prev i = Some (fl', high) \<and> dedup_inv pv heap S fl' high (int (length (fl_sorted fl')) - 1)"
proof (induction n arbitrary: fl prev i)
  case 0
  then show ?case by simp
next
  case (Suc n)
  note inv = Suc.prems(1)
  have i: "i + 1 < int (length (fl_sorted fl))" using Suc.prems(2) by simp
  then have l: "live (fl_sorted fl) (i + 1)" using dedup_invD(10) [OF inv, of "i + 1"] by simp
  obtain j fl1 where d: "dup_index pv fl prev (i + 1) = Some (j, fl1)" and inv1: "dedup_inv pv heap S fl1 prev i"
    and len: "length (fl_sorted fl1) = length (fl_sorted fl)"
    and c: "(j = - 1 \<and> (\<forall>k. fl_low fl1 \<le> k \<and> k \<le> prev \<and> live (fl_sorted fl1) k
           \<longrightarrow> plain_code pv (fl_sorted fl1 ! nat k) \<noteq> plain_code pv (fl_sorted fl1 ! nat (i + 1)))
      \<or> fl_low fl1 \<le> j \<and> j \<le> prev \<and> live (fl_sorted fl1) j
        \<and> plain_code pv (fl_sorted fl1 ! nat j) = plain_code pv (fl_sorted fl1 ! nat (i + 1))
        \<and> (S_ISDIR (mode (fl_sorted fl1 ! nat (i + 1))) \<or> \<not> S_ISDIR (mode (fl_sorted fl1 ! nat j))))"
    using dup_index_spec [OF pv inv i] by blast
  have i1: "i + 1 < int (length (fl_sorted fl1))" using i len by simp
  have "\<exists>fl2 prev'. (if j \<ge> 0 then drop_duplicate False fl1 prev (i + 1) j else (fl1, i + 1)) = (fl2, prev')
      \<and> dedup_inv pv heap S fl2 prev' (i + 1) \<and> length (fl_sorted fl2) = length (fl_sorted fl)"
    using c
  proof
    assume a: "j = - 1 \<and> (\<forall>k. fl_low fl1 \<le> k \<and> k \<le> prev \<and> live (fl_sorted fl1) k
           \<longrightarrow> plain_code pv (fl_sorted fl1 ! nat k) \<noteq> plain_code pv (fl_sorted fl1 ! nat (i + 1)))"
    then have "dedup_inv pv heap S fl1 (i + 1) (i + 1)" by (intro dedup_keep [OF inv1 i1]) blast
    then show ?thesis using a len by simp
  next
    assume a: "fl_low fl1 \<le> j \<and> j \<le> prev \<and> live (fl_sorted fl1) j
        \<and> plain_code pv (fl_sorted fl1 ! nat j) = plain_code pv (fl_sorted fl1 ! nat (i + 1))
        \<and> (S_ISDIR (mode (fl_sorted fl1 ! nat (i + 1))) \<or> \<not> S_ISDIR (mode (fl_sorted fl1 ! nat j)))"
    then have "0 \<le> j" using dedup_invD(3) [OF inv1] by linarith
    then show ?thesis using drop_duplicate_keeps [OF inv1 i1, of j] a len by auto
  qed
  then obtain fl2 prev' where st: "(if j \<ge> 0 then drop_duplicate False fl1 prev (i + 1) j else (fl1, i + 1)) = (fl2, prev')"
    and inv2: "dedup_inv pv heap S fl2 prev' (i + 1)" and len2: "length (fl_sorted fl2) = length (fl_sorted fl)" by blast
  have "int n = int (length (fl_sorted fl2)) - 1 - (i + 1)" using Suc.prems(2) len2 by simp
  from Suc.IH [OF inv2 this] show ?case using l d st by simp
qed

text \<open>The start of the loop: the entries that were removed before are first.\<close>

lemma removed_first:
  assumes "sorted (map (file_key pv) fs)" and "length (takeWhile (\<lambda>f. \<not> f_is_active f) fs) \<le> k" "k < length fs"
  shows "f_is_active (fs ! k)"
proof -
  let ?d = "length (takeWhile (\<lambda>f. \<not> f_is_active f) fs)"
  have "f_is_active (fs ! ?d)" using nth_length_takeWhile [of "\<lambda>f. \<not> f_is_active f" fs] assms(2,3) by simp
  moreover have "file_key pv (fs ! ?d) \<le> file_key pv (fs ! k)"
    using sorted_nth_mono [OF assms(1,2)] assms(2,3) by simp
  ultimately show ?thesis by (auto simp: file_key_def split: if_splits)
qed

lemma dedup_start:
  assumes ok: "\<forall>x\<in>set S. file_ok pv heap x" and n: "length S < 2 ^ 31" and st: "mset fs = mset S" "sorted (map (file_key pv) fs)"
    and d: "d = length (takeWhile (\<lambda>f. \<not> f_is_active f) fs)" "d < length fs"
  shows "dedup_inv pv heap S (fl \<lparr>fl_sorted := fs, fl_low := int d\<rparr>) (int d) (int d)"
proof -
  have set_eq: "set fs = set S" and len: "length fs = length S" using st(1) mset_eq_setD mset_eq_length by blast+
  have up: "live fs k" if "int d \<le> k" "k < int (length fs)" for k
    using removed_first [OF st(2), of "nat k"] d(1) that by simp
  have dead: "\<not> f_is_active (fs ! k)" if "k < d" for k
    using that nth_mem [of k "takeWhile (\<lambda>f. \<not> f_is_active f) fs"] set_takeWhileD takeWhile_nth [of k] unfolding d(1) by metis
  have so: "list_sorted pv fs (int d) (int (length fs) - 1)"
    unfolding list_sorted_def using sorted_nth_mono [OF st(2)] by (auto simp: nat_le_eq_zle nat_less_iff)
  have sk: "skips_ok fs (int d) (int d)" using up [of "int d"] d(2) unfolding skips_ok_iff by auto
  have un: "unique_names pv fs (int d) (int d)" by (auto simp: unique_names_def)
  have cl: "cleared fs (int d) (int d)" unfolding cleared_def by auto
  have cv: "covered pv S fs (int d) (int (length fs) - 1)"
    unfolding covered_def
  proof (intro ballI impI)
    fix x assume x: "x \<in> set S" "f_is_active x"
    then obtain k where k: "k < length fs" "fs ! k = x" using set_eq by (metis in_set_conv_nth)
    then have "d \<le> k" using dead [of k] x(2) by (metis linorder_not_le)
    then show "\<exists>k. int d \<le> k \<and> k \<le> int (length fs) - 1 \<and> live fs k \<and> stands_for pv (fs ! nat k) x"
      using k x(2) by (intro exI [of _ "int k"]) (simp add: stands_for_def)
  qed
  have o: "origin S fs"
    unfolding origin_def
  proof (intro allI impI)
    fix k assume "0 \<le> k \<and> k < int (length fs) \<and> live fs k"
    then have "fs ! nat k \<in> set S" using set_eq nth_mem [of "nat k" fs] by (simp add: nat_less_iff)
    then show "\<exists>x\<in>set S. fs ! nat k = x \<lparr>flags := flags (fs ! nat k)\<rparr>" by (intro bexI [of _ "fs ! nat k"]) simp
  qed
  have b: "int (length fs) < 2 ^ 31" "int d < int (length fs)" using n len d(2) by simp_all
  have l: "live fs (int d)" using up [of "int d"] d(2) by simp
  have rest: "\<forall>k. int d < k \<and> k < int (length fs) \<longrightarrow> live fs k" using up by auto
  show ?thesis
    unfolding dedup_inv_def Let_def fl_update using ok [folded set_eq] b so sk un cl cv o l rest order_refl by blast
qed

text \<open>
  What the receiver has after the clean-up: a list that may be searched, no name twice, every name of
  the list \<open>S\<close> it had, as a directory if one was, and nothing but entries of \<open>S\<close>.
\<close>

definition clean_list :: "int \<Rightarrow> (nat \<Rightarrow> string) \<Rightarrow> file_struct list \<Rightarrow> file_list \<Rightarrow> bool" where
  "clean_list pv heap S fl \<longleftrightarrow>
     (let fs = fl_sorted fl; kept = (\<lambda>k. fl_low fl \<le> k \<and> k \<le> fl_high fl \<and> live fs k)
      in searchable pv heap fl
       \<and> (\<forall>j k. kept j \<and> kept k \<and> f_name (fs ! nat j) = f_name (fs ! nat k) \<longrightarrow> j = k)
       \<and> (\<forall>x\<in>set S. f_is_active x \<longrightarrow>
            (\<exists>k. kept k \<and> f_name (fs ! nat k) = f_name x \<and> (S_ISDIR (mode x) \<longrightarrow> S_ISDIR (mode (fs ! nat k)))))
       \<and> (\<forall>k. kept k \<longrightarrow> (\<exists>x\<in>set S. fs ! nat k = x \<lparr>flags := flags (fs ! nat k)\<rparr>)))"

lemma dedup_searchable:
  assumes "dedup_inv pv heap S fl high (int (length (fl_sorted fl)) - 1)"
  shows "searchable pv heap (fl \<lparr>fl_high := high\<rparr>)"
proof -
  note D = dedup_invD [OF assms]
  have hi: "high < int (length (fl_sorted fl))" using D(5) by linarith
  have "list_sorted pv (fl_sorted fl) (fl_low fl) high" using D(11) hi unfolding list_sorted_def by force
  moreover have "\<forall>x\<in>set (fl_sorted fl). regular pv heap x" using D(1) by (simp add: file_ok_def)
  ultimately show ?thesis using D(2,7,8,12) hi by (simp add: searchable_def)
qed

lemma dedup_clean:
  assumes pv: "29 \<le> pv" and inv: "dedup_inv pv heap S fl high (int (length (fl_sorted fl)) - 1)"
    and S: "\<forall>x\<in>set S. file_ok pv heap x"
  shows "clean_list pv heap S (fl \<lparr>fl_high := high\<rparr>)"
proof -
  note D = dedup_invD [OF inv]
  let ?fs = "fl_sorted fl" and ?lo = "fl_low fl"
  have hi: "high < int (length ?fs)" using D(5) by linarith
  have at: "split_ok (?fs ! nat k)" if "?lo \<le> k" "k < int (length ?fs)" for k
    using D(1,3) that nth_mem [of "nat k" ?fs] by (simp add: file_ok_def nat_less_iff)
  have name: "plain_code pv (?fs ! nat k) = plain_code pv x \<longleftrightarrow> f_name (?fs ! nat k) = f_name x"
    if "?lo \<le> k" "k < int (length ?fs)" "live ?fs k" "f_is_active x" "split_ok x" for k x
    by (rule plain_code_name [OF pv that(3,4) at [OF that(1,2)] that(5)])
  have un: "j = k" if j: "?lo \<le> j" "j \<le> high" "live ?fs j" and k: "?lo \<le> k" "k \<le> high" "live ?fs k"
    and e: "f_name (?fs ! nat j) = f_name (?fs ! nat k)" for j k
  proof -
    have b: "j < int (length ?fs)" "k < int (length ?fs)" using j(2) k(2) hi by linarith+
    have "plain_code pv (?fs ! nat j) = plain_code pv (?fs ! nat k)" using name [OF j(1) b(1) j(3) k(3) at [OF k(1) b(2)]] e by simp
    then have "\<not> j < k" "\<not> k < j" using D(13) j k unfolding unique_names_def by metis+
    then show ?thesis by linarith
  qed
  have cov: "\<exists>k. (?lo \<le> k \<and> k \<le> high \<and> live ?fs k) \<and> f_name (?fs ! nat k) = f_name x \<and> (S_ISDIR (mode x) \<longrightarrow> S_ISDIR (mode (?fs ! nat k)))"
    if x: "x \<in> set S" "f_is_active x" for x
  proof -
    obtain k where k: "?lo \<le> k" "k \<le> int (length ?fs) - 1" "live ?fs k" "stands_for pv (?fs ! nat k) x"
      using D(14) x unfolding covered_def by blast
    have "k < int (length ?fs)" using k(2) by linarith
    then have "f_name (?fs ! nat k) = f_name x" using name [OF k(1) _ k(3) x(2)] k(4) S x(1) by (simp add: file_ok_def stands_for_def)
    moreover have "k \<le> high" using D(9) k(2,3) unfolding cleared_def by (metis linorder_not_le)
    ultimately show ?thesis using k by (auto simp: stands_for_def)
  qed
  have org: "\<exists>x\<in>set S. ?fs ! nat k = x \<lparr>flags := flags (?fs ! nat k)\<rparr>" if "?lo \<le> k" "k \<le> high" "live ?fs k" for k
    using D(15) [unfolded origin_def, rule_format, of k] that D(3) hi by linarith
  show ?thesis
    unfolding clean_list_def Let_def using dedup_searchable [OF inv] un cov org by simp
qed

lemma flist_sort_and_clean_correct:
  assumes pv: "29 \<le> pv" and ok: "\<forall>x\<in>set (fl_sorted fl). file_ok pv heap x" and n: "length (fl_sorted fl) < 2 ^ 31"
    and some: "fl_sorted fl = [] \<or> (\<exists>x\<in>set (fl_sorted fl). f_is_active x)"
  shows "\<exists>fl'. flist_sort_and_clean pv False inc_recurse fl False = Some fl' \<and> clean_list pv heap (fl_sorted fl) fl'"
proof (cases "fl_sorted fl = []")
  case True
  then show ?thesis by (auto simp: flist_sort_and_clean_def clean_list_def searchable_def skips_ok_def list_sorted_def)
next
  case False
  have "\<forall>x\<in>set (fl_sorted fl). regular pv heap x" using ok by (simp add: file_ok_def)
  from names.fsort_stable [OF this] obtain fs where fs: "fsort (f_name_cmp pv) (fl_sorted fl) = Some fs"
    and st: "mset fs = mset (fl_sorted fl)" "sorted (map (file_key pv) fs)" by (auto simp: names.stable_def)
  have set_eq: "set fs = set (fl_sorted fl)" using st(1) mset_eq_setD by blast
  define d where "d = length (takeWhile (\<lambda>f. \<not> f_is_active f) fs)"
  have "\<exists>x\<in>set fs. f_is_active x" using some False set_eq by simp
  then have "takeWhile (\<lambda>f. \<not> f_is_active f) fs \<noteq> fs" by (metis takeWhile_eq_all_conv)
  then have d: "d < length fs" unfolding d_def by (metis length_takeWhile_le order_le_neq_trans takeWhile_eq_take take_all_iff order_refl)
  define fl0 where "fl0 = fl \<lparr>fl_sorted := fs, fl_low := int d\<rparr>"
  have inv: "dedup_inv pv heap (fl_sorted fl) fl0 (int d) (int d)"
    unfolding fl0_def by (rule dedup_start [OF ok n st d_def d])
  have "int (nat (int (length fs) - 1 - int d)) = int (length (fl_sorted fl0)) - 1 - int d" using d by (simp add: fl0_def)
  from dedup_loop_keeps [OF pv inv this] obtain fl1 high
    where r: "dedup_loop (nat (int (length fs) - 1 - int d)) pv False fl0 (int d) (int d) = Some (fl1, high)"
      and fin: "dedup_inv pv heap (fl_sorted fl) fl1 high (int (length (fl_sorted fl1)) - 1)" by blast
  have "flist_sort_and_clean pv False inc_recurse fl False = Some (fl1 \<lparr>fl_high := high\<rparr>)"
    using False fs d r by (simp add: flist_sort_and_clean_def Let_def fl0_def flip: d_def)
  then show ?thesis using dedup_clean [OF pv fin ok] by blast
qed

subsection \<open>An example\<close>

text \<open>A file and a directory of the same name, the directory's content, and lists of them.\<close>

definition example_file :: file_struct where
  "example_file = empty_file \<lparr>basename := ''a'', mode := S_IFREG\<rparr>"

definition example_dir :: file_struct where
  "example_dir = empty_file \<lparr>basename := ''a'', mode := S_IFDIR\<rparr>"

definition example_content :: file_struct where
  "example_content = empty_file \<lparr>dirname := Some (1, ''a''), basename := ''b'', mode := S_IFREG\<rparr>"

definition example_received :: file_list where
  "example_received = \<lparr>fl_sorted = [example_content, example_dir, example_file, example_content], fl_low = 0, fl_high = 3\<rparr>"

definition example_list :: file_list where
  "example_list = \<lparr>fl_sorted = [example_file, clear_file example_dir, example_dir, example_content], fl_low = 0, fl_high = 3\<rparr>"

lemma example_files_ok:
  "file_ok pv (\<lambda>a. ''a'') example_file" "file_ok pv (\<lambda>a. ''a'') example_dir" "file_ok pv (\<lambda>a. ''a'') example_content"
  by (simp_all add: file_ok_def regular_def split_ok_def name_ok_def inner_dot_def no_nul_def f_is_active_def empty_file_def
      example_file_def example_dir_def example_content_def)

lemma example_list_searchable: "searchable 31 (\<lambda>a. ''a'') example_list"
proof -
  let ?fs = "fl_sorted example_list"
  have k: "k = 0 \<or> k = 1 \<or> k = 2 \<or> k = 3" if "0 \<le> k" "k \<le> 3" for k :: int using that by linarith
  have at: "?fs ! nat 0 = example_file" "?fs ! nat 1 = clear_file example_dir" "?fs ! nat 2 = example_dir" "?fs ! nat 3 = example_content"
    by (simp_all add: example_list_def)
  have l: "live ?fs 0" "\<not> live ?fs 1" "live ?fs 2" "live ?fs 3" by code_simp+
  have key: "file_key 31 example_file < file_key 31 example_dir" "file_key 31 example_dir < file_key 31 example_content" by code_simp+
  have "list_sorted 31 ?fs 0 3"
    unfolding list_sorted_def
  proof (intro allI impI)
    fix i j :: int
    assume a: "0 \<le> i \<and> i \<le> j \<and> j \<le> 3 \<and> live ?fs i \<and> live ?fs j"
    then have "i \<noteq> 1" "j \<noteq> 1" using l by metis+
    then show "file_key 31 (?fs ! nat i) \<le> file_key 31 (?fs ! nat j)"
      using k [of i] k [of j] a at key by fastforce
  qed
  moreover have "skips_ok ?fs 0 3"
    unfolding skips_ok_iff
  proof (intro conjI allI impI)
    fix m :: int
    assume a: "0 \<le> m \<and> m \<le> 3 \<and> \<not> live ?fs m"
    then have "m = 1" using k [of m] l by metis
    then show "skip_ok ?fs 0 3 m" using at(2) clear_file_dead by (intro skip_ok_one) simp_all
  qed (simp_all add: example_list_def)
  moreover have "\<forall>x\<in>set ?fs. regular 31 (\<lambda>a. ''a'') x"
    using example_files_ok [of 31] by (simp add: example_list_def file_ok_def regular_def clear_file_dead)
  ultimately show ?thesis using l by (simp add: searchable_def example_list_def)
qed

text \<open>
Two entries at which the comparison and its comment part: a removed entry comes first, not last,
and the entry \<open>.\<close> of a directory compared with that directory leads past the end of both strings.
\<close>

lemma removed_entry_first: "\<not> f_is_active f \<Longrightarrow> f_is_active g \<Longrightarrow> f_name_cmp pv f g = Some (- 1)"
  by (simp add: f_name_cmp_def f_name_cmp_found_def)

lemma dot_leaves_string: "f_name_cmp 31 example_dir (example_content \<lparr>basename := ''.'', mode := S_IFDIR\<rparr>) = None"
  by code_simp

end
