(* ===== verification/IdList.thy ===== *)
theory IdList
  imports FileList Wildmatch DeltaFile Wire
begin

text \<open>
  uidlist.c: the lists of user and group ids with their names, the maps of \<open>--usermap\<close> and
  \<open>--groupmap\<close>, and the transfer of the names. It is shown that the receiver maps every id to the
  local id of its name on the sender.
\<close>

unbundle bit_operations_syntax

subsection \<open>Integers that depend on the protocol (io.h)\<close>

definition write_varint30 :: "int \<Rightarrow> uint32 \<Rightarrow> byte list" where
  "write_varint30 pv x = (if pv < 30 then write_int (sint x) else write_varint x)"

definition read_varint30 :: "int \<Rightarrow> uint32 reader" where
  "read_varint30 pv = (if pv < 30 then rbind read_int (\<lambda>x. rreturn (word_of_int x)) else read_varint)"

definition write_varlong30 :: "int \<Rightarrow> uint64 \<Rightarrow> nat \<Rightarrow> byte list" where
  "write_varlong30 pv x min_bytes = (if pv < 30 then write_longint x else write_varlong x min_bytes)"

definition read_varlong30 :: "int \<Rightarrow> nat \<Rightarrow> uint64 reader" where
  "read_varlong30 pv min_bytes = (if pv < 30 then read_longint else read_varlong min_bytes)"

lemma read_varint30_write: "read_varint30 pv (write_varint30 pv x @ rest) = Inr (x, rest)"
proof -
  have "is_int32 (sint x)" using sint_greater_eq [of x] sint_less [of x] by (simp add: is_int32_def)
  then show ?thesis
    by (simp add: read_varint30_def write_varint30_def rbind_def read_int_write_int read_varint_write_varint)
qed

lemma read_varlong30_write: "3 \<le> m \<Longrightarrow> m \<le> 8 \<Longrightarrow> read_varlong30 pv m (write_varlong30 pv x m @ rest) = Inr (x, rest)"
  by (simp add: read_varlong30_def write_varlong30_def read_longint_write_longint read_varlong_write_varlong)

interpretation varint30_codec: codec "write_varint30 pv" "read_varint30 pv" "\<lambda>_. True" for pv
  by unfold_locales (rule read_varint30_write)

text \<open>A length byte and a string, as names are sent; a longer string has its length cut to 8 bits.\<close>

definition write_name :: "string \<Rightarrow> byte list" where
  "write_name s = write_byte (word_of_nat (length s)) @ bytes_of s"

definition read_name :: "string reader" where
  "read_name = rbind read_byte (\<lambda>len. rbind (read_buf (unat len)) (\<lambda>b. rreturn (cstr b)))"

definition short_name :: "string \<Rightarrow> bool" where
  "short_name s \<longleftrightarrow> no_nul s \<and> length s < 256"

lemma read_name_write_name: "short_name s \<Longrightarrow> read_name (write_name s @ rest) = Inr (s, rest)"
  by (simp add: read_name_def write_name_def write_byte_def rbind_def unat_byte cstr_bytes_of short_name_def)

interpretation name_codec: codec write_name read_name short_name
  by unfold_locales (rule read_name_write_name)

subsection \<open>The lists\<close>

text \<open>
  The system's user and group databases and the groups of the process are parameters. The first
  element of a list is the one that \<open>root\<close> points to. \<open>last_uid\<close> and \<open>last_gid\<close> are the static
  variables of \<open>match_uid\<close> and \<open>match_gid\<close>.
\<close>

record sysdb =
  getpwuid :: "uint32 \<Rightarrow> string option"
  getpwnam :: "string \<Rightarrow> uint32 option"
  getgrgid :: "uint32 \<Rightarrow> string option"
  getgrnam :: "string \<Rightarrow> uint32 option"
  getgroups :: "uint32 list"
  our_gid :: uint32

datatype name_or_id = Name "string option" | Max_id uint32

record idlist =
  il_u :: name_or_id
  il_id :: uint32
  il_id2 :: uint32
  il_flags :: "16 word"

record id_state =
  uidlist :: "idlist list"
  uidmap :: "idlist list"
  gidlist :: "idlist list"
  gidmap :: "idlist list"
  last_uid :: "idlist option"
  last_gid :: "idlist option"

record id_opts =
  preserve_uid :: bool
  preserve_gid :: bool
  preserve_acls :: bool
  numeric_ids :: int
  am_root :: bool
  usermap :: bool
  groupmap :: bool

definition NFLAGS_WILD_NAME_MATCH :: "16 word" where "NFLAGS_WILD_NAME_MATCH = 1"
definition NFLAGS_NAME_MATCH :: "16 word" where "NFLAGS_NAME_MATCH = 2"

text \<open>The string of a \<open>union name_or_id\<close>, where it is one; a null pointer is taken as \<open>""\<close>.\<close>

definition u_name :: "idlist \<Rightarrow> string" where
  "u_name node = (case il_u node of Name (Some s) \<Rightarrow> s | _ \<Rightarrow> [])"

definition u_max_id :: "idlist \<Rightarrow> uint32" where
  "u_max_id node = (case il_u node of Max_id m \<Rightarrow> m | _ \<Rightarrow> 0)"

subsection \<open>Numbers and names\<close>

fun id_parse_loop :: "uint32 \<Rightarrow> string \<Rightarrow> exit_code + uint32" where
  "id_parse_loop num [] = Inr num"
| "id_parse_loop num (c # cp) =
     (if \<not> isdigit c then Inl RERR_SYNTAX
      else let tmp = num * 10 + of_char c - 48
           in if tmp < num then Inl RERR_SYNTAX else id_parse_loop tmp cp)"

definition id_parse :: "string \<Rightarrow> exit_code + uint32" where
  "id_parse num_str = id_parse_loop 0 num_str"

definition name_to_id :: "(string \<Rightarrow> uint32 option) \<Rightarrow> string option \<Rightarrow> bool \<Rightarrow> exit_code + uint32 option" where
  "name_to_id lookup name num_ok =
     (case name of None \<Rightarrow> Inr None
      | Some s \<Rightarrow>
          if s = [] then Inr None
          else if num_ok \<and> list_all isdigit s then map_sum id Some (id_parse s)
          else Inr (lookup s))"

definition user_to_uid :: "sysdb \<Rightarrow> string option \<Rightarrow> bool \<Rightarrow> exit_code + uint32 option" where
  "user_to_uid db = name_to_id (getpwnam db)"

definition group_to_gid :: "sysdb \<Rightarrow> string option \<Rightarrow> bool \<Rightarrow> exit_code + uint32 option" where
  "group_to_gid db = name_to_id (getgrnam db)"

text \<open>\<open>is_in_group\<close> without its memory of the last question, which is asked again with the same answer.\<close>

definition is_in_group :: "sysdb \<Rightarrow> uint32 \<Rightarrow> bool" where
  "is_in_group db gid =
     (let gidset = (if our_gid db \<in> set (getgroups db) then getgroups db else getgroups db @ [our_gid db])
      in gid \<in> set gidset)"

subsection \<open>The receiver's mapping\<close>

definition rule_matches :: "idlist \<Rightarrow> uint32 \<Rightarrow> string \<Rightarrow> bool" where
  "rule_matches node i name =
     (if il_flags node AND NFLAGS_WILD_NAME_MATCH \<noteq> 0 then wildmatch (u_name node) name
      else if il_flags node AND NFLAGS_NAME_MATCH \<noteq> 0 then strcmp (u_name node) name = 0
      else if u_max_id node \<noteq> 0 then \<not> (i < il_id node \<or> i > u_max_id node)
      else il_id node = i)"

definition new_id :: "sysdb \<Rightarrow> bool \<Rightarrow> idlist list \<Rightarrow> uint32 \<Rightarrow> string option \<Rightarrow> uint32" where
  "new_id db users idmap i name_p =
     (let name = (case name_p of None \<Rightarrow> [] | Some s \<Rightarrow> s)
      in case find (\<lambda>node. rule_matches node i name) idmap of
           Some node \<Rightarrow> il_id2 node
         | None \<Rightarrow>
             if name \<noteq> [] \<and> i \<noteq> 0 then
               (case (if users then user_to_uid db (Some name) False else group_to_gid db (Some name) False) of
                  Inr (Some u) \<Rightarrow> u
                | _ \<Rightarrow> i)
             else i)"

definition recv_add_id :: "sysdb \<Rightarrow> id_opts \<Rightarrow> bool \<Rightarrow> id_state \<Rightarrow> uint32 \<Rightarrow> string option \<Rightarrow> idlist \<times> id_state" where
  "recv_add_id db opt users st i name =
     (let id2 = new_id db users (if users then uidmap st else gidmap st) i name;
          flag = (if \<not> users \<and> \<not> am_root opt \<and> \<not> is_in_group db id2 then FLAG_SKIP_GROUP else 0);
          node = \<lparr>il_u = Name name, il_id = i, il_id2 = id2, il_flags = flag\<rparr>
      in (node, if users then st \<lparr>uidlist := node # uidlist st\<rparr> else st \<lparr>gidlist := node # gidlist st\<rparr>))"

definition match_uid :: "sysdb \<Rightarrow> id_opts \<Rightarrow> id_state \<Rightarrow> uint32 \<Rightarrow> uint32 \<times> id_state" where
  "match_uid db opt st uid =
     (case last_uid st of
        Some node \<Rightarrow> if uid = il_id node then (il_id2 node, st) else
          (let (node, st) = (case find (\<lambda>n. il_id n = uid) (uidlist st) of
               Some n \<Rightarrow> (n, st) | None \<Rightarrow> recv_add_id db opt True st uid None)
           in (il_id2 node, st \<lparr>last_uid := Some node\<rparr>))
      | None \<Rightarrow>
          (let (node, st) = (case find (\<lambda>n. il_id n = uid) (uidlist st) of
               Some n \<Rightarrow> (n, st) | None \<Rightarrow> recv_add_id db opt True st uid None)
           in (il_id2 node, st \<lparr>last_uid := Some node\<rparr>)))"

text \<open>The result has the flags that \<open>flags_ptr\<close> points to after the call.\<close>

definition match_gid :: "sysdb \<Rightarrow> id_opts \<Rightarrow> id_state \<Rightarrow> uint32 \<Rightarrow> 16 word \<Rightarrow> uint32 \<times> 16 word \<times> id_state" where
  "match_gid db opt st gid fl =
     (let (node, st) =
        (case last_gid st of
           Some node \<Rightarrow> if gid = il_id node then (node, st) else
             (case find (\<lambda>n. il_id n = gid) (gidlist st) of
                Some n \<Rightarrow> (n, st \<lparr>last_gid := Some n\<rparr>)
              | None \<Rightarrow> let (n, st) = recv_add_id db opt False st gid None in (n, st \<lparr>last_gid := Some n\<rparr>))
         | None \<Rightarrow>
             (case find (\<lambda>n. il_id n = gid) (gidlist st) of
                Some n \<Rightarrow> (n, st \<lparr>last_gid := Some n\<rparr>)
              | None \<Rightarrow> let (n, st) = recv_add_id db opt False st gid None in (n, st \<lparr>last_gid := Some n\<rparr>)))
      in (il_id2 node, (if il_flags node AND FLAG_SKIP_GROUP \<noteq> 0 then fl OR FLAG_SKIP_GROUP else fl), st))"

subsection \<open>The sender's lists\<close>

definition add_uid :: "sysdb \<Rightarrow> id_state \<Rightarrow> uint32 \<Rightarrow> string option \<times> id_state" where
  "add_uid db st uid =
     (if uid = 0 \<or> (\<exists>n\<in>set (uidlist st). il_id n = uid) then (None, st)
      else (getpwuid db uid,
            st \<lparr>uidlist := \<lparr>il_u = Name (getpwuid db uid), il_id = uid, il_id2 = 0, il_flags = 0\<rparr> # uidlist st\<rparr>))"

definition add_gid :: "sysdb \<Rightarrow> id_state \<Rightarrow> uint32 \<Rightarrow> string option \<times> id_state" where
  "add_gid db st gid =
     (if gid = 0 \<or> (\<exists>n\<in>set (gidlist st). il_id n = gid) then (None, st)
      else (getgrgid db gid,
            st \<lparr>gidlist := \<lparr>il_u = Name (getgrgid db gid), il_id = gid, il_id2 = 0, il_flags = 0\<rparr> # gidlist st\<rparr>))"

fun send_ids :: "int \<Rightarrow> idlist list \<Rightarrow> byte list" where
  "send_ids pv [] = write_varint30 pv 0"
| "send_ids pv (node # l) =
     (case il_u node of
        Name (Some s) \<Rightarrow> write_varint30 pv (il_id node) @ write_name s @ send_ids pv l
      | _ \<Rightarrow> send_ids pv l)"

definition send_id_list :: "int \<Rightarrow> id_opts \<Rightarrow> id_state \<Rightarrow> byte list" where
  "send_id_list pv opt st =
     (if preserve_uid opt \<or> preserve_acls opt then send_ids pv (uidlist st) else [])
     @ (if preserve_gid opt \<or> preserve_acls opt then send_ids pv (gidlist st) else [])"

subsection \<open>The receiver's lists\<close>

definition recv_user_name :: "sysdb \<Rightarrow> id_opts \<Rightarrow> id_state \<Rightarrow> uint32 \<Rightarrow> (uint32 \<times> id_state) reader" where
  "recv_user_name db opt st uid = rbind read_name (\<lambda>name.
     let (node, st) = recv_add_id db opt True st uid (if numeric_ids opt < 0 then None else Some name)
     in rreturn (il_id2 node, st))"

definition recv_group_name :: "sysdb \<Rightarrow> id_opts \<Rightarrow> id_state \<Rightarrow> uint32 \<Rightarrow> 16 word \<Rightarrow> (uint32 \<times> 16 word \<times> id_state) reader" where
  "recv_group_name db opt st gid fl = rbind read_name (\<lambda>name.
     let (node, st) = recv_add_id db opt False st gid (if numeric_ids opt < 0 then None else Some name)
     in rreturn (il_id2 node, (if il_flags node AND FLAG_SKIP_GROUP \<noteq> 0 then fl OR FLAG_SKIP_GROUP else fl), st))"

text \<open>The loops read at least one byte per round, so as many rounds as there are bytes are enough.\<close>

fun recv_ids :: "nat \<Rightarrow> int \<Rightarrow> sysdb \<Rightarrow> id_opts \<Rightarrow> bool \<Rightarrow> id_state \<Rightarrow> id_state reader" where
  "recv_ids 0 pv db opt users st = rfail RERR_STREAMIO"
| "recv_ids (Suc n) pv db opt users st = rbind (read_varint30 pv) (\<lambda>i.
     if i = 0 then rreturn st
     else if users then rbind (recv_user_name db opt st i) (\<lambda>(_, st). recv_ids n pv db opt users st)
     else rbind (recv_group_name db opt st i 0) (\<lambda>(_, _, st). recv_ids n pv db opt users st))"

fun match_owners :: "sysdb \<Rightarrow> id_opts \<Rightarrow> id_state \<Rightarrow> file_struct list \<Rightarrow> file_struct list \<times> id_state" where
  "match_owners db opt st [] = ([], st)"
| "match_owners db opt st (f # fs) =
     (let (u, st) = match_uid db opt st (f_owner f); (fs, st) = match_owners db opt st fs
      in (f \<lparr>f_owner := u\<rparr> # fs, st))"

fun match_groups :: "sysdb \<Rightarrow> id_opts \<Rightarrow> id_state \<Rightarrow> file_struct list \<Rightarrow> file_struct list \<times> id_state" where
  "match_groups db opt st [] = ([], st)"
| "match_groups db opt st (f # fs) =
     (let (g, fl, st) = match_gid db opt st (f_group f) (flags f); (fs, st) = match_groups db opt st fs
      in (f \<lparr>f_group := g, flags := fl\<rparr> # fs, st))"

definition recv_id_list :: "int \<Rightarrow> sysdb \<Rightarrow> id_opts \<Rightarrow> id_state \<Rightarrow> file_struct list \<Rightarrow> (file_struct list \<times> id_state) reader" where
  "recv_id_list pv db opt st fs bs =
     rbind (if (preserve_uid opt \<or> preserve_acls opt) \<and> numeric_ids opt \<le> 0
            then recv_ids (length bs + 1) pv db opt True st else rreturn st) (\<lambda>st.
     rbind (if (preserve_gid opt \<or> preserve_acls opt) \<and> numeric_ids opt \<le> 0
            then recv_ids (length bs + 1) pv db opt False st else rreturn st) (\<lambda>st.
       let (fs, st) = (if am_root opt \<and> preserve_uid opt \<and> (numeric_ids opt = 0 \<or> usermap opt)
                       then match_owners db opt st fs else (fs, st));
           (fs, st) = (if preserve_gid opt \<and> (\<not> am_root opt \<or> numeric_ids opt = 0 \<or> groupmap opt)
                       then match_groups db opt st fs else (fs, st))
       in rreturn (fs, st))) bs"

subsection \<open>--usermap and --groupmap\<close>

fun split_comma :: "string \<Rightarrow> string list" where
  "split_comma [] = [[]]"
| "split_comma (c # s) =
     (if c = CHR '','' then [] # split_comma s
      else case split_comma s of [] \<Rightarrow> [[c]] | w # ws \<Rightarrow> (c # w) # ws)"

text \<open>A number or a range before the colon; the result is \<open>id1\<close> and \<open>max_id\<close>.\<close>

definition parse_range :: "string \<Rightarrow> exit_code + uint32 \<times> uint32" where
  "parse_range cp =
     (let lo = takeWhile (\<lambda>c. c \<noteq> CHR ''-'') cp; dash = dropWhile (\<lambda>c. c \<noteq> CHR ''-'') cp
      in if \<not> list_all (\<lambda>c. isdigit c \<or> c = CHR ''-'') cp \<or> dash \<noteq> [] \<and> (tl dash = [] \<or> CHR ''-'' \<in> set (tl dash))
         then Inl RERR_SYNTAX
         else case (if dash \<noteq> [] then id_parse (tl dash) else Inr 0) of
           Inl e \<Rightarrow> Inl e
         | Inr max_id \<Rightarrow> map_sum id (\<lambda>id1. (id1, max_id)) (id_parse lo))"

text \<open>One element of the map; \<open>None\<close> is the message that the name is not known.\<close>

definition parse_rule :: "sysdb \<Rightarrow> bool \<Rightarrow> string \<Rightarrow> exit_code + idlist option" where
  "parse_rule db usernames s =
     (let cp = takeWhile (\<lambda>c. c \<noteq> CHR '':'') s; colon = dropWhile (\<lambda>c. c \<noteq> CHR '':'') s
      in if colon = [] \<or> tl colon = [] then Inl RERR_SYNTAX
         else
           case (if cp \<noteq> [] \<and> isdigit (hd cp) then map_sum id (\<lambda>(id1, max_id). (id1, Max_id max_id, 0)) (parse_range cp)
                 else Inr (0, Name (Some cp),
                   if \<exists>c\<in>set cp. c \<in> set ''*[?'' then NFLAGS_WILD_NAME_MATCH else NFLAGS_NAME_MATCH)) of
             Inl e \<Rightarrow> Inl e
           | Inr (id1, u, fl) \<Rightarrow>
               map_sum id (map_option (\<lambda>id2. \<lparr>il_u = u, il_id = id1, il_id2 = id2, il_flags = fl\<rparr>))
                 (if usernames then user_to_uid db (Some (tl colon)) True else group_to_gid db (Some (tl colon)) True))"

text \<open>The elements are taken from the last one on, each is put in front.\<close>

fun parse_rules :: "sysdb \<Rightarrow> bool \<Rightarrow> string list \<Rightarrow> idlist list \<Rightarrow> exit_code + idlist list" where
  "parse_rules db usernames [] l = Inr l"
| "parse_rules db usernames (s # ss) l =
     (case parse_rule db usernames s of Inl e \<Rightarrow> Inl e
      | Inr None \<Rightarrow> parse_rules db usernames ss l
      | Inr (Some node) \<Rightarrow> parse_rules db usernames ss (node # l))"

definition parse_name_map :: "sysdb \<Rightarrow> id_opts \<Rightarrow> id_state \<Rightarrow> string \<Rightarrow> bool \<Rightarrow> exit_code + id_state" where
  "parse_name_map db opt st m usernames =
     (case parse_rules db usernames (rev (split_comma m)) (if usernames then uidmap st else gidmap st) of
        Inl e \<Rightarrow> Inl e
      | Inr l \<Rightarrow>
          Inr (snd (recv_add_id db opt usernames (if usernames then st \<lparr>uidmap := l\<rparr> else st \<lparr>gidmap := l\<rparr>) 0
            (if numeric_ids opt \<noteq> 0 then None else if usernames then getpwuid db 0 else getgrgid db 0))))"

subsection \<open>What the sender has collected\<close>

definition ids_of :: "bool \<Rightarrow> id_state \<Rightarrow> idlist list" where
  "ids_of users st = (if users then uidlist st else gidlist st)"

definition map_of_ids :: "bool \<Rightarrow> id_state \<Rightarrow> idlist list" where
  "map_of_ids users st = (if users then uidmap st else gidmap st)"

definition sys_name :: "sysdb \<Rightarrow> bool \<Rightarrow> uint32 \<Rightarrow> string option" where
  "sys_name db users = (if users then getpwuid db else getgrgid db)"

definition id_start :: id_state where
  "id_start = \<lparr>uidlist = [], uidmap = [], gidlist = [], gidmap = [], last_uid = None, last_gid = None\<rparr>"

definition add_ids :: "sysdb \<Rightarrow> uint32 list \<Rightarrow> uint32 list \<Rightarrow> id_state" where
  "add_ids db us gs = fold (\<lambda>g st. snd (add_gid db st g)) gs (fold (\<lambda>u st. snd (add_uid db st u)) us id_start)"

text \<open>The list has the ids of \<open>A\<close> but 0, with their names.\<close>

definition sent_ids :: "(uint32 \<Rightarrow> string option) \<Rightarrow> uint32 set \<Rightarrow> idlist list \<Rightarrow> bool" where
  "sent_ids name A l \<longleftrightarrow> il_id ` set l = A - {0} \<and> (\<forall>n\<in>set l. il_u n = Name (name (il_id n)))"

lemma add_uid_sent:
  "sent_ids (getpwuid db) A (uidlist st) \<Longrightarrow> sent_ids (getpwuid db) (insert u A) (uidlist (snd (add_uid db st u)))"
  "gidlist (snd (add_uid db st u)) = gidlist st"
  by (auto simp: sent_ids_def add_uid_def image_iff)

lemma add_gid_sent:
  "sent_ids (getgrgid db) A (gidlist st) \<Longrightarrow> sent_ids (getgrgid db) (insert g A) (gidlist (snd (add_gid db st g)))"
  "uidlist (snd (add_gid db st g)) = uidlist st"
  by (auto simp: sent_ids_def add_gid_def image_iff)

lemma fold_uids_sent:
  "sent_ids (getpwuid db) A (uidlist st) \<Longrightarrow>
   sent_ids (getpwuid db) (A \<union> set us) (uidlist (fold (\<lambda>u st. snd (add_uid db st u)) us st))"
  "gidlist (fold (\<lambda>u st. snd (add_uid db st u)) us st) = gidlist st"
proof (induction us arbitrary: st A)
  case (Cons u us)
  { case 1 then show ?case using Cons.IH(1) [OF add_uid_sent(1), of A st u] by simp }
  { case 2 then show ?case using Cons.IH(2) by (simp add: add_uid_sent(2)) }
qed simp_all

lemma fold_gids_sent:
  "sent_ids (getgrgid db) A (gidlist st) \<Longrightarrow>
   sent_ids (getgrgid db) (A \<union> set gs) (gidlist (fold (\<lambda>g st. snd (add_gid db st g)) gs st))"
  "uidlist (fold (\<lambda>g st. snd (add_gid db st g)) gs st) = uidlist st"
proof (induction gs arbitrary: st A)
  case (Cons u us)
  { case 1 then show ?case using Cons.IH(1) [OF add_gid_sent(1), of A st u] by simp }
  { case 2 then show ?case using Cons.IH(2) by (simp add: add_gid_sent(2)) }
qed simp_all

lemma add_ids_sent: "sent_ids (sys_name db users) (set (if users then us else gs)) (ids_of users (add_ids db us gs))"
proof -
  have e: "sent_ids name {} []" for name by (simp add: sent_ids_def)
  show ?thesis
    using fold_uids_sent(1) [of db "{}" id_start us] fold_gids_sent(1) [of db "{}" "fold (\<lambda>u st. snd (add_uid db st u)) us id_start" gs] e
    by (auto simp: add_ids_def sys_name_def ids_of_def fold_uids_sent(2) fold_gids_sent(2) id_start_def)
qed

subsection \<open>What the receiver makes of it\<close>

text \<open>
  \<open>nm\<close> is the name that stands for an id. The list is right when each entry has the new id for its
  name, and complete when every id of \<open>R\<close> that has a name has an entry.
\<close>

definition named :: "(uint32 \<Rightarrow> string option) \<Rightarrow> uint32 \<Rightarrow> bool" where
  "named nm i \<longleftrightarrow> nm i \<noteq> None \<and> nm i \<noteq> Some []"

definition right_node :: "sysdb \<Rightarrow> id_opts \<Rightarrow> bool \<Rightarrow> idlist list \<Rightarrow> (uint32 \<Rightarrow> string option) \<Rightarrow> idlist \<Rightarrow> bool" where
  "right_node db opt users idmap nm n \<longleftrightarrow>
     il_id2 n = new_id db users idmap (il_id n) (nm (il_id n))
     \<and> il_flags n = (if \<not> users \<and> \<not> am_root opt \<and> \<not> is_in_group db (il_id2 n) then FLAG_SKIP_GROUP else 0)"

lemma new_id_unnamed: "\<not> named nm i \<Longrightarrow> new_id db users idmap i (nm i) = new_id db users idmap i None"
  by (auto simp: named_def new_id_def)

lemma recv_add_id_ids:
  "ids_of users (snd (recv_add_id db opt users st i name)) = fst (recv_add_id db opt users st i name) # ids_of users st"
  "ids_of (\<not> users) (snd (recv_add_id db opt users st i name)) = ids_of (\<not> users) st"
  "map_of_ids u (snd (recv_add_id db opt users st i name)) = map_of_ids u st"
  "last_uid (snd (recv_add_id db opt users st i name)) = last_uid st"
  "last_gid (snd (recv_add_id db opt users st i name)) = last_gid st"
  "il_id (fst (recv_add_id db opt users st i name)) = i"
  by (auto simp: recv_add_id_def ids_of_def map_of_ids_def Let_def)

lemma recv_add_id_right:
  "new_id db users (map_of_ids users st) i name = new_id db users (map_of_ids users st) i (nm i) \<Longrightarrow>
   right_node db opt users (map_of_ids users st) nm (fst (recv_add_id db opt users st i name))"
  by (simp add: right_node_def recv_add_id_def map_of_ids_def Let_def)

definition ids_right :: "sysdb \<Rightarrow> id_opts \<Rightarrow> bool \<Rightarrow> (uint32 \<Rightarrow> string option) \<Rightarrow> id_state \<Rightarrow> bool" where
  "ids_right db opt users nm st \<longleftrightarrow>
     (\<forall>n\<in>set (ids_of users st). right_node db opt users (map_of_ids users st) nm n)
     \<and> (\<forall>n. (if users then last_uid st else last_gid st) = Some n \<longrightarrow> right_node db opt users (map_of_ids users st) nm n)"

lemma ids_right_add:
  assumes "ids_right db opt users nm st"
    and "new_id db users (map_of_ids users st) i name = new_id db users (map_of_ids users st) i (nm i)"
  shows "ids_right db opt users nm (snd (recv_add_id db opt users st i name))"
  using assms recv_add_id_right [where nm = nm, OF assms(2)] by (cases users) (simp_all add: ids_right_def recv_add_id_ids)

text \<open>The two lists do not touch each other.\<close>

definition keeps_other :: "bool \<Rightarrow> id_state \<Rightarrow> id_state \<Rightarrow> bool" where
  "keeps_other users st st' \<longleftrightarrow> ids_of (\<not> users) st' = ids_of (\<not> users) st \<and> (\<forall>u. map_of_ids u st' = map_of_ids u st)
     \<and> (if users then last_gid st' = last_gid st else last_uid st' = last_uid st)
     \<and> il_id ` set (ids_of users st) \<subseteq> il_id ` set (ids_of users st')"

lemma keeps_other_refl [simp]: "keeps_other users st st"
  by (simp add: keeps_other_def)

lemma keeps_other_trans: "keeps_other users a b \<Longrightarrow> keeps_other users b c \<Longrightarrow> keeps_other users a c"
  using order_trans [of "il_id ` set (ids_of users a)" "il_id ` set (ids_of users b)" "il_id ` set (ids_of users c)"]
  by (cases users) (simp_all add: keeps_other_def)

lemma keeps_other_add: "keeps_other users st (snd (recv_add_id db opt users st i name))"
  by (auto simp: keeps_other_def recv_add_id_ids)

lemma keeps_other_right: "keeps_other users st st' \<Longrightarrow> ids_right db opt (\<not> users) nm st \<Longrightarrow> ids_right db opt (\<not> users) nm st'"
  by (cases users) (simp_all add: keeps_other_def ids_right_def)

definition complete :: "(uint32 \<Rightarrow> string option) \<Rightarrow> uint32 set \<Rightarrow> bool \<Rightarrow> id_state \<Rightarrow> bool" where
  "complete nm R users st \<longleftrightarrow> (\<forall>i\<in>R. named nm i \<longrightarrow> i \<in> il_id ` set (ids_of users st))"

lemma complete_keeps: "complete nm R users st \<Longrightarrow> keeps_other users st st' \<Longrightarrow> complete nm R users st'"
  unfolding complete_def keeps_other_def by blast

lemma complete_other: "complete nm R (\<not> users) st \<Longrightarrow> keeps_other users st st' \<Longrightarrow> complete nm R (\<not> users) st'"
  unfolding complete_def keeps_other_def by simp

text \<open>A search of the list, with a new entry when it fails.\<close>

definition look_up :: "sysdb \<Rightarrow> id_opts \<Rightarrow> bool \<Rightarrow> id_state \<Rightarrow> uint32 \<Rightarrow> idlist \<times> id_state" where
  "look_up db opt users st i =
     (case find (\<lambda>n. il_id n = i) (ids_of users st) of Some n \<Rightarrow> (n, st) | None \<Rightarrow> recv_add_id db opt users st i None)"

lemma look_up_right:
  assumes r: "ids_right db opt users nm st" and c: "complete nm R users st" and i: "i \<in> R" and l: "look_up db opt users st i = (n, st')"
  shows "right_node db opt users (map_of_ids users st) nm n \<and> il_id n = i \<and> ids_right db opt users nm st' \<and> keeps_other users st st'"
proof (cases "find (\<lambda>n. il_id n = i) (ids_of users st)")
  case None
  then have "i \<notin> il_id ` set (ids_of users st)" by (auto simp: find_None_iff)
  then have "\<not> named nm i" using c i by (auto simp: complete_def)
  then have e: "new_id db users (map_of_ids users st) i None = new_id db users (map_of_ids users st) i (nm i)"
    by (rule new_id_unnamed [symmetric])
  have "n = fst (recv_add_id db opt users st i None)" "st' = snd (recv_add_id db opt users st i None)"
    using l None by (simp_all add: look_up_def)
  then show ?thesis
    using recv_add_id_right [where nm = nm, OF e] ids_right_add [OF r e] keeps_other_add recv_add_id_ids(6) by simp
next
  case (Some m)
  then have "m \<in> set (ids_of users st)" "il_id m = i" by (auto simp: find_Some_iff)
  then show ?thesis using l Some r by (simp add: look_up_def ids_right_def)
qed

lemma match_uid_look_up:
  "match_uid db opt st uid =
     (case last_uid st of
        Some node \<Rightarrow> if uid = il_id node then (il_id2 node, st)
          else let (n, st') = look_up db opt True st uid in (il_id2 n, st' \<lparr>last_uid := Some n\<rparr>)
      | None \<Rightarrow> let (n, st') = look_up db opt True st uid in (il_id2 n, st' \<lparr>last_uid := Some n\<rparr>))"
  by (simp add: match_uid_def look_up_def ids_of_def split: option.splits)

lemma match_gid_look_up:
  "match_gid db opt st gid fl =
     (let (n, st') =
        (case last_gid st of
           Some node \<Rightarrow> if gid = il_id node then (node, st)
             else let (n, st') = look_up db opt False st gid in (n, st' \<lparr>last_gid := Some n\<rparr>)
         | None \<Rightarrow> let (n, st') = look_up db opt False st gid in (n, st' \<lparr>last_gid := Some n\<rparr>))
      in (il_id2 n, (if il_flags n AND FLAG_SKIP_GROUP \<noteq> 0 then fl OR FLAG_SKIP_GROUP else fl), st'))"
  by (auto simp: match_gid_def look_up_def ids_of_def Let_def split: option.splits)

lemma set_last_right:
  assumes "ids_right db opt users nm st" and "right_node db opt users (map_of_ids users st) nm n"
  shows "ids_right db opt users nm (if users then st \<lparr>last_uid := Some n\<rparr> else st \<lparr>last_gid := Some n\<rparr>)"
  using assms by (cases users) (simp_all add: ids_right_def ids_of_def map_of_ids_def)

lemma set_last_keeps: "keeps_other users st (if users then st \<lparr>last_uid := Some n\<rparr> else st \<lparr>last_gid := Some n\<rparr>)"
  by (simp add: keeps_other_def ids_of_def map_of_ids_def)

lemma keeps_other_map: "keeps_other users st st' \<Longrightarrow> map_of_ids u st' = map_of_ids u st"
  by (simp add: keeps_other_def)

lemma match_uid_right:
  assumes r: "ids_right db opt True nm st" and c: "complete nm R True st" and i: "uid \<in> R"
  shows "\<exists>st'. match_uid db opt st uid = (new_id db True (uidmap st) uid (nm uid), st')
    \<and> ids_right db opt True nm st' \<and> keeps_other True st st'"
proof -
  obtain n st1 where l: "look_up db opt True st uid = (n, st1)" by fastforce
  note L = look_up_right [OF r c i l]
  let ?st2 = "st1 \<lparr>last_uid := Some n\<rparr>"
  have s: "ids_right db opt True nm ?st2" "keeps_other True st ?st2"
    using set_last_right [of db opt True nm st1 n] set_last_keeps [of True st1 n] L keeps_other_map [of True st st1 True]
      keeps_other_trans [of True st st1] by auto
  have new: "il_id2 n = new_id db True (uidmap st) uid (nm uid)" using L by (auto simp: right_node_def map_of_ids_def)
  show ?thesis
  proof (cases "\<exists>m. last_uid st = Some m \<and> uid = il_id m")
    case True
    then obtain m where m: "last_uid st = Some m" "uid = il_id m" by blast
    then have "il_id2 m = new_id db True (uidmap st) uid (nm uid)"
      using r by (auto simp: ids_right_def right_node_def map_of_ids_def)
    then show ?thesis using m r by (simp add: match_uid_look_up)
  next
    case False
    then have "match_uid db opt st uid = (il_id2 n, ?st2)" using l by (auto simp: match_uid_look_up split: option.splits)
    then show ?thesis using new s by simp
  qed
qed

definition skip_flag :: "sysdb \<Rightarrow> id_opts \<Rightarrow> uint32 \<Rightarrow> 16 word \<Rightarrow> 16 word" where
  "skip_flag db opt g fl = (if \<not> am_root opt \<and> \<not> is_in_group db g then fl OR FLAG_SKIP_GROUP else fl)"

lemma skip_group_bit: "FLAG_SKIP_GROUP AND FLAG_SKIP_GROUP \<noteq> 0"
  by (simp add: FLAG_SKIP_GROUP_def)

lemma right_node_flag:
  "right_node db opt False m nm n \<Longrightarrow>
   (if il_flags n AND FLAG_SKIP_GROUP \<noteq> 0 then fl OR FLAG_SKIP_GROUP else fl) = skip_flag db opt (il_id2 n) fl"
  using skip_group_bit by (simp add: right_node_def skip_flag_def)

lemma match_gid_right:
  assumes r: "ids_right db opt False nm st" and c: "complete nm R False st" and i: "gid \<in> R"
  shows "\<exists>st'. match_gid db opt st gid fl =
      (new_id db False (gidmap st) gid (nm gid), skip_flag db opt (new_id db False (gidmap st) gid (nm gid)) fl, st')
    \<and> ids_right db opt False nm st' \<and> keeps_other False st st'"
proof -
  obtain n st1 where l: "look_up db opt False st gid = (n, st1)" by fastforce
  note L = look_up_right [OF r c i l]
  let ?st2 = "st1 \<lparr>last_gid := Some n\<rparr>"
  have s: "ids_right db opt False nm ?st2" "keeps_other False st ?st2"
    using set_last_right [of db opt False nm st1 n] set_last_keeps [of False st1 n] L keeps_other_map [of False st st1 False]
      keeps_other_trans [of False st st1] by auto
  have out: "il_id2 m = new_id db False (gidmap st) gid (nm gid)
      \<and> (if il_flags m AND FLAG_SKIP_GROUP \<noteq> 0 then fl OR FLAG_SKIP_GROUP else fl) = skip_flag db opt (il_id2 m) fl"
    if "right_node db opt False (map_of_ids False st) nm m" "il_id m = gid" for m
    using that right_node_flag [OF that(1)] by (simp add: right_node_def map_of_ids_def)
  show ?thesis
  proof (cases "\<exists>m. last_gid st = Some m \<and> gid = il_id m")
    case True
    then obtain m where m: "last_gid st = Some m" "gid = il_id m" by blast
    then have "right_node db opt False (map_of_ids False st) nm m" using r by (simp add: ids_right_def)
    from out [OF this m(2) [symmetric]] show ?thesis using m r by (simp add: match_gid_look_up)
  next
    case False
    then have "match_gid db opt st gid fl = (il_id2 n, (if il_flags n AND FLAG_SKIP_GROUP \<noteq> 0 then fl OR FLAG_SKIP_GROUP else fl), ?st2)"
      using l by (auto simp: match_gid_look_up split: option.splits)
    then show ?thesis using out [of n] L s by simp
  qed
qed

lemma match_owners_right:
  "ids_right db opt True nm st \<Longrightarrow> complete nm R True st \<Longrightarrow> \<forall>f\<in>set fs. f_owner f \<in> R \<Longrightarrow>
   \<exists>st'. match_owners db opt st fs = (map (\<lambda>f. f \<lparr>f_owner := new_id db True (uidmap st) (f_owner f) (nm (f_owner f))\<rparr>) fs, st')
     \<and> keeps_other True st st'"
proof (induction fs arbitrary: st)
  case (Cons f fs)
  obtain st1 where 1: "match_uid db opt st (f_owner f) = (new_id db True (uidmap st) (f_owner f) (nm (f_owner f)), st1)"
    "ids_right db opt True nm st1" "keeps_other True st st1"
    using match_uid_right [OF Cons.prems(1,2), of "f_owner f"] Cons.prems(3) by auto
  have m: "uidmap st1 = uidmap st" using keeps_other_map [OF 1(3), of True] by (simp add: map_of_ids_def)
  obtain st' where 2: "match_owners db opt st1 fs =
      (map (\<lambda>f. f \<lparr>f_owner := new_id db True (uidmap st) (f_owner f) (nm (f_owner f))\<rparr>) fs, st')" "keeps_other True st1 st'"
    using Cons.IH [OF 1(2) complete_keeps [OF Cons.prems(2) 1(3)]] Cons.prems(3) m by auto
  show ?case using 1(1) 2 keeps_other_trans [OF 1(3) 2(2)] by simp
qed simp

lemma match_groups_right:
  "ids_right db opt False nm st \<Longrightarrow> complete nm R False st \<Longrightarrow> \<forall>f\<in>set fs. f_group f \<in> R \<Longrightarrow>
   \<exists>st'. match_groups db opt st fs =
      (map (\<lambda>f. let g = new_id db False (gidmap st) (f_group f) (nm (f_group f))
                in f \<lparr>f_group := g, flags := skip_flag db opt g (flags f)\<rparr>) fs, st')"
proof (induction fs arbitrary: st)
  case (Cons f fs)
  let ?g = "new_id db False (gidmap st) (f_group f) (nm (f_group f))"
  obtain st1 where 1: "match_gid db opt st (f_group f) (flags f) = (?g, skip_flag db opt ?g (flags f), st1)"
    "ids_right db opt False nm st1" "keeps_other False st st1"
    using match_gid_right [OF Cons.prems(1,2), of "f_group f"] Cons.prems(3) by auto
  have m: "gidmap st1 = gidmap st" using keeps_other_map [OF 1(3), of False] by (simp add: map_of_ids_def)
  obtain st' where 2: "match_groups db opt st1 fs =
      (map (\<lambda>f. let g = new_id db False (gidmap st) (f_group f) (nm (f_group f))
                in f \<lparr>f_group := g, flags := skip_flag db opt g (flags f)\<rparr>) fs, st')"
    using Cons.IH [OF 1(2) complete_keeps [OF Cons.prems(2) 1(3)]] Cons.prems(3) m by auto
  show ?case using 1(1) 2 by (simp add: Let_def)
qed simp

subsection \<open>The transfer of the names\<close>

definition sent_nodes :: "idlist list \<Rightarrow> idlist list" where
  "sent_nodes l = filter (\<lambda>n. \<exists>s. il_u n = Name (Some s)) l"

lemma write_varint30_not_Nil: "write_varint30 pv x \<noteq> []"
proof -
  have "write_int y \<noteq> []" for y using write_int_length [of y] by (metis list.size(3) zero_neq_numeral)
  moreover have "write_varint x \<noteq> []" using write_varint_length [of x] by (metis list.size(3) not_one_le_zero)
  ultimately show ?thesis by (simp add: write_varint30_def)
qed

lemma send_ids_length: "length (sent_nodes l) < length (send_ids pv l)"
proof (induction l)
  case Nil
  then show ?case using write_varint30_not_Nil by (simp add: sent_nodes_def)
next
  case (Cons n l)
  have "0 < length (write_varint30 pv (il_id n))" using write_varint30_not_Nil [of pv "il_id n"] by (simp only: length_greater_0_conv not_False_eq_True)
  then show ?case using Cons by (auto simp: sent_nodes_def simp del: length_greater_0_conv split: name_or_id.split option.split)
qed

text \<open>Reading one name does to the state what \<open>recv_add_id\<close> does.\<close>

lemma recv_ids_step:
  assumes "i \<noteq> 0" and "short_name s" and "numeric_ids opt = 0"
  shows "recv_ids (Suc n) pv db opt users st (write_varint30 pv i @ write_name s @ rest)
    = recv_ids n pv db opt users (snd (recv_add_id db opt users st i (Some s))) rest"
  using assms
  by (simp add: rbind_def read_varint30_write recv_user_name_def recv_group_name_def read_name_write_name Let_def split: prod.split)

lemma recv_ids_transfer:
  assumes num: "numeric_ids opt = 0"
  shows "length (sent_nodes l) < n \<Longrightarrow> \<forall>m\<in>set l. il_id m \<noteq> 0 \<and> il_u m = Name (nm (il_id m))
     \<and> (\<forall>s. nm (il_id m) = Some s \<longrightarrow> short_name s) \<Longrightarrow> ids_right db opt users nm st \<Longrightarrow>
    \<exists>st'. recv_ids n pv db opt users st (send_ids pv l @ rest) = Inr (st', rest) \<and> ids_right db opt users nm st'
      \<and> keeps_other users st st' \<and> complete nm (il_id ` set l) users st'"
proof (induction l arbitrary: n st)
  case Nil
  then obtain k where "n = Suc k" by (cases n) auto
  then show ?case using Nil.prems(3) by (simp add: rbind_def read_varint30_write complete_def)
next
  case (Cons m l)
  have m: "il_id m \<noteq> 0" "il_u m = Name (nm (il_id m))" using Cons.prems(2) by simp_all
  show ?case
  proof (cases "nm (il_id m)")
    case None
    then have e: "send_ids pv (m # l) = send_ids pv l" "sent_nodes (m # l) = sent_nodes l" using m(2) by (simp_all add: sent_nodes_def)
    obtain st' where "recv_ids n pv db opt users st (send_ids pv l @ rest) = Inr (st', rest)" "ids_right db opt users nm st'"
      "keeps_other users st st'" "complete nm (il_id ` set l) users st'"
      using Cons.IH [of n st] Cons.prems e(2) by auto
    moreover have "\<not> named nm (il_id m)" using None by (simp add: named_def)
    ultimately show ?thesis using e(1) by (auto simp: complete_def)
  next
    case (Some s)
    then have s: "short_name s" using Cons.prems(2) by simp
    have e: "send_ids pv (m # l) = write_varint30 pv (il_id m) @ write_name s @ send_ids pv l" "sent_nodes (m # l) = m # sent_nodes l"
      using m(2) Some by (simp_all add: sent_nodes_def)
    obtain k where k: "n = Suc k" "length (sent_nodes l) < k" using Cons.prems(1) e(2) by (cases n) auto
    let ?st1 = "snd (recv_add_id db opt users st (il_id m) (Some s))"
    have r: "ids_right db opt users nm ?st1" using ids_right_add [OF Cons.prems(3), of "il_id m" "Some s"] Some by simp
    obtain st' where st': "recv_ids k pv db opt users ?st1 (send_ids pv l @ rest) = Inr (st', rest)" "ids_right db opt users nm st'"
      "keeps_other users ?st1 st'" "complete nm (il_id ` set l) users st'"
      using Cons.IH [OF k(2) _ r] Cons.prems(2) by auto
    have "il_id m \<in> il_id ` set (ids_of users ?st1)" by (simp add: recv_add_id_ids(1,6))
    then have "il_id m \<in> il_id ` set (ids_of users st')" using st'(3) unfolding keeps_other_def by blast
    then have "complete nm (il_id ` set (m # l)) users st'" using st'(4) by (simp add: complete_def)
    moreover have "recv_ids n pv db opt users st (send_ids pv (m # l) @ rest) = Inr (st', rest)"
      unfolding e(1) k(1) append_assoc recv_ids_step [OF m(1) s num] by (rule st'(1))
    ultimately show ?thesis using st'(2) keeps_other_trans [OF keeps_other_add st'(3)] by blast
  qed
qed

subsection \<open>Every id gets the local id of its name\<close>

text \<open>The receiver's lists when the first file list comes (\<open>recv_file_list\<close> parses the maps).\<close>

definition start_ids :: "sysdb \<Rightarrow> id_opts \<Rightarrow> string option \<Rightarrow> string option \<Rightarrow> exit_code + id_state" where
  "start_ids db opt um gm =
     (case (case um of None \<Rightarrow> Inr id_start | Some m \<Rightarrow> parse_name_map db opt id_start m True) of
        Inl e \<Rightarrow> Inl e
      | Inr st \<Rightarrow> (case gm of None \<Rightarrow> Inr st | Some m \<Rightarrow> parse_name_map db opt st m False))"

text \<open>The name that stands for an id of the sender: its own one, for 0 that of the receiver if there is a map.\<close>

definition peer_name :: "sysdb \<Rightarrow> id_opts \<Rightarrow> sysdb \<Rightarrow> bool \<Rightarrow> uint32 \<Rightarrow> string option" where
  "peer_name db opt sdb users i =
     (if i \<noteq> 0 then sys_name sdb users i
      else if (if users then usermap opt else groupmap opt) \<and> numeric_ids opt = 0 then sys_name db users 0 else None)"

definition local_id :: "sysdb \<Rightarrow> id_opts \<Rightarrow> sysdb \<Rightarrow> id_state \<Rightarrow> bool \<Rightarrow> uint32 \<Rightarrow> uint32" where
  "local_id db opt sdb st users i = new_id db users (map_of_ids users st) i (peer_name db opt sdb users i)"

lemma parse_name_map_right:
  assumes "parse_name_map db opt st m users = Inr st'" and "ids_of users st = []"
    and "if users then usermap opt else groupmap opt"
    and "(if users then last_uid st else last_gid st) = None"
  shows "ids_right db opt users (peer_name db opt sdb users) st' \<and> complete (peer_name db opt sdb users) {0} users st'"
proof -
  obtain l where l: "st' = snd (recv_add_id db opt users (if users then st \<lparr>uidmap := l\<rparr> else st \<lparr>gidmap := l\<rparr>) 0
      (if numeric_ids opt \<noteq> 0 then None else if users then getpwuid db 0 else getgrgid db 0))"
    using assms(1) by (auto simp: parse_name_map_def split: sum.splits)
  let ?st = "if users then st \<lparr>uidmap := l\<rparr> else st \<lparr>gidmap := l\<rparr>"
  have n: "(if numeric_ids opt \<noteq> 0 then None else if users then getpwuid db 0 else getgrgid db 0) = peer_name db opt sdb users 0"
    using assms(3) by (simp add: peer_name_def sys_name_def)
  have r: "ids_right db opt users (peer_name db opt sdb users) ?st"
    using assms(2,4) by (cases users) (simp_all add: ids_right_def ids_of_def)
  show ?thesis
    unfolding l n using ids_right_add [OF r refl] recv_add_id_ids(1,6) by (simp add: complete_def)
qed

lemma parse_name_map_other:
  assumes "parse_name_map db opt st m users = Inr st'"
  shows "ids_right db opt (\<not> users) nm st \<Longrightarrow> ids_right db opt (\<not> users) nm st'"
    and "complete nm R (\<not> users) st \<Longrightarrow> complete nm R (\<not> users) st'"
    and "ids_of (\<not> users) st' = ids_of (\<not> users) st"
    and "(if users then last_gid st' else last_uid st') = (if users then last_gid st else last_uid st)"
proof -
  obtain l where l: "st' = snd (recv_add_id db opt users (if users then st \<lparr>uidmap := l\<rparr> else st \<lparr>gidmap := l\<rparr>) 0
      (if numeric_ids opt \<noteq> 0 then None else if users then getpwuid db 0 else getgrgid db 0))"
    using assms by (auto simp: parse_name_map_def split: sum.splits)
  let ?st = "if users then st \<lparr>uidmap := l\<rparr> else st \<lparr>gidmap := l\<rparr>"
  have k: "keeps_other users ?st st'" unfolding l by (rule keeps_other_add)
  have i: "ids_of (\<not> users) ?st = ids_of (\<not> users) st" by (simp add: ids_of_def)
  show "ids_of (\<not> users) st' = ids_of (\<not> users) st" using k i by (simp add: keeps_other_def)
  then show "complete nm R (\<not> users) st \<Longrightarrow> complete nm R (\<not> users) st'" by (simp add: complete_def)
  show "(if users then last_gid st' else last_uid st') = (if users then last_gid st else last_uid st)"
    using k by (cases users) (simp_all add: keeps_other_def)
  have "ids_right db opt (\<not> users) nm st \<Longrightarrow> ids_right db opt (\<not> users) nm ?st"
    by (cases users) (simp_all add: ids_right_def ids_of_def map_of_ids_def)
  then show "ids_right db opt (\<not> users) nm st \<Longrightarrow> ids_right db opt (\<not> users) nm st'" using keeps_other_right [OF k] by blast
qed

lemma id_start_right:
  "(if users then um else gm) = None \<Longrightarrow> \<not> (if users then usermap opt else groupmap opt) \<Longrightarrow>
   ids_right db opt users nm id_start \<and> complete (peer_name db opt sdb users) {0} users id_start"
  by (simp add: ids_right_def id_start_def ids_of_def complete_def named_def peer_name_def)

lemma start_ids_right:
  assumes st: "start_ids db opt um gm = Inr st" and o: "usermap opt \<longleftrightarrow> um \<noteq> None" "groupmap opt \<longleftrightarrow> gm \<noteq> None"
  shows "ids_right db opt users (peer_name db opt sdb users) st \<and> complete (peer_name db opt sdb users) {0} users st"
proof -
  obtain st1 where 1: "(case um of None \<Rightarrow> Inr id_start | Some m \<Rightarrow> parse_name_map db opt id_start m True) = Inr st1"
    and 2: "(case gm of None \<Rightarrow> Inr st1 | Some m \<Rightarrow> parse_name_map db opt st1 m False) = Inr st"
    using st by (auto simp: start_ids_def split: sum.splits)
  have u: "ids_right db opt True (peer_name db opt sdb True) st1 \<and> complete (peer_name db opt sdb True) {0} True st1"
  proof (cases um)
    case None
    then show ?thesis using 1 id_start_right [of True um gm opt db] o(1) by simp
  next
    case (Some m)
    then have "parse_name_map db opt id_start m True = Inr st1" using 1 by simp
    from parse_name_map_right [OF this] show ?thesis using o(1) Some by (simp add: ids_of_def id_start_def)
  qed
  have e: "ids_of False st1 = [] \<and> last_gid st1 = None"
  proof (cases um)
    case (Some m)
    then have "parse_name_map db opt id_start m True = Inr st1" using 1 by simp
    from parse_name_map_other(3,4) [OF this] show ?thesis by (simp add: ids_of_def id_start_def)
  next
    case None
    then have "st1 = id_start" using 1 by simp
    then show ?thesis by (simp add: ids_of_def id_start_def)
  qed
  show ?thesis
  proof (cases gm)
    case None
    then have "st = st1" using 2 by simp
    then show ?thesis
      using u e o(2) None by (cases users) (simp_all add: ids_right_def complete_def named_def peer_name_def)
  next
    case (Some m)
    then have p: "parse_name_map db opt st1 m False = Inr st" using 2 by simp
    show ?thesis
      using parse_name_map_right [OF p] parse_name_map_other(1,2) [OF p] u e o(2) Some by (cases users) simp_all
  qed
qed

definition local_file :: "sysdb \<Rightarrow> id_opts \<Rightarrow> sysdb \<Rightarrow> id_state \<Rightarrow> file_struct \<Rightarrow> file_struct" where
  "local_file db opt sdb st f =
     (let g = local_id db opt sdb st False (f_group f);
          f = (if am_root opt \<and> preserve_uid opt then f \<lparr>f_owner := local_id db opt sdb st True (f_owner f)\<rparr> else f)
      in if preserve_gid opt then f \<lparr>f_group := g, flags := skip_flag db opt g (flags f)\<rparr> else f)"

lemma recv_names_right:
  assumes num: "numeric_ids opt = 0" and r: "ids_right db opt users (peer_name db opt sdb users) st"
    and c: "complete (peer_name db opt sdb users) {0} users st"
    and s: "sent_ids (sys_name sdb users) A l" and short: "\<forall>i\<in>A. \<forall>s. sys_name sdb users i = Some s \<longrightarrow> short_name s"
    and n: "length (send_ids pv l) \<le> n"
  shows "\<exists>st'. recv_ids n pv db opt users st (send_ids pv l @ rest) = Inr (st', rest)
    \<and> ids_right db opt users (peer_name db opt sdb users) st' \<and> keeps_other users st st'
    \<and> complete (peer_name db opt sdb users) (insert 0 A) users st'"
proof -
  have il: "il_id m \<in> A - {0}" if "m \<in> set l" for m using s that by (auto simp: sent_ids_def)
  have "\<forall>m\<in>set l. il_id m \<noteq> 0 \<and> il_u m = Name (peer_name db opt sdb users (il_id m))
     \<and> (\<forall>s. peer_name db opt sdb users (il_id m) = Some s \<longrightarrow> short_name s)"
    using s il short by (force simp: sent_ids_def peer_name_def)
  moreover have "length (sent_nodes l) < n" using send_ids_length [of l pv] n by linarith
  ultimately obtain st' where st': "recv_ids n pv db opt users st (send_ids pv l @ rest) = Inr (st', rest)"
    "ids_right db opt users (peer_name db opt sdb users) st'" "keeps_other users st st'"
    "complete (peer_name db opt sdb users) (il_id ` set l) users st'"
    using recv_ids_transfer [OF num _ _ r] by blast
  have "complete (peer_name db opt sdb users) (insert 0 A) users st'"
    unfolding complete_def
  proof (intro ballI impI)
    fix i assume i: "i \<in> insert 0 A" "named (peer_name db opt sdb users) i"
    show "i \<in> il_id ` set (ids_of users st')"
    proof (cases "i = 0")
      case True
      then show ?thesis using complete_keeps [OF c st'(3)] i(2) by (simp add: complete_def)
    next
      case False
      then have "i \<in> il_id ` set l" using i(1) s by (simp add: sent_ids_def)
      then show ?thesis using st'(4) i(2) unfolding complete_def by blast
    qed
  qed
  then show ?thesis using st' by blast
qed

lemma recv_id_list_right:
  assumes st: "start_ids db opt um gm = Inr st" and o: "usermap opt \<longleftrightarrow> um \<noteq> None" "groupmap opt \<longleftrightarrow> gm \<noteq> None"
    and num: "numeric_ids opt = 0"
    and short: "\<forall>u\<in>set us. \<forall>s. getpwuid sdb u = Some s \<longrightarrow> short_name s" "\<forall>g\<in>set gs. \<forall>s. getgrgid sdb g = Some s \<longrightarrow> short_name s"
    and fs: "\<forall>f\<in>set fs. f_owner f \<in> set us \<and> f_group f \<in> set gs"
  shows "\<exists>st'. recv_id_list pv db opt st fs (send_id_list pv opt (add_ids sdb us gs) @ rest)
    = Inr ((map (local_file db opt sdb st) fs, st'), rest)"
proof -
  let ?s = "add_ids sdb us gs"
  let ?bs = "send_id_list pv opt ?s @ rest"
  let ?nm = "peer_name db opt sdb"
  have sent: "sent_ids (sys_name sdb True) (set us) (uidlist ?s)" "sent_ids (sys_name sdb False) (set gs) (gidlist ?s)"
    using add_ids_sent [of sdb True us gs] add_ids_sent [of sdb False us gs] by (simp_all add: ids_of_def)
  have sh: "\<forall>i\<in>set us. \<forall>s. sys_name sdb True i = Some s \<longrightarrow> short_name s" "\<forall>i\<in>set gs. \<forall>s. sys_name sdb False i = Some s \<longrightarrow> short_name s"
    using short by (simp_all add: sys_name_def)
  note R = start_ids_right [OF st o]
  let ?g = "if preserve_gid opt \<or> preserve_acls opt then send_ids pv (gidlist ?s) else []"
  obtain st1 where 1: "(if preserve_uid opt \<or> preserve_acls opt then recv_ids (length ?bs + 1) pv db opt True st else rreturn st) ?bs
      = Inr (st1, ?g @ rest)" "ids_right db opt True (?nm True) st1" "keeps_other True st st1"
    "preserve_uid opt \<longrightarrow> complete (?nm True) (insert 0 (set us)) True st1"
  proof (cases "preserve_uid opt \<or> preserve_acls opt")
    case True
    then have n: "length (send_ids pv (uidlist ?s)) \<le> length ?bs + 1" by (simp add: send_id_list_def)
    show thesis
      using recv_names_right [OF num _ _ sent(1) sh(1) n, of db st "?g @ rest"] R [of True] True that
      by (auto simp: send_id_list_def)
  next
    case False
    then show thesis using that [of st] R [of True] by (simp add: send_id_list_def)
  qed
  have R1: "ids_right db opt False (?nm False) st1" "complete (?nm False) {0} False st1"
    using keeps_other_right [OF 1(3), of db opt "?nm False"] complete_other [of "?nm False" "{0}" True st st1] 1(3) R [of False] by simp_all
  obtain st2 where 2: "(if preserve_gid opt \<or> preserve_acls opt then recv_ids (length ?bs + 1) pv db opt False st1 else rreturn st1) (?g @ rest)
      = Inr (st2, rest)" "ids_right db opt False (?nm False) st2" "keeps_other False st1 st2"
    "preserve_gid opt \<longrightarrow> complete (?nm False) (insert 0 (set gs)) False st2"
  proof (cases "preserve_gid opt \<or> preserve_acls opt")
    case True
    then have n: "length (send_ids pv (gidlist ?s)) \<le> length ?bs + 1" by (simp add: send_id_list_def)
    show thesis
      using recv_names_right [OF num R1 sent(2) sh(2) n, of rest] True that by auto
  next
    case False
    then show thesis using that [of st1] R1 by simp
  qed
  have m: "uidmap st2 = uidmap st" "gidmap st2 = gidmap st"
    using keeps_other_map [OF 1(3)] keeps_other_map [OF 2(3)] by (metis map_of_ids_def)+
  have U: "ids_right db opt True (?nm True) st2" "preserve_uid opt \<longrightarrow> complete (?nm True) (insert 0 (set us)) True st2"
    using keeps_other_right [OF 2(3), of db opt "?nm True"] complete_other [of "?nm True" _ False st1 st2] 1(2,4) 2(3) by simp_all
  define own :: "file_struct \<Rightarrow> file_struct" where "own f = (if am_root opt \<and> preserve_uid opt then f \<lparr>f_owner := local_id db opt sdb st True (f_owner f)\<rparr> else f)" for f
  obtain st3 where 3: "(if am_root opt \<and> preserve_uid opt then match_owners db opt st2 fs else (fs, st2)) = (map own fs, st3)" "keeps_other True st2 st3"
  proof (cases "am_root opt \<and> preserve_uid opt")
    case True
    then show thesis
      using match_owners_right [OF U(1), of "insert 0 (set us)" fs] U(2) fs that m by (auto simp: own_def local_id_def map_of_ids_def)
  next
    case False
    then have "map own fs = fs" by (intro map_idI) (auto simp: own_def)
    then show thesis using that [of st2] False by auto
  qed
  have m3: "gidmap st3 = gidmap st" using keeps_other_map [OF 3(2), of False] m by (simp add: map_of_ids_def)
  have G: "ids_right db opt False (?nm False) st3" "preserve_gid opt \<longrightarrow> complete (?nm False) (insert 0 (set gs)) False st3"
    using keeps_other_right [OF 3(2), of db opt "?nm False"] complete_other [of "?nm False" _ True st2 st3] 2(2,4) 3(2) by simp_all
  define grp :: "file_struct \<Rightarrow> file_struct" where "grp f = (if preserve_gid opt then let g = local_id db opt sdb st False (f_group f)
      in f \<lparr>f_group := g, flags := skip_flag db opt g (flags f)\<rparr> else f)" for f
  have "\<exists>st4. (if preserve_gid opt then match_groups db opt st3 (map own fs) else (map own fs, st3)) = (map grp (map own fs), st4)"
  proof (cases "preserve_gid opt")
    case True
    have "\<forall>f\<in>set (map own fs). f_group f \<in> insert 0 (set gs)" using fs by (auto simp: own_def)
    then show ?thesis
      using match_groups_right [OF G(1), of "insert 0 (set gs)" "map own fs"] G(2) True m3
      by (auto simp: grp_def local_id_def map_of_ids_def)
  qed (auto simp: grp_def cong: map_cong)
  then obtain st4 where 4: "(if preserve_gid opt then match_groups db opt st3 (map own fs) else (map own fs, st3)) = (map grp (map own fs), st4)" by blast
  have "grp (own f) = local_file db opt sdb st f" for f by (simp add: grp_def own_def local_file_def Let_def)
  then show ?thesis
    using 1(1) 2(1) 3(1) 4 num by (simp add: recv_id_list_def rbind_def comp_def)
qed

end
