(* ===== verification/Chmod.thy ===== *)
theory Chmod
  imports FileList
begin

text \<open>
  chmod.c: the argument of \<open>--chmod\<close> is parsed into pairs of masks (\<open>parse_chmod\<close>), which
  \<open>tweak_mode\<close> applies to a mode.
\<close>

unbundle bit_operations_syntax

subsection \<open>The model\<close>

definition CHMOD_BITS :: uint32 where "CHMOD_BITS = 0xFFF"

definition FLAG_X_KEEP :: "8 word" where "FLAG_X_KEEP = 1"
definition FLAG_DIRS_ONLY :: "8 word" where "FLAG_DIRS_ONLY = 2"
definition FLAG_FILES_ONLY :: "8 word" where "FLAG_FILES_ONLY = 4"

record chmod_mode_struct =
  ModeAND :: uint32
  ModeOR :: uint32
  cm_flags :: "8 word"

datatype chmod_op = CHMOD_ADD | CHMOD_SUB | CHMOD_EQ | CHMOD_SET

datatype chmod_state = STATE_1ST_HALF | STATE_2ND_HALF | STATE_OCTAL_NUM

text \<open>The variables of the parser; \<open>STATE_ERROR\<close> is the result \<open>None\<close> of a step, an \<open>op\<close> of 0 is \<open>None\<close>.\<close>

record chmod_vars =
  cv_state :: chmod_state
  cv_where :: uint32
  cv_what :: uint32
  cv_op :: "chmod_op option"
  cv_topbits :: uint32
  cv_topoct :: uint32
  cv_flags :: "8 word"

definition chmod_start :: chmod_vars where
  "chmod_start = \<lparr>cv_state = STATE_1ST_HALF, cv_where = 0, cv_what = 0, cv_op = None, cv_topbits = 0, cv_topoct = 0, cv_flags = 0\<rparr>"

definition chmod_clause :: "uint32 \<Rightarrow> chmod_op \<Rightarrow> chmod_vars \<Rightarrow> chmod_mode_struct" where
  "chmod_clause orig_umask op v =
     (let wh = (if cv_where v \<noteq> 0 then cv_where v else 0x49);
          bits = (if cv_where v \<noteq> 0 then wh * cv_what v else (wh * cv_what v) AND NOT orig_umask)
      in case op of
           CHMOD_ADD \<Rightarrow> \<lparr>ModeAND = CHMOD_BITS, ModeOR = bits + cv_topoct v, cm_flags = cv_flags v\<rparr>
         | CHMOD_SUB \<Rightarrow> \<lparr>ModeAND = CHMOD_BITS - bits - cv_topoct v, ModeOR = 0, cm_flags = cv_flags v\<rparr>
         | CHMOD_EQ \<Rightarrow> \<lparr>ModeAND = CHMOD_BITS - (wh * 7) - (if cv_topoct v \<noteq> 0 then cv_topbits v else 0),
                        ModeOR = bits + cv_topoct v, cm_flags = cv_flags v\<rparr>
         | CHMOD_SET \<Rightarrow> \<lparr>ModeAND = 0, ModeOR = bits, cm_flags = cv_flags v\<rparr>)"

definition octal_digit :: "char \<Rightarrow> bool" where
  "octal_digit c \<longleftrightarrow> 48 \<le> (of_char c :: nat) \<and> (of_char c :: nat) < 56"

definition first_half :: "chmod_vars \<Rightarrow> char \<Rightarrow> chmod_vars option" where
  "first_half v c =
     (if c = CHR ''D'' then (if cv_flags v AND FLAG_FILES_ONLY \<noteq> 0 then None else Some (v \<lparr>cv_flags := cv_flags v OR FLAG_DIRS_ONLY\<rparr>))
      else if c = CHR ''F'' then (if cv_flags v AND FLAG_DIRS_ONLY \<noteq> 0 then None else Some (v \<lparr>cv_flags := cv_flags v OR FLAG_FILES_ONLY\<rparr>))
      else if c = CHR ''u'' then Some (v \<lparr>cv_where := cv_where v OR 0x40, cv_topbits := cv_topbits v OR 0x800\<rparr>)
      else if c = CHR ''g'' then Some (v \<lparr>cv_where := cv_where v OR 8, cv_topbits := cv_topbits v OR 0x400\<rparr>)
      else if c = CHR ''o'' then Some (v \<lparr>cv_where := cv_where v OR 1\<rparr>)
      else if c = CHR ''a'' then Some (v \<lparr>cv_where := cv_where v OR 0x49\<rparr>)
      else if c = CHR ''+'' then Some (v \<lparr>cv_op := Some CHMOD_ADD, cv_state := STATE_2ND_HALF\<rparr>)
      else if c = CHR ''-'' then Some (v \<lparr>cv_op := Some CHMOD_SUB, cv_state := STATE_2ND_HALF\<rparr>)
      else if c = CHR ''='' then Some (v \<lparr>cv_op := Some CHMOD_EQ, cv_state := STATE_2ND_HALF\<rparr>)
      else if octal_digit c \<and> cv_where v = 0
           then Some (v \<lparr>cv_op := Some CHMOD_SET, cv_state := STATE_OCTAL_NUM, cv_where := 1, cv_what := of_char c - 48\<rparr>)
      else None)"

definition second_half :: "chmod_vars \<Rightarrow> char \<Rightarrow> chmod_vars option" where
  "second_half v c =
     (if c = CHR ''r'' then Some (v \<lparr>cv_what := cv_what v OR 4\<rparr>)
      else if c = CHR ''w'' then Some (v \<lparr>cv_what := cv_what v OR 2\<rparr>)
      else if c = CHR ''X'' then Some (v \<lparr>cv_flags := cv_flags v OR FLAG_X_KEEP, cv_what := cv_what v OR 1\<rparr>)
      else if c = CHR ''x'' then Some (v \<lparr>cv_what := cv_what v OR 1\<rparr>)
      else if c = CHR ''s'' then
        Some (v \<lparr>cv_topoct := (if cv_topbits v \<noteq> 0 then cv_topoct v OR cv_topbits v else 0x800)\<rparr>)
      else if c = CHR ''t'' then Some (v \<lparr>cv_topoct := cv_topoct v OR 0x200\<rparr>)
      else None)"

definition octal_num :: "chmod_vars \<Rightarrow> char \<Rightarrow> chmod_vars option" where
  "octal_num v c =
     (if octal_digit c then
        (let what = cv_what v * 8 + of_char c - 48 in if what > CHMOD_BITS then None else Some (v \<lparr>cv_what := what\<rparr>))
      else None)"

definition chmod_step :: "chmod_vars \<Rightarrow> char \<Rightarrow> chmod_vars option" where
  "chmod_step v c =
     (case cv_state v of
        STATE_1ST_HALF \<Rightarrow> first_half v c
      | STATE_2ND_HALF \<Rightarrow> second_half v c
      | STATE_OCTAL_NUM \<Rightarrow> octal_num v c)"

text \<open>
  The loop; \<open>modes\<close> are the items made so far. Behind a comma the code goes on with the next
  character without looking for the end again; a second comma or the end is an error there as here,
  since no operator has been seen.
\<close>

fun chmod_loop :: "uint32 \<Rightarrow> string \<Rightarrow> chmod_vars \<Rightarrow> chmod_mode_struct list \<Rightarrow> chmod_mode_struct list option" where
  "chmod_loop um [] v modes =
     (case cv_op v of None \<Rightarrow> None | Some op \<Rightarrow> Some (modes @ [chmod_clause um op v]))"
| "chmod_loop um (c # s) v modes =
     (if c = CHR '','' then
        (case cv_op v of None \<Rightarrow> None | Some op \<Rightarrow> chmod_loop um s chmod_start (modes @ [chmod_clause um op v]))
      else case chmod_step v c of None \<Rightarrow> None | Some v \<Rightarrow> chmod_loop um s v modes)"

text \<open>The result is the new items and the list that \<open>root_mode_ptr\<close> then has.\<close>

definition parse_chmod :: "uint32 \<Rightarrow> string \<Rightarrow> chmod_mode_struct list \<Rightarrow> (chmod_mode_struct list \<times> chmod_mode_struct list) option" where
  "parse_chmod orig_umask modestr root_modes =
     map_option (\<lambda>ms. (ms, root_modes @ ms)) (chmod_loop orig_umask modestr chmod_start [])"

text \<open>\<open>S_ISDIR\<close> of a \<open>mode_t\<close>.\<close>

definition is_dir_mode :: "uint32 \<Rightarrow> bool" where
  "is_dir_mode m = S_ISDIR (ucast m)"

definition tweak_one :: "bool \<Rightarrow> bool \<Rightarrow> chmod_mode_struct \<Rightarrow> uint32 \<Rightarrow> uint32" where
  "tweak_one isx isdir cm m =
     (if cm_flags cm AND FLAG_DIRS_ONLY \<noteq> 0 \<and> \<not> isdir then m
      else if cm_flags cm AND FLAG_FILES_ONLY \<noteq> 0 \<and> isdir then m
      else (m AND ModeAND cm) OR
        (if cm_flags cm AND FLAG_X_KEEP \<noteq> 0 \<and> \<not> isx \<and> \<not> isdir then ModeOR cm AND NOT 0x49 else ModeOR cm))"

definition tweak_mode :: "uint32 \<Rightarrow> chmod_mode_struct list \<Rightarrow> uint32" where
  "tweak_mode m modes =
     (let isx = (m AND 0x49 \<noteq> 0); nonperm = m AND NOT CHMOD_BITS
      in fold (tweak_one isx (is_dir_mode nonperm)) modes m OR nonperm)"

end
