(* ===== verification/FileEntry.thy ===== *)
theory FileEntry
  imports FileClean IdList Chmod
begin

text \<open>
  The transfer of a file list (flist.c): \<open>send_file_entry\<close> and \<open>recv_file_entry\<close>, which leave out
  what an entry has in common with the one before, and the loops of \<open>send_file_list\<close> and
  \<open>recv_file_list\<close> around them. ACLs, extended attributes, character sets and statistics are left out.
\<close>

unbundle bit_operations_syntax

subsection \<open>Device numbers\<close>

text \<open>\<open>dev_t\<close> is 64 bits, taken apart and put together as by \<open>sys/sysmacros.h\<close> of Linux.\<close>

definition dev_major :: "uint64 \<Rightarrow> uint32" where
  "dev_major d = (ucast (drop_bit 8 d) AND 0xFFF) OR (ucast (drop_bit 32 d) AND NOT 0xFFF)"

definition dev_minor :: "uint64 \<Rightarrow> uint32" where
  "dev_minor d = (ucast d AND 0xFF) OR (ucast (drop_bit 12 d) AND NOT 0xFF)"

definition makedev :: "uint32 \<Rightarrow> uint32 \<Rightarrow> uint64" where
  "makedev ma mi =
     push_bit 8 (ucast (ma AND 0xFFF)) OR push_bit 32 (ucast (ma AND NOT 0xFFF))
     OR ucast (mi AND 0xFF) OR push_bit 12 (ucast (mi AND NOT 0xFF))"

lemma makedev_parts: "dev_major (makedev ma mi) = ma" "dev_minor (makedev ma mi) = mi"
proof -
  have m: "(0xFFF :: uint32) = mask 12" "(0xFF :: uint32) = mask 8" by (simp_all add: mask_eq_exp_minus_1)
  show "dev_major (makedev ma mi) = ma" "dev_minor (makedev ma mi) = mi"
    unfolding dev_major_def dev_minor_def makedev_def m by (rule bit_word_eqI; auto simp: bit_simps)+
qed

subsection \<open>Options\<close>

record flist_opts =
  o_ids :: id_opts
  protocol_version :: int
  inc_recurse :: bool
  recurse :: bool
  relative_paths :: bool
  preserve_devices :: bool
  preserve_specials :: bool
  preserve_links :: bool
  preserve_hard_links :: bool
  always_checksum :: bool
  flist_csum_len :: nat
  sanitize_paths :: bool
  munge_symlinks :: bool
  module_dir :: string
  chmod_modes :: "chmod_mode_struct list"
  use_safe_inc_flist :: bool

text \<open>The bits of the flag word that starts an entry.\<close>

definition XMIT_TOP_DIR :: "16 word" where "XMIT_TOP_DIR = 0x0001"
definition XMIT_SAME_MODE :: "16 word" where "XMIT_SAME_MODE = 0x0002"
definition XMIT_SAME_RDEV_pre28 :: "16 word" where "XMIT_SAME_RDEV_pre28 = 0x0004"
definition XMIT_EXTENDED_FLAGS :: "16 word" where "XMIT_EXTENDED_FLAGS = 0x0004"
definition XMIT_SAME_UID :: "16 word" where "XMIT_SAME_UID = 0x0008"
definition XMIT_SAME_GID :: "16 word" where "XMIT_SAME_GID = 0x0010"
definition XMIT_SAME_NAME :: "16 word" where "XMIT_SAME_NAME = 0x0020"
definition XMIT_LONG_NAME :: "16 word" where "XMIT_LONG_NAME = 0x0040"
definition XMIT_SAME_TIME :: "16 word" where "XMIT_SAME_TIME = 0x0080"
definition XMIT_SAME_RDEV_MAJOR :: "16 word" where "XMIT_SAME_RDEV_MAJOR = 0x0100"
definition XMIT_NO_CONTENT_DIR :: "16 word" where "XMIT_NO_CONTENT_DIR = 0x0100"
definition XMIT_HLINKED :: "16 word" where "XMIT_HLINKED = 0x0200"
definition XMIT_SAME_DEV_pre30 :: "16 word" where "XMIT_SAME_DEV_pre30 = 0x0400"
definition XMIT_USER_NAME_FOLLOWS :: "16 word" where "XMIT_USER_NAME_FOLLOWS = 0x0400"
definition XMIT_RDEV_MINOR_8_pre30 :: "16 word" where "XMIT_RDEV_MINOR_8_pre30 = 0x0800"
definition XMIT_GROUP_NAME_FOLLOWS :: "16 word" where "XMIT_GROUP_NAME_FOLLOWS = 0x0800"
definition XMIT_HLINK_FIRST :: "16 word" where "XMIT_HLINK_FIRST = 0x1000"
definition XMIT_IO_ERROR_ENDLIST :: "16 word" where "XMIT_IO_ERROR_ENDLIST = 0x1000"
definition XMIT_MOD_NSEC :: "16 word" where "XMIT_MOD_NSEC = 0x2000"

abbreviation has :: "16 word \<Rightarrow> 16 word \<Rightarrow> bool" where
  "has xflags b \<equiv> xflags AND b \<noteq> 0"

subsection \<open>send_file_entry\<close>

text \<open>
  The static variables, with the lists of ids and the table of \<open>idev_find\<close> (0 for an inode not seen
  before); and the \<open>tmp_\<close> variables that \<open>make_file\<close> has set, where a device of -1 means no link.
\<close>

record send_vars =
  sv_modtime :: uint64
  sv_mode :: uint32
  sv_dev :: uint64
  sv_rdev :: uint64
  sv_rdev_major :: uint32
  sv_uid :: uint32
  sv_gid :: uint32
  sv_lastname :: string
  sv_ids :: id_state
  sv_idev :: "uint64 \<times> uint64 \<Rightarrow> int"

definition send_start :: send_vars where
  "send_start = \<lparr>sv_modtime = 0, sv_mode = 0, sv_dev = 0, sv_rdev = 0, sv_rdev_major = 0, sv_uid = 0, sv_gid = 0,
     sv_lastname = [], sv_ids = id_start, sv_idev = (\<lambda>_. 0)\<rparr>"

record send_tmp =
  tmp_rdev :: uint64
  tmp_dev :: uint64
  tmp_ino :: uint64
  tmp_sum :: "byte list"

definition dir_xflags :: "int \<Rightarrow> file_struct \<Rightarrow> 16 word" where
  "dir_xflags pv f =
     (if \<not> S_ISDIR (mode f) then 0
      else if pv \<ge> 30 then
        (if flags f AND FLAG_CONTENT_DIR \<noteq> 0 then flags f AND FLAG_TOP_DIR
         else if flags f AND FLAG_IMPLIED_DIR \<noteq> 0 then XMIT_TOP_DIR OR XMIT_NO_CONTENT_DIR
         else XMIT_NO_CONTENT_DIR)
      else flags f AND FLAG_TOP_DIR)"

definition send_mode :: "send_vars \<Rightarrow> file_struct \<Rightarrow> 16 word \<times> send_vars" where
  "send_mode v f =
     (if ucast (mode f) = sv_mode v then (XMIT_SAME_MODE, v) else (0, v \<lparr>sv_mode := ucast (mode f)\<rparr>))"

definition send_rdev :: "flist_opts \<Rightarrow> send_tmp \<Rightarrow> send_vars \<Rightarrow> file_struct \<Rightarrow> 16 word \<times> send_vars" where
  "send_rdev opt tmp v f =
     (let pv = protocol_version opt in
      if preserve_devices opt \<and> IS_DEVICE (mode f) then
        (if pv < 28 then
           (if tmp_rdev tmp = sv_rdev v then (XMIT_SAME_RDEV_pre28, v) else (0, v \<lparr>sv_rdev := tmp_rdev tmp\<rparr>))
         else
           let v = v \<lparr>sv_rdev := tmp_rdev tmp\<rparr>;
               (x, v) = (if dev_major (sv_rdev v) = sv_rdev_major v then (XMIT_SAME_RDEV_MAJOR, v)
                         else (0, v \<lparr>sv_rdev_major := dev_major (sv_rdev v)\<rparr>))
           in (x OR (if pv < 30 \<and> dev_minor (sv_rdev v) \<le> 0xFF then XMIT_RDEV_MINOR_8_pre30 else 0), v))
      else if preserve_specials opt \<and> IS_SPECIAL (mode f) \<and> pv < 31 then
        (if pv < 28 then (XMIT_SAME_RDEV_pre28, v)
         else (XMIT_SAME_RDEV_MAJOR OR (if pv < 30 then XMIT_RDEV_MINOR_8_pre30 else 0),
               v \<lparr>sv_rdev := makedev (dev_major (sv_rdev v)) 0\<rparr>))
      else (0, if pv < 28 then v \<lparr>sv_rdev := makedev 0 0\<rparr> else v))"

definition send_uid :: "flist_opts \<Rightarrow> sysdb \<Rightarrow> send_vars \<Rightarrow> file_struct \<Rightarrow> 16 word \<times> string option \<times> send_vars" where
  "send_uid opt db v f =
     (if \<not> preserve_uid (o_ids opt) \<or> (f_owner f = sv_uid v \<and> sv_lastname v \<noteq> []) then (XMIT_SAME_UID, None, v)
      else
        let v = v \<lparr>sv_uid := f_owner f\<rparr> in
        if numeric_ids (o_ids opt) = 0 then
          (let (name, ids) = add_uid db (sv_ids v) (f_owner f)
           in (if inc_recurse opt \<and> name \<noteq> None then XMIT_USER_NAME_FOLLOWS else 0, name, v \<lparr>sv_ids := ids\<rparr>))
        else (0, None, v))"

definition send_gid :: "flist_opts \<Rightarrow> sysdb \<Rightarrow> send_vars \<Rightarrow> file_struct \<Rightarrow> 16 word \<times> string option \<times> send_vars" where
  "send_gid opt db v f =
     (if \<not> preserve_gid (o_ids opt) \<or> (f_group f = sv_gid v \<and> sv_lastname v \<noteq> []) then (XMIT_SAME_GID, None, v)
      else
        let v = v \<lparr>sv_gid := f_group f\<rparr> in
        if numeric_ids (o_ids opt) = 0 then
          (let (name, ids) = add_gid db (sv_ids v) (f_group f)
           in (if inc_recurse opt \<and> name \<noteq> None then XMIT_GROUP_NAME_FOLLOWS else 0, name, v \<lparr>sv_ids := ids\<rparr>))
        else (0, None, v))"

definition send_time :: "flist_opts \<Rightarrow> send_vars \<Rightarrow> file_struct \<Rightarrow> 16 word \<times> send_vars" where
  "send_time opt v f =
     (let (x, v) = (if modtime f = sv_modtime v then (XMIT_SAME_TIME, v) else (0, v \<lparr>sv_modtime := modtime f\<rparr>))
      in (x OR (if flags f AND FLAG_MOD_NSEC \<noteq> 0 \<and> protocol_version opt \<ge> 31 then XMIT_MOD_NSEC else 0), v))"

text \<open>The third component is \<open>first_hlink_ndx\<close>.\<close>

definition send_hlink :: "flist_opts \<Rightarrow> send_tmp \<Rightarrow> send_vars \<Rightarrow> int \<Rightarrow> int \<Rightarrow> 16 word \<times> int \<times> send_vars" where
  "send_hlink opt tmp v ndx first_ndx =
     (if tmp_dev tmp = - 1 then (0, - 1, v)
      else if protocol_version opt \<ge> 30 then
        (let d = sv_idev v (tmp_dev tmp, tmp_ino tmp) - 1
         in if d < 0 then (XMIT_HLINK_FIRST OR XMIT_HLINKED, d,
                           v \<lparr>sv_idev := (sv_idev v) ((tmp_dev tmp, tmp_ino tmp) := first_ndx + ndx + 1)\<rparr>)
            else (XMIT_HLINKED, d, v))
      else if tmp_dev tmp = sv_dev v then
        ((if protocol_version opt \<ge> 28 then XMIT_SAME_DEV_pre30 else 0) OR XMIT_HLINKED, - 1, v)
      else (XMIT_HLINKED, - 1, v \<lparr>sv_dev := tmp_dev tmp\<rparr>))"

fun same_start :: "string \<Rightarrow> string \<Rightarrow> nat" where
  "same_start (a # s) (b # t) = (if a = b then Suc (same_start s t) else 0)"
| "same_start s t = 0"

text \<open>The flag word; the result also has the flags as they are after this.\<close>

definition write_xflags :: "int \<Rightarrow> bool \<Rightarrow> 16 word \<Rightarrow> byte list \<times> 16 word" where
  "write_xflags pv isdir xflags =
     (if pv \<ge> 28 then
        (let x = (if xflags = 0 \<and> \<not> isdir then xflags OR XMIT_TOP_DIR else xflags)
         in if has x 0xFF00 \<or> x = 0 then (write_shortint (x OR XMIT_EXTENDED_FLAGS), x OR XMIT_EXTENDED_FLAGS)
            else (write_byte (ucast x), x))
      else
        (let x = (if \<not> has xflags 0xFF then xflags OR (if isdir then XMIT_LONG_NAME else XMIT_TOP_DIR) else xflags)
         in (write_byte (ucast x), x)))"

definition send_name :: "int \<Rightarrow> 16 word \<Rightarrow> nat \<Rightarrow> string \<Rightarrow> byte list" where
  "send_name pv x l1 fname =
     (let l2 = length fname - l1
      in (if has x XMIT_SAME_NAME then write_byte (word_of_nat l1) else [])
         @ (if has x XMIT_LONG_NAME then write_varint30 pv (word_of_nat l2) else write_byte (word_of_nat l2))
         @ bytes_of (drop l1 fname))"

definition send_id :: "int \<Rightarrow> bool \<Rightarrow> uint32 \<Rightarrow> string option \<Rightarrow> byte list" where
  "send_id pv follows i name =
     (if pv < 30 then write_int (sint i)
      else write_varint i @ (if follows then write_name (case name of None \<Rightarrow> [] | Some s \<Rightarrow> s) else []))"

text \<open>What is sent behind the name.\<close>

definition send_attrs :: "flist_opts \<Rightarrow> send_tmp \<Rightarrow> send_vars \<Rightarrow> file_struct \<Rightarrow> string \<Rightarrow> 16 word \<Rightarrow> string option \<Rightarrow> string option \<Rightarrow> byte list" where
  "send_attrs opt tmp v f symlink x user_name group_name =
     (let pv = protocol_version opt; ids = o_ids opt in
      write_varlong30 pv (F_LENGTH f) 3
      @ (if \<not> has x XMIT_SAME_TIME then (if pv \<ge> 30 then write_varlong (modtime f) 4 else write_int (sint (ucast (modtime f) :: uint32))) else [])
      @ (if has x XMIT_MOD_NSEC then write_varint (F_MOD_NSEC f) else [])
      @ (if \<not> has x XMIT_SAME_MODE then write_int (uint (mode f)) else [])
      @ (if preserve_uid ids \<and> \<not> has x XMIT_SAME_UID then send_id pv (has x XMIT_USER_NAME_FOLLOWS) (f_owner f) user_name else [])
      @ (if preserve_gid ids \<and> \<not> has x XMIT_SAME_GID then send_id pv (has x XMIT_GROUP_NAME_FOLLOWS) (f_group f) group_name else [])
      @ (if preserve_devices opt \<and> IS_DEVICE (mode f) \<or> preserve_specials opt \<and> IS_SPECIAL (mode f) \<and> pv < 31 then
           (if pv < 28 then (if \<not> has x XMIT_SAME_RDEV_pre28 then write_int (sint (ucast (sv_rdev v) :: uint32)) else [])
            else (if \<not> has x XMIT_SAME_RDEV_MAJOR then write_varint30 pv (dev_major (sv_rdev v)) else [])
              @ (if pv \<ge> 30 then write_varint (dev_minor (sv_rdev v))
                 else if has x XMIT_RDEV_MINOR_8_pre30 then write_byte (ucast (dev_minor (sv_rdev v)))
                 else write_int (sint (dev_minor (sv_rdev v)))))
         else [])
      @ (if symlink \<noteq> [] then write_varint30 pv (word_of_nat (length symlink)) @ bytes_of symlink else [])
      @ (if tmp_dev tmp \<noteq> - 1 \<and> pv < 30 then
           (if pv < 26 then write_int (sint (ucast (sv_dev v + 1) :: uint32)) @ write_int (sint (ucast (tmp_ino tmp) :: uint32))
            else (if \<not> has x XMIT_SAME_DEV_pre30 then write_longint (sv_dev v + 1) else []) @ write_longint (tmp_ino tmp))
         else [])
      @ (if always_checksum opt \<and> (S_ISREG (mode f) \<or> pv < 28)
         then (if S_ISREG (mode f) then take (flist_csum_len opt) (tmp_sum tmp) else replicate (flist_csum_len opt) 0) else []))"

definition send_file_entry :: "flist_opts \<Rightarrow> sysdb \<Rightarrow> send_vars \<Rightarrow> send_tmp \<Rightarrow> string \<Rightarrow> file_struct \<Rightarrow> string \<Rightarrow> int \<Rightarrow> int \<Rightarrow> byte list \<times> send_vars" where
  "send_file_entry opt db v tmp fname f symlink ndx first_ndx =
     (let pv = protocol_version opt;
          (x1, v) = send_mode v f;
          (x2, v) = send_rdev opt tmp v f;
          (x3, user_name, v) = send_uid opt db v f;
          (x4, group_name, v) = send_gid opt db v f;
          (x5, v) = send_time opt v f;
          (x6, first_hlink_ndx, v) = send_hlink opt tmp v ndx first_ndx;
          l1 = min 255 (same_start (sv_lastname v) fname);
          x7 = (if l1 > 0 then XMIT_SAME_NAME else 0) OR (if length fname - l1 > 255 then XMIT_LONG_NAME else 0);
          (head, x) = write_xflags pv (S_ISDIR (mode f)) (dir_xflags pv f OR x1 OR x2 OR x3 OR x4 OR x5 OR x6 OR x7)
      in (head @ send_name pv x l1 fname
          @ (if first_hlink_ndx \<ge> 0 then write_varint (word_of_int first_hlink_ndx) else [])
          @ (if first_hlink_ndx \<ge> 0 \<and> first_hlink_ndx \<ge> first_ndx then []
             else send_attrs opt tmp v f symlink x user_name group_name),
          v \<lparr>sv_lastname := take (MAXPATHLEN - 1) fname\<rparr>))"

subsection \<open>recv_file_entry\<close>

text \<open>
  The static variables. \<open>rv_dirs\<close> holds the strings that were allocated for \<open>lastdir\<close>, the address
  of a string is its index; \<open>rv_idev\<close> and \<open>rv_cnt\<close> number the inodes before protocol 30.
\<close>

record recv_vars =
  rv_modtime :: uint64
  rv_mode :: uint32
  rv_dev :: uint64
  rv_rdev :: uint64
  rv_rdev_major :: uint32
  rv_uid :: uint32
  rv_gid :: uint32
  rv_gid_flags :: "16 word"
  rv_lastname :: string
  rv_dirs :: "string list"
  rv_lastdir :: "nat option"
  rv_lastdir_depth :: int
  rv_del_hier_name_len :: nat
  rv_in_del_hier :: bool
  rv_ids :: id_state
  rv_idev :: "uint64 \<times> uint64 \<Rightarrow> int"
  rv_cnt :: int

definition recv_start :: "id_state \<Rightarrow> recv_vars" where
  "recv_start ids = \<lparr>rv_modtime = 0, rv_mode = 0, rv_dev = 0, rv_rdev = 0, rv_rdev_major = 0, rv_uid = 0, rv_gid = 0,
     rv_gid_flags = 0, rv_lastname = [], rv_dirs = [], rv_lastdir = None, rv_lastdir_depth = 0, rv_del_hier_name_len = 0,
     rv_in_del_hier = False, rv_ids = ids, rv_idev = (\<lambda>_. 0), rv_cnt = 0\<rparr>"

definition refuse_dots :: cfn_flags where
  "refuse_dots = \<lparr>keep_dot_dirs = False, keep_trailing_slash = False, drop_trailing_dot_dir = False,
     collapse_dot_dot_dirs = False, refuse_dot_dot_dirs = True\<rparr>"

text \<open>\<open>l1\<close>, \<open>l2\<close> and \<open>thisname\<close>; \<open>lastname\<close> is the name before it is cleaned.\<close>

definition recv_name :: "flist_opts \<Rightarrow> recv_vars \<Rightarrow> 16 word \<Rightarrow> (nat \<times> nat \<times> string \<times> recv_vars) reader" where
  "recv_name opt v x =
     rbind (if has x XMIT_SAME_NAME then rbind read_byte (\<lambda>b. rreturn (unat b)) else rreturn 0) (\<lambda>l1.
     rbind (if has x XMIT_LONG_NAME then rbind (read_varint30 (protocol_version opt)) (\<lambda>w. rreturn (unat w))
            else rbind read_byte (\<lambda>b. rreturn (unat b))) (\<lambda>l2.
     if l2 \<ge> MAXPATHLEN - l1 then rfail RERR_MALLOC
     else rbind (read_buf l2) (\<lambda>b.
       let name = (if length (rv_lastname v) < l1 then rv_lastname v else take l1 (rv_lastname v) @ cstr b);
           v = v \<lparr>rv_lastname := name\<rparr>
       in case (if name = [] then Some name else clean_fname refuse_dots name) of
            None \<Rightarrow> rfail RERR_PROTOCOL
          | Some clean \<Rightarrow>
              if name \<noteq> [] \<and> \<not> relative_paths opt \<and> take 1 clean = ''/'' then rfail RERR_PROTOCOL
              else case (if sanitize_paths opt then sanitize_path (module_dir opt) (relative_paths opt) In_place clean (Some []) 0 False
                         else Some clean) of
                None \<Rightarrow> rfail RERR_PROTOCOL
              | Some thisname \<Rightarrow> rreturn (l1, l2, thisname, v))))"

text \<open>The part before the last slash, if there is one, and the part behind it.\<close>

definition split_dir :: "string \<Rightarrow> string option \<times> string" where
  "split_dir s =
     (let b = last (split_slash s)
      in if CHR ''/'' \<in> set s then (Some (take (length s - length b - 1) s), b) else (None, s))"

definition recv_dir :: "recv_vars \<Rightarrow> string \<Rightarrow> (nat \<times> string) option \<times> string \<times> recv_vars" where
  "recv_dir v thisname =
     (case split_dir thisname of
        (None, b) \<Rightarrow> (None, b, v)
      | (Some d, b) \<Rightarrow>
          (case rv_lastdir v of
             Some a \<Rightarrow> if rv_dirs v ! a = d then (Some (a, d), b, v)
               else (Some (length (rv_dirs v), d), b,
                     v \<lparr>rv_dirs := rv_dirs v @ [d], rv_lastdir := Some (length (rv_dirs v)), rv_lastdir_depth := int (count_dir_elements d)\<rparr>)
           | None \<Rightarrow> (Some (length (rv_dirs v), d), b,
                     v \<lparr>rv_dirs := rv_dirs v @ [d], rv_lastdir := Some (length (rv_dirs v)), rv_lastdir_depth := int (count_dir_elements d)\<rparr>)))"

text \<open>Where the target of a symbolic link comes from: there is none, it is read, or taken from the first link.\<close>

datatype link_data = No_link | Read_link nat | Copy_link string

record recv_values =
  va_length :: uint64
  va_nsec :: uint32
  va_link :: link_data

definition recv_uid :: "flist_opts \<Rightarrow> sysdb \<Rightarrow> recv_vars \<Rightarrow> 16 word \<Rightarrow> recv_vars reader" where
  "recv_uid opt db v x =
     (let ids = o_ids opt in
      if protocol_version opt < 30 then rbind read_int (\<lambda>i. rreturn (v \<lparr>rv_uid := word_of_int i\<rparr>))
      else rbind read_varint (\<lambda>u.
        if has x XMIT_USER_NAME_FOLLOWS then
          rbind (recv_user_name db ids (rv_ids v) u) (\<lambda>(u, st). rreturn (v \<lparr>rv_uid := u, rv_ids := st\<rparr>))
        else if inc_recurse opt \<and> am_root ids \<and> (numeric_ids ids = 0 \<or> usermap ids) then
          (let (u, st) = match_uid db ids (rv_ids v) u in rreturn (v \<lparr>rv_uid := u, rv_ids := st\<rparr>))
        else rreturn (v \<lparr>rv_uid := u\<rparr>)))"

definition recv_gid :: "flist_opts \<Rightarrow> sysdb \<Rightarrow> recv_vars \<Rightarrow> 16 word \<Rightarrow> recv_vars reader" where
  "recv_gid opt db v x =
     (let ids = o_ids opt in
      if protocol_version opt < 30 then rbind read_int (\<lambda>i. rreturn (v \<lparr>rv_gid := word_of_int i\<rparr>))
      else rbind read_varint (\<lambda>g.
        if has x XMIT_GROUP_NAME_FOLLOWS then
          rbind (recv_group_name db ids (rv_ids v) g 0) (\<lambda>(g, fl, st). rreturn (v \<lparr>rv_gid := g, rv_gid_flags := fl, rv_ids := st\<rparr>))
        else if inc_recurse opt \<and> (\<not> am_root ids \<or> numeric_ids ids = 0 \<or> groupmap ids) then
          (let (g, fl, st) = match_gid db ids (rv_ids v) g 0 in rreturn (v \<lparr>rv_gid := g, rv_gid_flags := fl, rv_ids := st\<rparr>))
        else rreturn (v \<lparr>rv_gid := g, rv_gid_flags := 0\<rparr>)))"

definition recv_rdev :: "flist_opts \<Rightarrow> recv_vars \<Rightarrow> 16 word \<Rightarrow> recv_vars reader" where
  "recv_rdev opt v x =
     (let pv = protocol_version opt in
      if pv < 28 then (if \<not> has x XMIT_SAME_RDEV_pre28 then rbind read_int (\<lambda>i. rreturn (v \<lparr>rv_rdev := word_of_int i\<rparr>)) else rreturn v)
      else
        rbind (if \<not> has x XMIT_SAME_RDEV_MAJOR then rbind (read_varint30 pv) (\<lambda>m. rreturn (v \<lparr>rv_rdev_major := m\<rparr>)) else rreturn v) (\<lambda>v.
        rbind (if pv \<ge> 30 then read_varint
               else if has x XMIT_RDEV_MINOR_8_pre30 then rbind read_byte (\<lambda>b. rreturn (ucast b))
               else rbind read_int (\<lambda>i. rreturn (word_of_int i))) (\<lambda>minor.
          rreturn (v \<lparr>rv_rdev := makedev (rv_rdev_major v) minor\<rparr>))))"

text \<open>The mode of the entry being read, as the \<open>S_IS\<close> macros see it.\<close>

abbreviation mode16 :: "recv_vars \<Rightarrow> 16 word" where
  "mode16 v \<equiv> ucast (rv_mode v)"

definition has_rdev :: "flist_opts \<Rightarrow> recv_vars \<Rightarrow> bool" where
  "has_rdev opt v \<longleftrightarrow> preserve_devices opt \<and> IS_DEVICE (mode16 v)
     \<or> preserve_specials opt \<and> IS_SPECIAL (mode16 v) \<and> protocol_version opt < 31"

definition recv_attrs :: "flist_opts \<Rightarrow> sysdb \<Rightarrow> recv_vars \<Rightarrow> 16 word \<Rightarrow> (recv_values \<times> recv_vars) reader" where
  "recv_attrs opt db v x =
     (let pv = protocol_version opt; ids = o_ids opt in
      rbind (read_varlong30 pv 3) (\<lambda>file_length.
      rbind (if \<not> has x XMIT_SAME_TIME then
               (if pv \<ge> 30 then rbind (read_varlong 4) (\<lambda>t. rreturn (v \<lparr>rv_modtime := t\<rparr>))
                else rbind read_int (\<lambda>t. rreturn (v \<lparr>rv_modtime := word_of_int t\<rparr>)))
             else rreturn v) (\<lambda>v.
      rbind (if has x XMIT_MOD_NSEC then read_varint else rreturn 0) (\<lambda>nsec.
      rbind (if \<not> has x XMIT_SAME_MODE then rbind read_int (\<lambda>m. rreturn (v \<lparr>rv_mode := word_of_int m\<rparr>)) else rreturn v) (\<lambda>v.
      let v = (if chmod_modes opt \<noteq> [] \<and> \<not> S_ISLNK (mode16 v) \<and> rv_mode v \<noteq> 0
               then v \<lparr>rv_mode := tweak_mode (rv_mode v) (chmod_modes opt)\<rparr> else v) in
      rbind (if preserve_uid ids \<and> \<not> has x XMIT_SAME_UID then recv_uid opt db v x else rreturn v) (\<lambda>v.
      rbind (if preserve_gid ids \<and> \<not> has x XMIT_SAME_GID then recv_gid opt db v x else rreturn v) (\<lambda>v.
      rbind (if has_rdev opt v then rbind (recv_rdev opt v x) (\<lambda>v. rreturn (0, v))
             else rreturn (file_length, if pv < 28 then v \<lparr>rv_rdev := makedev 0 0\<rparr> else v)) (\<lambda>(file_length, v).
      rbind (if preserve_links opt \<and> S_ISLNK (mode16 v) then
               rbind (read_varint30 pv) (\<lambda>n.
                 let len = sint (n + 1) in
                 if len \<le> 0 \<or> len > int MAXPATHLEN then rfail RERR_MALLOC else rreturn (Read_link (nat (len - 1))))
             else rreturn No_link) (\<lambda>link.
        rreturn (\<lparr>va_length = file_length, va_nsec = nsec, va_link = link\<rparr>, v))))))))))"

text \<open>The values of an entry that is a further link to the entry \<open>first\<close> of the same list.\<close>

definition recv_from_first :: "flist_opts \<Rightarrow> recv_vars \<Rightarrow> file_struct \<Rightarrow> recv_values \<times> recv_vars" where
  "recv_from_first opt v first =
     (let v = v \<lparr>rv_modtime := modtime first, rv_mode := ucast (mode first)\<rparr>;
          v = (if preserve_uid (o_ids opt) then v \<lparr>rv_uid := f_owner first\<rparr> else v);
          v = (if preserve_gid (o_ids opt) then v \<lparr>rv_gid := f_group first\<rparr> else v);
          v = (if preserve_devices opt \<and> IS_DEVICE (mode16 v) then v \<lparr>rv_rdev := makedev (fst (f_rdev first)) (snd (f_rdev first))\<rparr> else v)
      in (\<lparr>va_length = F_LENGTH first, va_nsec = F_MOD_NSEC first,
           va_link = (if preserve_links opt \<and> S_ISLNK (mode16 v) then Copy_link (f_symlink first) else No_link)\<rparr>, v))"

text \<open>The flags of a directory and the variables of the hierarchy that may be deleted in.\<close>

definition recv_dir_flags :: "flist_opts \<Rightarrow> recv_vars \<Rightarrow> 16 word \<Rightarrow> nat \<Rightarrow> nat \<Rightarrow> int \<Rightarrow> 16 word \<times> recv_vars" where
  "recv_dir_flags opt v x l1 l2 depth =
     (if protocol_version opt \<ge> 30 then
        (if \<not> has x XMIT_NO_CONTENT_DIR then ((if has x XMIT_TOP_DIR then FLAG_TOP_DIR else 0) OR FLAG_CONTENT_DIR, v)
         else (if has x XMIT_TOP_DIR then FLAG_IMPLIED_DIR else 0, v))
      else if has x XMIT_TOP_DIR then
        (let n = (if depth = 0 then 0 else l1 + l2);
             n = (if relative_paths opt \<and> n > 2 \<and> rv_lastname v ! (n - 1) = CHR ''.'' \<and> rv_lastname v ! (n - 2) = CHR ''/'' then n - 2 else n)
         in (FLAG_TOP_DIR OR FLAG_CONTENT_DIR, v \<lparr>rv_in_del_hier := recurse opt, rv_del_hier_name_len := n\<rparr>))
      else if rv_in_del_hier v then
        (if \<not> relative_paths opt \<or> rv_del_hier_name_len v = 0
            \<or> l1 \<ge> rv_del_hier_name_len v \<and> (rv_lastname v @ [CHR 0x00]) ! rv_del_hier_name_len v = CHR ''/''
         then (FLAG_CONTENT_DIR, v) else (0, v \<lparr>rv_in_del_hier := False\<rparr>))
      else (0, v))"

text \<open>The entry as it is after its fixed fields are set.\<close>

definition new_entry :: "flist_opts \<Rightarrow> recv_vars \<Rightarrow> 16 word \<Rightarrow> nat \<Rightarrow> nat \<Rightarrow> (nat \<times> string) option \<Rightarrow> string \<Rightarrow> recv_values \<Rightarrow> file_struct \<times> recv_vars" where
  "new_entry opt v x l1 l2 dir base va =
     (let m = mode16 v;
          long = (va_length va > 0xFFFFFFFF \<and> S_ISREG m);
          depth = (if dir \<noteq> None then rv_lastdir_depth v + 1 else 1);
          depth = (if S_ISDIR m \<and> base = ''.'' then depth - 1 else depth);
          (dflags, v) = (if S_ISDIR m then recv_dir_flags opt v x l1 l2 depth else (0, v));
          f = empty_file \<lparr>dirname := dir, basename := base, modtime := rv_modtime v, len32 := ucast (va_length va), mode := m,
            flags := (if has x XMIT_HLINKED then FLAG_HLINKED else 0) OR (if va_nsec va \<noteq> 0 then FLAG_MOD_NSEC else 0)
              OR (if long then FLAG_LENGTH64 else 0) OR (if preserve_gid (o_ids opt) then rv_gid_flags v else 0) OR dflags,
            f_depth := depth,
            len_high := (if long then ucast (drop_bit 32 (va_length va)) else 0), nsec := va_nsec va,
            f_owner := (if preserve_uid (o_ids opt) then rv_uid v else 0),
            f_group := (if preserve_gid (o_ids opt) then rv_gid v else 0),
            f_rdev := (if preserve_devices opt \<and> IS_DEVICE m then (dev_major (rv_rdev v), dev_minor (rv_rdev v)) else (0, 0))\<rparr>
      in (f, v))"

definition recv_link :: "flist_opts \<Rightarrow> recv_vars \<Rightarrow> link_data \<Rightarrow> string reader" where
  "recv_link opt v link =
     (case link of
        No_link \<Rightarrow> rreturn []
      | Copy_link s \<Rightarrow> rreturn s
      | Read_link n \<Rightarrow> rbind (read_buf n) (\<lambda>b.
          let s = cstr b in
          if munge_symlinks opt then rreturn (''/rsyncd-munged/'' @ s)
          else if sanitize_paths opt \<and> s \<noteq> [] then
            (case sanitize_path (module_dir opt) (relative_paths opt) In_place s (Some []) (rv_lastdir_depth v) False of
               None \<Rightarrow> rreturn s | Some s' \<Rightarrow> rreturn s')
          else rreturn s))"

definition recv_hlink :: "flist_opts \<Rightarrow> recv_vars \<Rightarrow> 16 word \<Rightarrow> int \<Rightarrow> int \<Rightarrow> (int \<times> recv_vars) reader" where
  "recv_hlink opt v x first_hlink_ndx here =
     (if \<not> (preserve_hard_links opt \<and> has x XMIT_HLINKED) then rreturn (0, v)
      else if protocol_version opt \<ge> 30 then
        rreturn (if has x XMIT_HLINK_FIRST then here else first_hlink_ndx, v)
      else
        rbind (if protocol_version opt < 26 then rbind read_int (\<lambda>d. rreturn (word_of_int d))
               else if \<not> has x XMIT_SAME_DEV_pre30 then read_longint else rreturn (rv_dev v)) (\<lambda>dev.
        rbind (if protocol_version opt < 26 then rbind read_int (\<lambda>i. rreturn (word_of_int i)) else read_longint) (\<lambda>ino.
          let d = rv_idev v (dev, ino) - 1; v = v \<lparr>rv_dev := dev\<rparr> in
          if d < 0 then rreturn (rv_cnt v, v \<lparr>rv_idev := (rv_idev v) ((dev, ino) := rv_cnt v + 1), rv_cnt := rv_cnt v + 1\<rparr>)
          else rreturn (d, v))))"

definition recv_sum :: "flist_opts \<Rightarrow> recv_vars \<Rightarrow> file_struct option \<Rightarrow> byte list reader" where
  "recv_sum opt v first =
     (if always_checksum opt \<and> (S_ISREG (mode16 v) \<or> protocol_version opt < 28) then
        rbind (case first of Some f \<Rightarrow> rreturn (f_sum f) | None \<Rightarrow> read_buf (flist_csum_len opt)) (\<lambda>b.
          rreturn (if S_ISREG (mode16 v) then b else []))
      else rreturn [])"

text \<open>
  \<open>files\<close> are the entries of the list so far, the first has the index \<open>ndx_start\<close>. \<open>first\<close> is the
  entry that an abbreviated one refers to.
\<close>

definition recv_file_entry :: "flist_opts \<Rightarrow> sysdb \<Rightarrow> recv_vars \<Rightarrow> file_struct list \<Rightarrow> int \<Rightarrow> 16 word \<Rightarrow> (file_struct \<times> recv_vars) reader" where
  "recv_file_entry opt db v files ndx_start x =
     (let pv = protocol_version opt; used = int (length files) in
      rbind (recv_name opt v x) (\<lambda>(l1, l2, thisname, v).
      let (dir, base, v) = recv_dir v thisname in
      rbind (if pv \<ge> 30 \<and> has x XMIT_HLINKED \<and> \<not> has x XMIT_HLINK_FIRST then
               rbind read_varint (\<lambda>n. if sint n < 0 \<or> sint n \<ge> ndx_start + used then rfail RERR_PROTOCOL else rreturn (sint n))
             else rreturn (- 1)) (\<lambda>first_hlink_ndx.
      let first = (if first_hlink_ndx \<noteq> - 1 \<and> first_hlink_ndx \<ge> ndx_start then Some (files ! nat (first_hlink_ndx - ndx_start)) else None) in
      rbind (case first of Some f \<Rightarrow> rreturn (recv_from_first opt v f) | None \<Rightarrow> recv_attrs opt db v x) (\<lambda>(va, v).
      let x = (if preserve_hard_links opt \<and> pv < 28 \<and> S_ISREG (mode16 v) then x OR XMIT_HLINKED else x) in
      if sint (va_length va) < 0 then rfail RERR_UNSUPPORTED
      else
        let (f, v) = new_entry opt v x l1 l2 dir base va in
        rbind (recv_link opt v (va_link va)) (\<lambda>link.
        rbind (recv_hlink opt v x first_hlink_ndx (ndx_start + used)) (\<lambda>(gnum, v).
        rbind (recv_sum opt v first) (\<lambda>s.
          rreturn (f \<lparr>f_symlink := link, f_gnum := gnum, f_sum := s\<rparr>, v))))))))"

subsection \<open>Whole lists\<close>

text \<open>The loop of \<open>recv_file_list\<close>; \<open>want\<close> is the name of the directory whose content is sent. It reads at least one byte per round.\<close>

fun recv_entries :: "nat \<Rightarrow> flist_opts \<Rightarrow> sysdb \<Rightarrow> string \<Rightarrow> recv_vars \<Rightarrow> file_struct list \<Rightarrow> int \<Rightarrow> (file_struct list \<times> uint32 \<times> recv_vars) reader" where
  "recv_entries 0 opt db want v files ndx_start = rfail RERR_STREAMIO"
| "recv_entries (Suc n) opt db want v files ndx_start =
     rbind read_byte (\<lambda>b.
     if b = 0 then rreturn (files, 0, v)
     else
       rbind (if protocol_version opt \<ge> 28 \<and> has (ucast b) XMIT_EXTENDED_FLAGS
              then rbind read_byte (\<lambda>c. rreturn (ucast b OR push_bit 8 (ucast c))) else rreturn (ucast b)) (\<lambda>x.
       if x = XMIT_EXTENDED_FLAGS OR XMIT_IO_ERROR_ENDLIST then
         (if \<not> use_safe_inc_flist opt then rfail RERR_PROTOCOL else rbind read_varint (\<lambda>err. rreturn (files, err, v)))
       else
         rbind (recv_file_entry opt db v files ndx_start x) (\<lambda>(f, v).
           let cur = (case dirname f of None \<Rightarrow> [] | Some (_, d) \<Rightarrow> d);
               cur = (if relative_paths opt \<and> take 1 cur = ''/'' then tl cur else cur)
           in if inc_recurse opt \<and> cur \<noteq> want then rfail RERR_PROTOCOL
              else recv_entries n opt db want v (files @ [f]) ndx_start)))"

text \<open>The entries that \<open>send_file1\<close> sends one after the other, and the end of the list.\<close>

fun send_entries :: "flist_opts \<Rightarrow> sysdb \<Rightarrow> send_vars \<Rightarrow> (file_struct \<times> send_tmp) list \<Rightarrow> int \<Rightarrow> int \<Rightarrow> byte list \<times> send_vars" where
  "send_entries opt db v [] ndx first_ndx = ([], v)"
| "send_entries opt db v ((f, tmp) # es) ndx first_ndx =
     (let fname = (case f_name f of None \<Rightarrow> [] | Some s \<Rightarrow> s);
          symlink = (if preserve_links opt \<and> S_ISLNK (mode f) then f_symlink f else []);
          (b, v) = send_file_entry opt db v tmp fname f symlink ndx first_ndx;
          (bs, v) = send_entries opt db v es (ndx + 1) first_ndx
      in (b @ bs, v))"

definition send_list_end :: "flist_opts \<Rightarrow> uint32 \<Rightarrow> byte list" where
  "send_list_end opt io_error =
     (if io_error = 0 \<or> \<not> use_safe_inc_flist opt then write_byte 0
      else write_shortint (XMIT_EXTENDED_FLAGS OR XMIT_IO_ERROR_ENDLIST) @ write_varint io_error)"

subsection \<open>The flag word\<close>

lemma has_bit:
  "has x XMIT_TOP_DIR \<longleftrightarrow> bit x 0" "has x XMIT_SAME_MODE \<longleftrightarrow> bit x 1" "has x XMIT_EXTENDED_FLAGS \<longleftrightarrow> bit x 2"
  "has x XMIT_SAME_UID \<longleftrightarrow> bit x 3" "has x XMIT_SAME_GID \<longleftrightarrow> bit x 4" "has x XMIT_SAME_NAME \<longleftrightarrow> bit x 5"
  "has x XMIT_LONG_NAME \<longleftrightarrow> bit x 6" "has x XMIT_SAME_TIME \<longleftrightarrow> bit x 7" "has x XMIT_SAME_RDEV_MAJOR \<longleftrightarrow> bit x 8"
  "has x XMIT_NO_CONTENT_DIR \<longleftrightarrow> bit x 8" "has x XMIT_HLINKED \<longleftrightarrow> bit x 9" "has x XMIT_USER_NAME_FOLLOWS \<longleftrightarrow> bit x 10"
  "has x XMIT_GROUP_NAME_FOLLOWS \<longleftrightarrow> bit x 11" "has x XMIT_HLINK_FIRST \<longleftrightarrow> bit x 12" "has x XMIT_MOD_NSEC \<longleftrightarrow> bit x 13"
proof -
  have *: "x AND 2 ^ n \<noteq> 0 \<longleftrightarrow> bit x n" for n by (simp add: and_exp_eq_0_iff_not_bit)
  show "has x XMIT_TOP_DIR \<longleftrightarrow> bit x 0" using * [of 0] by (simp add: XMIT_TOP_DIR_def)
  show "has x XMIT_SAME_MODE \<longleftrightarrow> bit x 1" using * [of 1] by (simp add: XMIT_SAME_MODE_def)
  show "has x XMIT_EXTENDED_FLAGS \<longleftrightarrow> bit x 2" using * [of 2] by (simp add: XMIT_EXTENDED_FLAGS_def)
  show "has x XMIT_SAME_UID \<longleftrightarrow> bit x 3" using * [of 3] by (simp add: XMIT_SAME_UID_def)
  show "has x XMIT_SAME_GID \<longleftrightarrow> bit x 4" using * [of 4] by (simp add: XMIT_SAME_GID_def)
  show "has x XMIT_SAME_NAME \<longleftrightarrow> bit x 5" using * [of 5] by (simp add: XMIT_SAME_NAME_def)
  show "has x XMIT_LONG_NAME \<longleftrightarrow> bit x 6" using * [of 6] by (simp add: XMIT_LONG_NAME_def)
  show "has x XMIT_SAME_TIME \<longleftrightarrow> bit x 7" using * [of 7] by (simp add: XMIT_SAME_TIME_def)
  show "has x XMIT_SAME_RDEV_MAJOR \<longleftrightarrow> bit x 8" using * [of 8] by (simp add: XMIT_SAME_RDEV_MAJOR_def)
  show "has x XMIT_NO_CONTENT_DIR \<longleftrightarrow> bit x 8" using * [of 8] by (simp add: XMIT_NO_CONTENT_DIR_def)
  show "has x XMIT_HLINKED \<longleftrightarrow> bit x 9" using * [of 9] by (simp add: XMIT_HLINKED_def)
  show "has x XMIT_USER_NAME_FOLLOWS \<longleftrightarrow> bit x 10" using * [of 10] by (simp add: XMIT_USER_NAME_FOLLOWS_def)
  show "has x XMIT_GROUP_NAME_FOLLOWS \<longleftrightarrow> bit x 11" using * [of 11] by (simp add: XMIT_GROUP_NAME_FOLLOWS_def)
  show "has x XMIT_HLINK_FIRST \<longleftrightarrow> bit x 12" using * [of 12] by (simp add: XMIT_HLINK_FIRST_def)
  show "has x XMIT_MOD_NSEC \<longleftrightarrow> bit x 13" using * [of 13] by (simp add: XMIT_MOD_NSEC_def)
qed

lemmas xmit_defs = XMIT_TOP_DIR_def XMIT_SAME_MODE_def XMIT_EXTENDED_FLAGS_def XMIT_SAME_UID_def XMIT_SAME_GID_def
  XMIT_SAME_NAME_def XMIT_LONG_NAME_def XMIT_SAME_TIME_def XMIT_SAME_RDEV_MAJOR_def XMIT_NO_CONTENT_DIR_def XMIT_HLINKED_def
  XMIT_USER_NAME_FOLLOWS_def XMIT_GROUP_NAME_FOLLOWS_def XMIT_HLINK_FIRST_def XMIT_MOD_NSEC_def XMIT_RDEV_MINOR_8_pre30_def
  XMIT_IO_ERROR_ENDLIST_def

text \<open>The receiver reads the flags the sender goes on with, and no zero byte.\<close>

definition read_xflags :: "int \<Rightarrow> byte \<Rightarrow> (16 word) reader" where
  "read_xflags pv b =
     (if pv \<ge> 28 \<and> has (ucast b) XMIT_EXTENDED_FLAGS then rbind read_byte (\<lambda>c. rreturn (ucast b OR push_bit 8 (ucast c)))
      else rreturn (ucast b))"

lemma low_byte: "\<not> has x 0xFF00 \<Longrightarrow> ucast (ucast x :: byte) = (x :: 16 word)"
proof -
  assume "\<not> has x 0xFF00"
  moreover have "(0xFF00 :: 16 word) = push_bit 8 (mask 8)" by (simp add: mask_eq_exp_minus_1 push_bit_eq_mult)
  ultimately have z: "x AND push_bit 8 (mask 8) = 0" by simp
  have "\<not> bit x n" if "8 \<le> n" "n < 16" for n
  proof -
    have "\<not> bit (x AND push_bit 8 (mask 8)) n" unfolding z by simp
    moreover have "n - 8 < 8" using that by linarith
    ultimately show ?thesis using that by (simp add: bit_simps)
  qed
  then have "bit x n \<Longrightarrow> n < 16 \<Longrightarrow> n < 8" for n by (meson linorder_not_le)
  then show ?thesis by (intro bit_word_eqI) (auto simp: bit_simps)
qed

lemma bit_ext: "bit XMIT_EXTENDED_FLAGS n \<longleftrightarrow> n = 2"
proof -
  have "XMIT_EXTENDED_FLAGS = 2 ^ 2" by (simp add: XMIT_EXTENDED_FLAGS_def)
  then have "bit XMIT_EXTENDED_FLAGS n \<longleftrightarrow> bit (2 ^ 2 :: 16 word) n" by (rule arg_cong)
  then show ?thesis unfolding bit_exp_iff by auto
qed

lemma write_xflags_read:
  assumes w: "write_xflags pv isdir x = (head, y)" and pv: "28 \<le> pv" and x: "\<not> bit x 2"
  shows "\<exists>b r. head = b # r \<and> b \<noteq> 0 \<and> read_xflags pv b (r @ rest) = Inr (y, rest)"
    and "n \<noteq> 0 \<Longrightarrow> n \<noteq> 2 \<Longrightarrow> bit y n = bit x n" and "isdir \<Longrightarrow> bit y 0 = bit x 0"
proof -
  let ?t = "if x = 0 \<and> \<not> isdir then x OR XMIT_TOP_DIR else x"
  have t2: "\<not> bit ?t 2" using x by (simp add: bit_simps XMIT_TOP_DIR_def)
  have bits: "n \<noteq> 0 \<Longrightarrow> bit ?t n = bit x n" for n by (auto simp: bit_simps XMIT_TOP_DIR_def)
  show "\<exists>b r. head = b # r \<and> b \<noteq> 0 \<and> read_xflags pv b (r @ rest) = Inr (y, rest)"
  proof (cases "has ?t 0xFF00 \<or> ?t = 0")
    case True
    then have h: "head = write_shortint (?t OR XMIT_EXTENDED_FLAGS)" "y = ?t OR XMIT_EXTENDED_FLAGS"
      using w pv by (simp_all add: write_xflags_def Let_def split: if_splits)
    let ?b = "ucast (?t OR XMIT_EXTENDED_FLAGS) :: byte"
    have b2: "bit ?b 2" by (simp add: bit_simps XMIT_EXTENDED_FLAGS_def)
    then have "has (ucast ?b) XMIT_EXTENDED_FLAGS" unfolding has_bit by (simp add: bit_simps)
    moreover have "ucast ?b OR push_bit 8 (ucast (ucast (drop_bit 8 (?t OR XMIT_EXTENDED_FLAGS)) :: byte)) = ?t OR XMIT_EXTENDED_FLAGS"
      by (rule bit_word_eqI) (auto simp: bit_simps)
    ultimately show ?thesis
      using pv b2 h by (intro exI [of _ ?b] exI [of _ "[ucast (drop_bit 8 (?t OR XMIT_EXTENDED_FLAGS))]"])
        (auto simp: read_xflags_def write_shortint_def rbind_def)
  next
    case False
    then have h: "head = [ucast ?t]" "y = ?t" using w pv by (auto simp: write_xflags_def write_byte_def Let_def split: if_splits)
    have u: "ucast (ucast ?t :: byte) = ?t" using False low_byte by blast
    then have "(ucast ?t :: byte) \<noteq> 0" using False by (metis unsigned_0)
    moreover have "\<not> has (ucast (ucast ?t :: byte)) XMIT_EXTENDED_FLAGS" unfolding u has_bit by (rule t2)
    ultimately show ?thesis using h u by (simp add: read_xflags_def)
  qed
  have y: "y = ?t \<or> y = ?t OR XMIT_EXTENDED_FLAGS" using w pv by (auto simp: write_xflags_def Let_def split: if_splits)
  show "n \<noteq> 0 \<Longrightarrow> n \<noteq> 2 \<Longrightarrow> bit y n = bit x n" using y bits [of n] by (auto simp: bit_or_iff bit_ext)
  show "isdir \<Longrightarrow> bit y 0 = bit x 0" using y by (auto simp: bit_or_iff bit_ext)
qed

subsection \<open>The name\<close>

lemma same_start_take: "k \<le> same_start s t \<Longrightarrow> take k s = take k t \<and> k \<le> length s \<and> k \<le> length t"
proof (induction s t arbitrary: k rule: same_start.induct)
  case (1 a s b t)
  then show ?case by (cases k) (auto split: if_splits)
qed simp_all

lemma no_nul_drop: "no_nul s \<Longrightarrow> no_nul (drop n s)"
  using no_nul_append [of "take n s" "drop n s"] by simp

text \<open>A name that \<open>recv_file_entry\<close> takes as it is.\<close>

definition sent_name :: "flist_opts \<Rightarrow> string \<Rightarrow> bool" where
  "sent_name opt s \<longleftrightarrow> s \<noteq> [] \<and> no_nul s \<and> length s < MAXPATHLEN \<and> clean_fname refuse_dots s = Some s
     \<and> (relative_paths opt \<or> take 1 s \<noteq> ''/'')"

lemma recv_name_send:
  assumes n: "sent_name opt fname" and l1: "l1 = min 255 (same_start (rv_lastname r) fname)"
    and x: "has x XMIT_SAME_NAME \<longleftrightarrow> l1 > 0" "has x XMIT_LONG_NAME \<longleftrightarrow> length fname - l1 > 255" and o: "\<not> sanitize_paths opt"
  shows "recv_name opt r x (send_name (protocol_version opt) x l1 fname @ rest)
    = Inr ((l1, length fname - l1, fname, r \<lparr>rv_lastname := fname\<rparr>), rest)"
proof -
  have s: "take l1 (rv_lastname r) = take l1 fname" "l1 \<le> length (rv_lastname r)" "l1 \<le> length fname"
    using same_start_take [of l1 "rv_lastname r" fname] l1 by simp_all
  let ?l2 = "length fname - l1"
  have len: "length fname < 4096" using n by (simp add: sent_name_def MAXPATHLEN_def)
  have u: "unat (word_of_nat l1 :: byte) = l1" "\<not> ?l2 > 255 \<Longrightarrow> unat (word_of_nat ?l2 :: byte) = ?l2" "unat (word_of_nat ?l2 :: uint32) = ?l2"
    using l1 len by (simp_all add: unat_byte unat_of_nat)
  have fits: "\<not> ?l2 \<ge> MAXPATHLEN - l1" using len s(3) unfolding MAXPATHLEN_def by linarith
  have c: "cstr (bytes_of (drop l1 fname)) = drop l1 fname" using n by (intro cstr_bytes_of no_nul_drop) (simp add: sent_name_def)
  have name: "take l1 (rv_lastname r) @ cstr (bytes_of (drop l1 fname)) = fname" using s(1) c by simp
  let ?pv = "protocol_version opt"
  let ?two = "(if has x XMIT_LONG_NAME then write_varint30 ?pv (word_of_nat ?l2) else write_byte (word_of_nat ?l2)) @ bytes_of (drop l1 fname) @ rest"
  have 1: "(if has x XMIT_SAME_NAME then rbind read_byte (\<lambda>b. rreturn (unat b)) else rreturn 0) (send_name ?pv x l1 fname @ rest) = Inr (l1, ?two)"
    using x(1) u(1) by (cases "l1 > 0") (simp_all add: send_name_def write_byte_def rbind_def)
  have 2: "(if has x XMIT_LONG_NAME then rbind (read_varint30 ?pv) (\<lambda>w. rreturn (unat w)) else rbind read_byte (\<lambda>b. rreturn (unat b))) ?two
      = Inr (?l2, bytes_of (drop l1 fname) @ rest)"
    using x(2) u(2,3) by (cases "?l2 > 255") (simp_all add: write_byte_def rbind_def read_varint30_write)
  have 3: "read_buf ?l2 (bytes_of (drop l1 fname) @ rest) = Inr (bytes_of (drop l1 fname), rest)" by simp
  have n': "fname \<noteq> []" "clean_fname refuse_dots fname = Some fname" "relative_paths opt \<or> take 1 fname \<noteq> ''/''"
    using n by (simp_all add: sent_name_def)
  have l: "(length (rv_lastname r) < l1) = False" using s(2) by simp
  have f: "(?l2 \<ge> MAXPATHLEN - l1) = False" using fits by simp
  have r1: "rbind (if has x XMIT_SAME_NAME then rbind read_byte (\<lambda>b. rreturn (unat b)) else rreturn 0) g (send_name ?pv x l1 fname @ rest) = g l1 ?two"
    for g :: "nat \<Rightarrow> (nat \<times> nat \<times> string \<times> recv_vars) reader" using 1 by (rule rbind_Inr)
  have r2: "rbind (if has x XMIT_LONG_NAME then rbind (read_varint30 ?pv) (\<lambda>w. rreturn (unat w)) else rbind read_byte (\<lambda>b. rreturn (unat b))) g ?two
      = g ?l2 (bytes_of (drop l1 fname) @ rest)" for g :: "nat \<Rightarrow> (nat \<times> nat \<times> string \<times> recv_vars) reader"
    using 2 by (rule rbind_Inr)
  have r3: "rbind (read_buf ?l2) g (bytes_of (drop l1 fname) @ rest) = g (bytes_of (drop l1 fname)) rest"
    for g :: "byte list \<Rightarrow> (nat \<times> nat \<times> string \<times> recv_vars) reader" using 3 by (rule rbind_Inr)
  note steps = r1 r2 r3
  show ?thesis
    unfolding recv_name_def steps f if_False Let_def l name using n' o by simp
qed

lemma last_split_slash: "CHR ''/'' \<notin> set (last (split_slash s))"
proof (induction s)
  case (Cons c s)
  then show ?case by (cases "split_slash s") (auto split: if_splits)
qed simp

lemma split_slash_last:
  assumes "CHR ''/'' \<in> set s"
  shows "s = take (length s - length (last (split_slash s)) - 1) s @ CHR ''/'' # last (split_slash s)"
proof -
  obtain a b where s: "s = a @ CHR ''/'' # b" "CHR ''/'' \<notin> set b" using split_list_last [OF assms] by blast
  have "last (split_slash s) = b" unfolding s(1) split_slash_join by (simp add: split_slash_single s(2))
  then show ?thesis using s(1) by simp
qed

text \<open>The strings at the addresses that are in use do not change.\<close>

definition dirs_ok :: "recv_vars \<Rightarrow> bool" where
  "dirs_ok v \<longleftrightarrow> (\<forall>a. rv_lastdir v = Some a \<longrightarrow> a < length (rv_dirs v))"

definition same_vars :: "recv_vars \<Rightarrow> recv_vars \<Rightarrow> bool" where
  "same_vars v w \<longleftrightarrow> w = v \<lparr>rv_dirs := rv_dirs w, rv_lastdir := rv_lastdir w, rv_lastdir_depth := rv_lastdir_depth w\<rparr>"

lemma recv_dir_spec:
  assumes "recv_dir v s = (dir, base, w)" and "dirs_ok v"
  shows "(case dir of None \<Rightarrow> base | Some (_, d) \<Rightarrow> d @ ''/'' @ base) = s" and "CHR ''/'' \<notin> set base"
    and "dirs_ok w" and "\<exists>l. rv_dirs w = rv_dirs v @ l" and "\<forall>a d. dir = Some (a, d) \<longrightarrow> a < length (rv_dirs w) \<and> rv_dirs w ! a = d"
    and "same_vars v w"
proof -
  have j: "CHR ''/'' \<in> set s \<Longrightarrow> take (length s - length (last (split_slash s)) - 1) s @ CHR ''/'' # last (split_slash s) = s"
    using split_slash_last [of s] by simp
  show "(case dir of None \<Rightarrow> base | Some (_, d) \<Rightarrow> d @ ''/'' @ base) = s"
    using assms(1) j by (auto simp: recv_dir_def split_dir_def Let_def split: if_splits option.splits)
  show "CHR ''/'' \<notin> set base"
    using assms(1) last_split_slash [of s] by (auto simp: recv_dir_def split_dir_def Let_def split: if_splits option.splits)
  show "dirs_ok w"
    using assms by (auto simp: recv_dir_def split_dir_def dirs_ok_def Let_def split: if_splits option.splits)
  show "\<exists>l. rv_dirs w = rv_dirs v @ l"
    using assms(1) by (auto simp: recv_dir_def split_dir_def Let_def split: if_splits option.splits)
  show "\<forall>a d. dir = Some (a, d) \<longrightarrow> a < length (rv_dirs w) \<and> rv_dirs w ! a = d"
    using assms by (auto simp: recv_dir_def split_dir_def dirs_ok_def Let_def split: if_splits option.splits)
  show "same_vars v w"
    using assms(1) by (auto simp: recv_dir_def split_dir_def same_vars_def Let_def split: if_splits option.splits)
qed

subsection \<open>What the flags say\<close>

lemma bit_xmit:
  "bit XMIT_TOP_DIR n \<longleftrightarrow> n = 0" "bit XMIT_SAME_MODE n \<longleftrightarrow> n = 1" "bit XMIT_SAME_UID n \<longleftrightarrow> n = 3" "bit XMIT_SAME_GID n \<longleftrightarrow> n = 4"
  "bit XMIT_SAME_NAME n \<longleftrightarrow> n = 5" "bit XMIT_LONG_NAME n \<longleftrightarrow> n = 6" "bit XMIT_SAME_TIME n \<longleftrightarrow> n = 7"
  "bit XMIT_SAME_RDEV_MAJOR n \<longleftrightarrow> n = 8" "bit XMIT_NO_CONTENT_DIR n \<longleftrightarrow> n = 8" "bit XMIT_HLINKED n \<longleftrightarrow> n = 9"
  "bit XMIT_HLINK_FIRST n \<longleftrightarrow> n = 12" "bit XMIT_MOD_NSEC n \<longleftrightarrow> n = 13"
proof -
  have p: "bit (2 ^ k :: 16 word) n \<longleftrightarrow> n = k" if "k < 16" for k using that by (auto simp: bit_exp_iff)
  note [simp] = xmit_defs
  show "bit XMIT_TOP_DIR n \<longleftrightarrow> n = 0" using p [of 0] by simp
  show "bit XMIT_SAME_MODE n \<longleftrightarrow> n = 1" using p [of 1] by simp
  show "bit XMIT_SAME_UID n \<longleftrightarrow> n = 3" using p [of 3] by simp
  show "bit XMIT_SAME_GID n \<longleftrightarrow> n = 4" using p [of 4] by simp
  show "bit XMIT_SAME_NAME n \<longleftrightarrow> n = 5" using p [of 5] by simp
  show "bit XMIT_LONG_NAME n \<longleftrightarrow> n = 6" using p [of 6] by simp
  show "bit XMIT_SAME_TIME n \<longleftrightarrow> n = 7" using p [of 7] by simp
  show "bit XMIT_SAME_RDEV_MAJOR n \<longleftrightarrow> n = 8" using p [of 8] by simp
  show "bit XMIT_NO_CONTENT_DIR n \<longleftrightarrow> n = 8" using p [of 8] by simp
  show "bit XMIT_HLINKED n \<longleftrightarrow> n = 9" using p [of 9] by simp
  show "bit XMIT_HLINK_FIRST n \<longleftrightarrow> n = 12" using p [of 12] by simp
  show "bit XMIT_MOD_NSEC n \<longleftrightarrow> n = 13" using p [of 13] by simp
qed

lemma bit_top: "bit (fl AND FLAG_TOP_DIR) n \<longleftrightarrow> n = 0 \<and> fl AND FLAG_TOP_DIR \<noteq> 0"
proof -
  have "FLAG_TOP_DIR = XMIT_TOP_DIR" by (simp add: FLAG_TOP_DIR_def XMIT_TOP_DIR_def)
  then show ?thesis using has_bit(1) [of fl] by (auto simp: bit_and_iff bit_xmit)
qed

lemma dev_not_dir: "IS_DEVICE m \<Longrightarrow> \<not> S_ISDIR m" "IS_SPECIAL m \<Longrightarrow> \<not> S_ISDIR m" "IS_SPECIAL m \<Longrightarrow> \<not> IS_DEVICE m"
  by (auto simp: IS_DEVICE_def IS_SPECIAL_def S_ISDIR_def S_IFDIR_def)

text \<open>
  The entries treated here: from protocol 30 on, without incremental recursion (no names of ids in
  between) and hard links.
\<close>

definition plain_opts :: "flist_opts \<Rightarrow> bool" where
  "plain_opts opt \<longleftrightarrow> 30 \<le> protocol_version opt \<and> \<not> inc_recurse opt \<and> chmod_modes opt = []
     \<and> \<not> sanitize_paths opt \<and> \<not> munge_symlinks opt"

text \<open>The flags and the variables of the sender after them.\<close>

definition flags_ok :: "flist_opts \<Rightarrow> send_tmp \<Rightarrow> send_vars \<Rightarrow> file_struct \<Rightarrow> string \<Rightarrow> nat \<Rightarrow> 16 word \<Rightarrow> bool" where
  "flags_ok opt tmp v f fname l1 x \<longleftrightarrow>
     (has x XMIT_SAME_MODE \<longleftrightarrow> ucast (mode f) = sv_mode v)
   \<and> (has x XMIT_SAME_TIME \<longleftrightarrow> modtime f = sv_modtime v)
   \<and> (has x XMIT_MOD_NSEC \<longleftrightarrow> flags f AND FLAG_MOD_NSEC \<noteq> 0 \<and> protocol_version opt \<ge> 31)
   \<and> (has x XMIT_SAME_UID \<longrightarrow> preserve_uid (o_ids opt) \<longrightarrow> f_owner f = sv_uid v)
   \<and> (has x XMIT_SAME_GID \<longrightarrow> preserve_gid (o_ids opt) \<longrightarrow> f_group f = sv_gid v)
   \<and> (has x XMIT_SAME_NAME \<longleftrightarrow> l1 > 0) \<and> (has x XMIT_LONG_NAME \<longleftrightarrow> length fname - l1 > 255)
   \<and> (preserve_devices opt \<and> IS_DEVICE (mode f) \<longrightarrow> (has x XMIT_SAME_RDEV_MAJOR \<longleftrightarrow> dev_major (tmp_rdev tmp) = sv_rdev_major v))
   \<and> (preserve_specials opt \<and> IS_SPECIAL (mode f) \<and> protocol_version opt < 31 \<longrightarrow> has x XMIT_SAME_RDEV_MAJOR)
   \<and> (S_ISDIR (mode f) \<longrightarrow> (has x XMIT_NO_CONTENT_DIR \<longleftrightarrow> flags f AND FLAG_CONTENT_DIR = 0)
        \<and> (has x XMIT_TOP_DIR \<longleftrightarrow> flags f AND (if flags f AND FLAG_CONTENT_DIR \<noteq> 0 then FLAG_TOP_DIR else FLAG_IMPLIED_DIR) \<noteq> 0))
   \<and> \<not> has x XMIT_HLINKED \<and> \<not> has x XMIT_HLINK_FIRST \<and> \<not> has x XMIT_USER_NAME_FOLLOWS \<and> \<not> has x XMIT_GROUP_NAME_FOLLOWS"

definition vars_after :: "flist_opts \<Rightarrow> send_tmp \<Rightarrow> send_vars \<Rightarrow> file_struct \<Rightarrow> send_vars \<Rightarrow> bool" where
  "vars_after opt tmp v f w \<longleftrightarrow>
     sv_modtime w = modtime f \<and> sv_mode w = ucast (mode f)
   \<and> sv_uid w = (if preserve_uid (o_ids opt) then f_owner f else sv_uid v)
   \<and> sv_gid w = (if preserve_gid (o_ids opt) then f_group f else sv_gid v)
   \<and> sv_rdev_major w = (if preserve_devices opt \<and> IS_DEVICE (mode f) then dev_major (tmp_rdev tmp) else sv_rdev_major v)
   \<and> (preserve_devices opt \<and> IS_DEVICE (mode f) \<longrightarrow> sv_rdev w = tmp_rdev tmp)"

lemma send_entry_shape:
  assumes o: "plain_opts opt" and t: "tmp_dev tmp = - 1" and l1: "l1 = min 255 (same_start (sv_lastname v) fname)"
  shows "\<exists>x0 head x w un gn. send_file_entry opt db v tmp fname f symlink ndx first_ndx =
      (head @ send_name (protocol_version opt) x l1 fname @ send_attrs opt tmp w f symlink x un gn,
       w \<lparr>sv_lastname := take (MAXPATHLEN - 1) fname\<rparr>)
    \<and> write_xflags (protocol_version opt) (S_ISDIR (mode f)) x0 = (head, x) \<and> \<not> bit x0 2
    \<and> flags_ok opt tmp v f fname l1 x \<and> vars_after opt tmp v f w"
proof -
  let ?pv = "protocol_version opt"
  have pv: "30 \<le> ?pv" "\<not> ?pv < 28" "\<not> ?pv < 30" "\<not> inc_recurse opt" using o by (simp_all add: plain_opts_def)
  obtain x1 v1 where 1: "send_mode v f = (x1, v1)" by fastforce
  obtain x2 v2 where 2: "send_rdev opt tmp v1 f = (x2, v2)" by fastforce
  obtain x3 un v3 where 3: "send_uid opt db v2 f = (x3, un, v3)" by (metis prod_cases3)
  obtain x4 gn v4 where 4: "send_gid opt db v3 f = (x4, gn, v4)" by (metis prod_cases3)
  obtain x5 v5 where 5: "send_time opt v4 f = (x5, v5)" by fastforce
  have 6: "send_hlink opt tmp v5 ndx first_ndx = (0, - 1, v5)" using t by (simp add: send_hlink_def)
  let ?dx = "dir_xflags ?pv f"
  have b1: "bit x1 n \<longleftrightarrow> n = 1 \<and> ucast (mode f) = sv_mode v" for n
    using 1 by (auto simp: send_mode_def bit_xmit split: if_splits)
  have f1: "v1 = v \<lparr>sv_mode := ucast (mode f)\<rparr>" using 1 by (auto simp: send_mode_def split: if_splits)
  have b2: "bit x2 n \<longrightarrow> n = 8" "preserve_devices opt \<and> IS_DEVICE (mode f) \<longrightarrow> (bit x2 8 \<longleftrightarrow> dev_major (tmp_rdev tmp) = sv_rdev_major v)"
    "preserve_specials opt \<and> IS_SPECIAL (mode f) \<and> ?pv < 31 \<longrightarrow> bit x2 8" "S_ISDIR (mode f) \<longrightarrow> x2 = 0" for n
    using 2 pv f1 dev_not_dir [of "mode f"] by (auto simp: send_rdev_def bit_xmit Let_def split: if_splits)
  have f2: "sv_modtime v2 = sv_modtime v1" "sv_mode v2 = sv_mode v1" "sv_uid v2 = sv_uid v1" "sv_gid v2 = sv_gid v1" "sv_lastname v2 = sv_lastname v1"
    "sv_rdev_major v2 = (if preserve_devices opt \<and> IS_DEVICE (mode f) then dev_major (tmp_rdev tmp) else sv_rdev_major v1)"
    "preserve_devices opt \<and> IS_DEVICE (mode f) \<longrightarrow> sv_rdev v2 = tmp_rdev tmp"
    using 2 pv by (auto simp: send_rdev_def Let_def split: if_splits)
  have b3: "bit x3 n \<longrightarrow> n = 3" "bit x3 3 \<longrightarrow> preserve_uid (o_ids opt) \<longrightarrow> f_owner f = sv_uid v2" for n
    using 3 pv by (auto simp: send_uid_def bit_xmit Let_def split: if_splits prod.splits)
  have f3: "sv_modtime v3 = sv_modtime v2" "sv_mode v3 = sv_mode v2" "sv_gid v3 = sv_gid v2" "sv_lastname v3 = sv_lastname v2"
    "sv_rdev v3 = sv_rdev v2" "sv_rdev_major v3 = sv_rdev_major v2" "sv_uid v3 = (if preserve_uid (o_ids opt) then f_owner f else sv_uid v2)"
    using 3 pv by (auto simp: send_uid_def Let_def split: if_splits prod.splits)
  have b4: "bit x4 n \<longrightarrow> n = 4" "bit x4 4 \<longrightarrow> preserve_gid (o_ids opt) \<longrightarrow> f_group f = sv_gid v3" for n
    using 4 pv by (auto simp: send_gid_def bit_xmit Let_def split: if_splits prod.splits)
  have f4: "sv_modtime v4 = sv_modtime v3" "sv_mode v4 = sv_mode v3" "sv_uid v4 = sv_uid v3" "sv_lastname v4 = sv_lastname v3"
    "sv_rdev v4 = sv_rdev v3" "sv_rdev_major v4 = sv_rdev_major v3" "sv_gid v4 = (if preserve_gid (o_ids opt) then f_group f else sv_gid v3)"
    using 4 pv by (auto simp: send_gid_def Let_def split: if_splits prod.splits)
  have b5: "bit x5 n \<longleftrightarrow> n = 7 \<and> modtime f = sv_modtime v4 \<or> n = 13 \<and> flags f AND FLAG_MOD_NSEC \<noteq> 0 \<and> ?pv \<ge> 31" for n
    using 5 by (auto simp: send_time_def bit_xmit bit_or_iff Let_def split: if_splits)
  have f5: "v5 = v4 \<lparr>sv_modtime := modtime f\<rparr>" using 5 by (auto simp: send_time_def Let_def split: if_splits)
  have same: "sv_mode v1 = ucast (mode f)" "sv_uid v2 = sv_uid v" "sv_gid v3 = sv_gid v" "sv_modtime v4 = sv_modtime v" "sv_lastname v5 = sv_lastname v"
    using f1 f2 f3 f4 f5 by simp_all
  have after: "vars_after opt tmp v f v5"
    unfolding vars_after_def using f1 f2 f3 f4 f5 by simp
  have bd: "bit ?dx n \<longrightarrow> n = 0 \<or> n = 8" "\<not> S_ISDIR (mode f) \<longrightarrow> ?dx = 0" "S_ISDIR (mode f) \<longrightarrow> (bit ?dx 8 \<longleftrightarrow> flags f AND FLAG_CONTENT_DIR = 0)
        \<and> (bit ?dx 0 \<longleftrightarrow> flags f AND (if flags f AND FLAG_CONTENT_DIR \<noteq> 0 then FLAG_TOP_DIR else FLAG_IMPLIED_DIR) \<noteq> 0)" for n
    using pv(1) by (auto simp: dir_xflags_def bit_xmit bit_or_iff bit_top)
  let ?x7 = "(if l1 > 0 then XMIT_SAME_NAME else 0) OR (if length fname - l1 > 255 then XMIT_LONG_NAME else 0)"
  have b7: "bit ?x7 n \<longleftrightarrow> n = 5 \<and> l1 > 0 \<or> n = 6 \<and> length fname - l1 > 255" for n by (auto simp: bit_or_iff bit_xmit)
  let ?x0 = "?dx OR x1 OR x2 OR x3 OR x4 OR x5 OR 0 OR ?x7"
  obtain head x where h: "write_xflags ?pv (S_ISDIR (mode f)) ?x0 = (head, x)" by fastforce
  have bits: "bit ?x0 n \<longleftrightarrow> bit ?dx n \<or> bit x1 n \<or> bit x2 n \<or> bit x3 n \<or> bit x4 n \<or> bit x5 n \<or> bit ?x7 n" for n
    by (simp add: bit_or_iff)
  have no2: "\<not> bit ?x0 2" unfolding bits b7 b1 b5 using bd(1) [of 2] b2(1) [of 2] b3(1) [of 2] b4(1) [of 2] by auto
  note W = write_xflags_read(2,3) [OF h _ no2]
  have y: "n \<noteq> 0 \<Longrightarrow> n \<noteq> 2 \<Longrightarrow> bit x n = bit ?x0 n" for n using W(1) pv by simp
  have y0: "S_ISDIR (mode f) \<Longrightarrow> bit x 0 = bit ?x0 0" using W(2) pv by simp
  have z: "bit x n \<longleftrightarrow> bit x1 n \<or> bit x3 n \<or> bit x4 n \<or> bit x5 n \<or> bit ?x7 n" if "n \<noteq> 0" "n \<noteq> 2" "n \<noteq> 8" for n
    using y [OF that(1,2)] bits [of n] bd(1) [of n] b2(1) [of n] that by blast
  have "flags_ok opt tmp v f fname l1 x"
    unfolding flags_ok_def has_bit
  proof (intro conjI impI)
    show "bit x 1 \<longleftrightarrow> ucast (mode f) = sv_mode v" using z [of 1] b7 [of 1] b1 [of 1] b5 [of 1] b3(1) [of 1] b4(1) [of 1] by auto
    show "bit x 7 \<longleftrightarrow> modtime f = sv_modtime v" using z [of 7] b7 [of 7] b1 [of 7] b5 [of 7] b3(1) [of 7] b4(1) [of 7] same(4) by auto
    show "bit x 13 \<longleftrightarrow> flags f AND FLAG_MOD_NSEC \<noteq> 0 \<and> 31 \<le> ?pv" using z [of 13] b7 [of 13] b1 [of 13] b5 [of 13] b3(1) [of 13] b4(1) [of 13] by auto
    show "f_owner f = sv_uid v" if "bit x 3" "preserve_uid (o_ids opt)"
      using that z [of 3] b7 [of 3] b1 [of 3] b5 [of 3] b3(2) b4(1) [of 3] same(2) by auto
    show "f_group f = sv_gid v" if "bit x 4" "preserve_gid (o_ids opt)"
      using that z [of 4] b7 [of 4] b1 [of 4] b5 [of 4] b3(1) [of 4] b4(2) same(3) by auto
    show "bit x 5 \<longleftrightarrow> 0 < l1" using z [of 5] b7 [of 5] b1 [of 5] b5 [of 5] b3(1) [of 5] b4(1) [of 5] by auto
    show "bit x 6 \<longleftrightarrow> 255 < length fname - l1" using z [of 6] b7 [of 6] b1 [of 6] b5 [of 6] b3(1) [of 6] b4(1) [of 6] by auto
    have 8: "bit x 8 \<longleftrightarrow> bit ?dx 8 \<or> bit x2 8" using y [of 8] bits [of 8] b7 [of 8] b1 [of 8] b5 [of 8] b3(1) [of 8] b4(1) [of 8] by auto
    show "bit x 8 \<longleftrightarrow> dev_major (tmp_rdev tmp) = sv_rdev_major v" if "preserve_devices opt \<and> IS_DEVICE (mode f)"
      using 8 that b2(2) bd(2) dev_not_dir(1) by auto
    show "bit x 8" if "preserve_specials opt \<and> IS_SPECIAL (mode f) \<and> ?pv < 31" using 8 that b2(3) by simp
    show "bit x 8 \<longleftrightarrow> flags f AND FLAG_CONTENT_DIR = 0" if "S_ISDIR (mode f)" using 8 that b2(4) bd(3) by simp
    show "bit x 0 \<longleftrightarrow> flags f AND (if flags f AND FLAG_CONTENT_DIR \<noteq> 0 then FLAG_TOP_DIR else FLAG_IMPLIED_DIR) \<noteq> 0" if "S_ISDIR (mode f)"
      unfolding y0 [OF that] bits b7 b1 b5 using bd(3) that b2(1) [of 0] b3(1) [of 0] b4(1) [of 0] by auto
    show "\<not> bit x 9" using z [of 9] b7 [of 9] b1 [of 9] b5 [of 9] b3(1) [of 9] b4(1) [of 9] by auto
    show "\<not> bit x 12" using z [of 12] b7 [of 12] b1 [of 12] b5 [of 12] b3(1) [of 12] b4(1) [of 12] by auto
    show "\<not> bit x 10" using z [of 10] b7 [of 10] b1 [of 10] b5 [of 10] b3(1) [of 10] b4(1) [of 10] by auto
    show "\<not> bit x 11" using z [of 11] b7 [of 11] b1 [of 11] b5 [of 11] b3(1) [of 11] b4(1) [of 11] by auto
  qed
  moreover have "send_file_entry opt db v tmp fname f symlink ndx first_ndx =
      (head @ send_name ?pv x l1 fname @ send_attrs opt tmp v5 f symlink x un gn, v5 \<lparr>sv_lastname := take (MAXPATHLEN - 1) fname\<rparr>)"
    using h l1 same(5) by (simp add: send_file_entry_def 1 2 3 4 5 6 Let_def)
  ultimately show ?thesis using h no2 after by blast
qed

subsection \<open>The attributes\<close>

text \<open>An entry as \<open>make_file\<close> makes it, with what it left in the \<open>tmp_\<close> variables.\<close>

definition sent_entry :: "flist_opts \<Rightarrow> file_struct \<Rightarrow> send_tmp \<Rightarrow> bool" where
  "sent_entry opt f tmp \<longleftrightarrow>
     f_is_active f \<and> CHR ''/'' \<notin> set (basename f) \<and> (\<forall>s. f_name f = Some s \<longrightarrow> sent_name opt s) \<and> tmp_dev tmp = - 1
   \<and> 0 \<le> sint (F_LENGTH f) \<and> (\<not> S_ISREG (mode f) \<longrightarrow> F_LENGTH f \<le> 0xFFFFFFFF)
   \<and> (IS_DEVICE (mode f) \<or> IS_SPECIAL (mode f) \<longrightarrow> F_LENGTH f = 0)
   \<and> (protocol_version opt < 31 \<longrightarrow> F_MOD_NSEC f = 0)
   \<and> (S_ISLNK (mode f) \<longrightarrow> f_symlink f \<noteq> [] \<and> no_nul (f_symlink f) \<and> length (f_symlink f) < MAXPATHLEN)
   \<and> (S_ISREG (mode f) \<longrightarrow> flist_csum_len opt \<le> length (tmp_sum tmp))"

definition vars_agree :: "flist_opts \<Rightarrow> send_vars \<Rightarrow> recv_vars \<Rightarrow> bool" where
  "vars_agree opt v r \<longleftrightarrow> rv_modtime r = sv_modtime v \<and> rv_mode r = sv_mode v \<and> rv_uid r = sv_uid v \<and> rv_gid r = sv_gid v
     \<and> rv_rdev_major r = sv_rdev_major v \<and> rv_lastname r = sv_lastname v \<and> rv_gid_flags r = 0 \<and> dirs_ok r"

definition attrs_read :: "flist_opts \<Rightarrow> send_tmp \<Rightarrow> file_struct \<Rightarrow> recv_vars \<Rightarrow> recv_vars" where
  "attrs_read opt tmp f r =
     (let r = r \<lparr>rv_modtime := modtime f, rv_mode := ucast (mode f)\<rparr>;
          r = (if preserve_uid (o_ids opt) then r \<lparr>rv_uid := f_owner f\<rparr> else r);
          r = (if preserve_gid (o_ids opt) then r \<lparr>rv_gid := f_group f\<rparr> else r)
      in if preserve_devices opt \<and> IS_DEVICE (mode f)
         then r \<lparr>rv_rdev_major := dev_major (tmp_rdev tmp), rv_rdev := makedev (dev_major (tmp_rdev tmp)) (dev_minor (tmp_rdev tmp))\<rparr> else r)"

lemma upd_same:
  "rv_modtime r = t \<Longrightarrow> r \<lparr>rv_modtime := t\<rparr> = r" "rv_mode r = m \<Longrightarrow> r \<lparr>rv_mode := m\<rparr> = r"
  "rv_uid r = u \<Longrightarrow> r \<lparr>rv_uid := u\<rparr> = r" "rv_gid r = g \<Longrightarrow> r \<lparr>rv_gid := g\<rparr> = r" "rv_gid_flags r = fl \<Longrightarrow> r \<lparr>rv_gid_flags := fl\<rparr> = r"
  "rv_rdev_major r = d \<Longrightarrow> r \<lparr>rv_rdev_major := d\<rparr> = r"
  "rv_rdev r = e \<Longrightarrow> r \<lparr>rv_rdev := e\<rparr> = r"
  by auto

lemma mode_wire: "is_int32 (uint (m :: 16 word))" "(word_of_int (uint m) :: uint32) = ucast m" "ucast (ucast m :: uint32) = m"
proof -
  have "uint m < 2 ^ 16" using uint_lt2p [of m] by simp
  moreover have "- 2147483648 \<le> uint m" by (rule order_trans [of _ 0]) simp_all
  ultimately show "is_int32 (uint m)" by (simp add: is_int32_def)
  show "(word_of_int (uint m) :: uint32) = ucast m" by simp
  show "ucast (ucast m :: uint32) = m" by (rule bit_word_eqI) (auto simp: bit_simps)
qed

lemma lnk_not: "S_ISLNK m \<Longrightarrow> \<not> IS_DEVICE m" "S_ISLNK m \<Longrightarrow> \<not> IS_SPECIAL m" "S_ISLNK m \<Longrightarrow> \<not> S_ISREG m" "S_ISLNK m \<Longrightarrow> \<not> S_ISDIR m"
  by (auto simp: IS_DEVICE_def IS_SPECIAL_def S_ISDIR_def S_ISREG_def S_ISLNK_def S_IFDIR_def S_IFREG_def S_IFLNK_def)

lemma link_length:
  assumes "length s < MAXPATHLEN"
  shows "sint ((word_of_nat (length s) :: uint32) + 1) = int (length s) + 1"
proof -
  have "is_int32 (int (length s) + 1)" using assms by (simp add: is_int32_def MAXPATHLEN_def)
  from sint_word_of_int [OF this] show ?thesis by simp
qed

lemma recv_attrs_send:
  assumes o: "plain_opts opt" and e: "sent_entry opt f tmp" and g: "vars_agree opt v r"
    and x: "flags_ok opt tmp v f fname l1 x" and w: "vars_after opt tmp v f w"
  shows "\<exists>d. recv_attrs opt db r x (send_attrs opt tmp w f (if preserve_links opt \<and> S_ISLNK (mode f) then f_symlink f else []) x un gn @ rest)
    = Inr ((\<lparr>va_length = F_LENGTH f, va_nsec = F_MOD_NSEC f,
          va_link = (if preserve_links opt \<and> S_ISLNK (mode f) then Read_link (length (f_symlink f)) else No_link)\<rparr>,
        (attrs_read opt tmp f r) \<lparr>rv_rdev := d\<rparr>),
       (if preserve_links opt \<and> S_ISLNK (mode f) then bytes_of (f_symlink f) else [])
       @ (if always_checksum opt \<and> S_ISREG (mode f) then take (flist_csum_len opt) (tmp_sum tmp) else []) @ rest)
     \<and> (preserve_devices opt \<and> IS_DEVICE (mode f) \<longrightarrow> d = rv_rdev (attrs_read opt tmp f r))"
proof -
  let ?pv = "protocol_version opt"
  let ?ids = "o_ids opt"
  have pv: "30 \<le> ?pv" "\<not> ?pv < 28" "\<not> ?pv < 30" "\<not> inc_recurse opt" "chmod_modes opt = []" using o by (simp_all add: plain_opts_def)
  have nf: "\<not> has x XMIT_USER_NAME_FOLLOWS" "\<not> has x XMIT_GROUP_NAME_FOLLOWS" using x by (simp_all add: flags_ok_def)
  have G: "rv_modtime r = sv_modtime v" "rv_mode r = sv_mode v" "rv_uid r = sv_uid v" "rv_gid r = sv_gid v" "rv_rdev_major r = sv_rdev_major v" "rv_gid_flags r = 0"
    using g by (simp_all add: vars_agree_def)
  let ?lnk = "preserve_links opt \<and> S_ISLNK (mode f)"
  let ?sum = "if always_checksum opt \<and> S_ISREG (mode f) then take (flist_csum_len opt) (tmp_sum tmp) else []"
  let ?b8 = "(if ?lnk then write_varint30 ?pv (word_of_nat (length (f_symlink f))) @ bytes_of (f_symlink f) else []) @ ?sum @ rest"
  let ?r2 = "r \<lparr>rv_modtime := modtime f\<rparr>"
  let ?r4 = "?r2 \<lparr>rv_mode := ucast (mode f)\<rparr>"
  let ?r5 = "if preserve_uid ?ids then ?r4 \<lparr>rv_uid := f_owner f\<rparr> else ?r4"
  let ?r6 = "if preserve_gid ?ids then ?r5 \<lparr>rv_gid := f_group f\<rparr> else ?r5"
  have 2: "(if \<not> has x XMIT_SAME_TIME then (if ?pv \<ge> 30 then rbind (read_varlong 4) (\<lambda>t. rreturn (r \<lparr>rv_modtime := t\<rparr>))
                else rbind read_int (\<lambda>t. rreturn (r \<lparr>rv_modtime := word_of_int t\<rparr>))) else rreturn r)
        ((if \<not> has x XMIT_SAME_TIME then (if ?pv \<ge> 30 then write_varlong (modtime f) 4 else write_int (sint (ucast (modtime f) :: uint32))) else []) @ s)
      = Inr (?r2, s)" for s
    using x pv G(1) upd_same(1) [of r "modtime f"] by (auto simp: flags_ok_def rbind_def read_varlong_write_varlong)
  have 3: "(if has x XMIT_MOD_NSEC then read_varint else rreturn 0) ((if has x XMIT_MOD_NSEC then write_varint (F_MOD_NSEC f) else []) @ s)
      = Inr (F_MOD_NSEC f, s)" for s
    using x e by (auto simp: flags_ok_def sent_entry_def read_varint_write_varint F_MOD_NSEC_def)
  have 4: "(if \<not> has x XMIT_SAME_MODE then rbind read_int (\<lambda>m. rreturn (?r2 \<lparr>rv_mode := word_of_int m\<rparr>)) else rreturn ?r2)
        ((if \<not> has x XMIT_SAME_MODE then write_int (uint (mode f)) else []) @ s) = Inr (?r4, s)" for s
    using x G(2) upd_same(2) [of ?r2 "ucast (mode f)"] mode_wire(1,2) [of "mode f"] by (auto simp: flags_ok_def rbind_def read_int_write_int)
  have 5: "(if preserve_uid ?ids \<and> \<not> has x XMIT_SAME_UID then recv_uid opt db ?r4 x else rreturn ?r4)
        ((if preserve_uid ?ids \<and> \<not> has x XMIT_SAME_UID then send_id ?pv (has x XMIT_USER_NAME_FOLLOWS) (f_owner f) un else []) @ s) = Inr (?r5, s)" for s
    using x pv nf G(3) upd_same(3) [of ?r4 "f_owner f"]
    by (auto simp: flags_ok_def recv_uid_def send_id_def rbind_def read_varint_write_varint Let_def)
  have 6: "(if preserve_gid ?ids \<and> \<not> has x XMIT_SAME_GID then recv_gid opt db ?r5 x else rreturn ?r5)
        ((if preserve_gid ?ids \<and> \<not> has x XMIT_SAME_GID then send_id ?pv (has x XMIT_GROUP_NAME_FOLLOWS) (f_group f) gn else []) @ s) = Inr (?r6, s)" for s
    using x pv nf G(4,6) upd_same(4) [of ?r5 "f_group f"] upd_same(5) [of "?r5 \<lparr>rv_gid := f_group f\<rparr>" 0]
    by (auto simp: flags_ok_def recv_gid_def send_id_def rbind_def read_varint_write_varint Let_def)
  have m6: "mode16 ?r6 = mode f" "rv_mode ?r6 = ucast (mode f)" "rv_rdev_major ?r6 = sv_rdev_major v" using mode_wire(3) [of "mode f"] G(5) by simp_all
  have dv: "has_rdev opt ?r6 \<longleftrightarrow> preserve_devices opt \<and> IS_DEVICE (mode f) \<or> preserve_specials opt \<and> IS_SPECIAL (mode f) \<and> ?pv < 31"
    unfolding has_rdev_def m6(1) by (rule refl)
  define d where "d = (if has_rdev opt ?r6
    then makedev (if preserve_devices opt \<and> IS_DEVICE (mode f) then dev_major (tmp_rdev tmp) else sv_rdev_major v) (dev_minor (sv_rdev w)) else rv_rdev ?r6)"
  let ?r7 = "(attrs_read opt tmp f r) \<lparr>rv_rdev := d\<rparr>"
  have r7: "?r7 = (if preserve_devices opt \<and> IS_DEVICE (mode f) then ?r6 \<lparr>rv_rdev_major := dev_major (tmp_rdev tmp)\<rparr> else ?r6) \<lparr>rv_rdev := d\<rparr>"
    by (simp add: attrs_read_def Let_def)
  let ?b7 = "if preserve_devices opt \<and> IS_DEVICE (mode f) \<or> preserve_specials opt \<and> IS_SPECIAL (mode f) \<and> ?pv < 31 then
           (if ?pv < 28 then (if \<not> has x XMIT_SAME_RDEV_pre28 then write_int (sint (ucast (sv_rdev w) :: uint32)) else [])
            else (if \<not> has x XMIT_SAME_RDEV_MAJOR then write_varint30 ?pv (dev_major (sv_rdev w)) else [])
              @ (if ?pv \<ge> 30 then write_varint (dev_minor (sv_rdev w))
                 else if has x XMIT_RDEV_MINOR_8_pre30 then write_byte (ucast (dev_minor (sv_rdev w)))
                 else write_int (sint (dev_minor (sv_rdev w))))) else []"
  have 7: "(if has_rdev opt ?r6 then rbind (recv_rdev opt ?r6 x) (\<lambda>v. rreturn (0, v))
             else rreturn (F_LENGTH f, if ?pv < 28 then ?r6 \<lparr>rv_rdev := makedev 0 0\<rparr> else ?r6)) (?b7 @ s) = Inr ((F_LENGTH f, ?r7), s)" for s
  proof (cases "has_rdev opt ?r6")
    case True
    have z: "F_LENGTH f = 0" using True e unfolding dv by (auto simp: sent_entry_def)
    have maj: "rbind (if \<not> has x XMIT_SAME_RDEV_MAJOR then rbind (read_varint30 ?pv) (\<lambda>m. rreturn (?r6 \<lparr>rv_rdev_major := m\<rparr>)) else rreturn ?r6) g
          ((if \<not> has x XMIT_SAME_RDEV_MAJOR then write_varint30 ?pv (dev_major (sv_rdev w)) else []) @ u)
        = g (if preserve_devices opt \<and> IS_DEVICE (mode f) then ?r6 \<lparr>rv_rdev_major := dev_major (tmp_rdev tmp)\<rparr> else ?r6) u"
      for g :: "recv_vars \<Rightarrow> recv_vars reader" and u
    proof (rule rbind_Inr, cases "preserve_devices opt \<and> IS_DEVICE (mode f)")
      case True
      have "sv_rdev w = tmp_rdev tmp" "has x XMIT_SAME_RDEV_MAJOR \<longleftrightarrow> dev_major (tmp_rdev tmp) = sv_rdev_major v"
        using True x w by (simp_all add: flags_ok_def vars_after_def)
      then show "(if \<not> has x XMIT_SAME_RDEV_MAJOR then rbind (read_varint30 ?pv) (\<lambda>m. rreturn (?r6 \<lparr>rv_rdev_major := m\<rparr>)) else rreturn ?r6)
          ((if \<not> has x XMIT_SAME_RDEV_MAJOR then write_varint30 ?pv (dev_major (sv_rdev w)) else []) @ u)
        = Inr (if preserve_devices opt \<and> IS_DEVICE (mode f) then ?r6 \<lparr>rv_rdev_major := dev_major (tmp_rdev tmp)\<rparr> else ?r6, u)"
        using True upd_same(6) [OF m6(3)] by (cases "has x XMIT_SAME_RDEV_MAJOR") (simp_all add: rbind_def read_varint30_write)
    next
      case False
      then have "has x XMIT_SAME_RDEV_MAJOR" using \<open>has_rdev opt ?r6\<close> x unfolding dv by (auto simp: flags_ok_def)
      then show "(if \<not> has x XMIT_SAME_RDEV_MAJOR then rbind (read_varint30 ?pv) (\<lambda>m. rreturn (?r6 \<lparr>rv_rdev_major := m\<rparr>)) else rreturn ?r6)
          ((if \<not> has x XMIT_SAME_RDEV_MAJOR then write_varint30 ?pv (dev_major (sv_rdev w)) else []) @ u)
        = Inr (if preserve_devices opt \<and> IS_DEVICE (mode f) then ?r6 \<lparr>rv_rdev_major := dev_major (tmp_rdev tmp)\<rparr> else ?r6, u)"
        unfolding if_not_P [OF False] by (simp only: if_False not_True_eq_False append_Nil rreturn_app simp_thms)
    qed
    have b: "?b7 = (if \<not> has x XMIT_SAME_RDEV_MAJOR then write_varint30 ?pv (dev_major (sv_rdev w)) else []) @ write_varint (dev_minor (sv_rdev w))"
      using True pv unfolding dv by auto
    have rd: "rv_rdev_major (if preserve_devices opt \<and> IS_DEVICE (mode f) then ?r6 \<lparr>rv_rdev_major := dev_major (tmp_rdev tmp)\<rparr> else ?r6)
      = (if preserve_devices opt \<and> IS_DEVICE (mode f) then dev_major (tmp_rdev tmp) else sv_rdev_major v)" using m6(3) by simp
    have dd: "d = makedev (if preserve_devices opt \<and> IS_DEVICE (mode f) then dev_major (tmp_rdev tmp) else sv_rdev_major v) (dev_minor (sv_rdev w))"
      using True by (simp add: d_def)
    have "recv_rdev opt ?r6 x (?b7 @ s) = Inr (?r7, s)"
      unfolding b unfolding recv_rdev_def Let_def append_assoc if_not_P [OF pv(2)] if_P [OF pv(1)] unfolding maj
      unfolding r7 unfolding dd by (simp only: rbind_def read_varint_write_varint sum.case prod.case rreturn_app rd)
    then show ?thesis using True z by (simp only: if_True rbind_Inr rreturn_app)
  next
    case False
    have "?b7 = []" using False pv unfolding dv by auto
    moreover have nd: "\<not> (preserve_devices opt \<and> IS_DEVICE (mode f))" using False unfolding dv by blast
    have "d = rv_rdev ?r6" unfolding d_def by (rule if_not_P [OF False])
    then have "?r7 = ?r6" unfolding r7 if_not_P [OF nd] by (rule upd_same(7) [OF sym])
    ultimately show ?thesis using False pv by (simp only: if_False append_Nil rreturn_app)
  qed
  have m7: "mode16 ?r7 = mode f" using mode_wire(3) [of "mode f"] by (simp add: attrs_read_def Let_def)
  have 8: "(if preserve_links opt \<and> S_ISLNK (mode16 ?r7) then
               rbind (read_varint30 ?pv) (\<lambda>n.
                 let len = sint (n + 1) in
                 if len \<le> 0 \<or> len > int MAXPATHLEN then rfail RERR_MALLOC else rreturn (Read_link (nat (len - 1))))
             else rreturn No_link) ?b8
     = Inr (if ?lnk then Read_link (length (f_symlink f)) else No_link, (if ?lnk then bytes_of (f_symlink f) else []) @ ?sum @ rest)"
  proof (cases ?lnk)
    case True
    then have l: "length (f_symlink f) < MAXPATHLEN" using e by (simp add: sent_entry_def)
    show ?thesis using True l unfolding m7 by (simp add: rbind_def read_varint30_write link_length [OF l] Let_def)
  next
    case False
    show ?thesis unfolding m7 if_not_P [OF False] append_Nil rreturn_app by (rule refl)
  qed
  let ?link = "if ?lnk then Read_link (length (f_symlink f)) else No_link"
  let ?fin = "(if ?lnk then bytes_of (f_symlink f) else []) @ ?sum @ rest"
  have s1: "rbind (read_varlong30 ?pv 3) h (write_varlong30 ?pv (F_LENGTH f) 3 @ s) = h (F_LENGTH f) s"
    for h :: "uint64 \<Rightarrow> (recv_values \<times> recv_vars) reader" and s by (rule rbind_Inr) (simp add: read_varlong30_write)
  have s2: "rbind (if \<not> has x XMIT_SAME_TIME then (if ?pv \<ge> 30 then rbind (read_varlong 4) (\<lambda>t. rreturn (r \<lparr>rv_modtime := t\<rparr>))
                else rbind read_int (\<lambda>t. rreturn (r \<lparr>rv_modtime := word_of_int t\<rparr>))) else rreturn r) h
        ((if \<not> has x XMIT_SAME_TIME then (if ?pv \<ge> 30 then write_varlong (modtime f) 4 else write_int (sint (ucast (modtime f) :: uint32))) else []) @ s)
      = h ?r2 s" for h :: "recv_vars \<Rightarrow> (recv_values \<times> recv_vars) reader" and s by (rule rbind_Inr, rule 2)
  have s3: "rbind (if has x XMIT_MOD_NSEC then read_varint else rreturn 0) h ((if has x XMIT_MOD_NSEC then write_varint (F_MOD_NSEC f) else []) @ s)
      = h (F_MOD_NSEC f) s" for h :: "uint32 \<Rightarrow> (recv_values \<times> recv_vars) reader" and s by (rule rbind_Inr, rule 3)
  have s4: "rbind (if \<not> has x XMIT_SAME_MODE then rbind read_int (\<lambda>m. rreturn (?r2 \<lparr>rv_mode := word_of_int m\<rparr>)) else rreturn ?r2) h
        ((if \<not> has x XMIT_SAME_MODE then write_int (uint (mode f)) else []) @ s) = h ?r4 s"
    for h :: "recv_vars \<Rightarrow> (recv_values \<times> recv_vars) reader" and s by (rule rbind_Inr, rule 4)
  have s5: "rbind (if preserve_uid ?ids \<and> \<not> has x XMIT_SAME_UID then recv_uid opt db ?r4 x else rreturn ?r4) h
        ((if preserve_uid ?ids \<and> \<not> has x XMIT_SAME_UID then send_id ?pv (has x XMIT_USER_NAME_FOLLOWS) (f_owner f) un else []) @ s) = h ?r5 s"
    for h :: "recv_vars \<Rightarrow> (recv_values \<times> recv_vars) reader" and s by (rule rbind_Inr, rule 5)
  have s6: "rbind (if preserve_gid ?ids \<and> \<not> has x XMIT_SAME_GID then recv_gid opt db ?r5 x else rreturn ?r5) h
        ((if preserve_gid ?ids \<and> \<not> has x XMIT_SAME_GID then send_id ?pv (has x XMIT_GROUP_NAME_FOLLOWS) (f_group f) gn else []) @ s) = h ?r6 s"
    for h :: "recv_vars \<Rightarrow> (recv_values \<times> recv_vars) reader" and s by (rule rbind_Inr, rule 6)
  have s7: "rbind (if has_rdev opt ?r6 then rbind (recv_rdev opt ?r6 x) (\<lambda>v. rreturn (0, v))
             else rreturn (F_LENGTH f, if ?pv < 28 then ?r6 \<lparr>rv_rdev := makedev 0 0\<rparr> else ?r6)) h (?b7 @ s) = h (F_LENGTH f, ?r7) s"
    for h :: "uint64 \<times> recv_vars \<Rightarrow> (recv_values \<times> recv_vars) reader" and s by (rule rbind_Inr, rule 7)
  have s8: "rbind (if preserve_links opt \<and> S_ISLNK (mode16 ?r7) then
               rbind (read_varint30 ?pv) (\<lambda>n.
                 let len = sint (n + 1) in
                 if len \<le> 0 \<or> len > int MAXPATHLEN then rfail RERR_MALLOC else rreturn (Read_link (nat (len - 1))))
             else rreturn No_link) h ?b8 = h ?link ?fin"
    for h :: "link_data \<Rightarrow> (recv_values \<times> recv_vars) reader" by (rule rbind_Inr, rule 8)
  have lk: "(if (if ?lnk then f_symlink f else []) \<noteq> [] then write_varint30 ?pv (word_of_nat (length (if ?lnk then f_symlink f else [])))
        @ bytes_of (if ?lnk then f_symlink f else []) else [])
      = (if ?lnk then write_varint30 ?pv (word_of_nat (length (f_symlink f))) @ bytes_of (f_symlink f) else [])"
    using e by (auto simp: sent_entry_def)
  have hl: "(if tmp_dev tmp \<noteq> - 1 \<and> ?pv < 30 then s else []) = []" for s :: "byte list" using pv(3) by simp
  have sm: "(if always_checksum opt \<and> (S_ISREG (mode f) \<or> ?pv < 28)
         then (if S_ISREG (mode f) then take (flist_csum_len opt) (tmp_sum tmp) else replicate (flist_csum_len opt) 0) else []) = ?sum"
    using pv(2) by auto
  have nc: "(if chmod_modes opt \<noteq> [] \<and> \<not> S_ISLNK (mode16 u) \<and> rv_mode u \<noteq> 0 then u \<lparr>rv_mode := tweak_mode (rv_mode u) (chmod_modes opt)\<rparr> else u) = u"
    for u using pv(5) by simp
  have "recv_attrs opt db r x (send_attrs opt tmp w f (if ?lnk then f_symlink f else []) x un gn @ rest)
      = Inr ((\<lparr>va_length = F_LENGTH f, va_nsec = F_MOD_NSEC f, va_link = ?link\<rparr>, ?r7), ?fin)"
    unfolding recv_attrs_def send_attrs_def Let_def lk hl sm nc append_assoc append_Nil
    by (simp only: s1 s2 s3 s4 s5 s6 s7 s8 [unfolded Let_def] prod.case rreturn_app nc)
  moreover have "preserve_devices opt \<and> IS_DEVICE (mode f) \<longrightarrow> d = rv_rdev (attrs_read opt tmp f r)"
    using w by (simp add: d_def dv attrs_read_def vars_after_def Let_def)
  ultimately show ?thesis by blast
qed

end
