(* ===== verification/ListTransfer.thy ===== *)
theory ListTransfer
  imports FileEntry
begin

text \<open>
  The file list as it arrives: each entry that the receiver makes has the name and the attributes of
  the entry the sender had, and the list of ids translates its owners.
\<close>

unbundle bit_operations_syntax

subsection \<open>One entry\<close>

text \<open>
  What the receiver has of the entry \<open>f\<close>: everything but the address of its directory's name,
  the owners and the devices as far as the options keep them.
\<close>

definition entry_received :: "flist_opts \<Rightarrow> file_struct \<Rightarrow> send_tmp \<Rightarrow> file_struct \<Rightarrow> bool" where
  "entry_received opt f tmp g \<longleftrightarrow>
     f_name g = f_name f \<and> mode g = mode f \<and> F_LENGTH g = F_LENGTH f
   \<and> modtime g = modtime f \<and> F_MOD_NSEC g = F_MOD_NSEC f
   \<and> f_owner g = (if preserve_uid (o_ids opt) then f_owner f else 0)
   \<and> f_group g = (if preserve_gid (o_ids opt) then f_group f else 0)
   \<and> f_rdev g = (if preserve_devices opt \<and> IS_DEVICE (mode f) then (dev_major (tmp_rdev tmp), dev_minor (tmp_rdev tmp)) else (0, 0))
   \<and> f_symlink g = (if preserve_links opt \<and> S_ISLNK (mode f) then f_symlink f else [])
   \<and> f_sum g = (if always_checksum opt \<and> S_ISREG (mode f) then take (flist_csum_len opt) (tmp_sum tmp) else [])
   \<and> flags g AND FLAG_HLINKED = 0
   \<and> (S_ISDIR (mode f) \<longrightarrow>
        (flags g AND FLAG_CONTENT_DIR = 0 \<longleftrightarrow> flags f AND FLAG_CONTENT_DIR = 0)
      \<and> (flags g AND FLAG_TOP_DIR \<noteq> 0 \<longleftrightarrow> flags f AND FLAG_CONTENT_DIR \<noteq> 0 \<and> flags f AND FLAG_TOP_DIR \<noteq> 0)
      \<and> (flags g AND FLAG_IMPLIED_DIR \<noteq> 0 \<longleftrightarrow> flags f AND FLAG_CONTENT_DIR = 0 \<and> flags f AND FLAG_IMPLIED_DIR \<noteq> 0))"

lemma bit_flag:
  "fl AND FLAG_TOP_DIR \<noteq> 0 \<longleftrightarrow> bit fl 0" "fl AND FLAG_CONTENT_DIR \<noteq> 0 \<longleftrightarrow> bit fl 2" "fl AND FLAG_HLINKED \<noteq> 0 \<longleftrightarrow> bit fl 5"
  "fl AND FLAG_IMPLIED_DIR \<noteq> 0 \<longleftrightarrow> bit fl 6" "fl AND FLAG_LENGTH64 \<noteq> 0 \<longleftrightarrow> bit fl 9" "fl AND FLAG_MOD_NSEC \<noteq> 0 \<longleftrightarrow> bit fl 12"
  "bit FLAG_TOP_DIR n \<longleftrightarrow> n = 0" "bit FLAG_CONTENT_DIR n \<longleftrightarrow> n = 2" "bit FLAG_HLINKED n \<longleftrightarrow> n = 5"
  "bit FLAG_IMPLIED_DIR n \<longleftrightarrow> n = 6" "bit FLAG_LENGTH64 n \<longleftrightarrow> n = 9" "bit FLAG_MOD_NSEC n \<longleftrightarrow> n = 12"
proof -
  have *: "fl AND 2 ^ n \<noteq> 0 \<longleftrightarrow> bit fl n" for n by (simp add: and_exp_eq_0_iff_not_bit)
  have p: "bit (2 ^ k :: 16 word) n \<longleftrightarrow> n = k" if "k < 16" for k using that by (auto simp: bit_exp_iff)
  note [simp] = FLAG_TOP_DIR_def FLAG_CONTENT_DIR_def FLAG_HLINKED_def FLAG_IMPLIED_DIR_def FLAG_LENGTH64_def FLAG_MOD_NSEC_def
  show "fl AND FLAG_TOP_DIR \<noteq> 0 \<longleftrightarrow> bit fl 0" "bit FLAG_TOP_DIR n \<longleftrightarrow> n = 0" using * [of 0] p [of 0] by simp_all
  show "fl AND FLAG_CONTENT_DIR \<noteq> 0 \<longleftrightarrow> bit fl 2" "bit FLAG_CONTENT_DIR n \<longleftrightarrow> n = 2" using * [of 2] p [of 2] by simp_all
  show "fl AND FLAG_HLINKED \<noteq> 0 \<longleftrightarrow> bit fl 5" "bit FLAG_HLINKED n \<longleftrightarrow> n = 5" using * [of 5] p [of 5] by simp_all
  show "fl AND FLAG_IMPLIED_DIR \<noteq> 0 \<longleftrightarrow> bit fl 6" "bit FLAG_IMPLIED_DIR n \<longleftrightarrow> n = 6" using * [of 6] p [of 6] by simp_all
  show "fl AND FLAG_LENGTH64 \<noteq> 0 \<longleftrightarrow> bit fl 9" "bit FLAG_LENGTH64 n \<longleftrightarrow> n = 9" using * [of 9] p [of 9] by simp_all
  show "fl AND FLAG_MOD_NSEC \<noteq> 0 \<longleftrightarrow> bit fl 12" "bit FLAG_MOD_NSEC n \<longleftrightarrow> n = 12" using * [of 12] p [of 12] by simp_all
qed

lemma length_parts:
  assumes "long = (0xFFFFFFFF < (n :: uint64))"
  shows "ucast (ucast n :: uint32) + (if long then push_bit 32 (ucast (ucast (drop_bit 32 n) :: uint32)) else 0) = n"
proof (cases long)
  case True
  have "ucast (ucast n :: uint32) + push_bit 32 (ucast (ucast (drop_bit 32 n) :: uint32))
      = ucast (ucast n :: uint32) OR (push_bit 32 (ucast (ucast (drop_bit 32 n) :: uint32)) :: uint64)"
    by (rule disjunctive_add) (auto simp: bit_simps)
  also have "\<dots> = n" by (rule bit_word_eqI) (auto simp: bit_simps)
  finally show ?thesis using True by simp
next
  case False
  then have "unat n \<le> unat (0xFFFFFFFF :: uint64)" using assms by (simp add: word_le_nat_alt not_less)
  then have "unat (drop_bit 32 n) = 0" unfolding unat_drop_bit_eq by (simp add: drop_bit_eq_div)
  then have "drop_bit 32 n = 0" by (simp only: unat_eq_zero)
  then have "take_bit 32 n = n" by (simp add: take_bit_eq_self_iff_drop_bit_eq_0)
  moreover have "ucast (ucast n :: uint32) = take_bit 32 n" by (rule bit_word_eqI) (auto simp: bit_simps)
  ultimately show ?thesis using False by simp
qed

lemma kept_fields:
  "F_LENGTH (g \<lparr>f_symlink := l, f_gnum := k, f_sum := c\<rparr>) = F_LENGTH g"
  "F_MOD_NSEC (g \<lparr>f_symlink := l, f_gnum := k, f_sum := c\<rparr>) = F_MOD_NSEC g"
  "f_name (g \<lparr>f_symlink := l, f_gnum := k, f_sum := c\<rparr>) = f_name g"
  by (simp_all add: F_LENGTH_def F_MOD_NSEC_def f_name_def f_is_active_def split: option.split)

lemma dir_flags_read:
  assumes o: "plain_opts opt" and x: "flags_ok opt tmp v f fname l1 x" and d: "S_ISDIR (mode f)"
  shows "\<exists>fl. recv_dir_flags opt r x a b depth = (fl, r)
    \<and> (\<forall>n. bit fl n \<longrightarrow> n = 0 \<or> n = 2 \<or> n = 6)
    \<and> (bit fl 2 \<longleftrightarrow> flags f AND FLAG_CONTENT_DIR \<noteq> 0)
    \<and> (bit fl 0 \<longleftrightarrow> flags f AND FLAG_CONTENT_DIR \<noteq> 0 \<and> flags f AND FLAG_TOP_DIR \<noteq> 0)
    \<and> (bit fl 6 \<longleftrightarrow> flags f AND FLAG_CONTENT_DIR = 0 \<and> flags f AND FLAG_IMPLIED_DIR \<noteq> 0)"
proof -
  have "30 \<le> protocol_version opt" using o by (simp add: plain_opts_def)
  moreover have "has x XMIT_NO_CONTENT_DIR \<longleftrightarrow> flags f AND FLAG_CONTENT_DIR = 0"
    "has x XMIT_TOP_DIR \<longleftrightarrow> flags f AND (if flags f AND FLAG_CONTENT_DIR \<noteq> 0 then FLAG_TOP_DIR else FLAG_IMPLIED_DIR) \<noteq> 0"
    using x d by (simp_all add: flags_ok_def)
  ultimately show ?thesis
    by (cases "flags f AND FLAG_CONTENT_DIR = 0") (auto simp: recv_dir_flags_def bit_or_iff bit_flag(7-))
qed

lemma new_entry_read:
  assumes o: "plain_opts opt" and e: "sent_entry opt f tmp" and x: "flags_ok opt tmp v f fname l1 x"
    and m: "rv_mode r = ucast (mode f)" and t: "rv_modtime r = modtime f" and g: "rv_gid_flags r = 0"
    and u: "preserve_uid (o_ids opt) \<longrightarrow> rv_uid r = f_owner f" "preserve_gid (o_ids opt) \<longrightarrow> rv_gid r = f_group f"
    and d: "preserve_devices opt \<and> IS_DEVICE (mode f) \<longrightarrow> rv_rdev r = makedev (dev_major (tmp_rdev tmp)) (dev_minor (tmp_rdev tmp))"
    and n: "base \<noteq> []" "f_name f = Some (case dir of None \<Rightarrow> base | Some (_, d) \<Rightarrow> d @ ''/'' @ base)"
    and va: "va_length va = F_LENGTH f" "va_nsec va = F_MOD_NSEC f"
  shows "\<exists>g. new_entry opt r x a b dir base va = (g, r) \<and> dirname g = dir \<and> basename g = base
    \<and> entry_received opt f tmp (g \<lparr>f_symlink := if preserve_links opt \<and> S_ISLNK (mode f) then f_symlink f else [],
        f_gnum := k, f_sum := if always_checksum opt \<and> S_ISREG (mode f) then take (flist_csum_len opt) (tmp_sum tmp) else []\<rparr>)"
proof -
  have M: "mode16 r = mode f" using m mode_wire(3) by simp
  have hl: "\<not> has x XMIT_HLINKED" using x by (simp add: flags_ok_def)
  let ?long = "0xFFFFFFFF < F_LENGTH f \<and> S_ISREG (mode f)"
  have long: "?long = (0xFFFFFFFF < F_LENGTH f)" using e by (auto simp: sent_entry_def not_less)
  let ?depth = "let dp = (if dir \<noteq> None then rv_lastdir_depth r + 1 else 1) in if S_ISDIR (mode f) \<and> base = ''.'' then dp - 1 else dp"
  obtain fl where fl: "(if S_ISDIR (mode f) then recv_dir_flags opt r x a b ?depth else (0, r)) = (fl, r)"
    and fb: "\<forall>n. bit fl n \<longrightarrow> n = 0 \<or> n = 2 \<or> n = 6"
    and fd: "S_ISDIR (mode f) \<longrightarrow> (bit fl 2 \<longleftrightarrow> flags f AND FLAG_CONTENT_DIR \<noteq> 0)
      \<and> (bit fl 0 \<longleftrightarrow> flags f AND FLAG_CONTENT_DIR \<noteq> 0 \<and> flags f AND FLAG_TOP_DIR \<noteq> 0)
      \<and> (bit fl 6 \<longleftrightarrow> flags f AND FLAG_CONTENT_DIR = 0 \<and> flags f AND FLAG_IMPLIED_DIR \<noteq> 0)"
  proof (cases "S_ISDIR (mode f)")
    case True
    obtain fl where h: "recv_dir_flags opt r x a b ?depth = (fl, r)" "\<forall>n. bit fl n \<longrightarrow> n = 0 \<or> n = 2 \<or> n = 6"
        "(bit fl 2 \<longleftrightarrow> flags f AND FLAG_CONTENT_DIR \<noteq> 0)
        \<and> (bit fl 0 \<longleftrightarrow> flags f AND FLAG_CONTENT_DIR \<noteq> 0 \<and> flags f AND FLAG_TOP_DIR \<noteq> 0)
        \<and> (bit fl 6 \<longleftrightarrow> flags f AND FLAG_CONTENT_DIR = 0 \<and> flags f AND FLAG_IMPLIED_DIR \<noteq> 0)"
      using dir_flags_read [OF o x True, of r a b ?depth] by blast
    show ?thesis by (rule that [OF _ h(2)]) (use h(1,3) True in \<open>simp_all only: if_True simp_thms\<close>)
  next
    case False
    show ?thesis by (rule that [of 0]) (use False in simp_all)
  qed
  define F where "F = (if F_MOD_NSEC f \<noteq> 0 then FLAG_MOD_NSEC else 0) OR (if ?long then FLAG_LENGTH64 else 0) OR fl"
  have F: "bit F n \<longleftrightarrow> n = 12 \<and> F_MOD_NSEC f \<noteq> 0 \<or> n = 9 \<and> ?long \<or> bit fl n" for n unfolding F_def by (auto simp: bit_or_iff bit_flag(7-))
  have F': "F AND FLAG_MOD_NSEC \<noteq> 0 \<longleftrightarrow> F_MOD_NSEC f \<noteq> 0" "F AND FLAG_LENGTH64 \<noteq> 0 \<longleftrightarrow> ?long" "F AND FLAG_HLINKED = 0"
    "F AND FLAG_TOP_DIR \<noteq> 0 \<longleftrightarrow> bit fl 0" "F AND FLAG_CONTENT_DIR \<noteq> 0 \<longleftrightarrow> bit fl 2" "F AND FLAG_IMPLIED_DIR \<noteq> 0 \<longleftrightarrow> bit fl 6"
  proof -
    have nb: "\<not> bit fl 12" "\<not> bit fl 9" "\<not> bit fl 5" using fb [rule_format, of 12] fb [rule_format, of 9] fb [rule_format, of 5] by (simp_all, blast+)
    show "F AND FLAG_MOD_NSEC \<noteq> 0 \<longleftrightarrow> F_MOD_NSEC f \<noteq> 0" unfolding bit_flag(6) F using nb(1) by simp
    show "F AND FLAG_LENGTH64 \<noteq> 0 \<longleftrightarrow> ?long" unfolding bit_flag(5) F using nb(2) by simp
    show "F AND FLAG_HLINKED = 0" using bit_flag(3) [of F] F [of 5] nb(3) by simp
    show "F AND FLAG_TOP_DIR \<noteq> 0 \<longleftrightarrow> bit fl 0" unfolding bit_flag(1) F by simp
    show "F AND FLAG_CONTENT_DIR \<noteq> 0 \<longleftrightarrow> bit fl 2" unfolding bit_flag(2) F by simp
    show "F AND FLAG_IMPLIED_DIR \<noteq> 0 \<longleftrightarrow> bit fl 6" unfolding bit_flag(4) F by simp
  qed
  let ?g = "empty_file \<lparr>dirname := dir, basename := base, modtime := modtime f, len32 := ucast (F_LENGTH f), mode := mode f,
            flags := F, f_depth := ?depth, len_high := (if ?long then ucast (drop_bit 32 (F_LENGTH f)) else 0), nsec := F_MOD_NSEC f,
            f_owner := (if preserve_uid (o_ids opt) then f_owner f else 0),
            f_group := (if preserve_gid (o_ids opt) then f_group f else 0),
            f_rdev := (if preserve_devices opt \<and> IS_DEVICE (mode f) then (dev_major (tmp_rdev tmp), dev_minor (tmp_rdev tmp)) else (0, 0))\<rparr>"
  define g where "g = ?g"
  have G: "dirname g = dir" "basename g = base" "modtime g = modtime f" "len32 g = ucast (F_LENGTH f)" "mode g = mode f" "flags g = F"
    "len_high g = (if ?long then ucast (drop_bit 32 (F_LENGTH f)) else 0)" "nsec g = F_MOD_NSEC f"
    "f_owner g = (if preserve_uid (o_ids opt) then f_owner f else 0)" "f_group g = (if preserve_gid (o_ids opt) then f_group f else 0)"
    "f_rdev g = (if preserve_devices opt \<and> IS_DEVICE (mode f) then (dev_major (tmp_rdev tmp), dev_minor (tmp_rdev tmp)) else (0, 0))"
    unfolding g_def by simp_all
  have new: "new_entry opt r x a b dir base va = (g, r)"
    unfolding new_entry_def va M Let_def fl [unfolded Let_def] prod.case t g if_not_P [OF hl] g_def
    using u d by (simp add: makedev_parts F_def)
  have len: "F_LENGTH g = F_LENGTH f"
    unfolding F_LENGTH_def [of g] G F'(2) using length_parts [OF long] by (cases ?long) (simp_all only: if_True if_False simp_thms)
  have ns: "F_MOD_NSEC g = F_MOD_NSEC f" unfolding F_MOD_NSEC_def [of g] G using F'(1) by (cases "F_MOD_NSEC f = 0") simp_all
  have nm: "f_name g = f_name f" unfolding f_name_def [of g] f_is_active_def [of g] G n(2) using n(1) by simp
  let ?g' = "g \<lparr>f_symlink := if preserve_links opt \<and> S_ISLNK (mode f) then f_symlink f else [],
        f_gnum := k, f_sum := if always_checksum opt \<and> S_ISREG (mode f) then take (flist_csum_len opt) (tmp_sum tmp) else []\<rparr>"
  have same: "F_LENGTH ?g' = F_LENGTH g" "F_MOD_NSEC ?g' = F_MOD_NSEC g" "f_name ?g' = f_name g"
    by (rule kept_fields)+
  have d: "S_ISDIR (mode f) \<longrightarrow>
        (F AND FLAG_CONTENT_DIR = 0 \<longleftrightarrow> flags f AND FLAG_CONTENT_DIR = 0)
      \<and> (F AND FLAG_TOP_DIR \<noteq> 0 \<longleftrightarrow> flags f AND FLAG_CONTENT_DIR \<noteq> 0 \<and> flags f AND FLAG_TOP_DIR \<noteq> 0)
      \<and> (F AND FLAG_IMPLIED_DIR \<noteq> 0 \<longleftrightarrow> flags f AND FLAG_CONTENT_DIR = 0 \<and> flags f AND FLAG_IMPLIED_DIR \<noteq> 0)"
    using F'(4-6) fd by blast
  have "entry_received opt f tmp ?g'"
    unfolding entry_received_def same len ns nm using d by (intro conjI) (simp_all add: G F'(3))
  then show ?thesis using new G(1,2) by blast
qed

lemma recv_rest_send:
  assumes o: "plain_opts opt" and e: "sent_entry opt f tmp" and m: "rv_mode r = ucast (mode f)"
    and h: "\<not> has x XMIT_HLINKED"
  shows "recv_link opt r (if preserve_links opt \<and> S_ISLNK (mode f) then Read_link (length (f_symlink f)) else No_link)
      ((if preserve_links opt \<and> S_ISLNK (mode f) then bytes_of (f_symlink f) else []) @ s)
    = Inr (if preserve_links opt \<and> S_ISLNK (mode f) then f_symlink f else [], s)"
    and "recv_hlink opt r x i j s = Inr ((0, r), s)"
    and "recv_sum opt r None ((if always_checksum opt \<and> S_ISREG (mode f) then take (flist_csum_len opt) (tmp_sum tmp) else []) @ s)
    = Inr (if always_checksum opt \<and> S_ISREG (mode f) then take (flist_csum_len opt) (tmp_sum tmp) else [], s)"
proof -
  have nul: "preserve_links opt \<and> S_ISLNK (mode f) \<Longrightarrow> cstr (bytes_of (f_symlink f)) = f_symlink f"
    using e by (simp add: sent_entry_def cstr_bytes_of)
  show "recv_link opt r (if preserve_links opt \<and> S_ISLNK (mode f) then Read_link (length (f_symlink f)) else No_link)
      ((if preserve_links opt \<and> S_ISLNK (mode f) then bytes_of (f_symlink f) else []) @ s)
    = Inr (if preserve_links opt \<and> S_ISLNK (mode f) then f_symlink f else [], s)"
  proof (cases "preserve_links opt \<and> S_ISLNK (mode f)")
    case True
    then show ?thesis using o nul by (simp add: recv_link_def plain_opts_def rbind_def Let_def)
  next
    case False
    show ?thesis unfolding if_not_P [OF False] by (simp add: recv_link_def)
  qed
  show "recv_hlink opt r x i j s = Inr ((0, r), s)" using h by (simp add: recv_hlink_def)
  have M: "mode16 r = mode f" using m mode_wire(3) by simp
  have pv: "\<not> protocol_version opt < 28" using o by (simp add: plain_opts_def)
  show "recv_sum opt r None ((if always_checksum opt \<and> S_ISREG (mode f) then take (flist_csum_len opt) (tmp_sum tmp) else []) @ s)
    = Inr (if always_checksum opt \<and> S_ISREG (mode f) then take (flist_csum_len opt) (tmp_sum tmp) else [], s)"
  proof (cases "always_checksum opt \<and> S_ISREG (mode f)")
    case True
    then have "length (take (flist_csum_len opt) (tmp_sum tmp)) = flist_csum_len opt" using e by (simp add: sent_entry_def)
    then show ?thesis using True by (simp add: recv_sum_def M rbind_def)
  next
    case False
    then have c: "\<not> (always_checksum opt \<and> (S_ISREG (mode f) \<or> protocol_version opt < 28))" using pv by blast
    show ?thesis unfolding if_not_P [OF False] recv_sum_def M if_not_P [OF c] by simp
  qed
qed

lemma attrs_read_vars:
  "rv_mode (attrs_read opt tmp f r) = ucast (mode f)" "rv_modtime (attrs_read opt tmp f r) = modtime f"
  "rv_gid_flags (attrs_read opt tmp f r) = rv_gid_flags r" "rv_dirs (attrs_read opt tmp f r) = rv_dirs r"
  "rv_lastdir (attrs_read opt tmp f r) = rv_lastdir r" "rv_ids (attrs_read opt tmp f r) = rv_ids r" "rv_lastname (attrs_read opt tmp f r) = rv_lastname r"
  "rv_uid (attrs_read opt tmp f r) = (if preserve_uid (o_ids opt) then f_owner f else rv_uid r)"
  "rv_gid (attrs_read opt tmp f r) = (if preserve_gid (o_ids opt) then f_group f else rv_gid r)"
  "rv_rdev_major (attrs_read opt tmp f r) = (if preserve_devices opt \<and> IS_DEVICE (mode f) then dev_major (tmp_rdev tmp) else rv_rdev_major r)"
  "preserve_devices opt \<and> IS_DEVICE (mode f) \<Longrightarrow>
    rv_rdev (attrs_read opt tmp f r) = makedev (dev_major (tmp_rdev tmp)) (dev_minor (tmp_rdev tmp))"
  by (simp_all add: attrs_read_def Let_def)

text \<open>The strings of the directory names only become more, and the entry points to one of them.\<close>

definition dir_in :: "string list \<Rightarrow> file_struct \<Rightarrow> bool" where
  "dir_in dirs g \<longleftrightarrow> CHR ''/'' \<notin> set (basename g) \<and> (\<forall>a d. dirname g = Some (a, d) \<longrightarrow> a < length dirs \<and> dirs ! a = d)"

lemma recv_entry_send:
  assumes o: "plain_opts opt" and e: "sent_entry opt f tmp" and g: "vars_agree opt v r" and n: "f_name f = Some fname"
  shows "\<exists>c bs x body w h r'. send_file_entry opt db v tmp fname f (if preserve_links opt \<and> S_ISLNK (mode f) then f_symlink f else []) ndx first_ndx
        = (c # bs @ body, w)
    \<and> c \<noteq> 0 \<and> read_xflags (protocol_version opt) c (bs @ body @ rest) = Inr (x, body @ rest) \<and> \<not> has x XMIT_HLINK_FIRST
    \<and> recv_file_entry opt db' r files ndx_start x (body @ rest) = Inr ((h, r'), rest)
    \<and> entry_received opt f tmp h \<and> vars_agree opt w r' \<and> (\<exists>l. rv_dirs r' = rv_dirs r @ l) \<and> dir_in (rv_dirs r') h \<and> rv_ids r' = rv_ids r"
proof -
  let ?pv = "protocol_version opt"
  let ?lnk = "preserve_links opt \<and> S_ISLNK (mode f)"
  define l1 where "l1 = min 255 (same_start (sv_lastname v) fname)"
  have pv: "28 \<le> ?pv" "30 \<le> ?pv" "\<not> ?pv < 28" "\<not> sanitize_paths opt" using o by (simp_all add: plain_opts_def)
  have t: "tmp_dev tmp = - 1" and sn: "sent_name opt fname" using e n by (simp_all add: sent_entry_def)
  from send_entry_shape [OF o t l1_def, of db f "if ?lnk then f_symlink f else []" ndx first_ndx] obtain x0 head x w un gn where
    S: "send_file_entry opt db v tmp fname f (if ?lnk then f_symlink f else []) ndx first_ndx =
      (head @ send_name ?pv x l1 fname @ send_attrs opt tmp w f (if ?lnk then f_symlink f else []) x un gn,
       w \<lparr>sv_lastname := take (MAXPATHLEN - 1) fname\<rparr>)"
    and W: "write_xflags ?pv (S_ISDIR (mode f)) x0 = (head, x)" "\<not> bit x0 2"
    and X: "flags_ok opt tmp v f fname l1 x" and A: "vars_after opt tmp v f w" by blast
  let ?as = "send_attrs opt tmp w f (if ?lnk then f_symlink f else []) x un gn"
  let ?body = "send_name ?pv x l1 fname @ ?as"
  obtain c bs where H: "head = c # bs" "c \<noteq> 0" "read_xflags ?pv c (bs @ ?body @ rest) = Inr (x, ?body @ rest)"
    using write_xflags_read(1) [OF W(1) pv(1) W(2)] by blast
  have l1r: "l1 = min 255 (same_start (rv_lastname r) fname)" using g l1_def by (simp add: vars_agree_def)
  have xn: "has x XMIT_SAME_NAME \<longleftrightarrow> l1 > 0" "has x XMIT_LONG_NAME \<longleftrightarrow> length fname - l1 > 255" "\<not> has x XMIT_HLINKED" "\<not> has x XMIT_HLINK_FIRST"
    using X by (simp_all add: flags_ok_def)
  define r1 where "r1 = r \<lparr>rv_lastname := fname\<rparr>"
  have 1: "recv_name opt r x (?body @ rest) = Inr ((l1, length fname - l1, fname, r1), ?as @ rest)"
    unfolding append_assoc r1_def by (rule recv_name_send [OF sn l1r xn(1,2) pv(4)])
  obtain dir base r2 where 2: "recv_dir r1 fname = (dir, base, r2)" by (metis prod_cases3)
  have "dirs_ok r1" using g by (simp add: vars_agree_def r1_def dirs_ok_def)
  note D = recv_dir_spec [OF 2 this]
  have r2: "r2 = r1 \<lparr>rv_dirs := rv_dirs r2, rv_lastdir := rv_lastdir r2, rv_lastdir_depth := rv_lastdir_depth r2\<rparr>" using D(6) by (simp add: same_vars_def)
  have r2v: "rv_modtime r2 = rv_modtime r" "rv_mode r2 = rv_mode r" "rv_uid r2 = rv_uid r" "rv_gid r2 = rv_gid r" "rv_gid_flags r2 = rv_gid_flags r"
    "rv_rdev_major r2 = rv_rdev_major r" "rv_lastname r2 = fname" "rv_ids r2 = rv_ids r"
    by (subst r2, simp add: r1_def)+
  let ?v = "v \<lparr>sv_lastname := fname\<rparr>"
  have g2: "vars_agree opt ?v r2" using g D(3) r2v by (simp add: vars_agree_def)
  have X2: "flags_ok opt tmp ?v f fname l1 x" "vars_after opt tmp ?v f w" using X A by (simp_all add: flags_ok_def vars_after_def)
  let ?link = "if ?lnk then Read_link (length (f_symlink f)) else No_link"
  let ?va = "\<lparr>va_length = F_LENGTH f, va_nsec = F_MOD_NSEC f, va_link = ?link\<rparr>"
  let ?sum = "if always_checksum opt \<and> S_ISREG (mode f) then take (flist_csum_len opt) (tmp_sum tmp) else []"
  let ?fin = "(if ?lnk then bytes_of (f_symlink f) else []) @ ?sum @ rest"
  from recv_attrs_send [OF o e g2 X2, of db' un gn rest] obtain d where
    3: "recv_attrs opt db' r2 x (?as @ rest) = Inr ((?va, (attrs_read opt tmp f r2) \<lparr>rv_rdev := d\<rparr>), ?fin)"
    and dd: "preserve_devices opt \<and> IS_DEVICE (mode f) \<longrightarrow> d = rv_rdev (attrs_read opt tmp f r2)" by blast
  define r3 where "r3 = (attrs_read opt tmp f r2) \<lparr>rv_rdev := d\<rparr>"
  note av = attrs_read_vars [where opt = opt and tmp = tmp and f = f and r = r2]
  have r3: "rv_mode r3 = ucast (mode f)" "rv_modtime r3 = modtime f" "rv_gid_flags r3 = 0" "rv_dirs r3 = rv_dirs r2" "rv_lastdir r3 = rv_lastdir r2"
    "rv_lastname r3 = fname" "rv_uid r3 = (if preserve_uid (o_ids opt) then f_owner f else rv_uid r)"
    "rv_gid r3 = (if preserve_gid (o_ids opt) then f_group f else rv_gid r)"
    "rv_rdev_major r3 = (if preserve_devices opt \<and> IS_DEVICE (mode f) then dev_major (tmp_rdev tmp) else rv_rdev_major r)"
    "preserve_devices opt \<and> IS_DEVICE (mode f) \<longrightarrow> rv_rdev r3 = makedev (dev_major (tmp_rdev tmp)) (dev_minor (tmp_rdev tmp))"
    using av dd r2v g by (simp_all add: r3_def vars_agree_def)
  have fn: "f_name f = Some (case dir of None \<Rightarrow> base | Some (_, d) \<Rightarrow> d @ ''/'' @ base)" using n D(1) by simp
  obtain p where p: "fname = p @ basename f" "p = [] \<or> last p = CHR ''/''" and bf: "basename f \<noteq> []"
    using n by (auto simp: f_name_def f_is_active_def split: if_splits option.splits)
  have "base \<noteq> []"
  proof
    assume "base = []"
    then have "p @ basename f = (case dir of None \<Rightarrow> [] | Some (_, d) \<Rightarrow> d @ ''/'')" using p(1) D(1) by (auto split: option.splits)
    then have "last (p @ basename f) = CHR ''/''" using bf by (auto split: option.splits)
    then show False using bf e by (auto simp: sent_entry_def dest: last_in_set)
  qed
  from new_entry_read [OF o e X r3(1-3) _ _ r3(10) this fn, of ?va l1 "length fname - l1" 0] r3(7,8) obtain h where
    4: "new_entry opt r3 x l1 (length fname - l1) dir base ?va = (h, r3)" and hd: "dirname h = dir" "basename h = base"
    and E: "entry_received opt f tmp (h \<lparr>f_symlink := if ?lnk then f_symlink f else [], f_gnum := 0, f_sum := ?sum\<rparr>)" by auto
  let ?h = "h \<lparr>f_symlink := if ?lnk then f_symlink f else [], f_gnum := 0, f_sum := ?sum\<rparr>"
  note R = recv_rest_send [OF o e r3(1) xn(3)]
  have neg: "\<not> sint (F_LENGTH f) < 0" using e by (simp add: sent_entry_def)
  have s1: "rbind (recv_name opt r x) g (?body @ rest) = g (l1, length fname - l1, fname, r1) (?as @ rest)"
    for g :: "_ \<Rightarrow> (file_struct \<times> recv_vars) reader" by (rule rbind_Inr, rule 1)
  have s3: "rbind (recv_attrs opt db' r2 x) g (?as @ rest) = g (?va, r3) ?fin"
    for g :: "_ \<Rightarrow> (file_struct \<times> recv_vars) reader" by (rule rbind_Inr, unfold r3_def, rule 3)
  have s5: "rbind (recv_link opt r3 ?link) g ?fin = g (if ?lnk then f_symlink f else []) (?sum @ rest)"
    for g :: "_ \<Rightarrow> (file_struct \<times> recv_vars) reader" by (rule rbind_Inr, rule R(1))
  have s6: "rbind (recv_hlink opt r3 x i j) g u = g (0, r3) u"
    for g :: "_ \<Rightarrow> (file_struct \<times> recv_vars) reader" and u i j by (rule rbind_Inr, rule R(2))
  have s7: "rbind (recv_sum opt r3 None) g (?sum @ rest) = g ?sum rest"
    for g :: "_ \<Rightarrow> (file_struct \<times> recv_vars) reader" by (rule rbind_Inr, rule R(3))
  have rb: "rbind (rreturn a) g = g a" for g :: "int \<Rightarrow> (file_struct \<times> recv_vars) reader" and a by (rule ext) (simp add: rbind_def)
  have nh: "\<not> (30 \<le> ?pv \<and> has x XMIT_HLINKED \<and> \<not> has x XMIT_HLINK_FIRST)" using xn(3) by blast
  have nf: "\<not> (- 1 \<noteq> (- 1 :: int) \<and> ndx_start \<le> - 1)" by simp
  have no: "\<not> (preserve_hard_links opt \<and> ?pv < 28 \<and> S_ISREG (mode16 r3))" using pv(3) by blast
  have "recv_file_entry opt db' r files ndx_start x (?body @ rest) = Inr ((?h, r3), rest)"
    unfolding recv_file_entry_def Let_def s1 prod.case 2 if_not_P [OF nh] rb if_not_P [OF nf] option.case s3 recv_values.simps if_not_P [OF no] if_not_P [OF neg] 4 s5 s6 s7
    by (rule rreturn_app)
  moreover have "vars_agree opt (w \<lparr>sv_lastname := take (MAXPATHLEN - 1) fname\<rparr>) r3"
  proof -
    have "dirs_ok r3" using D(3) unfolding dirs_ok_def r3(4,5) .
    moreover have "take (MAXPATHLEN - 1) fname = fname" using sn by (auto simp: sent_name_def)
    ultimately show ?thesis using A g r3(1-3,6-9) unfolding vars_agree_def vars_after_def by auto
  qed
  moreover have "\<exists>l. rv_dirs r3 = rv_dirs r @ l" using D(4) r3(4) by (simp add: r1_def)
  moreover have "rv_ids r3 = rv_ids r" using av r2v by (simp add: r3_def)
  moreover have "dir_in (rv_dirs r3) ?h" using D(2,5) hd r3(4) by (simp add: dir_in_def)
  ultimately show ?thesis using S H E xn(4) by (metis append_Cons append_assoc)
qed

subsection \<open>Whole lists\<close>

lemma vars_start: "vars_agree opt send_start (recv_start ids)"
  by (simp add: vars_agree_def send_start_def recv_start_def dirs_ok_def)

lemma dir_in_append: "dir_in dirs g \<Longrightarrow> dir_in (dirs @ l) g"
  by (auto simp: dir_in_def nth_append)

definition end_error :: "flist_opts \<Rightarrow> uint32 \<Rightarrow> uint32" where
  "end_error opt err = (if use_safe_inc_flist opt then err else 0)"

lemma recv_end:
  assumes pv: "28 \<le> protocol_version opt" and n: "0 < n"
  shows "recv_entries n opt db want r files ndx_start (send_list_end opt err @ rest) = Inr ((files, end_error opt err, r), rest)"
proof -
  obtain m where m: "n = Suc m" using n by (cases n) auto
  show ?thesis
  proof (cases "err = 0 \<or> \<not> use_safe_inc_flist opt")
    case True
    then show ?thesis by (auto simp: m send_list_end_def write_byte_def rbind_def end_error_def)
  next
    case False
    have w: "XMIT_EXTENDED_FLAGS OR XMIT_IO_ERROR_ENDLIST = 0x1004" "write_shortint 0x1004 = [4, 16]" "has 4 XMIT_EXTENDED_FLAGS"
      by (simp_all add: write_shortint_def XMIT_EXTENDED_FLAGS_def XMIT_IO_ERROR_ENDLIST_def)
    show ?thesis
      using False pv by (simp add: m send_list_end_def w rbind_def end_error_def read_varint_write_varint)
  qed
qed

lemma recv_entries_step:
  assumes c: "c \<noteq> 0" and x: "read_xflags (protocol_version opt) c s = Inr (x, s')" "\<not> has x XMIT_HLINK_FIRST"
    and e: "recv_file_entry opt db r files ndx_start x s' = Inr ((h, r'), s'')" and o: "\<not> inc_recurse opt"
  shows "recv_entries (Suc n) opt db want r files ndx_start (c # s) = recv_entries n opt db want r' (files @ [h]) ndx_start s''"
proof -
  have nx: "x \<noteq> XMIT_EXTENDED_FLAGS OR XMIT_IO_ERROR_ENDLIST"
    using x(2) by (auto simp: xmit_defs)
  show ?thesis
    using c o x(1) e nx by (simp add: rbind_def read_xflags_def split: if_splits)
qed

lemma recv_entries_send:
  assumes o: "plain_opts opt"
  shows "\<forall>(f, tmp)\<in>set es. sent_entry opt f tmp \<Longrightarrow> vars_agree opt v r \<Longrightarrow> length (fst (send_entries opt db v es ndx first_ndx)) < n
    \<Longrightarrow> \<exists>gs r'. recv_entries n opt db' want r files ndx_start (fst (send_entries opt db v es ndx first_ndx) @ send_list_end opt err @ rest)
        = Inr ((files @ gs, end_error opt err, r'), rest)
      \<and> list_all2 (\<lambda>(f, tmp) g. entry_received opt f tmp g) es gs \<and> (\<forall>g\<in>set gs. dir_in (rv_dirs r') g)
      \<and> (\<exists>l. rv_dirs r' = rv_dirs r @ l) \<and> rv_ids r' = rv_ids r"
proof (induction es arbitrary: v r n files ndx)
  case Nil
  have "28 \<le> protocol_version opt" using o by (simp add: plain_opts_def)
  from recv_end [OF this, of n db' want r files ndx_start err rest] show ?case using Nil by auto
next
  case (Cons p es)
  obtain f tmp where p: "p = (f, tmp)" by fastforce
  have e: "sent_entry opt f tmp" using Cons.prems(1) by (simp add: p)
  then obtain fname where fn: "f_name f = Some fname" by (auto simp: sent_entry_def f_name_def)
  let ?sl = "if preserve_links opt \<and> S_ISLNK (mode f) then f_symlink f else []"
  obtain b w where b: "send_file_entry opt db v tmp fname f ?sl ndx first_ndx = (b, w)" by fastforce
  obtain cs w' where cs: "send_entries opt db w es (ndx + 1) first_ndx = (cs, w')" by fastforce
  have s: "fst (send_entries opt db v (p # es) ndx first_ndx) = b @ cs" by (simp add: p fn b cs)
  let ?rest = "cs @ send_list_end opt err @ rest"
  from recv_entry_send [OF o e Cons.prems(2) fn, of db ndx first_ndx ?rest db' files ndx_start] obtain c bs x body h r' where
    B: "b = c # bs @ body" "c \<noteq> 0" "read_xflags (protocol_version opt) c (bs @ body @ ?rest) = Inr (x, body @ ?rest)" "\<not> has x XMIT_HLINK_FIRST"
    and R: "recv_file_entry opt db' r files ndx_start x (body @ ?rest) = Inr ((h, r'), ?rest)"
    and E: "entry_received opt f tmp h" and A: "vars_agree opt w r'" and D: "\<exists>l. rv_dirs r' = rv_dirs r @ l" "dir_in (rv_dirs r') h" "rv_ids r' = rv_ids r"
    unfolding b by (metis (no_types, lifting) append_assoc append_Cons Pair_inject)
  obtain m where m: "n = Suc m" using Cons.prems(3) by (cases n) auto
  have "length cs < m" using Cons.prems(3) unfolding s m B(1) by simp
  moreover have "\<forall>(f, tmp)\<in>set es. sent_entry opt f tmp" using Cons.prems(1) by simp
  ultimately obtain gs r'' where
    G: "recv_entries m opt db' want r' (files @ [h]) ndx_start ?rest = Inr (((files @ [h]) @ gs, end_error opt err, r''), rest)"
    and G2: "list_all2 (\<lambda>(f, tmp) g. entry_received opt f tmp g) es gs" "\<forall>g\<in>set gs. dir_in (rv_dirs r'') g" "\<exists>l. rv_dirs r'' = rv_dirs r' @ l" "rv_ids r'' = rv_ids r'"
    using Cons.IH [OF _ A, of "ndx + 1" m "files @ [h]"] unfolding cs fst_conv by blast
  have inc: "\<not> inc_recurse opt" using o by (simp add: plain_opts_def)
  have "recv_entries n opt db' want r files ndx_start ((b @ cs) @ send_list_end opt err @ rest)
      = Inr ((files @ h # gs, end_error opt err, r''), rest)"
    using recv_entries_step [OF B(2-4) R inc, of m want] G unfolding m B(1) by simp
  moreover have "dir_in (rv_dirs r'') h" using D(2) G2(3) dir_in_append by metis
  moreover have "\<exists>l. rv_dirs r'' = rv_dirs r @ l" using D(1) G2(3) by (metis append_assoc)
  moreover have "rv_ids r'' = rv_ids r" using D(3) G2(4) by simp
  ultimately show ?case using E G2(1,2) unfolding s unfolding p by (intro exI [of _ "h # gs"] exI [of _ r'']) simp
qed

text \<open>
  The list as \<open>send_file_list\<close> writes it and \<open>recv_file_list\<close> takes it. A result without a list means that
  the comparison of the names has left a string.
\<close>

definition send_file_list :: "flist_opts \<Rightarrow> sysdb \<Rightarrow> (file_struct \<times> send_tmp) list \<Rightarrow> uint32 \<Rightarrow> byte list" where
  "send_file_list opt db es io_error =
     (let (b, v) = send_entries opt db send_start es 0 (if inc_recurse opt then 1 else 0) in
        b @ send_list_end opt io_error
        @ (if numeric_ids (o_ids opt) \<le> 0 \<and> \<not> inc_recurse opt then send_id_list (protocol_version opt) (o_ids opt) (sv_ids v) else [])
        @ (if protocol_version opt < 30 then write_int (sint io_error) else []))"

definition recv_file_list :: "flist_opts \<Rightarrow> sysdb \<Rightarrow> string \<Rightarrow> recv_vars \<Rightarrow> int \<Rightarrow> (file_list option \<times> uint32 \<times> recv_vars) reader" where
  "recv_file_list opt db want v ndx_start bs =
     rbind (recv_entries (length bs + 1) opt db want v [] ndx_start) (\<lambda>(files, err, v).
     rbind (if inc_recurse opt then rreturn (files, rv_ids v)
            else recv_id_list (protocol_version opt) db (o_ids opt) (rv_ids v) files) (\<lambda>(files, ids).
     let fl = flist_sort_and_clean (protocol_version opt) False (inc_recurse opt) \<lparr>fl_sorted = files, fl_low = 0, fl_high = 0\<rparr> (relative_paths opt) in
     rbind (if protocol_version opt < 30 then rbind read_int (\<lambda>e. rreturn (err OR word_of_int e)) else rreturn err) (\<lambda>err.
       rreturn (fl, err, v \<lparr>rv_ids := ids\<rparr>)))) bs"

subsection \<open>The ids the sender has collected\<close>

lemma add_commute: "snd (add_uid db (snd (add_gid db st g)) u) = snd (add_gid db (snd (add_uid db st u)) g)"
  by (simp add: add_uid_def add_gid_def)

lemma add_ids_uid: "snd (add_uid db (add_ids db us gs) u) = add_ids db (us @ [u]) gs"
proof -
  have "snd (add_uid db (fold (\<lambda>g st. snd (add_gid db st g)) gs st) u) = fold (\<lambda>g st. snd (add_gid db st g)) gs (snd (add_uid db st u))" for st
    by (induction gs arbitrary: st) (simp_all add: add_commute)
  then show ?thesis by (simp add: add_ids_def)
qed

lemma add_ids_gid: "snd (add_gid db (add_ids db us gs) g) = add_ids db us (gs @ [g])"
  by (simp add: add_ids_def)

definition ids_sent :: "flist_opts \<Rightarrow> sysdb \<Rightarrow> send_vars \<Rightarrow> uint32 list \<Rightarrow> uint32 list \<Rightarrow> bool" where
  "ids_sent opt db v us gs \<longleftrightarrow> sv_ids v = add_ids db us gs \<and> 0 \<in> set us \<and> 0 \<in> set gs
     \<and> (preserve_uid (o_ids opt) \<and> sv_lastname v \<noteq> [] \<longrightarrow> sv_uid v \<in> set us)
     \<and> (preserve_gid (o_ids opt) \<and> sv_lastname v \<noteq> [] \<longrightarrow> sv_gid v \<in> set gs)"

lemma send_uid_ids:
  assumes "ids_sent opt db v us gs" and "numeric_ids (o_ids opt) = 0" and "send_uid opt db v f = (x, n, w)"
  shows "\<exists>us'. sv_ids w = add_ids db us' gs \<and> set us \<subseteq> set us' \<and> (preserve_uid (o_ids opt) \<longrightarrow> f_owner f \<in> set us' \<and> sv_uid w = f_owner f)
    \<and> sv_gid w = sv_gid v \<and> sv_lastname w = sv_lastname v"
proof (cases "preserve_uid (o_ids opt) \<and> \<not> (f_owner f = sv_uid v \<and> sv_lastname v \<noteq> [])")
  case True
  then have "sv_ids w = add_ids db (us @ [f_owner f]) gs" "sv_uid w = f_owner f" "sv_gid w = sv_gid v" "sv_lastname w = sv_lastname v"
    using assms by (auto simp: send_uid_def ids_sent_def Let_def add_ids_uid [symmetric] split: prod.splits)
  then show ?thesis by (intro exI [of _ "us @ [f_owner f]"]) auto
next
  case False
  then have "w = v" using assms(3) by (auto simp: send_uid_def)
  then show ?thesis using False assms(1) by (intro exI [of _ us]) (auto simp: ids_sent_def)
qed

lemma send_gid_ids:
  assumes "sv_ids v = add_ids db us gs" and "preserve_gid (o_ids opt) \<and> sv_lastname v \<noteq> [] \<longrightarrow> sv_gid v \<in> set gs"
    and "numeric_ids (o_ids opt) = 0" and "send_gid opt db v f = (x, n, w)"
  shows "\<exists>gs'. sv_ids w = add_ids db us gs' \<and> set gs \<subseteq> set gs' \<and> (preserve_gid (o_ids opt) \<longrightarrow> f_group f \<in> set gs' \<and> sv_gid w = f_group f)
    \<and> sv_uid w = sv_uid v \<and> sv_lastname w = sv_lastname v"
proof (cases "preserve_gid (o_ids opt) \<and> \<not> (f_group f = sv_gid v \<and> sv_lastname v \<noteq> [])")
  case True
  then have "sv_ids w = add_ids db us (gs @ [f_group f])" "sv_gid w = f_group f" "sv_uid w = sv_uid v" "sv_lastname w = sv_lastname v"
    using assms by (auto simp: send_gid_def Let_def add_ids_gid [symmetric] split: prod.splits)
  then show ?thesis by (intro exI [of _ "gs @ [f_group f]"]) auto
next
  case False
  then have "w = v" using assms(4) by (auto simp: send_gid_def)
  then show ?thesis using False assms(1,2) by (intro exI [of _ gs]) auto
qed

lemma send_entry_ids:
  assumes s: "ids_sent opt db v us gs" and num: "numeric_ids (o_ids opt) = 0"
    and w: "send_file_entry opt db v tmp fname f symlink ndx first_ndx = (b, w)"
  shows "\<exists>us' gs'. ids_sent opt db w us' gs' \<and> set us \<subseteq> set us' \<and> set gs \<subseteq> set gs'
    \<and> (preserve_uid (o_ids opt) \<longrightarrow> f_owner f \<in> set us') \<and> (preserve_gid (o_ids opt) \<longrightarrow> f_group f \<in> set gs')"
proof -
  obtain x1 v1 where 1: "send_mode v f = (x1, v1)" by fastforce
  obtain x2 v2 where 2: "send_rdev opt tmp v1 f = (x2, v2)" by fastforce
  obtain x3 un v3 where 3: "send_uid opt db v2 f = (x3, un, v3)" by (metis prod_cases3)
  obtain x4 gn v4 where 4: "send_gid opt db v3 f = (x4, gn, v4)" by (metis prod_cases3)
  obtain x5 v5 where 5: "send_time opt v4 f = (x5, v5)" by fastforce
  obtain x6 hl v6 where 6: "send_hlink opt tmp v5 ndx first_ndx = (x6, hl, v6)" by (metis prod_cases3)
  have w': "w = v6 \<lparr>sv_lastname := take (MAXPATHLEN - 1) fname\<rparr>"
    using w by (simp add: send_file_entry_def 1 2 3 4 5 6 Let_def split: prod.splits)
  have e1: "sv_ids v1 = sv_ids v" "sv_uid v1 = sv_uid v" "sv_gid v1 = sv_gid v" "sv_lastname v1 = sv_lastname v"
    using 1 by (auto simp: send_mode_def split: if_splits)
  have e2: "sv_ids v2 = sv_ids v1" "sv_uid v2 = sv_uid v1" "sv_gid v2 = sv_gid v1" "sv_lastname v2 = sv_lastname v1"
    using 2 by (auto simp: send_rdev_def Let_def split: if_splits)
  have e5: "sv_ids v5 = sv_ids v4" "sv_uid v5 = sv_uid v4" "sv_gid v5 = sv_gid v4"
    using 5 by (auto simp: send_time_def Let_def split: if_splits)
  have e6: "sv_ids v6 = sv_ids v5" "sv_uid v6 = sv_uid v5" "sv_gid v6 = sv_gid v5"
    using 6 by (auto simp: send_hlink_def Let_def split: if_splits)
  have "ids_sent opt db v2 us gs" using s e1 e2 by (simp add: ids_sent_def)
  from send_uid_ids [OF this num 3] obtain us' where U: "sv_ids v3 = add_ids db us' gs" "set us \<subseteq> set us'"
    "preserve_uid (o_ids opt) \<longrightarrow> f_owner f \<in> set us' \<and> sv_uid v3 = f_owner f" "sv_gid v3 = sv_gid v2" "sv_lastname v3 = sv_lastname v2" by blast
  have "preserve_gid (o_ids opt) \<and> sv_lastname v3 \<noteq> [] \<longrightarrow> sv_gid v3 \<in> set gs" using s e1 e2 U(4,5) by (simp add: ids_sent_def)
  from send_gid_ids [OF U(1) this num 4] obtain gs' where G: "sv_ids v4 = add_ids db us' gs'" "set gs \<subseteq> set gs'"
    "preserve_gid (o_ids opt) \<longrightarrow> f_group f \<in> set gs' \<and> sv_gid v4 = f_group f" "sv_uid v4 = sv_uid v3" by blast
  have "ids_sent opt db w us' gs'" using s U G e5 e6 by (auto simp: w' ids_sent_def)
  then show ?thesis using U(2,3) G(2,3) by blast
qed

lemma send_entries_ids:
  assumes num: "numeric_ids (o_ids opt) = 0"
  shows "ids_sent opt db v us gs \<Longrightarrow> \<exists>us' gs'. ids_sent opt db (snd (send_entries opt db v es ndx first_ndx)) us' gs' \<and> set us \<subseteq> set us' \<and> set gs \<subseteq> set gs'
    \<and> (\<forall>(f, tmp)\<in>set es. (preserve_uid (o_ids opt) \<longrightarrow> f_owner f \<in> set us') \<and> (preserve_gid (o_ids opt) \<longrightarrow> f_group f \<in> set gs'))"
proof (induction es arbitrary: v us gs ndx)
  case (Cons p es)
  obtain f tmp where p: "p = (f, tmp)" by fastforce
  let ?sl = "if preserve_links opt \<and> S_ISLNK (mode f) then f_symlink f else []"
  obtain b w where b: "send_file_entry opt db v tmp (case f_name f of None \<Rightarrow> [] | Some s \<Rightarrow> s) f ?sl ndx first_ndx = (b, w)" by fastforce
  have s: "snd (send_entries opt db v (p # es) ndx first_ndx) = snd (send_entries opt db w es (ndx + 1) first_ndx)"
    unfolding p send_entries.simps Let_def b by (simp split: prod.splits)
  from send_entry_ids [OF Cons.prems num b] obtain us1 gs1 where 1: "ids_sent opt db w us1 gs1" "set us \<subseteq> set us1" "set gs \<subseteq> set gs1"
    "preserve_uid (o_ids opt) \<longrightarrow> f_owner f \<in> set us1" "preserve_gid (o_ids opt) \<longrightarrow> f_group f \<in> set gs1" by blast
  from Cons.IH [OF 1(1), of "ndx + 1"] obtain us' gs' where
    2: "ids_sent opt db (snd (send_entries opt db w es (ndx + 1) first_ndx)) us' gs'" "set us1 \<subseteq> set us'" "set gs1 \<subseteq> set gs'"
    "\<forall>(f, tmp)\<in>set es. (preserve_uid (o_ids opt) \<longrightarrow> f_owner f \<in> set us') \<and> (preserve_gid (o_ids opt) \<longrightarrow> f_group f \<in> set gs')" by blast
  have "set us \<subseteq> set us'" "set gs \<subseteq> set gs'" using 1(2,3) 2(2,3) by blast+
  moreover have "\<forall>(f, tmp)\<in>set (p # es). (preserve_uid (o_ids opt) \<longrightarrow> f_owner f \<in> set us') \<and> (preserve_gid (o_ids opt) \<longrightarrow> f_group f \<in> set gs')"
    using 1(4,5) 2(2-4) unfolding p by (simp add: subset_iff)
  ultimately show ?case using 2(1) unfolding s by blast
qed auto

subsection \<open>The whole transfer\<close>

lemma name_split_same:
  assumes "CHR ''/'' \<notin> set b" "CHR ''/'' \<notin> set c" "(case (x :: (nat \<times> string) option) of None \<Rightarrow> b | Some (_, d) \<Rightarrow> d @ ''/'' @ b) = (case (y :: (nat \<times> string) option) of None \<Rightarrow> c | Some (_, d) \<Rightarrow> d @ ''/'' @ c)"
  shows "b = c \<and> (x = None \<longleftrightarrow> y = None)"
proof -
  have l: "last (split_slash (case z of None \<Rightarrow> e | Some (_ :: nat, d) \<Rightarrow> d @ ''/'' @ e)) = e" if "CHR ''/'' \<notin> set e" for z e
    using that by (auto simp: split_slash_join split_slash_single split: option.splits)
  have "b = c" using l [OF assms(1), of x] l [OF assms(2), of y] assms(3) by simp
  moreover have "CHR ''/'' \<in> set (case z of None \<Rightarrow> e | Some (_ :: nat, d) \<Rightarrow> d @ ''/'' @ e) \<longleftrightarrow> z \<noteq> None" if "CHR ''/'' \<notin> set e" for z e
    using that by (auto split: option.splits)
  ultimately show ?thesis using assms by metis
qed

text \<open>A directory's own entry \<open>.\<close> is sent for the top directory only.\<close>

definition dot_ok :: "file_struct \<Rightarrow> bool" where
  "dot_ok f \<longleftrightarrow> (basename f = ''.'' \<longrightarrow> dirname f = None \<and> S_ISDIR (mode f))"

lemma received_ok:
  assumes e: "sent_entry opt f tmp" and d: "dot_ok f" and r: "entry_received opt f tmp g" and i: "dir_in dirs g"
  shows "f_is_active g \<and> file_ok pv ((!) dirs) (local_file db iopt sdb st g)"
proof -
  obtain s where s: "f_name f = Some s" and sn: "sent_name opt s" using e by (auto simp: sent_entry_def f_name_def)
  have g: "f_name g = Some s" "mode g = mode f" using r s by (simp_all add: entry_received_def)
  then have act: "f_is_active g" by (simp add: f_name_def split: if_splits)
  have sg: "s = (case dirname g of None \<Rightarrow> basename g | Some (_, d) \<Rightarrow> d @ ''/'' @ basename g)" using g(1) act by (simp add: f_name_def)
  have sf: "s = (case dirname f of None \<Rightarrow> basename f | Some (_, d) \<Rightarrow> d @ ''/'' @ basename f)"
    using s e by (simp add: f_name_def sent_entry_def)
  have sl: "CHR ''/'' \<notin> set (basename g)" "CHR ''/'' \<notin> set (basename f)" using i e by (simp_all add: dir_in_def sent_entry_def)
  have same: "basename g = basename f" "dirname g = None \<longleftrightarrow> dirname f = None"
    using name_split_same [OF sl] sg sf by metis+
  have dot: "basename g = ''.'' \<longrightarrow> dirname g = None \<and> S_ISDIR (mode g)" using d same g(2) by (simp add: dot_ok_def)
  have "no_nul s" using sn by (simp add: sent_name_def)
  then have nul: "name_ok g" unfolding sg name_ok_def using act by (auto simp: f_is_active_def no_nul_def split: option.splits)
  have "file_ok pv ((!) dirs) g"
    using dot nul i sl by (auto simp: file_ok_def regular_def split_ok_def inner_dot_def dir_in_def)
  then have "file_ok pv ((!) dirs) (local_file db iopt sdb st g)"
    by (simp add: local_file_def file_ok_def regular_def split_ok_def inner_dot_def name_ok_def f_is_active_def Let_def)
  then show ?thesis using act by simp
qed

lemma list_all2_in: "list_all2 P xs ys \<Longrightarrow> y \<in> set ys \<Longrightarrow> \<exists>x\<in>set xs. P x y"
  by (induction rule: list_all2_induct) auto

lemma file_list_received:
  assumes o: "plain_opts opt" "\<not> relative_paths opt" "numeric_ids (o_ids opt) = 0"
    and es: "\<forall>(f, tmp)\<in>set es. sent_entry opt f tmp \<and> dot_ok f" "length es < 2 ^ 31"
    and st: "start_ids db (o_ids opt) um gm = Inr st" "usermap (o_ids opt) \<longleftrightarrow> um \<noteq> None" "groupmap (o_ids opt) \<longleftrightarrow> gm \<noteq> None"
    and short: "\<forall>u s. getpwuid sdb u = Some s \<or> getgrgid sdb u = Some s \<longrightarrow> short_name s"
  shows "\<exists>gs fl r. recv_file_list opt db want (recv_start st) ndx_start (send_file_list opt sdb es err @ rest) = Inr ((Some fl, end_error opt err, r), rest)
    \<and> list_all2 (\<lambda>(f, tmp) g. entry_received opt f tmp g) es gs
    \<and> clean_list (protocol_version opt) ((!) (rv_dirs r)) (map (local_file db (o_ids opt) sdb st) gs) fl"
proof -
  let ?pv = "protocol_version opt"
  have pv: "30 \<le> ?pv" "\<not> ?pv < 30" "29 \<le> ?pv" "\<not> inc_recurse opt" using o by (simp_all add: plain_opts_def)
  obtain b w where b: "send_entries opt sdb send_start es 0 0 = (b, w)" by fastforce
  have "ids_sent opt sdb send_start [0] [0]"
    by (simp add: ids_sent_def send_start_def add_ids_def add_uid_def add_gid_def)
  from send_entries_ids [OF o(3) this, of es 0 0] obtain us gs' where I: "ids_sent opt sdb w us gs'"
    "\<forall>(f, tmp)\<in>set es. (preserve_uid (o_ids opt) \<longrightarrow> f_owner f \<in> set us) \<and> (preserve_gid (o_ids opt) \<longrightarrow> f_group f \<in> set gs')"
    unfolding b snd_conv by blast
  let ?ids = "send_id_list ?pv (o_ids opt) (sv_ids w)"
  have s: "send_file_list opt sdb es err @ rest = b @ send_list_end opt err @ ?ids @ rest" (is "?bs = _")
    using pv o(3) by (simp add: send_file_list_def b)
  have all: "\<forall>(f, tmp)\<in>set es. sent_entry opt f tmp" using es(1) by auto
  have n: "length b < length ?bs + 1" unfolding s by simp
  have "length (fst (send_entries opt sdb send_start es 0 0)) < length ?bs + 1" using n by (simp add: b)
  from recv_entries_send [OF o(1) all vars_start this, of db want st "[]" ndx_start err "?ids @ rest"] obtain gs r where
    R: "recv_entries (length ?bs + 1) opt db want (recv_start st) [] ndx_start ?bs = Inr ((gs, end_error opt err, r), ?ids @ rest)"
    and E: "list_all2 (\<lambda>(f, tmp) g. entry_received opt f tmp g) es gs" and D: "\<forall>g\<in>set gs. dir_in (rv_dirs r) g"
    and rs: "rv_ids r = st" unfolding s b fst_conv by (auto simp: recv_start_def)
  have own: "\<forall>g\<in>set gs. f_owner g \<in> set us \<and> f_group g \<in> set gs'"
  proof
    fix g assume "g \<in> set gs"
    then obtain f tmp where "(f, tmp) \<in> set es" "entry_received opt f tmp g" using list_all2_in [OF E \<open>g \<in> set gs\<close>] by auto
    then show "f_owner g \<in> set us \<and> f_group g \<in> set gs'" using I by (auto simp: entry_received_def ids_sent_def)
  qed
  have "sv_ids w = add_ids sdb us gs'" using I(1) by (simp add: ids_sent_def)
  with recv_id_list_right [OF st o(3) _ _ own, of sdb ?pv rest] short obtain ids where
    L: "recv_id_list ?pv db (o_ids opt) st gs (?ids @ rest) = Inr ((map (local_file db (o_ids opt) sdb st) gs, ids), rest)" by metis
  let ?gs = "map (local_file db (o_ids opt) sdb st) gs"
  let ?fl = "\<lparr>fl_sorted = ?gs, fl_low = 0, fl_high = 0\<rparr>"
  have ok: "f_is_active g \<and> file_ok ?pv ((!) (rv_dirs r)) (local_file db (o_ids opt) sdb st g)" if "g \<in> set gs" for g
  proof -
    obtain f tmp where "(f, tmp) \<in> set es" "entry_received opt f tmp g" using list_all2_in [OF E \<open>g \<in> set gs\<close>] by auto
    then show ?thesis using received_ok es(1) D that by blast
  qed
  have act: "f_is_active (local_file db (o_ids opt) sdb st g) = f_is_active g" for g by (simp add: local_file_def f_is_active_def Let_def)
  have "length gs < 2 ^ 31" using list_all2_lengthD [OF E] es(2) by simp
  moreover have "?gs = [] \<or> (\<exists>x\<in>set ?gs. f_is_active x)" using ok act by (cases gs) auto
  ultimately obtain fl where C: "flist_sort_and_clean ?pv False False ?fl False = Some fl" "clean_list ?pv ((!) (rv_dirs r)) ?gs fl"
    using flist_sort_and_clean_correct [OF pv(3), of ?fl "(!) (rv_dirs r)" False] ok by auto
  have s1: "rbind (recv_entries (length ?bs + 1) opt db want (recv_start st) [] ndx_start) g ?bs = g (gs, end_error opt err, r) (?ids @ rest)"
    for g :: "_ \<Rightarrow> (file_list option \<times> uint32 \<times> recv_vars) reader" by (rule rbind_Inr, rule R)
  have s2: "rbind (recv_id_list ?pv db (o_ids opt) st gs) g (?ids @ rest) = g (?gs, ids) rest"
    for g :: "_ \<Rightarrow> (file_list option \<times> uint32 \<times> recv_vars) reader" by (rule rbind_Inr, rule L)
  have "recv_file_list opt db want (recv_start st) ndx_start ?bs = Inr ((Some fl, end_error opt err, r \<lparr>rv_ids := ids\<rparr>), rest)"
    unfolding recv_file_list_def s1 prod.case if_not_P [OF pv(4)] rs s2 Let_def if_not_P [OF pv(2)]
    using C(1) pv(4) o(2) by (simp add: rbind_def)
  moreover have "rv_dirs (r \<lparr>rv_ids := ids\<rparr>) = rv_dirs r" by simp
  ultimately show ?thesis using E C(2) by metis
qed

subsection \<open>Examples\<close>

definition example_ids :: id_opts where
  "example_ids = \<lparr>preserve_uid = True, preserve_gid = True, preserve_acls = False, numeric_ids = 0, am_root = True,
     usermap = True, groupmap = False\<rparr>"

definition example_opts :: flist_opts where
  "example_opts = \<lparr>o_ids = example_ids, protocol_version = 31, inc_recurse = False, recurse = True, relative_paths = False,
     preserve_devices = True, preserve_specials = True, preserve_links = True, preserve_hard_links = True,
     always_checksum = True, flist_csum_len = 2, sanitize_paths = False, munge_symlinks = False, module_dir = [],
     chmod_modes = [], use_safe_inc_flist = True\<rparr>"

text \<open>User 5 is \<open>u\<close> on the sender, and user 7 on the receiver.\<close>

definition example_sender :: sysdb where
  "example_sender = \<lparr>getpwuid = (\<lambda>u. if u = 5 then Some ''u'' else None), getpwnam = (\<lambda>_. None),
     getgrgid = (\<lambda>_. None), getgrnam = (\<lambda>_. None), getgroups = [], our_gid = 0\<rparr>"

definition example_receiver :: sysdb where
  "example_receiver = \<lparr>getpwuid = (\<lambda>_. None), getpwnam = (\<lambda>s. if s = ''u'' then Some 7 else None),
     getgrgid = (\<lambda>_. None), getgrnam = (\<lambda>_. None), getgroups = [], our_gid = 0\<rparr>"

definition plain_tmp :: send_tmp where
  "plain_tmp = \<lparr>tmp_rdev = 0, tmp_dev = - 1, tmp_ino = 0, tmp_sum = [1, 2]\<rparr>"

definition example_sent :: "(file_struct \<times> send_tmp) list" where
  "example_sent =
     [(empty_file \<lparr>dirname := Some (1, ''d''), basename := ''f'', mode := S_IFREG, modtime := 77, len32 := 300, f_owner := 5\<rparr>, plain_tmp),
      (empty_file \<lparr>basename := ''d'', mode := S_IFDIR, modtime := 77, flags := FLAG_CONTENT_DIR\<rparr>, plain_tmp),
      (empty_file \<lparr>dirname := Some (1, ''d''), basename := ''l'', mode := S_IFLNK, f_symlink := ''f'', len32 := 1\<rparr>, plain_tmp)]"

text \<open>Devices with the major numbers 1, 2, 1 and 1; the third is a further link to the first.\<close>

definition example_device :: "string \<Rightarrow> file_struct" where
  "example_device s = empty_file \<lparr>basename := s, mode := 0x2000\<rparr>"

definition example_devices :: "(file_struct \<times> send_tmp) list" where
  "example_devices =
     [(example_device ''a'', plain_tmp \<lparr>tmp_rdev := makedev 1 3, tmp_dev := 5, tmp_ino := 7\<rparr>),
      (example_device ''b'', plain_tmp \<lparr>tmp_rdev := makedev 2 0\<rparr>),
      (example_device ''c'', plain_tmp \<lparr>tmp_rdev := makedev 1 3, tmp_dev := 5, tmp_ino := 7\<rparr>),
      (example_device ''d'', plain_tmp \<lparr>tmp_rdev := makedev 1 5\<rparr>)]"

definition received_devices :: "(uint32 \<times> uint32) list option" where
  "received_devices =
     (case recv_entries 5 example_opts example_receiver [] (recv_start id_start) [] 0
        (fst (send_entries example_opts example_sender send_start example_devices 0 0) @ send_list_end example_opts 0) of
       Inl _ \<Rightarrow> None | Inr ((fs, _, _), _) \<Rightarrow> Some (map f_rdev fs))"

lemma example_sent_ok: "\<forall>(f, tmp)\<in>set example_sent. sent_entry example_opts f tmp \<and> dot_ok f"
proof -
  have n: "map (f_name \<circ> fst) example_sent = [Some ''d/f'', Some ''d'', Some ''d/l'']" by code_simp
  have c: "clean_fname refuse_dots ''d/f'' = Some ''d/f''" "clean_fname refuse_dots ''d'' = Some ''d''" "clean_fname refuse_dots ''d/l'' = Some ''d/l''"
    by code_simp+
  show ?thesis
    using n by (simp add: example_sent_def sent_entry_def sent_name_def dot_ok_def c no_nul_def MAXPATHLEN_def F_LENGTH_def F_MOD_NSEC_def
        f_is_active_def empty_file_def plain_tmp_def example_opts_def S_ISREG_def S_ISLNK_def S_ISDIR_def IS_DEVICE_def IS_SPECIAL_def
        S_IFREG_def S_IFDIR_def S_IFLNK_def S_IFMT_def FLAG_CONTENT_DIR_def FLAG_LENGTH64_def)
qed

lemma example_ids_start:
  "start_ids example_receiver example_ids (Some ''x:3,*:u'') None
    = Inr (id_start \<lparr>uidmap := [\<lparr>il_u = Name (Some ''x''), il_id = 0, il_id2 = 3, il_flags = 2\<rparr>, \<lparr>il_u = Name (Some ''*''), il_id = 0, il_id2 = 7, il_flags = 1\<rparr>],
        uidlist := [\<lparr>il_u = Name None, il_id = 0, il_id2 = 7, il_flags = 0\<rparr>]\<rparr>)"
  by code_simp

text \<open>
Two files of one mode: the second one's mode is not sent, and the receiver applies the changes of
\<open>--chmod\<close> to the result of the first.
\<close>

definition example_modes :: "string \<Rightarrow> uint32 list option" where
  "example_modes s =
     (case parse_chmod 0x12 s [] of None \<Rightarrow> None
      | Some (ms, _) \<Rightarrow>
          let opt = example_opts \<lparr>chmod_modes := ms\<rparr>; f = empty_file \<lparr>basename := ''a'', mode := 0x81A4\<rparr>
          in case recv_entries 3 opt example_receiver [] (recv_start id_start) [] 0
                (fst (send_entries opt example_sender send_start [(f, plain_tmp), (f \<lparr>basename := ''b''\<rparr>, plain_tmp)] 0 0) @ send_list_end opt 0) of
             Inl _ \<Rightarrow> None | Inr ((fs, _, _), _) \<Rightarrow> Some (map (\<lambda>f. ucast (mode f)) fs))"

lemma modes_changed_twice: "example_modes ''u=x,o=X'' = Some [0x8060, 0x8061]" by code_simp

lemma chmod_plus_ts:
  "map_option (\<lambda>(ms, _). tweak_mode 0x81A4 ms) (parse_chmod 0x12 ''+st'' []) = Some 0x8BA4"
  "map_option (\<lambda>(ms, _). tweak_mode 0x81A4 ms) (parse_chmod 0x12 ''+ts'' []) = Some 0x89A4"
  by code_simp+

lemma id_overflow_accepted: "id_parse ''9999999999'' = Inr 1410065407"
  by code_simp

end
