(* ===== verification/ChmodSpec.thy ===== *)
theory ChmodSpec
  imports Chmod IdList
begin

text \<open>
  What the argument of \<open>--chmod\<close> means: every clause between two commas changes a permission bit
  as its letters say, and \<open>parse_chmod\<close> and \<open>tweak_mode\<close> do just that. The three bits above the
  permissions (set-id and sticky) are not part of it.
\<close>

unbundle bit_operations_syntax

subsection \<open>What a clause means\<close>

text \<open>
  A clause is \<open>D\<close>, \<open>F\<close> and the classes, an operator and the permissions, or an octal number.
\<close>

definition clause_head :: "string \<Rightarrow> string" where
  "clause_head s = takeWhile (\<lambda>c. c \<in> set ''DFugoa'') s"

definition clause_tail :: "string \<Rightarrow> string" where
  "clause_tail s = dropWhile (\<lambda>c. c \<in> set ''DFugoa'') s"

text \<open>The permission bit \<open>p\<close>: \<open>p mod 3\<close> is x, w or r, \<open>p div 3\<close> others, group or user.\<close>

definition class_of :: "nat \<Rightarrow> char" where
  "class_of p = (if p div 3 = 0 then CHR ''o'' else if p div 3 = 1 then CHR ''g'' else CHR ''u'')"

definition perm_in :: "nat \<Rightarrow> string \<Rightarrow> bool" where
  "perm_in p s \<longleftrightarrow> (if p mod 3 = 2 then CHR ''r'' \<in> set s else if p mod 3 = 1 then CHR ''w'' \<in> set s
                  else CHR ''x'' \<in> set s \<or> CHR ''X'' \<in> set s)"

definition class_in :: "nat \<Rightarrow> string \<Rightarrow> bool" where
  "class_in p s \<longleftrightarrow> class_of p \<in> set s \<or> CHR ''a'' \<in> set s"

definition no_class :: "string \<Rightarrow> bool" where
  "no_class s \<longleftrightarrow> set s \<inter> set ''ugoa'' = {}"

definition octal_value :: "string \<Rightarrow> uint32" where
  "octal_value s = foldl (\<lambda>n c. n * 8 + of_char c - 48) 0 s"

text \<open>The bit after the clause, for one that was \<open>b\<close>; \<open>isx\<close> says if the file had an x bit at first.\<close>

definition clause_bit :: "uint32 \<Rightarrow> bool \<Rightarrow> bool \<Rightarrow> nat \<Rightarrow> string \<Rightarrow> bool \<Rightarrow> bool" where
  "clause_bit um isx isdir p s b =
     (let head = clause_head s; op = hd (clause_tail s); perms = tl (clause_tail s);
          meant = (if no_class head then perm_in p perms \<and> \<not> bit um p else class_in p head \<and> perm_in p perms);
          keep = (CHR ''X'' \<in> set perms \<and> \<not> isx \<and> \<not> isdir \<and> p mod 3 = 0)
      in if CHR ''D'' \<in> set head \<and> \<not> isdir \<or> CHR ''F'' \<in> set head \<and> isdir then b
         else if op = CHR ''+'' then b \<or> meant \<and> \<not> keep
         else if op = CHR ''-'' then b \<and> \<not> meant
         else if op = CHR ''='' then (if no_class head \<or> class_in p head then meant \<and> \<not> keep else b)
         else bit (octal_value (clause_tail s)) p)"

subsection \<open>One clause of the parser\<close>

fun chmod_run :: "chmod_vars \<Rightarrow> string \<Rightarrow> chmod_vars option" where
  "chmod_run v [] = Some v"
| "chmod_run v (c # s) = (case chmod_step v c of None \<Rightarrow> None | Some v \<Rightarrow> chmod_run v s)"

definition clause_pair :: "uint32 \<Rightarrow> string \<Rightarrow> chmod_mode_struct \<Rightarrow> bool" where
  "clause_pair um s x \<longleftrightarrow> (\<exists>v op. chmod_run chmod_start s = Some v \<and> cv_op v = Some op \<and> x = chmod_clause um op v)"

lemma split_comma_some: "split_comma s \<noteq> []"
  by (cases s) (auto split: list.splits)

lemma chmod_loop_clauses:
  "chmod_loop um s v ms = Some out \<Longrightarrow> \<exists>v' op xs. chmod_run v (hd (split_comma s)) = Some v' \<and> cv_op v' = Some op
     \<and> out = ms @ chmod_clause um op v' # xs \<and> list_all2 (clause_pair um) (tl (split_comma s)) xs"
proof (induction s arbitrary: v ms)
  case (Cons c s)
  obtain w ws where s: "split_comma s = w # ws" using split_comma_some [of s] by (cases "split_comma s") auto
  show ?case
  proof (cases "c = CHR '',''")
    case True
    then obtain op where op: "cv_op v = Some op" "chmod_loop um s chmod_start (ms @ [chmod_clause um op v]) = Some out"
      using Cons.prems by (auto split: option.splits)
    from Cons.IH [OF op(2)] obtain v' op' xs where
      "chmod_run chmod_start w = Some v'" "cv_op v' = Some op'" "out = ms @ chmod_clause um op v # chmod_clause um op' v' # xs"
      "list_all2 (clause_pair um) ws xs" by (auto simp: s)
    then show ?thesis using True op(1) s
      by (intro exI [of _ v] exI [of _ op] exI [of _ "chmod_clause um op' v' # xs"])
        (auto simp: clause_pair_def [of um w] list_all2_Cons1)
  next
    case False
    then obtain u where u: "chmod_step v c = Some u" "chmod_loop um s u ms = Some out" using Cons.prems by (auto split: option.splits)
    from Cons.IH [OF u(2)] show ?thesis using False u(1) by (simp add: s)
  qed
qed (auto split: option.splits)

definition class_bits :: "string \<Rightarrow> uint32" where
  "class_bits s = (if CHR ''u'' \<in> set s \<or> CHR ''a'' \<in> set s then 0x40 else 0) OR (if CHR ''g'' \<in> set s \<or> CHR ''a'' \<in> set s then 8 else 0)
     OR (if CHR ''o'' \<in> set s \<or> CHR ''a'' \<in> set s then 1 else 0)"

definition perm_bits :: "string \<Rightarrow> uint32" where
  "perm_bits s = (if CHR ''r'' \<in> set s then 4 else 0) OR (if CHR ''w'' \<in> set s then 2 else 0)
     OR (if CHR ''x'' \<in> set s \<or> CHR ''X'' \<in> set s then 1 else 0)"

definition file_flags :: "string \<Rightarrow> 8 word" where
  "file_flags s = (if CHR ''D'' \<in> set s then FLAG_DIRS_ONLY else 0) OR (if CHR ''F'' \<in> set s then FLAG_FILES_ONLY else 0)"

definition top_ok :: "chmod_vars \<Rightarrow> bool" where
  "top_ok v \<longleftrightarrow> cv_topoct v AND NOT 0xE00 = 0 \<and> cv_topbits v AND NOT 0xE00 = 0"

lemma run_second_half:
  "cv_state v = STATE_2ND_HALF \<Longrightarrow> chmod_run v s = Some w \<Longrightarrow> top_ok v \<Longrightarrow> \<exists>t. w = v \<lparr>cv_what := cv_what v OR perm_bits s,
     cv_flags := cv_flags v OR (if CHR ''X'' \<in> set s then FLAG_X_KEEP else 0), cv_topoct := t\<rparr> \<and> top_ok w"
proof (induction s arbitrary: v)
  case Nil
  then show ?case by (intro exI [of _ "cv_topoct v"]) (simp add: perm_bits_def)
next
  case (Cons c s)
  obtain u where u: "second_half v c = Some u" "chmod_run u s = Some w"
    using Cons.prems by (auto simp: chmod_step_def split: option.splits)
  define fl where "fl = (if c = CHR ''X'' then FLAG_X_KEEP else 0)"
  obtain t where t: "u = v \<lparr>cv_what := cv_what v OR perm_bits [c], cv_flags := cv_flags v OR fl, cv_topoct := t\<rparr>" "top_ok u"
  proof -
    have "\<exists>t. u = v \<lparr>cv_what := cv_what v OR perm_bits [c], cv_flags := cv_flags v OR fl, cv_topoct := t\<rparr>"
      using u(1) by (auto simp: second_half_def perm_bits_def fl_def split: if_splits intro: exI [of _ "cv_topoct v"])
    moreover have "top_ok u"
      using u(1) Cons.prems(3) by (auto simp: second_half_def top_ok_def bit.conj_disj_distrib2 split: if_splits)
    ultimately show ?thesis using that by blast
  qed
  from Cons.IH [OF _ u(2) t(2)] t(1) Cons.prems(1) obtain t' where
    w: "w = u \<lparr>cv_what := cv_what u OR perm_bits s, cv_flags := cv_flags u OR (if CHR ''X'' \<in> set s then FLAG_X_KEEP else 0), cv_topoct := t'\<rparr>"
    "top_ok w" by auto
  have p: "perm_bits [c] OR perm_bits s = perm_bits (c # s)"
    by (rule bit_word_eqI) (auto simp: perm_bits_def bit_or_iff)
  have f: "fl OR (if CHR ''X'' \<in> set s then FLAG_X_KEEP else 0) = (if CHR ''X'' \<in> set (c # s) then FLAG_X_KEEP else 0)"
    by (auto simp: fl_def)
  have "w = v \<lparr>cv_what := cv_what v OR perm_bits (c # s), cv_flags := cv_flags v OR (if CHR ''X'' \<in> set (c # s) then FLAG_X_KEEP else 0), cv_topoct := t'\<rparr>"
    unfolding w(1) unfolding t(1) p [symmetric] f [symmetric] by (simp add: ac_simps)
  then show ?case using w(2) by blast
qed

lemma run_octal:
  "cv_state v = STATE_OCTAL_NUM \<Longrightarrow> cv_what v \<le> CHMOD_BITS \<Longrightarrow> chmod_run v s = Some w
    \<Longrightarrow> w = v \<lparr>cv_what := foldl (\<lambda>n c. n * 8 + of_char c - 48) (cv_what v) s\<rparr> \<and> cv_what w \<le> CHMOD_BITS \<and> list_all octal_digit s"
proof (induction s arbitrary: v)
  case (Cons c s)
  obtain u where u: "octal_num v c = Some u" "chmod_run u s = Some w"
    using Cons.prems by (auto simp: chmod_step_def split: option.splits)
  have d: "octal_digit c" "u = v \<lparr>cv_what := cv_what v * 8 + of_char c - 48\<rparr>" "cv_what u \<le> CHMOD_BITS"
    using u(1) by (auto simp: octal_num_def Let_def not_less split: if_splits)
  have st: "cv_state u = STATE_OCTAL_NUM" using d(2) Cons.prems(1) by simp
  have r: "w = u \<lparr>cv_what := foldl (\<lambda>n c. n * 8 + of_char c - 48) (cv_what u) s\<rparr>" "cv_what w \<le> CHMOD_BITS" "list_all octal_digit s"
    using Cons.IH [OF st d(3) u(2)] by blast+
  then have "w = v \<lparr>cv_what := foldl (\<lambda>n c. n * 8 + of_char c - 48) (cv_what v) (c # s)\<rparr>" unfolding d(2) by simp
  then show ?case using r(2,3) d(1) by (simp only: list.pred_inject simp_thms)
qed simp

lemma run_first_half:
  "cv_state v = STATE_1ST_HALF \<Longrightarrow> cv_op v = None \<Longrightarrow> top_ok v \<Longrightarrow> chmod_run v s = Some w \<Longrightarrow> cv_op w \<noteq> None
    \<Longrightarrow> \<exists>b c t. clause_tail s = c # t \<and> top_ok (v \<lparr>cv_topbits := b\<rparr>)
      \<and> chmod_run (v \<lparr>cv_where := cv_where v OR class_bits (clause_head s), cv_topbits := b, cv_flags := cv_flags v OR file_flags (clause_head s)\<rparr>) (c # t) = Some w"
proof (induction s arbitrary: v)
  case (Cons c s)
  show ?case
  proof (cases "c \<in> set ''DFugoa''")
    case False
    then have "clause_head (c # s) = []" "clause_tail (c # s) = c # s" by (simp_all add: clause_head_def clause_tail_def)
    then show ?thesis using Cons.prems
      by (intro exI [of _ "cv_topbits v"] exI [of _ c] exI [of _ s]) (simp add: class_bits_def file_flags_def)
  next
    case True
    then have h: "clause_head (c # s) = c # clause_head s" "clause_tail (c # s) = clause_tail s" by (simp_all add: clause_head_def clause_tail_def)
    obtain u where u: "first_half v c = Some u" "chmod_run u s = Some w"
      using Cons.prems by (auto simp: chmod_step_def split: option.splits)
    obtain b where b: "u = v \<lparr>cv_where := cv_where v OR class_bits [c], cv_topbits := b, cv_flags := cv_flags v OR file_flags [c]\<rparr>" "top_ok (v \<lparr>cv_topbits := b\<rparr>)"
    proof -
      have "\<exists>b. u = v \<lparr>cv_where := cv_where v OR class_bits [c], cv_topbits := b, cv_flags := cv_flags v OR file_flags [c]\<rparr>
          \<and> (b = cv_topbits v \<or> b = cv_topbits v OR 0x800 \<or> b = cv_topbits v OR 0x400)"
        using u(1) True by (auto simp: first_half_def class_bits_def file_flags_def split: if_splits intro: exI [of _ "cv_topbits v"])
      then obtain b where b: "u = v \<lparr>cv_where := cv_where v OR class_bits [c], cv_topbits := b, cv_flags := cv_flags v OR file_flags [c]\<rparr>"
          "b = cv_topbits v \<or> b = cv_topbits v OR 0x800 \<or> b = cv_topbits v OR 0x400" by blast
      have "top_ok (v \<lparr>cv_topbits := b\<rparr>)"
        using b(2) Cons.prems(3) by (auto simp: top_ok_def bit.conj_disj_distrib2)
      then show ?thesis using that b(1) by blast
    qed
    have q: "cv_state u = STATE_1ST_HALF" "cv_op u = None" "top_ok u" using b Cons.prems(1,2) by (simp_all add: top_ok_def)
    from Cons.IH [OF q u(2) Cons.prems(5)] obtain b' c' t where r: "clause_tail s = c' # t" "top_ok (u \<lparr>cv_topbits := b'\<rparr>)"
      "chmod_run (u \<lparr>cv_where := cv_where u OR class_bits (clause_head s), cv_topbits := b', cv_flags := cv_flags u OR file_flags (clause_head s)\<rparr>) (c' # t) = Some w"
      by blast
    have e: "class_bits [c] OR class_bits (clause_head s) = class_bits (c # clause_head s)"
      "file_flags [c] OR file_flags (clause_head s) = file_flags (c # clause_head s)"
      by (rule bit_word_eqI; auto simp: class_bits_def file_flags_def bit_or_iff)+
    have "u \<lparr>cv_where := cv_where u OR class_bits (clause_head s), cv_topbits := b', cv_flags := cv_flags u OR file_flags (clause_head s)\<rparr>
        = v \<lparr>cv_where := cv_where v OR class_bits (c # clause_head s), cv_topbits := b', cv_flags := cv_flags v OR file_flags (c # clause_head s)\<rparr>"
      unfolding b(1) e [symmetric] by (simp add: ac_simps)
    then show ?thesis using r h by (intro exI [of _ b'] exI [of _ c'] exI [of _ t]) (simp add: top_ok_def b(1))
  qed
qed simp

subsection \<open>The masks\<close>

lemma product_bits:
  fixes W X :: uint32
  assumes "W \<in> {0, 1, 8, 9, 0x40, 0x41, 0x48, 0x49}" and "X \<in> {0, 1, 2, 3, 4, 5, 6, 7}"
  shows "bit (W * X) p \<longleftrightarrow> p < 9 \<and> bit W (3 * (p div 3)) \<and> bit X (p mod 3)"
proof (cases "p < 9")
  case True
  have all: "\<forall>W\<in>set [0, 1, 8, 9, 0x40, 0x41, 0x48, 0x49 :: uint32]. \<forall>X\<in>set [0, 1, 2, 3, 4, 5, 6, 7 :: uint32]. \<forall>p\<in>set [0, 1, 2, 3, 4, 5, 6, 7, 8].
      bit (W * X) p = (bit W (3 * (p div 3)) \<and> bit X (p mod 3))" by code_simp
  have "p \<in> set [0, 1, 2, 3, 4, 5, 6, 7, 8]" using True by auto
  moreover have "W \<in> set [0, 1, 8, 9, 0x40, 0x41, 0x48, 0x49]" "X \<in> set [0, 1, 2, 3, 4, 5, 6, 7]"
    using assms by (simp_all only: list.set)
  ultimately show ?thesis using all True by blast
next
  case False
  have "\<forall>W\<in>set [0, 1, 8, 9, 0x40, 0x41, 0x48, 0x49 :: uint32]. \<forall>X\<in>set [0, 1, 2, 3, 4, 5, 6, 7 :: uint32]. W * X = take_bit 9 (W * X)" by code_simp
  moreover have "W \<in> set [0, 1, 8, 9, 0x40, 0x41, 0x48, 0x49]" "X \<in> set [0, 1, 2, 3, 4, 5, 6, 7]"
    using assms by (simp_all only: list.set)
  ultimately have "W * X = take_bit 9 (W * X)" by blast
  then have "bit (W * X) p = bit (take_bit 9 (W * X)) p" by (rule arg_cong)
  then show ?thesis using False by (simp add: bit_take_bit_iff)
qed

lemma class_bits_in: "class_bits s \<in> {0, 1, 8, 9, 0x40, 0x41, 0x48, 0x49}"
  by (simp add: class_bits_def)

lemma perm_bits_in: "perm_bits s \<in> {0, 1, 2, 3, 4, 5, 6, 7}"
  by (simp add: perm_bits_def)

lemma third: "p < 9 \<Longrightarrow> p div 3 = 0 \<or> p div 3 = 1 \<or> p div 3 = (2 :: nat)" "p mod 3 = 0 \<or> p mod 3 = 1 \<or> p mod 3 = (2 :: nat)"
  by linarith+

lemma bit_class_bits: "p < 9 \<Longrightarrow> bit (class_bits s) (3 * (p div 3)) \<longleftrightarrow> class_in p s"
  using third(1) [of p] by (auto simp: class_bits_def class_in_def class_of_def)

lemma bit_perm_bits: "bit (perm_bits s) (p mod 3) \<longleftrightarrow> perm_in p s"
  using third(2) [of p] by (auto simp: perm_bits_def perm_in_def)

lemma bit_all: "p < 9 \<Longrightarrow> bit (0x49 :: uint32) (3 * (p div 3))" "bit (7 :: uint32) (p mod 3)"
  using third(1) [of p] third(2) [of p] by auto

lemma no_class_bits: "class_bits s = 0 \<longleftrightarrow> no_class s"
  by (auto simp: class_bits_def no_class_def)

lemma apart_bits:
  fixes a t :: uint32
  assumes "\<forall>n. bit a n \<longrightarrow> n < 9" and "t AND NOT 0xE00 = 0"
  shows "a + t = a OR t" and "p < 9 \<Longrightarrow> \<not> bit t p" and "CHMOD_BITS - a - t = CHMOD_BITS AND NOT a AND NOT t"
    and "bit CHMOD_BITS p \<longleftrightarrow> p < 12" and "bit t n \<longrightarrow> n < 12"
proof -
  have c: "CHMOD_BITS = mask 12" by (simp add: CHMOD_BITS_def mask_eq_exp_minus_1)
  have e: "(0xE00 :: uint32) = push_bit 9 (mask 3)" by (simp add: mask_eq_exp_minus_1 push_bit_eq_mult)
  have t: "bit t n \<Longrightarrow> 9 \<le> n \<and> n < 12" for n
  proof -
    assume b: "bit t n"
    have "\<not> bit (t AND NOT (push_bit 9 (mask 3))) n" using assms(2) unfolding e by simp
    then have "bit (push_bit 9 (mask 3) :: uint32) n" using b bit_imp_le_length [OF b] by (simp add: bit_and_iff bit_not_iff del: push_bit_mask_eq)
    then show "9 \<le> n \<and> n < 12" by (auto simp: bit_push_bit_iff bit_mask_iff)
  qed
  show "bit CHMOD_BITS p \<longleftrightarrow> p < 12" for p by (auto simp: c bit_mask_iff)
  then have cb: "bit CHMOD_BITS p \<longleftrightarrow> p < 12" for p .
  show "bit t n \<longrightarrow> n < 12" using t [of n] by blast
  show "p < 9 \<Longrightarrow> \<not> bit t p" using t [of p] by linarith
  show "a + t = a OR t"
  proof (rule disjunctive_add)
    show "\<not> bit a n \<or> \<not> bit t n" for n using assms(1) t [of n] by (meson linorder_not_le)
  qed
  have 1: "CHMOD_BITS - a = CHMOD_BITS AND NOT a"
  proof (rule disjunctive_diff)
    show "bit a n \<Longrightarrow> bit CHMOD_BITS n" for n using assms(1) by (force simp: cb)
  qed
  have "(CHMOD_BITS AND NOT a) - t = (CHMOD_BITS AND NOT a) AND NOT t"
  proof (rule disjunctive_diff)
    show "bit t n \<Longrightarrow> bit (CHMOD_BITS AND NOT a) n" for n
      using assms(1) [rule_format, of n] t [of n] by (auto simp: cb bit_and_iff bit_not_iff dest: bit_imp_le_length)
  qed
  then show "CHMOD_BITS - a - t = CHMOD_BITS AND NOT a AND NOT t" unfolding 1 by (simp add: and.assoc)
qed

definition op_of :: "char \<Rightarrow> chmod_op" where
  "op_of c = (if c = CHR ''+'' then CHMOD_ADD else if c = CHR ''-'' then CHMOD_SUB else CHMOD_EQ)"

lemma clause_shape:
  assumes "clause_pair um s x"
  obtains (symbolic) c t v where "clause_tail s = c # t" "c \<in> {CHR ''+'', CHR ''-'', CHR ''=''}" "x = chmod_clause um (op_of c) v" "top_ok v"
      "cv_where v = class_bits (clause_head s)" "cv_what v = perm_bits t"
      "cv_flags v = file_flags (clause_head s) OR (if CHR ''X'' \<in> set t then FLAG_X_KEEP else 0)"
    | (octal) c t v where "clause_tail s = c # t" "c \<notin> {CHR ''+'', CHR ''-'', CHR ''=''}" "x = chmod_clause um CHMOD_SET v"
      "cv_where v = 1" "cv_what v = octal_value (c # t)" "cv_what v \<le> CHMOD_BITS" "cv_flags v = file_flags (clause_head s)"
proof -
  obtain w op where w: "chmod_run chmod_start s = Some w" "cv_op w = Some op" "x = chmod_clause um op w"
    using assms by (auto simp: clause_pair_def)
  from run_first_half [OF _ _ _ w(1)] w(2) obtain b c t where
    f: "clause_tail s = c # t" "top_ok (chmod_start \<lparr>cv_topbits := b\<rparr>)"
    "chmod_run (chmod_start \<lparr>cv_where := class_bits (clause_head s), cv_topbits := b, cv_flags := file_flags (clause_head s)\<rparr>) (c # t) = Some w"
    by (auto simp: chmod_start_def top_ok_def)
  let ?v = "chmod_start \<lparr>cv_where := class_bits (clause_head s), cv_topbits := b, cv_flags := file_flags (clause_head s)\<rparr>"
  have "c \<notin> set ''DFugoa''" using f(1) unfolding clause_tail_def by (metis (no_types, lifting) dropWhile_eq_Cons_conv)
  moreover obtain u where u: "first_half ?v c = Some u" "chmod_run u t = Some w"
    using f(3) by (auto simp: chmod_step_def chmod_start_def split: option.splits)
  ultimately consider (op) "c \<in> {CHR ''+'', CHR ''-'', CHR ''=''}" "u = ?v \<lparr>cv_op := Some (op_of c), cv_state := STATE_2ND_HALF\<rparr>"
    | (num) "c \<notin> {CHR ''+'', CHR ''-'', CHR ''=''}" "octal_digit c" "class_bits (clause_head s) = 0"
        "u = ?v \<lparr>cv_op := Some CHMOD_SET, cv_state := STATE_OCTAL_NUM, cv_where := 1, cv_what := of_char c - 48\<rparr>"
    by (auto simp: first_half_def op_of_def chmod_start_def split: if_splits)
  then show thesis
  proof cases
    case op
    have "cv_state u = STATE_2ND_HALF" "top_ok u" using op(2) f(2) by (simp_all add: top_ok_def)
    from run_second_half [OF this(1) u(2) this(2)] obtain tt where
      r: "w = u \<lparr>cv_what := cv_what u OR perm_bits t, cv_flags := cv_flags u OR (if CHR ''X'' \<in> set t then FLAG_X_KEEP else 0), cv_topoct := tt\<rparr>"
      "top_ok w" by blast
    have "op = op_of c" using w(2) r(1) op(2) by simp
    show thesis by (rule symbolic [OF f(1) op(1) w(3) [unfolded \<open>op = op_of c\<close>] r(2)]) (simp_all add: r(1) op(2) chmod_start_def)
  next
    case num
    have le: "cv_what u \<le> CHMOD_BITS"
    proof -
      let ?n = "of_char c :: nat"
      have "?n = 48 \<or> ?n = 49 \<or> ?n = 50 \<or> ?n = 51 \<or> ?n = 52 \<or> ?n = 53 \<or> ?n = 54 \<or> ?n = 55" using num(2) unfolding octal_digit_def by linarith
      moreover have "(of_char c :: uint32) = of_nat ?n" by (simp only: String.of_nat_of_char)
      ultimately have "(of_char c :: uint32) - 48 \<in> {0, 1, 2, 3, 4, 5, 6, 7}" by (elim disjE) simp_all
      then show ?thesis by (auto simp: num(4) CHMOD_BITS_def)
    qed
    have st: "cv_state u = STATE_OCTAL_NUM" by (simp add: num(4))
    have r: "w = u \<lparr>cv_what := foldl (\<lambda>n c. n * 8 + of_char c - 48) (cv_what u) t\<rparr>" "cv_what w \<le> CHMOD_BITS"
      using run_octal [OF st le u(2)] by blast+
    have "op = CHMOD_SET" using w(2) r(1) num(4) by simp
    show thesis by (rule octal [OF f(1) num(1) w(3) [unfolded \<open>op = CHMOD_SET\<close>]]) (use r(2) in \<open>simp_all add: r(1) num(4) octal_value_def chmod_start_def\<close>)
  qed
qed

lemma flag_bits:
  "(file_flags h OR (if k then FLAG_X_KEEP else 0)) AND FLAG_DIRS_ONLY \<noteq> 0 \<longleftrightarrow> CHR ''D'' \<in> set h"
  "(file_flags h OR (if k then FLAG_X_KEEP else 0)) AND FLAG_FILES_ONLY \<noteq> 0 \<longleftrightarrow> CHR ''F'' \<in> set h"
  "(file_flags h OR (if k then FLAG_X_KEEP else 0)) AND FLAG_X_KEEP \<noteq> 0 \<longleftrightarrow> k"
  by (simp_all add: file_flags_def FLAG_DIRS_ONLY_def FLAG_FILES_ONLY_def FLAG_X_KEEP_def)

lemma bit_x_bits: "p < 9 \<Longrightarrow> bit (0x49 :: uint32) p \<longleftrightarrow> p mod 3 = 0"
proof -
  assume "p < 9"
  then have "p = 0 \<or> p = 1 \<or> p = 2 \<or> p = 3 \<or> p = 4 \<or> p = 5 \<or> p = 6 \<or> p = 7 \<or> p = 8" by linarith
  then show ?thesis by (elim disjE) simp_all
qed

lemma tweak_one_bit:
  assumes "p < 9"
  shows "bit (tweak_one isx isdir cm m) p \<longleftrightarrow>
    (if cm_flags cm AND FLAG_DIRS_ONLY \<noteq> 0 \<and> \<not> isdir \<or> cm_flags cm AND FLAG_FILES_ONLY \<noteq> 0 \<and> isdir then bit m p
     else bit m p \<and> bit (ModeAND cm) p
       \<or> bit (ModeOR cm) p \<and> \<not> (cm_flags cm AND FLAG_X_KEEP \<noteq> 0 \<and> \<not> isx \<and> \<not> isdir \<and> p mod 3 = 0))"
proof -
  have x: "bit (y AND NOT 0x49) p \<longleftrightarrow> bit y p \<and> \<not> p mod 3 = 0" for y :: uint32
    using bit_x_bits [OF assms] assms unfolding bit_and_iff bit_not_iff by (simp only: possible_bit_word) auto
  obtain z where z: "ModeOR cm AND NOT 0x49 = z" by blast
  have zb: "bit z p \<longleftrightarrow> bit (ModeOR cm) p \<and> \<not> p mod 3 = 0" unfolding z [symmetric] by (rule x)
  show ?thesis unfolding tweak_one_def z
    by (cases isdir; cases isx; cases "cm_flags cm AND FLAG_DIRS_ONLY \<noteq> 0"; cases "cm_flags cm AND FLAG_FILES_ONLY \<noteq> 0";
        cases "cm_flags cm AND FLAG_X_KEEP \<noteq> 0") (simp_all only: simp_thms if_True if_False bit_or_iff bit_and_iff zb)
qed

text \<open>The masks of a clause, bit by bit.\<close>

lemma clause_masks:
  fixes um :: uint32 and v :: chmod_vars and h t :: string and c :: char and p :: nat
  assumes p: "p < 9" and v: "top_ok v" "cv_where v = class_bits h" "cv_what v = perm_bits t" and c: "c \<in> {CHR ''+'', CHR ''-'', CHR ''=''}"
  defines "meant \<equiv> (if no_class h then perm_in p t \<and> \<not> bit um p else class_in p h \<and> perm_in p t)"
  shows "bit (ModeAND (chmod_clause um (op_of c) v)) p \<longleftrightarrow>
      (if c = CHR ''+'' then True else if c = CHR ''-'' then \<not> meant else \<not> (no_class h \<or> class_in p h))"
    and "bit (ModeOR (chmod_clause um (op_of c) v)) p \<longleftrightarrow> c \<noteq> CHR ''-'' \<and> meant"
    and "bit (ModeOR (chmod_clause um (op_of c) v)) n \<longrightarrow> n < 12"
proof -
  let ?w = "if class_bits h \<noteq> 0 then class_bits h else 0x49"
  define bits where "bits = (if class_bits h \<noteq> 0 then ?w * perm_bits t else (?w * perm_bits t) AND NOT um)"
  have w: "?w \<in> {0, 1, 8, 9, 0x40, 0x41, 0x48, 0x49}" using class_bits_in [of h] by auto
  have wb: "bit ?w (3 * (p div 3)) \<longleftrightarrow> no_class h \<or> class_in p h"
    using bit_class_bits [OF p, of h] bit_all(1) [OF p] no_class_bits [of h] by auto
  have x: "bit (?w * perm_bits t) n \<longleftrightarrow> n < 9 \<and> bit ?w (3 * (n div 3)) \<and> bit (perm_bits t) (n mod 3)" for n
    by (rule product_bits [OF w perm_bits_in])
  have all: "bit (?w * 7) n \<longleftrightarrow> n < 9 \<and> bit ?w (3 * (n div 3))" for n
  proof -
    have "(7 :: uint32) \<in> {0, 1, 2, 3, 4, 5, 6, 7}" by (simp only: insert_iff simp_thms)
    from product_bits [OF w this, of n] show ?thesis using bit_all(2) [of n] by blast
  qed
  have small: "\<forall>n. bit bits n \<longrightarrow> n < 9" 
  proof (intro allI impI)
    fix n assume "bit bits n"
    then have "bit (?w * perm_bits t) n" unfolding bits_def by (cases "class_bits h \<noteq> 0") (simp_all add: bit_and_iff)
    then show "n < 9" using x by blast
  qed
  have small7: "\<forall>n. bit (?w * 7) n \<longrightarrow> n < 9" using all by blast
  have mb: "bit bits p \<longleftrightarrow> meant"
  proof -
    have xp: "bit (?w * perm_bits t) p \<longleftrightarrow> (no_class h \<or> class_in p h) \<and> perm_in p t" using x [of p] wb bit_perm_bits [of t p] p by blast
    show ?thesis
    proof (cases "no_class h")
      case True
      then have "bits = (?w * perm_bits t) AND NOT um" unfolding bits_def using no_class_bits [of h] by simp
      then have "bit bits p \<longleftrightarrow> bit (?w * perm_bits t) p \<and> \<not> bit um p" using p by (simp only: bit_and_iff bit_not_iff) simp
      then show ?thesis unfolding xp meant_def using True by simp
    next
      case False
      then have "bits = ?w * perm_bits t" unfolding bits_def using no_class_bits [of h] by simp
      then show ?thesis unfolding meant_def using xp False by simp
    qed
  qed
  have top: "cv_topoct v AND NOT 0xE00 = 0" "(if cv_topoct v \<noteq> 0 then cv_topbits v else 0) AND NOT 0xE00 = 0"
    using v(1) by (simp_all add: top_ok_def)
  note A = apart_bits [OF small top(1)] and B = apart_bits [OF small7 top(2)]
  have clause: "chmod_clause um op v = (case op of
           CHMOD_ADD \<Rightarrow> \<lparr>ModeAND = CHMOD_BITS, ModeOR = bits + cv_topoct v, cm_flags = cv_flags v\<rparr>
         | CHMOD_SUB \<Rightarrow> \<lparr>ModeAND = CHMOD_BITS - bits - cv_topoct v, ModeOR = 0, cm_flags = cv_flags v\<rparr>
         | CHMOD_EQ \<Rightarrow> \<lparr>ModeAND = CHMOD_BITS - (?w * 7) - (if cv_topoct v \<noteq> 0 then cv_topbits v else 0),
                        ModeOR = bits + cv_topoct v, cm_flags = cv_flags v\<rparr>
         | CHMOD_SET \<Rightarrow> \<lparr>ModeAND = 0, ModeOR = bits, cm_flags = cv_flags v\<rparr>)" for op
    unfolding chmod_clause_def v(2,3) bits_def Let_def by (rule refl)
  have "p < 32" using p by simp
  then show "bit (ModeAND (chmod_clause um (op_of c) v)) p \<longleftrightarrow>
      (if c = CHR ''+'' then True else if c = CHR ''-'' then \<not> meant else \<not> (no_class h \<or> class_in p h))"
    and "bit (ModeOR (chmod_clause um (op_of c) v)) p \<longleftrightarrow> c \<noteq> CHR ''-'' \<and> meant"
    using c p A(2) [OF p] B(2) [OF p] mb all [of p] wb A(4) [of p] unfolding clause op_of_def A(1,3) B(3)
    by (auto simp: bit_and_iff bit_or_iff bit_not_iff)
  have "bit (bits OR cv_topoct v) n \<longrightarrow> n < 12" using small A(5) by (auto simp: bit_or_iff)
  then show "bit (ModeOR (chmod_clause um (op_of c) v)) n \<longrightarrow> n < 12"
    unfolding clause op_of_def A(1) by simp
qed

lemma word_below: "(w :: uint32) \<le> CHMOD_BITS \<Longrightarrow> bit w n \<Longrightarrow> n < 12"
proof (rule ccontr)
  assume w: "w \<le> CHMOD_BITS" "bit w n" "\<not> n < 12"
  have "unat w \<le> unat CHMOD_BITS" using w(1) by (simp only: word_le_nat_alt)
  then have "unat (drop_bit 12 w) = 0" unfolding unat_drop_bit_eq by (simp add: drop_bit_eq_div CHMOD_BITS_def)
  then have "drop_bit 12 w = 0" by (simp only: unat_eq_zero)
  moreover have "bit (drop_bit 12 w) (n - 12)" using w(2,3) by (simp add: bit_drop_bit_eq)
  ultimately show False by simp
qed

lemma clause_pair_bit:
  assumes c: "clause_pair um s x"
  shows "p < 9 \<Longrightarrow> bit (tweak_one isx isdir x m) p \<longleftrightarrow> clause_bit um isx isdir p s (bit m p)" and "bit (ModeOR x) n \<longrightarrow> n < 12"
proof -
  have "(p < 9 \<longrightarrow> bit (tweak_one isx isdir x m) p = clause_bit um isx isdir p s (bit m p)) \<and> (bit (ModeOR x) n \<longrightarrow> n < 12)"
    using c
  proof (cases rule: clause_shape)
    case (symbolic c t v)
    let ?h = "clause_head s"
    have fl: "cm_flags x = file_flags ?h OR (if CHR ''X'' \<in> set t then FLAG_X_KEEP else 0)"
      using symbolic(3,7) by (auto simp: chmod_clause_def Let_def split: chmod_op.splits)
    note F = flag_bits [of ?h "CHR ''X'' \<in> set t", folded fl]
    show ?thesis
    proof (intro conjI impI)
      assume p: "p < 9"
      note M = clause_masks(1,2) [OF p symbolic(4,5,6,2), of um, folded symbolic(3)]
      show "bit (tweak_one isx isdir x m) p = clause_bit um isx isdir p s (bit m p)"
        using symbolic(2) unfolding tweak_one_bit [OF p] clause_bit_def Let_def symbolic(1) F list.sel M by auto
    next
      assume "bit (ModeOR x) n"
      then show "n < 12" using clause_masks(3) [of 0 v ?h t c um n, folded symbolic(3)] symbolic by simp
    qed
  next
    case (octal c t v)
    have x: "x = \<lparr>ModeAND = 0, ModeOR = octal_value (c # t), cm_flags = file_flags (clause_head s)\<rparr>"
      using octal by (simp add: chmod_clause_def)
    note F = flag_bits [of "clause_head s" False, simplified]
    have "bit (octal_value (c # t)) n \<longrightarrow> n < 12" using word_below octal(5,6) by auto
    then show ?thesis
      using octal(2) unfolding x tweak_one_def clause_bit_def Let_def octal(1) list.sel chmod_mode_struct.simps F
      by auto
  qed
  then show "p < 9 \<Longrightarrow> bit (tweak_one isx isdir x m) p \<longleftrightarrow> clause_bit um isx isdir p s (bit m p)" "bit (ModeOR x) n \<longrightarrow> n < 12" by blast+
qed

subsection \<open>The whole argument\<close>

lemma fold_bits:
  "list_all2 (clause_pair um) ws xs \<Longrightarrow> p < 9 \<Longrightarrow>
    bit (fold (tweak_one isx isdir) xs m) p = fold (clause_bit um isx isdir p) ws (bit m p)"
  by (induction arbitrary: m rule: list_all2_induct) (simp_all add: clause_pair_bit(1))

lemma tweak_one_high: "\<forall>n. bit (ModeOR x) n \<longrightarrow> n < 12 \<Longrightarrow> bit (tweak_one isx isdir x m) n \<Longrightarrow> 12 \<le> n \<Longrightarrow> bit m n"
  by (auto simp: tweak_one_def bit_or_iff bit_and_iff split: if_splits)

lemma fold_high: "list_all2 (clause_pair um) ws xs \<Longrightarrow> bit (fold (tweak_one isx isdir) xs m) n \<Longrightarrow> 12 \<le> n \<Longrightarrow> bit m n"
proof (induction arbitrary: m rule: list_all2_induct)
  case (Cons w ws x xs)
  have "bit (tweak_one isx isdir x m) n" using Cons.IH [of "tweak_one isx isdir x m"] Cons.prems by simp
  then show ?case using tweak_one_high clause_pair_bit(2) [OF Cons.hyps(1)] Cons.prems(2) by blast
qed simp

lemma type_bits: "bit (m AND NOT CHMOD_BITS) n \<longleftrightarrow> bit m n \<and> 12 \<le> n"
proof -
  have c: "CHMOD_BITS = mask 12" by (simp add: CHMOD_BITS_def mask_eq_exp_minus_1)
  show ?thesis unfolding c by (auto simp: bit_and_iff bit_not_iff bit_mask_iff dest: bit_imp_le_length)
qed

lemma is_dir_type: "is_dir_mode (m AND NOT CHMOD_BITS) = is_dir_mode m"
proof -
  have k: "S_IFMT = push_bit 12 (mask 4)" by (simp add: S_IFMT_def mask_eq_exp_minus_1 push_bit_eq_mult)
  obtain z where z: "m AND NOT CHMOD_BITS = z" by blast
  have zb: "bit z n \<longleftrightarrow> bit m n \<and> 12 \<le> n" for n unfolding z [symmetric] by (rule type_bits)
  have "(ucast z :: 16 word) AND S_IFMT = ucast m AND S_IFMT"
    unfolding k by (rule bit_word_eqI) (auto simp: bit_and_iff bit_ucast_iff zb bit_push_bit_iff simp del: push_bit_mask_eq)
  then show ?thesis unfolding z by (simp add: is_dir_mode_def S_ISDIR_def)
qed

lemma chmod_right:
  assumes "parse_chmod um s roots = Some (ms, roots')"
  shows "roots' = roots @ ms \<and> tweak_mode m ms AND NOT CHMOD_BITS = m AND NOT CHMOD_BITS
    \<and> (\<forall>p<9. bit (tweak_mode m ms) p = fold (clause_bit um (m AND 0x49 \<noteq> 0) (is_dir_mode m) p) (split_comma s) (bit m p))"
proof -
  have l: "chmod_loop um s chmod_start [] = Some ms" and r: "roots' = roots @ ms"
    using assms by (auto simp: parse_chmod_def)
  from chmod_loop_clauses [OF l] obtain v op xs where c: "chmod_run chmod_start (hd (split_comma s)) = Some v" "cv_op v = Some op"
    "ms = chmod_clause um op v # xs" "list_all2 (clause_pair um) (tl (split_comma s)) xs" by auto
  have "split_comma s = hd (split_comma s) # tl (split_comma s)" using split_comma_some [of s] by simp
  moreover have "list_all2 (clause_pair um) (hd (split_comma s) # tl (split_comma s)) ms"
    using c by (simp add: clause_pair_def [of um "hd (split_comma s)"])
  ultimately have all: "list_all2 (clause_pair um) (split_comma s) ms" by simp
  let ?isx = "m AND 0x49 \<noteq> 0"
  have t: "tweak_mode m ms = fold (tweak_one ?isx (is_dir_mode m)) ms m OR (m AND NOT CHMOD_BITS)"
    by (simp add: tweak_mode_def is_dir_type Let_def)
  have "bit (tweak_mode m ms) p = fold (clause_bit um ?isx (is_dir_mode m) p) (split_comma s) (bit m p)" if "p < 9" for p
    using fold_bits [OF all that, of ?isx "is_dir_mode m" m] that unfolding t bit_or_iff type_bits by simp
  moreover have "tweak_mode m ms AND NOT CHMOD_BITS = m AND NOT CHMOD_BITS"
    using fold_high [OF all] by (intro bit_word_eqI) (auto simp: type_bits t bit_or_iff)
  ultimately show ?thesis using r by blast
qed

end
