(* ===== verification/Spec2Isabelle.thy ===== *)
theory Spec2Isabelle
  imports Examples ListTransfer ChmodSpec
begin

text \<open>
  The program is rsync 3.1 extended by a backup store: every file that is sent to the other side
  can be kept there in several versions, as full copies and as deltas between them, and a version
  can be asked for again by its time stamp. This development models the parts that decide whether
  the right bytes come back: the encodings on the connection, the checksums, the search for
  blocks on the sender, the reconstruction on the receiver, the files of the backup store and the
  code that merges, removes and recovers them.

  \<^bold>\<open>How the parts interact.\<close> For one file the generator (generator.c) sends the checksums of the
  blocks of an old version, the sender (sender.c, match.c) looks for these blocks in the new
  version and answers with a stream of literal data and block numbers (token.c, io.c), and the
  receiver (receiver.c) puts the new version together. In a backup the receiver also writes the
  stream as a text file, the delta; before the first one it writes a full copy. Afterwards
  \<open>manage_backup_version\<close> removes what exceeds \<open>backup_version_num\<close>, in an incremental
  store by merging the oldest delta into the oldest full copy. In a recovery the sender chooses a
  store (\<open>decide_recovery_type\<close>), puts the version together in a file \<open>recovery\<close>
  and sends that file instead of the current one.

  \<^bold>\<open>Conventions.\<close> File contents and wire data are lists of bytes (\<open>8 word\<close>), path names are
  strings. The 32-bit arithmetic of the checksums and encodings is on words; \<open>int64\<close> and
  \<open>int32\<close> quantities that cannot wrap in the code's own bounds are \<open>int\<close>, with the
  bounds as hypotheses. A call of \<open>exit_cleanup(code)\<close> is the value \<open>Inl code\<close>, an
  undefined operation of C \<open>Undefined\<close> or \<open>None\<close>. What the kernel may choose (the
  length of a \<open>read\<close> or \<open>write\<close>) is a record of functions; \<open>os_ok\<close> says that a
  read of an existing range returns at least one byte.

  \<^bold>\<open>Theories.\<close>
  \<^item> \<open>Prelude\<close>: bytes, exit codes, readers, C strings, lemmas on lists and bytes.
  \<^item> \<open>Wire\<close>: the integers, indexes, strings and checksum headers of io.c and byteorder.h;
    locales \<open>codec\<close> and \<open>stateful_codec\<close> with their interpretations.
  \<^item> \<open>MapFile\<close>, \<open>FileWrite\<close>: the read window and the write buffer of fileio.c.
  \<^item> \<open>Checksum\<close>, \<open>Md5\<close>, \<open>Md4\<close>, \<open>Digest\<close>: checksum.c, lib/md5.c, lib/mdfour.c.
  \<^item> \<open>Token\<close>, \<open>MatchSums\<close>, \<open>MatchCorrect\<close>, \<open>Sums\<close>, \<open>Receiver\<close>: one delta
    transfer (token.c, match.c, generator.c, receiver.c).
  \<^item> \<open>DeltaFile\<close>: the text format of a delta and the loop that applies it (\<open>apply_delta\<close>
    stands three times in sender.c and receiver.c).
  \<^item> \<open>FileStore\<close>, \<open>History\<close>: the file system, and what a store of a history of versions is.
  \<^item> \<open>Recovery\<close>, \<open>RecoverySpec\<close>: \<open>decide_recovery_type\<close>, \<open>combine_incremental_files\<close>,
    \<open>combine_differental_files\<close> and what they return.
  \<^item> \<open>Retention\<close>, \<open>IncrRetention\<close>: \<open>manage_backup_version\<close> and
    \<open>update_incre_full_backup\<close>.
  \<^item> \<open>Backup\<close>, \<open>Series\<close>, \<open>DiffSeries\<close>: the backup part of \<open>recv_files\<close>, and series of whole
    runs, incremental and differential.
  \<^item> \<open>PathNames\<close>: \<open>clean_fname\<close> and \<open>sanitize_path\<close> of util.c.
  \<^item> \<open>Wildmatch\<close>: the shell patterns of lib/wildmatch.c and the language they stand for.
  \<^item> \<open>FileList\<close>, \<open>NameOrder\<close>, \<open>FileClean\<close>: the entries of a file list (rsync.h, flist.c), the order
    of their names, sorting, searching and the removal of duplicates; locale \<open>comparison\<close>.
  \<^item> \<open>IdList\<close>: the ids and names of uidlist.c with the rules of \<open>--usermap\<close> and \<open>--groupmap\<close>.
  \<^item> \<open>Chmod\<close>, \<open>ChmodSpec\<close>: \<open>parse_chmod\<close> and \<open>tweak_mode\<close> of chmod.c, and what the clauses of the
    argument say of a permission bit.
  \<^item> \<open>FileEntry\<close>, \<open>ListTransfer\<close>: the transfer of the file list (\<open>send_file_entry\<close>,
    \<open>recv_file_entry\<close> and the loops of \<open>send_file_list\<close> and \<open>recv_file_list\<close>), with the static
    variables of both functions as states that are shown to agree after every entry.
  \<^item> \<open>Examples\<close>: concrete systems and histories for the witnesses.

  \<^bold>\<open>Fuel and bounds.\<close> \<open>hash_loop\<close> and \<open>receive_loop\<close> take fuel. For the search the
  length of the file is enough (\<open>match_sums_stream\<close>: the result is never \<open>None\<close>), for the
  receiver the number of bytes of the input. \<open>find_loop\<close> takes one round per entry of the range
  and one more, \<open>skip_up\<close> and \<open>skip_down\<close> one per entry of the array (\<open>flist_find_finds\<close>: the
  result is never \<open>None\<close>). \<open>recv_entries\<close> and \<open>recv_ids\<close> take the number of bytes and one more
  (\<open>file_list_transfer\<close>: that is enough for any list sent). All other loops have a proved measure. File lengths
  are below \<open>2 ^ 63\<close>, block counts below \<open>2 ^ 31\<close>, as in the code's types.

  \<^bold>\<open>Not modelled.\<close> Socket and process control, multiplexing and time-outs; the deflated token
  stream (it calls zlib); option parsing (popt); ACLs, extended attributes and the setting of
  attributes through system interfaces; the walk through the directories that makes the file list,
  the tree of directories of incremental recursion and the conversion of character sets; partial directories, delayed updates, redo phases and in-place updates of
  the receiver; progress output and statistics. Symbolic links inside the backup store and path
  names longer than \<open>MAXPATHLEN\<close> are outside the model of the file system.
\<close>

unbundle bit_operations_syntax

section \<open>Backup and recovery\<close>











section \<open>Transfer\<close>



text \<open>
C7: In a differential backup the generator sums the full backup, while the receiver copies the
matched blocks from the current file: a file of one block that is changed and then goes back to
its first content keeps the second one, although the run ends without an error.
\<close>
theorem differential_target_stale:
  assumes "fresh fs fname" and "os_ok w" and "1 \<le> num" and "delta_cfg cfg bs"
    and "cst = CSUM_MD5 \<or> is_md4 cst"
    and "c2 = block_sum2 (x_protocol cfg) cst proper seed m" and "digest = sum_digest (x_protocol cfg) cst seed"
    and "hist_ok [(t1, c), (t2, c'), (t3, c)]" and "length c = length c'" and "c \<noteq> []" and "length c < 2 ^ 63"
    and "\<And>x. file_content fs fname = Some x \<Longrightarrow> length x < 2 ^ 63 \<and> delta_safe cfg bs c2 x c"
    and "delta_safe cfg bs c2 c c'" and "delta_safe cfg bs c2 c c"
    and "sum_sizes_sqroot (x_protocol cfg) (x_csum_length cfg) bs (int (length c)) = Some sh" and "s_count sh = 1"
  shows "\<exists>fs'. backup_series w cfg bs c2 digest num 1 fs fname [(t1, c), (t2, c'), (t3, c)] = Inr fs'
    \<and> file_content fs' fname = Some c'"
proof -
  have "16 \<le> length (c2 x)" for x using assms(5,6) by (simp add: length_block_sum2)
  moreover have "\<forall>x y. length (digest x) = length (digest y)" using assms(7) length_sum_digest by blast
  ultimately show ?thesis using stale_target [OF assms(1-4) _ _ assms(8-16)] by blast
qed

theorem differential_target_stale_witness:
  "\<exists>fs'. backup_series short_os example_cfg 0 example_sum2 example_digest 1 1 [] ''a'' [(''1'', [1]), (''2'', [2]), (''3'', [1])] = Inr fs'
    \<and> file_content fs' ''a'' = Some [2]"
  by (rule differential_target_stale [OF empty_fresh short_os_ok _ example_delta_cfg, where seed = 7 and m = example_ctx])
    (use example_history_ok example_checksums in \<open>auto simp: split_path_file empty_no_file one_byte_safe
      example_history_def hist_ok_def ts_ok_def no_nul_def example_head\<close>)

text \<open>
C8: One delta transfer, end to end and with the checksums of the program: the generator's sums
arrive at the sender, the search ends and its tokens take the receiver to exactly the sender's
file, and the delta file that a backup writes on the way turns the old file into the new one.
\<close>
theorem delta_transfer_correct:
  assumes "os_ok w" and "os_ok w'" and "\<not> x_whole_file cfg" and "x_append_mode cfg \<le> 0"
    and "pv = x_protocol cfg" and "cl = x_csum_length cfg"
    and "sum_sizes_sqroot pv cl bs (int (length basis)) = Some h"
    and "0 \<le> bs" and "bs \<le> max_blength pv" and "0 \<le> cl" and "cl \<le> SUM_LENGTH"
    and "length basis < 2 ^ 63" and "length f < 2 ^ 63"
    and "cst = CSUM_MD5 \<or> is_md4 cst" and "c2 = block_sum2 pv cst proper seed m"
    and "no_collision c2 f basis h"
  shows "\<exists>out s calls D. generate_and_send_sums pv cl bs 0 w c2 basis (int (length basis)) = Inr (0, out)
    \<and> receive_sums pv cl 0 out = Inr (s, [])
    \<and> match_sums False False 0 c2 f s = Some (calls, f, True)
    \<and> (\<forall>old rest. receive_data cfg w' (sum_digest pv cst seed) (Some basis) (int (length basis)) (int (length f)) old
          (write_sum_head pv (Some (sum_head.truncate s)) @ concat (map (send_call f) calls)
            @ sum_digest pv cst seed f @ rest)
        = Inr (\<lparr>x_ret = 1, x_target = (if x_fd cfg then f else []), x_delta_file = D\<rparr>, rest))
    \<and> (x_delta cfg \<longrightarrow> reproduces basis D f)"
proof -
  have "16 \<le> length (c2 x)" for x using assms(14,15) by (simp add: length_block_sum2)
  from backup_transfer [OF assms(1-13) this assms(16)] show ?thesis by blast
qed

theorem delta_transfer_correct_witness:
  "\<exists>out s calls D. generate_and_send_sums 31 2 0 0 short_os example_sum2 [1] (int (length [1 :: byte])) = Inr (0, out)
    \<and> receive_sums 31 2 0 out = Inr (s, [])
    \<and> match_sums False False 0 example_sum2 [2] s = Some (calls, [2], True)
    \<and> (\<forall>old rest. receive_data example_cfg plain_os example_digest (Some [1]) (int (length [1 :: byte])) (int (length [2 :: byte])) old
          (write_sum_head 31 (Some (sum_head.truncate s)) @ concat (map (send_call [2]) calls)
            @ example_digest [2] @ rest)
        = Inr (\<lparr>x_ret = 1, x_target = (if x_fd example_cfg then [2] else []), x_delta_file = D\<rparr>, rest))
    \<and> (x_delta example_cfg \<longrightarrow> reproduces [1] D [2])"
  by (rule delta_transfer_correct [OF short_os_ok plain_os_ok _ _ _ _ _ _ _ _ _ _ _ _ refl, where cst = CSUM_MD5])
    (use example_head example_safe in \<open>auto simp: max_blength_def MAX_BLOCK_SIZE_def SUM_LENGTH_def
      delta_safe_def safe_at_def example_history_def\<close>)



text \<open>
C10: What the tokens of a run of the sender say is what the receiver reads, and the bytes behind
the stream are left: literal data in chunks of at most \<open>CHUNK_SIZE\<close>, blocks by their number.
\<close>
theorem token_stream_roundtrip:
  assumes "list_all call_ok cs"
  shows "recv_tokens 0 (concat (map (send_call f) cs) @ send_call f (- 1, offset, n) @ rest)
    = Inr (concat (map (call_events f) cs) @ call_events f (- 1, offset, n), rest, 0)"
  using assms by (rule recv_tokens_send_calls)

theorem token_stream_roundtrip_witness:
  "recv_tokens 0 (concat (map (send_call [5, 6, 7]) [(3, 0, 2)]) @ send_call [5, 6, 7] (- 1, 2, 1) @ [9])
    = Inr (concat (map (call_events [5, 6, 7]) [(3, 0, 2)]) @ call_events [5, 6, 7] (- 1, 2, 1), [9], 0)"
  by (rule token_stream_roundtrip) (simp add: call_ok_def)

text \<open>
C11: The receiver accepts every transfer: the return value is 1 whatever checksum the sender
sent, because the code compares the computed checksum with itself.
\<close>
theorem receive_data_never_rejects:
  assumes "receive_data cfg w digest basis size_r total_size old input = Inr (r, rest)"
  shows "x_ret r = 1"
  using assms unfolding receive_data_def by (auto simp: rbind_def Let_def split: sum.splits)

theorem receive_data_never_rejects_witness:
  "case receive_data example_cfg plain_os (\<lambda>_. [0]) None 0 1 []
      (write_sum_head 31 None @ write_int 1 @ [5] @ write_int 0 @ [9]) of
     Inr (r, rest) \<Rightarrow> x_ret r = 1 \<and> x_target r = [5] \<and> rest = [] | Inl e \<Rightarrow> False"
proof -
  have "map_sum id (\<lambda>(r, rest). (x_target r, rest)) (receive_data example_cfg plain_os (\<lambda>_. [0]) None 0 1 []
      (write_sum_head 31 None @ write_int 1 @ [5] @ write_int 0 @ [9])) = Inr ([5], [])"
    by code_simp
  then obtain r where "receive_data example_cfg plain_os (\<lambda>_. [0]) None 0 1 []
      (write_sum_head 31 None @ write_int 1 @ [5] @ write_int 0 @ [9]) = Inr (r, [])" "x_target r = [5]"
    by (auto simp: map_sum_Inr)
  with receive_data_never_rejects [OF this(1)] show ?thesis by simp
qed



section \<open>Files and windows\<close>



text \<open>
C14: The file that the receiver writes, buffered or sparse: with a kernel that may write any
part of what it is given but never fails, all the writes and the final flush succeed, and a new
file then has exactly the bytes of the pieces, the zeros that were seeked over included.
\<close>
theorem new_file_written:
  assumes "wf_file st = []" and "wf_pos st = 0" and "wf_buf st = []" and "wf_seek st = 0" and "0 \<le> wf_past st"
    and "\<forall>p n. 0 \<le> k p n"
  shows "\<exists>st' r st''. write_pieces k sparse_files 0 0 st ds = Some st'
    \<and> finish_file k sparse_files (int (length (concat ds))) st' = (r, st'') \<and> 0 \<le> r \<and> wf_file st'' = concat ds"
  using assms by (rule file_gets_written)

theorem new_file_written_witness:
  "\<exists>st' r st''. write_pieces (\<lambda>p n. 1) True 0 0 \<lparr>wf_file = [], wf_pos = 0, wf_buf = [], wf_seek = 0, wf_past = 9\<rparr> [[1, 0], [0, 2], [0]] = Some st'
    \<and> finish_file (\<lambda>p n. 1) True (int (length (concat [[1, 0], [0, 2], [0 :: byte]]))) st' = (r, st'') \<and> 0 \<le> r
    \<and> wf_file st'' = concat [[1, 0], [0, 2], [0]]"
  by (rule new_file_written) simp_all

section \<open>Sums and checksums\<close>

text \<open>
C15: The block length is a rounded square root of the file length: between \<open>BLOCK_SIZE\<close> and
the maximum of the protocol, and within 8 of the root unless one of the two bounds applies.
\<close>
theorem block_length_is_root:
  assumes "0 \<le> len" and "len < 2 ^ 63" and "bl = block_length pv 0 len"
  shows "BLOCK_SIZE \<le> bl \<and> bl \<le> max_blength pv
    \<and> (bl = max_blength pv \<or> len < (bl + 8) * (bl + 8)) \<and> (bl = BLOCK_SIZE \<or> bl = max_blength pv \<or> bl * bl \<le> len)"
  using assms by (rule block_length_root)

theorem block_length_is_root_witness:
  "BLOCK_SIZE \<le> block_length 31 0 1000000 \<and> block_length 31 0 1000000 \<le> max_blength 31
    \<and> (block_length 31 0 1000000 = max_blength 31
       \<or> 1000000 < (block_length 31 0 1000000 + 8) * (block_length 31 0 1000000 + 8))
    \<and> (block_length 31 0 1000000 = BLOCK_SIZE \<or> block_length 31 0 1000000 = max_blength 31
       \<or> block_length 31 0 1000000 * block_length 31 0 1000000 \<le> 1000000)"
  by (rule block_length_is_root) simp_all

text \<open>
C16: The header that the generator makes up is one the readers accept, and it describes a file
of that length: the blocks and the remainder add up.
\<close>
theorem sum_sizes_valid:
  assumes "sum_sizes_sqroot pv cl bs len = Some h" and "len < 2 ^ 63" and "0 \<le> bs"
    and "bs \<le> max_blength pv" and "0 \<le> cl" and "cl \<le> SUM_LENGTH"
  shows "sum_head_ok pv cl h \<and> head_for len h"
  using assms by (rule sum_sizes_ok)

theorem sum_sizes_valid_witness:
  "sum_head_ok 31 2 \<lparr>s_count = 1, s_blength = 700, s_s2length = 2, s_remainder = 1\<rparr>
    \<and> head_for 1 \<lparr>s_count = 1, s_blength = 700, s_s2length = 2, s_remainder = 1\<rparr>"
  by (rule sum_sizes_valid [OF example_head])
    (simp_all add: max_blength_def MAX_BLOCK_SIZE_def SUM_LENGTH_def)

text \<open>
C17: The rolling update: from the checksum of a window alone, split into its halves as after a
match, taking off the first byte and adding the next one gives the checksum of the moved window,
which the unrolled loop of \<open>get_checksum1\<close> computes from scratch.
\<close>
theorem rolling_checksum:
  "sum_of (roll_on x (roll_off (int (Suc (length w))) b (sum_split (get_checksum1 (b # w))))) = get_checksum1 (w @ [x])"
proof -
  have "same_low (roll_on x (roll_off (int (Suc (length w))) b (sum_split (get_checksum1 (b # w)))))
      (roll_on x (roll_off (int (Suc (length w))) b (byte_sum (b # w), weighted_sum (b # w))))"
    by (intro same_low_roll_on same_low_roll_off sum_split_same_low)
  from sum_of_same_low [OF this] show ?thesis by (simp only: roll_step get_checksum1_eq)
qed

text \<open>
C18: The unrolled loop of the weak checksum equals the byte-by-byte one: the low half is the
sum of the bytes, the high half the sum of the prefix sums, modulo \<open>2 ^ 16\<close> each.
\<close>
theorem weak_checksum_reference:
  "get_checksum1 bs = sum_of (checksum1_tail 0 0 bs)"
  by (simp add: get_checksum1_eq checksum1_tail_closed)

text \<open>
C19: The strong checksum of a block, for every checksum type the code has: MD5 or MD4 (with the
busted padding up to \<open>CSUM_MD4_BUSTED\<close>) of the block and the seed, in the order the protocol
wants.
\<close>
theorem strong_checksum_of_block:
  assumes "cst = CSUM_MD5 \<or> is_md4 cst" and "length (md_buffer m) = CSUM_CHUNK" and "length buf < 2 ^ 32"
  shows "get_checksum2 pv cst proper seed m buf = Inr (strong_digest pv cst
    (let s = (if seed \<noteq> 0 then SIVAL (word_of_int seed) else [])
     in if cst = CSUM_MD5 \<and> proper then s @ buf else buf @ s))"
  using assms by (rule get_checksum2_digest)

theorem strong_checksum_of_block_witness:
  "get_checksum2 31 CSUM_MD5 True 7 example_ctx [1, 2] = Inr (strong_digest 31 CSUM_MD5
    (let s = (if 7 \<noteq> (0 :: int) then SIVAL (word_of_int 7) else [])
     in if CSUM_MD5 = CSUM_MD5 \<and> True then s @ [1, 2] else [1, 2] @ s))"
  by (rule strong_checksum_of_block) (simp_all add: CSUM_CHUNK_def)

text \<open>
C20: The checksum of a whole file, read through the window chunk by chunk, is the digest of its
content, however short the reads are.
\<close>
theorem file_checksum_of_content:
  assumes "os_ok w" and "cst = CSUM_MD5 \<or> is_md4 cst" and "length (md_buffer m) = CSUM_CHUNK"
  shows "file_checksum w pv cst m (Some f) = Inr (strong_digest pv cst f)"
  using assms by (rule file_checksum_digest)

theorem file_checksum_of_content_witness:
  "file_checksum short_os 31 CSUM_MD4 example_ctx (Some [1, 2]) = Inr (strong_digest 31 CSUM_MD4 [1, 2])"
  by (rule file_checksum_of_content [OF short_os_ok]) (simp_all add: CSUM_CHUNK_def is_md4_def)

text \<open>
C21: The accumulator behind \<open>sum_init\<close>, \<open>sum_update\<close> and \<open>sum_end\<close> never fails for a
known type, and its result depends on the data alone, not on the pieces in which it came: the
sender and the receiver, who cut the data differently, get the same checksum.
\<close>
theorem checksum_independent_of_pieces:
  assumes "csum_type_ok cst" and "length (md_buffer (sum_md a)) = CSUM_CHUNK"
    and "\<forall>d\<in>set ds. length d < 2 ^ 32"
  shows "\<exists>a1 a2. sum_init pv a cst seed = Inr a1 \<and> sum_pieces pv a1 ds = Inr a2
    \<and> sum_end pv a2 = Inr (sum_digest pv cst seed (concat ds))"
  using assms by (rule sum_stream_digest)

theorem checksum_independent_of_pieces_witness:
  "\<exists>a1 a2. sum_init 26 \<lparr>cursum_type = 0, sumresidue = 5, sum_md = example_ctx\<rparr> CSUM_MD4_BUSTED 7 = Inr a1
    \<and> sum_pieces 26 a1 [[1], [2, 3]] = Inr a2
    \<and> sum_end 26 a2 = Inr (sum_digest 26 CSUM_MD4_BUSTED 7 (concat [[1], [2, 3]]))"
  by (rule checksum_independent_of_pieces) (simp_all add: CSUM_CHUNK_def csum_type_ok_def is_md4_def)



section \<open>The wire\<close>

text \<open>
C23: A list of 32-bit numbers written with \<open>write_varint\<close> is read back by as many calls of
\<open>read_varint\<close>, and the bytes behind the last one are left.
\<close>
theorem varint_list_roundtrip:
  "read_many read_varint (length xs) (concat (map write_varint xs) @ rest) = Inr (xs, rest)"
  by (rule varint_codec.read_many_enc) (simp add: list_all_iff)

text \<open>
C24: A 64-bit number written with \<open>write_varlong\<close> is read back by \<open>read_varlong\<close> with the
same minimum length, and the bytes behind it are left.
\<close>
theorem varlong_roundtrip:
  assumes "3 \<le> m" and "m \<le> 8"
  shows "read_varlong m (write_varlong x m @ rest) = Inr (x, rest)"
  using assms by (rule read_varlong_write_varlong)

theorem varlong_roundtrip_witness: "read_varlong 3 (write_varlong 300 3 @ [7]) = Inr (300, [7])"
  by (rule varlong_roundtrip) simp_all

text \<open>
C25: A sequence of file indexes, positive and negative, written with the one-byte differences of
\<open>write_ndx\<close> is read back by \<open>read_ndx\<close> when both ends start in the same state, and both ends
are then in the same state again.
\<close>
theorem ndx_sequence_roundtrip:
  assumes "list_all ndx_ok ns" and "write_seq (write_ndx pv False) st ns = (b, st')"
  shows "read_seq (read_ndx pv) st (length ns) (b @ rest) = Inr ((ns, st'), rest)"
  using ndx_codec.seq [of st st ns pv b st' rest] assms by (auto simp: ndx_rel_def)

theorem ndx_sequence_roundtrip_witness:
  "read_seq (read_ndx 31) ndx_init (length [5, 70000, -1, -9 :: int]) (fst (write_seq (write_ndx 31 False) ndx_init [5, 70000, -1, -9]) @ [1])
    = Inr (([5, 70000, -1, -9], snd (write_seq (write_ndx 31 False) ndx_init [5, 70000, -1, -9])), [1])"
  by (rule ndx_sequence_roundtrip) (simp_all add: ndx_ok_def)

text \<open>
C26: A string that \<open>write_vstring\<close> takes is read back by \<open>read_vstring\<close> when the buffer is
longer than the string; otherwise the result is -1 and the bytes of the string stay in the
stream. A string longer than 0x7FFF is a protocol error of the writer, and no other is.
\<close>
theorem vstring_roundtrip:
  "case write_vstring str of
     Inl e \<Rightarrow> e = RERR_PROTOCOL \<and> length str > 0x7FFF
   | Inr b \<Rightarrow> length str \<le> 0x7FFF \<and> read_vstring bufsize (b @ rest)
       = (if length str < bufsize then Inr (Some str, rest) else Inr (None, str @ rest))"
proof (cases "write_vstring str")
  case (Inl e)
  then show ?thesis using write_vstring_error [of str e] by simp
next
  case (Inr b)
  then have "\<not> length str > 0x7FFF" using write_vstring_error [of str RERR_PROTOCOL] by auto
  then show ?thesis using Inr read_vstring_write_vstring [OF Inr] by simp
qed

text \<open>
C27: A valid checksum header is read back as it was written, in every protocol version.
\<close>
theorem sum_head_roundtrip:
  assumes "sum_head_ok pv cl s"
  shows "read_sum_head pv cl (write_sum_head pv (Some s) @ rest) = Inr (s, rest)"
  using assms by (rule read_sum_head_write_sum_head)

theorem sum_head_roundtrip_witness:
  "read_sum_head 26 2 (write_sum_head 26 (Some \<lparr>s_count = 3, s_blength = 700, s_s2length = 2, s_remainder = 9\<rparr>) @ [1])
    = Inr (\<lparr>s_count = 3, s_blength = 700, s_s2length = 2, s_remainder = 9\<rparr>, [1])"
  by (rule sum_head_roundtrip) (simp add: sum_head_ok_def max_blength_def OLD_MAX_BLOCK_SIZE_def MAX_DIGEST_LEN_def)

text \<open>
C28: A checksum header that \<open>read_sum_head\<close> lets through is valid, whatever the bytes are:
no negative count, the block length within the maximum, the checksum within its buffer, the
remainder within the block. Everything else ends the process.
\<close>
theorem read_sum_head_validates:
  assumes "read_sum_head pv cl bs = Inr (s, rest)"
  shows "sum_head_ok pv cl s"
  using assms by (rule read_sum_head_ok)

theorem read_sum_head_validates_witness:
  "case read_sum_head 31 2 (write_int 1 @ write_int 700 @ write_int 2 @ write_int 5) of
     Inr (s, rest) \<Rightarrow> sum_head_ok 31 2 s \<and> rest = [] | Inl e \<Rightarrow> False"
proof -
  have "read_sum_head 31 2 (write_int 1 @ write_int 700 @ write_int 2 @ write_int 5)
      = Inr (\<lparr>s_count = 1, s_blength = 700, s_s2length = 2, s_remainder = 5\<rparr>, [])" by code_simp
  with read_sum_head_validates [OF this] show ?thesis by simp
qed

section \<open>Names and patterns\<close>



text \<open>
C30: A sanitized path does not leave the directory it is meant for: behind the root that takes the
place of a leading slash it has at most \<open>depth\<close> times \<open>..\<close>, none when the path was absolute,
and no other \<open>..\<close> after them.
\<close>
theorem sanitize_path_inside:
  fixes module_dir :: string and relative_paths :: bool
  assumes "sanitize_path module_dir relative_paths dest p rootdir depth keep = Some out"
  shows "\<exists>s dd ns. components s = replicate dd ''..'' @ ns \<and> ''..'' \<notin> set ns
      \<and> dd \<le> (if dest \<noteq> In_place \<and> take 1 p = ''/'' then 0 else nat depth)
      \<and> (let root = (if dest \<noteq> In_place \<and> take 1 p = ''/'' then (case rootdir of None \<Rightarrow> module_dir | Some r \<Rightarrow> r) else []);
             res = (if length root > 1 then root @ ''/'' else root) @ s
         in out = (if res = [] then ''.'' else res))"
  using assms by (rule sanitize_path_result)

theorem sanitize_path_inside_witness:
  "\<exists>s dd ns. components s = replicate dd ''..'' @ ns \<and> ''..'' \<notin> set ns \<and> dd = 0 \<and> ''/mod/etc/passwd'' = ''/mod/'' @ s"
proof -
  have "sanitize_path ''/mod'' False Allocate ''/../etc/x/./..//passwd'' None 3 False = Some ''/mod/etc/passwd''" by code_simp
  from sanitize_path_inside [OF this] show ?thesis by (auto simp: Let_def)
qed

text \<open>
C31: \<open>wildmatch\<close> and \<open>iwildmatch\<close> decide the language of the pattern: the abort codes that cut the
search short never lose a match. In the language only \<open>**\<close> and a literal slash match a slash, and a
pattern with a broken bracket or a trailing backslash matches nothing.
\<close>
theorem wildmatch_reference:
  assumes "no_nul pattern"
  shows "(wildmatch pattern s \<longleftrightarrow> pattern_matches pattern s)
    \<and> (iwildmatch pattern s \<longleftrightarrow> pattern_matches pattern (map (lowered True) s))"
  using dowild_TRUE [OF assms, of _ s "[]"] by (simp add: wildmatch_def iwildmatch_def)

theorem wildmatch_reference_witness:
  "wildmatch ''a*[!x-z]/**.?'' ''abc/d/e.f'' \<and> \<not> wildmatch ''a*c'' ''ab/c'' \<and> iwildmatch ''[[:lower:]]b'' ''AB''"
proof -
  have "pattern_matches ''a*[!x-z]/**.?'' ''abc/d/e.f''" "\<not> pattern_matches ''a*c'' ''ab/c''"
    "pattern_matches ''[[:lower:]]b'' (map (lowered True) ''AB'')" by code_simp+
  then show ?thesis
    using wildmatch_reference [of "''a*[!x-z]/**.?''" "''abc/d/e.f''"] wildmatch_reference [of "''a*c''" "''ab/c''"]
      wildmatch_reference [of "''[[:lower:]]b''" "''AB''"] by simp
qed

text \<open>
C32: A pattern is tried on a text that is given in pieces as on the joined one: on the whole of it,
at its start and behind every slash (\<open>n < 0\<close>), or on its last \<open>n\<close> elements.
\<close>
theorem wildmatch_array_reference:
  assumes "no_nul pattern" and "texts \<noteq> []"
  shows "wildmatch_array pattern texts n \<longleftrightarrow> array_matches (pattern_matches pattern) (concat texts) n"
  using assms by (rule wildmatch_array_correct)

theorem wildmatch_array_reference_witness:
  "wildmatch_array ''b/?'' [''x/a'', ''/b/'', ''c''] (- 1) \<and> wildmatch_array ''b/?'' [''x/a'', ''/b/'', ''c''] 2
    \<and> array_matches (pattern_matches ''b/?'') ''x/a/b/c'' 2"
proof -
  have "wildmatch_array ''b/?'' [''x/a'', ''/b/'', ''c''] 2" "wildmatch_array ''b/?'' [''x/a'', ''/b/'', ''c''] (- 1)" by code_simp+
  then show ?thesis using wildmatch_array_reference [of "''b/?''" "[''x/a'', ''/b/'', ''c'']" 2] by simp
qed

section \<open>The file list\<close>



text \<open>
C34: \<open>fsort\<close> sorts: its result has the entries of the list, in order, and entries of one name
stay in the order they had.
\<close>
theorem fsort_sorts:
  assumes "\<forall>x\<in>set fs. regular pv heap x"
  shows "\<exists>fs'. fsort (f_name_cmp pv) fs = Some fs' \<and> mset fs' = mset fs \<and> sorted (map (file_key pv) fs')
    \<and> (\<forall>k. filter (\<lambda>x. file_key pv x = k) fs' = filter (\<lambda>x. file_key pv x = k) fs)"
  using names.fsort_stable [OF assms] by (simp add: names.stable_def)

theorem fsort_sorts_witness:
  "\<exists>fs'. fsort (f_name_cmp 31) [example_content, example_dir, example_file] = Some fs'
    \<and> mset fs' = {#example_content, example_dir, example_file#} \<and> sorted (map (file_key 31) fs')"
  using fsort_sorts [of "[example_content, example_dir, example_file]" 31 "\<lambda>a. ''a''"] example_files_ok
  by (auto simp: file_ok_def)

text \<open>
C35: \<open>flist_find\<close> finds an entry exactly if the list has one: in a list that may be searched it
stays within the array and its rounds, answers with the index of an active entry of the name and
kind asked for, or -1 if there is none, and changes nothing but the distances kept in removed
entries, so that the list may be searched again.
\<close>
theorem flist_find_finds:
  assumes "29 \<le> pv" and "searchable pv heap fl" and "regular pv heap f"
  shows "\<exists>i fl'. flist_find pv fl f = Some (i, fl') \<and> found_ok pv f (fl_sorted fl) (fl_low fl) (fl_high fl) i
    \<and> same_files (fl_sorted fl) (fl_sorted fl') \<and> searchable pv heap fl'
    \<and> fl_low fl' = fl_low fl \<and> fl_high fl' = fl_high fl"
  using flist_find_correct [OF assms] by blast

theorem flist_find_finds_witness:
  "\<exists>fl'. flist_find 31 example_list example_content = Some (3, fl') \<and> searchable 31 (\<lambda>a. ''a'') fl'"
proof -
  have "regular 31 (\<lambda>a. ''a'') example_content" using example_files_ok by (simp add: file_ok_def)
  from flist_find_finds [OF _ example_list_searchable this] obtain i fl' where
    "flist_find 31 example_list example_content = Some (i, fl')" "searchable 31 (\<lambda>a. ''a'') fl'" by auto
  moreover have "map_option fst (flist_find 31 example_list example_content) = Some 3" by code_simp
  ultimately show ?thesis by simp
qed

text \<open>
C36: After \<open>flist_sort_and_clean\<close> the receiver's list may be searched and has no name twice.
Every name it had is still there, as a directory if one of its entries was a directory, and every
entry that is left is one of the old ones but for its flags.
\<close>
theorem flist_cleaned:
  fixes inc_recurse :: bool
  assumes "29 \<le> pv" and "\<forall>x\<in>set (fl_sorted fl). file_ok pv heap x" and "length (fl_sorted fl) < 2 ^ 31"
    and "fl_sorted fl = [] \<or> (\<exists>x\<in>set (fl_sorted fl). f_is_active x)"
  shows "\<exists>fl'. flist_sort_and_clean pv False inc_recurse fl False = Some fl' \<and> clean_list pv heap (fl_sorted fl) fl'"
  using assms by (rule flist_sort_and_clean_correct)

theorem flist_cleaned_witness:
  "\<exists>fl'. flist_sort_and_clean 31 False True example_received False = Some fl'
    \<and> clean_list 31 (\<lambda>a. ''a'') (fl_sorted example_received) fl'
    \<and> map f_name (fl_sorted fl') = [None, Some ''a'', Some ''a/b'', None] \<and> (fl_low fl', fl_high fl') = (1, 2)"
proof -
  have "\<exists>fl'. flist_sort_and_clean 31 False True example_received False = Some fl'
      \<and> clean_list 31 (\<lambda>a. ''a'') (fl_sorted example_received) fl'"
    by (rule flist_cleaned) (use example_files_ok in \<open>auto simp: example_received_def f_is_active_def example_file_def empty_file_def\<close>)
  moreover have "map_option (\<lambda>fl. (map f_name (fl_sorted fl), fl_low fl, fl_high fl)) (flist_sort_and_clean 31 False True example_received False)
      = Some ([None, Some ''a'', Some ''a/b'', None], 1, 2)" by code_simp
  ultimately show ?thesis by auto
qed

section \<open>The transfer of the file list\<close>

text \<open>
C37: A file list reaches the receiver: from what \<open>send_file_list\<close> writes, \<open>recv_file_list\<close> makes
one entry for each one sent, with its name, type, length, times, device, link and checksum; every
owner and group becomes the receiver's id for its name on the sender, through the rules of
\<open>--usermap\<close> and \<open>--groupmap\<close>; and the list is cleaned as \<open>flist_cleaned\<close> says, with the bytes behind it
left over. This is for protocols from 30 on, one whole list, and entries without hard links.
\<close>
theorem file_list_transfer:
  assumes "plain_opts opt" and "\<not> relative_paths opt" and "numeric_ids (o_ids opt) = 0"
    and "\<forall>(f, tmp)\<in>set es. sent_entry opt f tmp \<and> dot_ok f" and "length es < 2 ^ 31"
    and "start_ids db (o_ids opt) um gm = Inr st" and "usermap (o_ids opt) \<longleftrightarrow> um \<noteq> None" and "groupmap (o_ids opt) \<longleftrightarrow> gm \<noteq> None"
    and "\<forall>i s. getpwuid sdb i = Some s \<or> getgrgid sdb i = Some s \<longrightarrow> short_name s"
  shows "\<exists>gs fl r. recv_file_list opt db want (recv_start st) ndx_start (send_file_list opt sdb es err @ rest)
        = Inr ((Some fl, end_error opt err, r), rest)
    \<and> list_all2 (\<lambda>(f, tmp) g. entry_received opt f tmp g) es gs
    \<and> clean_list (protocol_version opt) ((!) (rv_dirs r)) (map (local_file db (o_ids opt) sdb st) gs) fl"
  using assms by (rule file_list_received)

theorem file_list_transfer_witness:
  "\<exists>gs fl r. recv_file_list example_opts example_receiver [] (recv_start (projr (start_ids example_receiver example_ids (Some ''x:3,*:u'') None))) 0
        (send_file_list example_opts example_sender example_sent 0 @ [9]) = Inr ((Some fl, 0, r), [9])
    \<and> list_all2 (\<lambda>(f, tmp) g. entry_received example_opts f tmp g) example_sent gs
    \<and> clean_list 31 ((!) (rv_dirs r))
        (map (local_file example_receiver example_ids example_sender (projr (start_ids example_receiver example_ids (Some ''x:3,*:u'') None))) gs) fl"
proof -
  have o: "plain_opts example_opts" "o_ids example_opts = example_ids" "protocol_version example_opts = 31" "end_error example_opts 0 = 0"
    by (simp_all add: example_opts_def plain_opts_def end_error_def)
  have "start_ids example_receiver (o_ids example_opts) (Some ''x:3,*:u'') None
      = Inr (projr (start_ids example_receiver example_ids (Some ''x:3,*:u'') None))"
    unfolding o(2) example_ids_start by simp
  from file_list_transfer [OF o(1) _ _ example_sent_ok _ this, of example_sender "[]" 0 0 "[9]"] show ?thesis
    unfolding o by (simp add: example_opts_def example_ids_def example_sent_def example_sender_def short_name_def no_nul_def)
qed

section \<open>Changes of modes\<close>

text \<open>
C38: An argument of \<open>--chmod\<close> that \<open>parse_chmod\<close> accepts does what its clauses say: \<open>tweak_mode\<close>
changes each of the nine permission bits as the clauses between the commas do one after the other
(\<open>clause_bit\<close>: \<open>D\<close> and \<open>F\<close> choose the kind of file, without a class the umask counts, \<open>X\<close> gives an
execute bit only to directories and to files that had one), and the type of the file stays.
\<close>
theorem chmod_meaning:
  assumes "parse_chmod um s roots = Some (ms, roots')"
  shows "roots' = roots @ ms \<and> tweak_mode m ms AND NOT CHMOD_BITS = m AND NOT CHMOD_BITS
    \<and> (\<forall>p<9. bit (tweak_mode m ms) p = fold (clause_bit um (m AND 0x49 \<noteq> 0) (is_dir_mode m) p) (split_comma s) (bit m p))"
  using assms by (rule chmod_right)

theorem chmod_meaning_witness:
  "\<exists>ms. parse_chmod 0x12 ''Dg+x,u=rwX,o-w,F+x'' [] = Some (ms, ms)
    \<and> bit (tweak_mode 0x81A4 ms) 6 \<and> \<not> bit (tweak_mode 0x81A4 ms) 1 \<and> tweak_mode 0x81A4 ms AND NOT CHMOD_BITS = 0x8000"
proof -
  have "parse_chmod 0x12 ''Dg+x,u=rwX,o-w,F+x'' [] \<noteq> None" by code_simp
  then obtain ms roots' where ms: "parse_chmod 0x12 ''Dg+x,u=rwX,o-w,F+x'' [] = Some (ms, roots')" by auto
  have "fold (clause_bit 0x12 (0x81A4 AND 0x49 \<noteq> (0 :: uint32)) (is_dir_mode 0x81A4) 6) (split_comma ''Dg+x,u=rwX,o-w,F+x'') (bit (0x81A4 :: uint32) 6)"
    "\<not> fold (clause_bit 0x12 (0x81A4 AND 0x49 \<noteq> (0 :: uint32)) (is_dir_mode 0x81A4) 1) (split_comma ''Dg+x,u=rwX,o-w,F+x'') (bit (0x81A4 :: uint32) 1)"
    by code_simp+
  with chmod_meaning [OF ms, where m = "0x81A4"] show ?thesis using ms by (simp add: CHMOD_BITS_def)
qed

section \<open>Where the code and its intention part\<close>



text \<open>
The merge of a delta into the full backup names the new full backup by the old name up to
its first dot: the full backup of \<open>a.txt\<close> becomes one of \<open>a\<close>, in the same directory.
\<close>

theorem merged_full_backup_name:
  "updated_full_path (full_name ''.'' ''a.txt'' ''incremental'' ''1'') (delta_name ''.'' ''a.txt'' ''incremental'' ''2'')
    = Some (''./a.txt.backup/incremental/full/a.full.2'')"
  by code_simp

end
